(* ===== verification/Prelude.thy ===== *)
theory Prelude
  imports Main "HOL-Library.Word" "HOL-Library.Monad_Syntax"
begin

text \<open>
  Shared vocabulary of the development: names for the machine integers of the kernel and of the
  C library, the two helper functions that read the first and last element of a list with a
  default (the shape of a head or tail pointer), lemmas on list removal and on intervals of
  addresses, and the named collections that the component theories feed.
\<close>

unbundle bit_operations_syntax

section \<open>Machine integers\<close>

type_synonym u8 = "8 word"
type_synonym u16 = "16 word"
type_synonym u32 = "32 word"
type_synonym u64 = "64 word"

text \<open>A pointer is a 64-bit address; \<open>nullptr\<close> is address 0.\<close>

type_synonym ptr = u64

abbreviation nullptr :: ptr where
  "nullptr \<equiv> 0"

lemma unat_lt_64: "unat (x :: u64) < 2 ^ 64"
  using unsigned_less [of x] by simp

lemma unat_lt_64_num: "unat (x :: u64) < 18446744073709551616"
  using unat_lt_64 [of x] by simp

section \<open>Lists\<close>

definition hd0 :: "'a list \<Rightarrow> 'a \<Rightarrow> 'a" where
  "hd0 xs d = (case xs of [] \<Rightarrow> d | x # _ \<Rightarrow> x)"

definition last0 :: "'a list \<Rightarrow> 'a \<Rightarrow> 'a" where
  "last0 xs d = (if xs = [] then d else last xs)"

lemma hd0_simps [simp]: "hd0 [] d = d" "hd0 (x # xs) d = x"
  by (simp_all add: hd0_def)

lemma last0_simps [simp]: "last0 [] d = d" "last0 (xs @ [x]) d = x" "last0 (x # xs) d = last0 xs x"
  by (simp_all add: last0_def)

lemma hd0_append [simp]: "hd0 (xs @ ys) d = hd0 xs (hd0 ys d)"
  by (cases xs) simp_all

lemma last0_append [simp]: "last0 (xs @ ys) d = last0 ys (last0 xs d)"
  by (simp add: last0_def)

lemma hd0_in: "hd0 xs d = d \<or> hd0 xs d \<in> set xs"
  by (cases xs) simp_all

lemma last0_in: "last0 xs d = d \<or> last0 xs d \<in> set xs"
  by (simp add: last0_def)

lemma hd0_eq_default [simp]: "d \<notin> set xs \<Longrightarrow> hd0 xs d = d \<longleftrightarrow> xs = []"
  by (cases xs) auto

lemma last0_eq_default [simp]: "d \<notin> set xs \<Longrightarrow> last0 xs d = d \<longleftrightarrow> xs = []"
  by (cases xs rule: rev_cases) auto

lemma hd0_neq [simp]: "n \<notin> set xs \<Longrightarrow> d \<noteq> n \<Longrightarrow> hd0 xs d \<noteq> n"
  by (cases xs) auto

lemma last0_neq [simp]: "n \<notin> set xs \<Longrightarrow> d \<noteq> n \<Longrightarrow> last0 xs d \<noteq> n"
  by (cases xs rule: rev_cases) auto

lemma find_SomeD: "List.find P xs = Some y \<Longrightarrow> y \<in> set xs \<and> P y"
  by (auto simp: find_Some_iff)

lemma find_exists: "x \<in> set xs \<Longrightarrow> P x \<Longrightarrow> \<exists>y. List.find P xs = Some y \<and> y \<in> set xs"
  by (cases "List.find P xs") (auto simp: find_None_iff dest: find_SomeD)

lemma length_remove1_less: "x \<in> set xs \<Longrightarrow> length (remove1 x xs) < length xs"
  by (induction xs) auto

lemma remove1_split [simp]: "x \<notin> set xs \<Longrightarrow> remove1 x (xs @ x # ys) = xs @ ys"
  by (simp add: remove1_append)

end
