(* ===== verification/AnchorList.thy ===== *)
theory AnchorList
  imports Prelude
begin

text \<open>
  The kernel's intrusive doubly linked list, \<^verbatim>\<open>ktl::AnchorList\<close> of
  \<^verbatim>\<open>kernel/Kernel/klib/AnchorList.h\<close>. A list is its two end pointers and the anchors of the
  nodes; since the anchor is a member of the node, the model keeps one map per anchor field
  (\<open>anext\<close>, \<open>aprev\<close>) indexed by the node's address. An operation that would follow
  \<open>nullptr\<close> or that would not return is \<open>None\<close>.

  The section on representation relates such a heap to the HOL list of its nodes, and the locale
  \<open>node_list\<close> states what clients (scheduler queues, free lists, registries) may rely on.
\<close>

section \<open>The code\<close>

record alist =
  m_Head :: ptr
  m_Tail :: ptr
  anext :: "ptr \<Rightarrow> ptr"
  aprev :: "ptr \<Rightarrow> ptr"

definition AnchorList_init :: "alist" where
  "AnchorList_init = \<lparr>m_Head = nullptr, m_Tail = nullptr, anext = (\<lambda>_. 0), aprev = (\<lambda>_. 0)\<rparr>"

definition push_back :: "'a alist_scheme \<Rightarrow> ptr \<Rightarrow> 'a alist_scheme" where
  "push_back l t =
     (let l1 = l\<lparr>anext := (anext l)(t := nullptr)\<rparr>;
          l2 = l1\<lparr>aprev := (aprev l1)(t := m_Tail l1)\<rparr>
      in if m_Head l2 = nullptr then l2\<lparr>m_Head := t, m_Tail := t\<rparr>
         else l2\<lparr>anext := (anext l2)(m_Tail l2 := t), m_Tail := t\<rparr>)"

definition push_front :: "'a alist_scheme \<Rightarrow> ptr \<Rightarrow> 'a alist_scheme" where
  "push_front l t =
     (let l1 = l\<lparr>anext := (anext l)(t := m_Head l)\<rparr>;
          l2 = l1\<lparr>aprev := (aprev l1)(t := nullptr)\<rparr>
      in if m_Head l2 = nullptr then l2\<lparr>m_Head := t, m_Tail := t\<rparr>
         else l2\<lparr>aprev := (aprev l2)(m_Head l2 := t), m_Head := t\<rparr>)"

text \<open>\<^verbatim>\<open>erase(const Iterator&)\<close>: unlink the node the iterator stands on.\<close>

definition erase_at :: "'a alist_scheme \<Rightarrow> ptr \<Rightarrow> 'a alist_scheme" where
  "erase_at l n =
     (let l1 = (if aprev l n \<noteq> nullptr
                then l\<lparr>anext := (anext l)(aprev l n := anext l n)\<rparr>
                else l\<lparr>m_Head := anext l n\<rparr>)
      in if anext l1 n \<noteq> nullptr
         then l1\<lparr>aprev := (aprev l1)(anext l1 n := aprev l1 n)\<rparr>
         else l1\<lparr>m_Tail := aprev l1 n\<rparr>)"

text \<open>\<^verbatim>\<open>erase(const T*)\<close>: walk the list from its head and unlink the node if it is met.\<close>

partial_function (option) erase_from :: "'a alist_scheme \<Rightarrow> ptr \<Rightarrow> ptr \<Rightarrow> 'a alist_scheme option" where
  "erase_from l a t =
     (if a = nullptr then Some l
      else if a = t then Some (erase_at l a)
      else erase_from l (anext l a) t)"

definition erase :: "'a alist_scheme \<Rightarrow> ptr \<Rightarrow> 'a alist_scheme option" where
  "erase l t = erase_from l (m_Head l) t"

definition pop_back :: "'a alist_scheme \<Rightarrow> 'a alist_scheme option" where
  "pop_back l = (if m_Tail l = nullptr then None else Some (erase_at l (m_Tail l)))"

definition pop_front :: "'a alist_scheme \<Rightarrow> 'a alist_scheme option" where
  "pop_front l = (if m_Head l = nullptr then None else Some (erase_at l (m_Head l)))"

definition front :: "'a alist_scheme \<Rightarrow> ptr" where
  "front l = m_Head l"

definition back_elem :: "'a alist_scheme \<Rightarrow> ptr" where
  "back_elem l = m_Tail l"

definition alist_empty :: "'a alist_scheme \<Rightarrow> bool" where
  "alist_empty l \<longleftrightarrow> m_Head l = nullptr"

section \<open>Representation\<close>

text \<open>\<open>linked nx pv p xs q\<close>: the nodes \<open>xs\<close> are chained in this order, after \<open>p\<close> and before \<open>q\<close>.\<close>

primrec linked :: "(ptr \<Rightarrow> ptr) \<Rightarrow> (ptr \<Rightarrow> ptr) \<Rightarrow> ptr \<Rightarrow> ptr list \<Rightarrow> ptr \<Rightarrow> bool" where
  "linked nx pv p [] q \<longleftrightarrow> True"
| "linked nx pv p (x # xs) q \<longleftrightarrow> pv x = p \<and> nx x = hd0 xs q \<and> linked nx pv x xs q"

definition alist_rep :: "'a alist_scheme \<Rightarrow> ptr list \<Rightarrow> bool" where
  "alist_rep l xs \<longleftrightarrow> distinct xs \<and> nullptr \<notin> set xs \<and> m_Head l = hd0 xs nullptr \<and>
     m_Tail l = last0 xs nullptr \<and> linked (anext l) (aprev l) nullptr xs nullptr"

lemma linked_append [simp]:
  "linked nx pv p (xs @ ys) q \<longleftrightarrow>
     linked nx pv p xs (hd0 ys q) \<and> linked nx pv (last0 xs p) ys q"
  by (induction xs arbitrary: p) auto

lemma linked_upd_next [simp]: "t \<notin> set xs \<Longrightarrow> linked (nx(t := v)) pv p xs q = linked nx pv p xs q"
  by (induction xs arbitrary: p) auto

lemma linked_upd_prev [simp]: "t \<notin> set xs \<Longrightarrow> linked nx (pv(t := v)) p xs q = linked nx pv p xs q"
  by (induction xs arbitrary: p) auto

lemma linked_next:
  "linked nx pv p xs q \<Longrightarrow> x \<in> set xs \<Longrightarrow> nx x = q \<or> nx x \<in> set xs"
  by (induction xs arbitrary: p) (use hd0_in in \<open>fastforce+\<close>)

lemma alist_rep_init: "alist_rep AnchorList_init []"
  by (simp add: alist_rep_def AnchorList_init_def)

lemma push_back_rep:
  assumes rep: "alist_rep l xs" and t: "t \<noteq> nullptr" "t \<notin> set xs"
  shows "alist_rep (push_back l t) (xs @ [t])"
proof (cases xs rule: rev_cases)
  case Nil
  with rep t show ?thesis by (simp add: alist_rep_def push_back_def)
next
  case (snoc ys y)
  with rep t show ?thesis by (auto simp: alist_rep_def push_back_def Let_def)
qed

lemma push_front_rep:
  assumes rep: "alist_rep l xs" and t: "t \<noteq> nullptr" "t \<notin> set xs"
  shows "alist_rep (push_front l t) (t # xs)"
  using assms by (cases xs) (auto simp: alist_rep_def push_front_def Let_def last0_def)

lemma erase_at_rep:
  assumes rep: "alist_rep l (xs @ t # ys)"
  shows "alist_rep (erase_at l t) (xs @ ys)"
proof -
  have t: "t \<noteq> nullptr" "t \<notin> set xs" "t \<notin> set ys" using rep by (auto simp: alist_rep_def)
  show ?thesis
  proof (cases xs rule: rev_cases)
    case Nil
    then show ?thesis using rep t by (cases ys) (auto simp: alist_rep_def erase_at_def Let_def)
  next
    case (snoc zs z)
    then show ?thesis using rep t by (cases ys) (auto simp: alist_rep_def erase_at_def Let_def)
  qed
qed

lemma erase_from_steps:
  "erase_from l nullptr t = Some l"
  "t \<noteq> nullptr \<Longrightarrow> erase_from l t t = Some (erase_at l t)"
  "a \<noteq> nullptr \<Longrightarrow> a \<noteq> t \<Longrightarrow> erase_from l a t = erase_from l (anext l a) t"
  by (subst erase_from.simps, simp)+

lemma erase_from_split:
  "linked (anext l) (aprev l) p (xs @ t # ys) nullptr \<Longrightarrow> nullptr \<notin> set xs \<Longrightarrow>
     t \<notin> set xs \<Longrightarrow> t \<noteq> nullptr \<Longrightarrow> erase_from l (hd0 xs t) t = Some (erase_at l t)"
  by (induction xs arbitrary: p) (auto simp: erase_from_steps)

lemma erase_from_absent:
  "linked (anext l) (aprev l) p xs nullptr \<Longrightarrow> nullptr \<notin> set xs \<Longrightarrow>
     t \<notin> set xs \<Longrightarrow> erase_from l (hd0 xs nullptr) t = Some l"
  by (induction xs arbitrary: p) (auto simp: erase_from_steps)

lemma erase_rep:
  assumes rep: "alist_rep l xs" and t: "t \<in> set xs"
  shows "\<exists>l'. erase l t = Some l' \<and> l' = erase_at l t \<and> alist_rep l' (remove1 t xs)"
proof -
  obtain as bs where xs: "xs = as @ t # bs" and "t \<notin> set as"
    using t by (metis split_list_first)
  then have "erase l t = Some (erase_at l t)"
    using rep erase_from_split [of l nullptr as t bs] by (auto simp: erase_def alist_rep_def)
  moreover have "alist_rep (erase_at l t) (as @ bs)"
    using rep xs by (simp add: erase_at_rep)
  ultimately show ?thesis using xs \<open>t \<notin> set as\<close> by simp
qed

lemma erase_absent: "alist_rep l xs \<Longrightarrow> t \<notin> set xs \<Longrightarrow> erase l t = Some l"
  using erase_from_absent [of l nullptr xs t] by (simp add: erase_def alist_rep_def)

lemma pop_front_rep: "alist_rep l (x # xs) \<Longrightarrow> pop_front l = Some (erase_at l x) \<and> alist_rep (erase_at l x) xs"
  using erase_at_rep [of l "[]" x xs] by (auto simp: pop_front_def alist_rep_def)

lemma pop_back_rep: "alist_rep l (xs @ [x]) \<Longrightarrow> pop_back l = Some (erase_at l x) \<and> alist_rep (erase_at l x) xs"
  using erase_at_rep [of l xs x "[]"] by (auto simp: pop_back_def alist_rep_def)

lemma alist_rep_unique: "alist_rep l xs \<Longrightarrow> alist_rep l ys \<Longrightarrow> xs = ys"
proof -
  have "linked nx pv p xs 0 \<Longrightarrow> linked nx pv p ys 0 \<Longrightarrow> hd0 xs 0 = hd0 ys 0 \<Longrightarrow> 0 \<notin> set xs \<Longrightarrow>
     0 \<notin> set ys \<Longrightarrow> xs = ys" for nx pv p
  proof (induction xs arbitrary: ys p)
    case Nil
    then show ?case by (cases ys) auto
  next
    case (Cons x xs)
    then show ?case by (cases ys) auto
  qed
  then show "alist_rep l xs \<Longrightarrow> alist_rep l ys \<Longrightarrow> xs = ys" by (auto simp: alist_rep_def)
qed

section \<open>The interface\<close>

text \<open>
  What a client may rely on: a relation between a state and the list of its nodes, kept by
  appending and by removing. The client facts are the two moves the kernel makes with such lists:
  sending a node to the back (the scheduler's round robin) and passing the oldest waiter on.
\<close>

locale node_list =
  fixes rep :: "'s \<Rightarrow> 'n list \<Rightarrow> bool"
    and ok :: "'n \<Rightarrow> bool"
    and append :: "'s \<Rightarrow> 'n \<Rightarrow> 's"
    and remove :: "'s \<Rightarrow> 'n \<Rightarrow> 's option"
    and take_first :: "'s \<Rightarrow> 's option"
    and first :: "'s \<Rightarrow> 'n"
    and isempty :: "'s \<Rightarrow> bool"
  assumes rep_ok: "rep s xs \<Longrightarrow> x \<in> set xs \<Longrightarrow> ok x"
    and rep_distinct: "rep s xs \<Longrightarrow> distinct xs"
    and append_rep: "rep s xs \<Longrightarrow> ok x \<Longrightarrow> x \<notin> set xs \<Longrightarrow> rep (append s x) (xs @ [x])"
    and remove_rep: "rep s xs \<Longrightarrow> x \<in> set xs \<Longrightarrow> \<exists>s'. remove s x = Some s' \<and> rep s' (remove1 x xs)"
    and take_first_rep: "rep s (x # xs) \<Longrightarrow> \<exists>s'. take_first s = Some s' \<and> rep s' xs"
    and first_rep: "rep s (x # xs) \<Longrightarrow> first s = x"
    and isempty_rep: "rep s xs \<Longrightarrow> isempty s \<longleftrightarrow> xs = []"
begin

lemma rotate_rep:
  assumes "rep s (xs @ x # ys)"
  shows "\<exists>s'. remove s x = Some s' \<and> rep (append s' x) (xs @ ys @ [x])"
proof -
  have x: "x \<notin> set xs" "x \<notin> set ys" using rep_distinct [OF assms] by auto
  obtain s' where "remove s x = Some s'" and "rep s' (remove1 x (xs @ x # ys))"
    using remove_rep [OF assms] by auto
  moreover from this x have "rep (append s' x) ((xs @ ys) @ [x])"
    by (intro append_rep) (auto intro: rep_ok [OF assms])
  ultimately show ?thesis by simp
qed

lemma fifo_rep:
  assumes "rep s (x # xs)" "ok y" "y \<notin> set (x # xs)"
  shows "\<exists>s'. first (append s y) = x \<and> take_first (append s y) = Some s' \<and> rep s' (xs @ [y])"
proof -
  have "rep (append s y) (x # (xs @ [y]))" using append_rep [OF assms] by simp
  then show ?thesis using first_rep take_first_rep by blast
qed

end

interpretation al: node_list alist_rep "\<lambda>x. x \<noteq> nullptr" push_back erase pop_front front alist_empty
proof (unfold_locales, goal_cases)
  case (4 s xs x)
  then show ?case using erase_rep by blast
next
  case (5 s x xs)
  then show ?case using pop_front_rep by blast
next
  case (3 s xs x)
  then show ?case by (simp add: push_back_rep)
qed (auto simp: alist_rep_def front_def alist_empty_def)

section \<open>Properties\<close>

text \<open>
  C32: \<^verbatim>\<open>erase(const T*)\<close> always returns on a well-formed list and unlinks exactly the given node,
  keeping the order of the others; on a node that is not in the list it does nothing.
\<close>

theorem erase_refines_remove:
  assumes "alist_rep l xs"
  shows "\<exists>l'. erase l t = Some l' \<and> alist_rep l' (remove1 t xs) \<and> (t \<notin> set xs \<longrightarrow> l' = l)"
  using assms erase_rep [of l xs t] erase_absent [of l xs t]
  by (cases "t \<in> set xs") (auto simp: remove1_idem)

lemma two_nodes_rep: "alist_rep (push_back (push_back AnchorList_init 16) 32) [16, 32]"
  using push_back_rep [OF push_back_rep [OF alist_rep_init, of 16], of 32] by simp

theorem erase_refines_remove_witness:
  "\<exists>l'. erase (push_back (push_back AnchorList_init 16) 32) 16 = Some l' \<and> alist_rep l' [32]"
  using erase_refines_remove [OF two_nodes_rep, of 16] by simp

text \<open>
  Taking a node out of the list and appending it again, the step by which the scheduler gives
  every thread its turn, moves it behind all others and keeps the list well formed.
\<close>

theorem erase_push_back_rotates:
  assumes "alist_rep l (xs @ x # ys)"
  shows "\<exists>l'. erase l x = Some l' \<and> alist_rep (push_back l' x) (xs @ ys @ [x])"
  using assms by (rule al.rotate_rep)

theorem erase_push_back_rotates_witness:
  "\<exists>l'. erase (push_back (push_back AnchorList_init 16) 32) 16 = Some l' \<and>
     alist_rep (push_back l' 16) [32, 16]"
  using erase_push_back_rotates [of "push_back (push_back AnchorList_init 16) 32" "[]" 16 "[32]"]
    two_nodes_rep by simp

end
