(* ===== verification/SegmentStore.thy ===== *)
theory SegmentStore
  imports Prelude
begin

text \<open>
  Segments of memory and the interface of a store of free segments. A segment is a base address
  and a size, both 64-bit words. The locale \<open>free_store\<close> states what the allocators of the
  kernel and of the C library rely on; it is interpreted by the two free lists of the repository
  (\<^verbatim>\<open>kernel/Kernel/klib/FreeList.h\<close> and \<^verbatim>\<open>libs/libc/internal/FreeList.h\<close>).
\<close>

section \<open>Free segments and the bytes they cover\<close>

definition seg :: "ptr \<Rightarrow> u64 \<Rightarrow> nat set" where
  "seg p n = {unat p ..< unat p + unat n}"

text \<open>The segment does not run past the end of the 64-bit address space.\<close>

definition seg_ok :: "ptr \<Rightarrow> u64 \<Rightarrow> bool" where
  "seg_ok p n \<longleftrightarrow> p \<noteq> nullptr \<and> n \<noteq> 0 \<and> unat p + unat n \<le> 2 ^ 64"

definition seg_disj :: "ptr list \<Rightarrow> (ptr \<Rightarrow> u64) \<Rightarrow> bool" where
  "seg_disj xs sz \<longleftrightarrow> (\<forall>x\<in>set xs. \<forall>y\<in>set xs. x \<noteq> y \<longrightarrow> seg x (sz x) \<inter> seg y (sz y) = {})"

definition covers :: "ptr list \<Rightarrow> (ptr \<Rightarrow> u64) \<Rightarrow> nat set" where
  "covers xs sz = (\<Union>x\<in>set xs. seg x (sz x))"

text \<open>No two segments of the list touch: the state in which freeing leaves a list of this kind.\<close>

definition coalesced :: "ptr list \<Rightarrow> (ptr \<Rightarrow> u64) \<Rightarrow> bool" where
  "coalesced xs sz \<longleftrightarrow> (\<forall>x\<in>set xs. \<forall>y\<in>set xs. x + sz x \<noteq> y)"

lemma unat_in_seg: "seg_ok p n \<Longrightarrow> unat p \<in> seg p n"
  by (auto simp: seg_ok_def seg_def unat_gt_0 word_neq_0_conv)

lemma seg_end_nat: "seg_ok p n \<Longrightarrow> q \<noteq> nullptr \<Longrightarrow> q = p + n \<longleftrightarrow> unat q = unat p + unat n"
proof -
  assume ok: "seg_ok p n" and q: "q \<noteq> nullptr"
  have "unat (p + n) = (unat p + unat n) mod 2 ^ 64" by (simp add: unat_word_ariths)
  moreover have "unat p + unat n \<noteq> 2 ^ 64 \<Longrightarrow> (unat p + unat n) mod 2 ^ 64 = unat p + unat n"
    using ok by (simp add: seg_ok_def)
  moreover have "unat q \<noteq> 0" "unat q < 2 ^ 64" using q unat_lt_64 [of q] by (simp_all add: unat_eq_0)
  ultimately show ?thesis by (metis mod_self nat_less_le word_unat_eq_iff)
qed

text \<open>Two touching segments make one.\<close>

lemma seg_join:
  assumes "seg_ok p n" "seg_ok q m" "q = p + n"
  shows "seg_ok p (n + m)" "seg p (n + m) = seg p n \<union> seg q m" "unat (n + m) = unat n + unat m"
proof -
  have q: "unat q = unat p + unat n" using assms seg_end_nat [of p n q] by (simp add: seg_ok_def)
  have "unat p \<noteq> 0" using assms by (simp add: seg_ok_def unat_eq_0)
  with q assms(2) have "unat n + unat m < 2 ^ 64" by (auto simp: seg_ok_def)
  then show nm: "unat (n + m) = unat n + unat m" by (simp add: unat_word_ariths)
  then show "seg_ok p (n + m)" "seg p (n + m) = seg p n \<union> seg q m"
    using assms q by (auto simp: seg_ok_def seg_def unat_eq_0 [symmetric])
qed

text \<open>Taking the first \<open>sz\<close> bytes of a segment leaves the rest as a segment of its own.\<close>

lemma seg_split:
  assumes "seg_ok b n" "sz < n" "sz \<noteq> 0"
  shows "seg_ok (b + sz) (n - sz)" "seg b n = seg b sz \<union> seg (b + sz) (n - sz)"
    "seg b sz \<inter> seg (b + sz) (n - sz) = {}" "b + sz + (n - sz) = b + n"
proof -
  have u: "unat (n - sz) = unat n - unat sz" "unat sz < unat n"
    using assms(2) by (simp_all add: unat_sub word_less_nat_alt less_imp_le)
  have v: "unat (b + sz) = unat b + unat sz" "unat b \<noteq> 0"
    using assms u by (auto simp: seg_ok_def unat_word_ariths unat_eq_0)
  show "seg_ok (b + sz) (n - sz)"
    using assms u v by (auto simp: seg_ok_def unat_eq_0 [symmetric])
  show "seg b n = seg b sz \<union> seg (b + sz) (n - sz)" "seg b sz \<inter> seg (b + sz) (n - sz) = {}"
    using u v by (auto simp: seg_def)
qed simp

text \<open>
  A range of bytes that lies in coalesced, disjoint segments lies in one of them: this is why a
  first-fit search over a coalesced list misses no free range.
\<close>

lemma range_in_one_segment:
  assumes ok: "\<forall>x\<in>set xs. seg_ok x (sz x)" and dj: "seg_disj xs sz" and co: "coalesced xs sz"
    and r: "seg_ok p n" "seg p n \<subseteq> covers xs sz"
  shows "\<exists>x\<in>set xs. seg p n \<subseteq> seg x (sz x)"
proof -
  obtain x where x: "x \<in> set xs" "unat p \<in> seg x (sz x)"
    using r unat_in_seg [OF r(1)] by (auto simp: covers_def)
  have "unat p + unat n \<le> unat x + unat (sz x)"
  proof (rule ccontr)
    assume "\<not> ?thesis"
    then have e: "unat x + unat (sz x) \<in> seg p n" using x by (auto simp: seg_def)
    then obtain y where y: "y \<in> set xs" "unat x + unat (sz x) \<in> seg y (sz y)"
      using r(2) by (auto simp: covers_def)
    have xok: "seg_ok x (sz x)" and "y \<noteq> nullptr" using ok x y by (auto simp: seg_ok_def)
    then have "x + sz x \<noteq> y" "unat y \<noteq> unat x + unat (sz x)"
      using co x y seg_end_nat [OF xok] by (auto simp: coalesced_def)
    then have "unat y < unat x + unat (sz x)" using y(2) by (auto simp: seg_def)
    then have "unat x + unat (sz x) - 1 \<in> seg y (sz y)" "unat x + unat (sz x) - 1 \<in> seg x (sz x)"
      using y(2) x(2) by (auto simp: seg_def)
    moreover have "x \<noteq> y" using y(2) by (auto simp: seg_def)
    ultimately show False using dj x(1) y(1) by (auto simp: seg_disj_def)
  qed
  with x show ?thesis by (auto simp: seg_def)
qed

section \<open>The interface of a store of free segments\<close>

locale free_store =
  fixes inv :: "'s \<Rightarrow> bool"
    and avail :: "'s \<Rightarrow> nat set"
    and find :: "'s \<Rightarrow> u64 \<Rightarrow> ptr option"
    and mark_free :: "'s \<Rightarrow> ptr \<Rightarrow> u64 \<Rightarrow> 's option"
    and mark_used :: "'s \<Rightarrow> ptr \<Rightarrow> u64 \<Rightarrow> 's option"
  assumes find_returns: "inv s \<Longrightarrow> \<exists>p. find s n = Some p"
    and find_fits: "inv s \<Longrightarrow> n \<noteq> 0 \<Longrightarrow> find s n = Some p \<Longrightarrow> p \<noteq> nullptr \<Longrightarrow>
      seg_ok p n \<and> seg p n \<subseteq> avail s"
    and find_complete: "inv s \<Longrightarrow> find s n = Some nullptr \<Longrightarrow> seg_ok p n \<Longrightarrow> \<not> seg p n \<subseteq> avail s"
    and free_law: "inv s \<Longrightarrow> seg_ok p n \<Longrightarrow> seg p n \<inter> avail s = {} \<Longrightarrow>
      \<exists>s'. mark_free s p n = Some s' \<and> inv s' \<and> avail s' = avail s \<union> seg p n"
    and used_law: "inv s \<Longrightarrow> n \<noteq> 0 \<Longrightarrow> find s n = Some p \<Longrightarrow> p \<noteq> nullptr \<Longrightarrow>
      \<exists>s'. mark_used s p n = Some s' \<and> inv s' \<and> avail s' = avail s - seg p n"
begin

lemma find_iff:
  assumes "inv s" "n \<noteq> 0"
  shows "(\<exists>p. find s n = Some p \<and> p \<noteq> nullptr) \<longleftrightarrow> (\<exists>q. seg_ok q n \<and> seg q n \<subseteq> avail s)"
proof -
  obtain p where p: "find s n = Some p" using find_returns [OF assms(1)] by blast
  show ?thesis
  proof (cases "p = nullptr")
    case True
    then show ?thesis using p find_complete [OF assms(1)] by auto
  next
    case False
    then show ?thesis using p find_fits [OF assms p] by auto
  qed
qed

lemma take_then_give:
  assumes "inv s" "n \<noteq> 0" "find s n = Some p" "p \<noteq> nullptr"
  shows "\<exists>s' s''. mark_used s p n = Some s' \<and> mark_free s' p n = Some s'' \<and> inv s'' \<and> avail s'' = avail s"
proof -
  note fits = find_fits [OF assms]
  obtain s' where s': "mark_used s p n = Some s'" "inv s'" "avail s' = avail s - seg p n"
    using used_law [OF assms] by blast
  then obtain s'' where "mark_free s' p n = Some s''" "inv s''" "avail s'' = avail s' \<union> seg p n"
    using free_law [of s' p n] fits by auto
  then show ?thesis using s' fits by auto
qed

lemma two_takes_disjoint:
  assumes "inv s" "n \<noteq> 0" "find s n = Some p" "p \<noteq> nullptr" "mark_used s p n = Some s'"
    and "m \<noteq> 0" "find s' m = Some q" "q \<noteq> nullptr"
  shows "seg p n \<inter> seg q m = {}"
proof -
  have "inv s'" "avail s' = avail s - seg p n" using used_law [OF assms(1-4)] assms(5) by auto
  then show ?thesis using find_fits [of s' m q] assms by auto
qed

end

end
