(* ===== verification/FreeList.thy ===== *)
theory FreeList
  imports AnchorList SegmentStore
begin

text \<open>
  The kernel's list of free memory segments, \<^verbatim>\<open>ktl::FreeList\<close> of
  \<^verbatim>\<open>kernel/Kernel/klib/FreeList.h\<close>: an \<^verbatim>\<open>AnchorList\<close> whose nodes lie in the free
  memory itself, each with the base and the size of its segment. Addresses and sizes are 64-bit
  words, so the sums the code forms wrap around.

  The representation invariant \<open>fl_rep\<close> says that each node describes the segment it lies at,
  that segments are not empty, do not run past the end of the address space and do not overlap.
  Under it the operations are proved to return and to change the set of free bytes as intended.
\<close>

section \<open>The code\<close>

record freelist = alist +
  fbase :: "ptr \<Rightarrow> u64"
  fsize :: "ptr \<Rightarrow> u64"

definition FreeList_new :: freelist where
  "FreeList_new = alist.extend AnchorList_init (freelist.fields (\<lambda>_. 0) (\<lambda>_. 0))"

text \<open>\<open>Init\<close> walks the boot loader's map of physical memory, one \<open>(address, numPages)\<close> per segment.\<close>

fun Init :: "freelist \<Rightarrow> (ptr \<times> u64) list \<Rightarrow> freelist" where
  "Init l [] = l"
| "Init l ((p, numPages) # segs) =
     (let size = numPages * 4096;
          l1 = l\<lparr>fbase := (fbase l)(p := p), fsize := (fsize l)(p := size)\<rparr>
      in Init (push_back l1 p) segs)"

partial_function (option) FindFree_from :: "freelist \<Rightarrow> ptr \<Rightarrow> u64 \<Rightarrow> ptr option" where
  "FindFree_from l sg sz =
     (if sg = nullptr then Some nullptr
      else if sz \<le> fsize l sg then Some sg
      else FindFree_from l (anext l sg) sz)"

definition FindFree :: "freelist \<Rightarrow> u64 \<Rightarrow> ptr option" where
  "FindFree l sz = FindFree_from l (m_Head l) sz"

text \<open>
  \<open>JoinAdjacent\<close>: the loop over the list (\<open>tmp\<close> is the iterator) together with the recursive
  calls that restart it, for \<open>cmp\<close> or for the segment that absorbed \<open>cmp\<close>.
\<close>

partial_function (option) JoinAdjacent_from ::
    "freelist \<Rightarrow> ptr \<Rightarrow> u64 \<Rightarrow> u64 \<Rightarrow> ptr \<Rightarrow> freelist option" where
  "JoinAdjacent_from l cmp start fin tmp =
     (if tmp = nullptr then Some l
      else if fbase l tmp = fin then
        do {
          let l1 = l\<lparr>fsize := (fsize l)(cmp := fsize l cmp + fsize l tmp)\<rparr>;
          l2 \<leftarrow> erase l1 tmp;
          JoinAdjacent_from l2 cmp (fbase l2 cmp) (fbase l2 cmp + fsize l2 cmp) (m_Head l2)
        }
      else if fbase l tmp + fsize l tmp = start then
        do {
          let l1 = l\<lparr>fsize := (fsize l)(tmp := fsize l tmp + fsize l cmp)\<rparr>;
          l2 \<leftarrow> erase l1 cmp;
          JoinAdjacent_from l2 tmp (fbase l2 tmp) (fbase l2 tmp + fsize l2 tmp) (m_Head l2)
        }
      else JoinAdjacent_from l cmp start fin (anext l tmp))"

definition JoinAdjacent :: "freelist \<Rightarrow> ptr \<Rightarrow> freelist option" where
  "JoinAdjacent l cmp = JoinAdjacent_from l cmp (fbase l cmp) (fbase l cmp + fsize l cmp) (m_Head l)"

definition MarkFree :: "freelist \<Rightarrow> ptr \<Rightarrow> u64 \<Rightarrow> freelist option" where
  "MarkFree l base sz =
     (let l1 = l\<lparr>fbase := (fbase l)(base := base), fsize := (fsize l)(base := sz)\<rparr>
      in JoinAdjacent (push_back l1 base) base)"

definition MarkUsed :: "freelist \<Rightarrow> ptr \<Rightarrow> u64 \<Rightarrow> freelist option" where
  "MarkUsed l base sz =
     do {
       l1 \<leftarrow> erase l base;
       if sz < fsize l1 base then
         let newNode = base + sz;
             l2 = l1\<lparr>fbase := (fbase l1)(newNode := fbase l1 base + sz)\<rparr>;
             l3 = l2\<lparr>fsize := (fsize l2)(newNode := fsize l2 base - sz)\<rparr>
         in JoinAdjacent (push_back l3 newNode) newNode
       else Some l1
     }"

section \<open>Representation\<close>

definition fl_rep :: "freelist \<Rightarrow> ptr list \<Rightarrow> bool" where
  "fl_rep l xs \<longleftrightarrow> alist_rep l xs \<and> (\<forall>x\<in>set xs. fbase l x = x \<and> seg_ok x (fsize l x)) \<and>
     seg_disj xs (fsize l)"

lemma alist_rep_frame [simp]:
  "alist_rep (l\<lparr>fsize := f\<rparr>) xs = alist_rep (l :: freelist) xs"
  "alist_rep (l\<lparr>fbase := g\<rparr>) xs = alist_rep (l :: freelist) xs"
  by (simp_all add: alist_rep_def)

lemma erase_at_frame [simp]:
  "fsize (erase_at l n) = fsize l" "fbase (erase_at l n) = fbase l"
  by (simp_all add: erase_at_def Let_def)

lemma push_back_frame [simp]:
  "fsize (push_back l n) = fsize l" "fbase (push_back l n) = fbase l"
  by (simp_all add: push_back_def Let_def)

text \<open>One merge: \<open>p\<close> takes over the segment \<open>q\<close> that starts where it ends.\<close>

lemma absorb:
  assumes rep: "fl_rep l xs" and p: "p \<in> set xs" and q: "q \<in> set xs" and adj: "q = p + fsize l p"
  defines "l1 \<equiv> l\<lparr>fsize := (fsize l)(p := fsize l p + fsize l q)\<rparr>"
  shows "\<exists>l2. erase l1 q = Some l2 \<and> fl_rep l2 (remove1 q xs) \<and> fsize l2 = fsize l1 \<and>
     fbase l2 = fbase l \<and> p \<noteq> q \<and>
     covers (remove1 q xs) (fsize l2) = covers xs (fsize l)"
proof -
  have al: "alist_rep l xs" and d: "distinct xs" and dj: "seg_disj xs (fsize l)"
    and ok: "\<And>x. x \<in> set xs \<Longrightarrow> fbase l x = x \<and> seg_ok x (fsize l x)"
    using rep by (auto simp: fl_rep_def alist_rep_def)
  have pq: "p \<noteq> q" using adj ok [OF p] by (auto simp: seg_ok_def)
  note j = seg_join [OF ok [OF p, THEN conjunct2] ok [OF q, THEN conjunct2] adj]
  obtain l2 where l2: "erase l1 q = Some l2" "l2 = erase_at l1 q" "alist_rep l2 (remove1 q xs)"
    using erase_rep [of l1 xs q] al q by (auto simp: l1_def)
  have set: "set (remove1 q xs) = set xs - {q}" using d by simp
  have sz: "fsize l2 = fsize l1" "fbase l2 = fbase l" using l2 by (simp_all add: l1_def)
  have "seg_disj (remove1 q xs) (fsize l2)"
    using dj p q unfolding seg_disj_def set sz l1_def by (auto simp: j(2))
  moreover have "fbase l2 x = x \<and> seg_ok x (fsize l2 x)" if "x \<in> set xs - {q}" for x
    using that ok j(1) by (auto simp: sz l1_def)
  moreover have "covers (remove1 q xs) (fsize l2) = covers xs (fsize l)"
  proof -
    obtain R where R: "set xs = insert p (insert q R)" "p \<notin> R" "q \<notin> R"
      using p q by (metis insert_Diff insert_iff Diff_iff singletonD singletonI pq mk_disjoint_insert)
    then have "set (remove1 q xs) = insert p R" using set pq by auto
    then show ?thesis
      unfolding covers_def R(1) sz l1_def using R j(2) by (auto split: if_splits)
  qed
  ultimately show ?thesis using l2 sz pq set by (auto simp: fl_rep_def)
qed

text \<open>The list is coalesced but for the segment \<open>c\<close>, the one \<open>JoinAdjacent\<close> works on.\<close>

definition coalesced_but :: "ptr \<Rightarrow> ptr list \<Rightarrow> (ptr \<Rightarrow> u64) \<Rightarrow> bool" where
  "coalesced_but c xs sz \<longleftrightarrow>
     (\<forall>x\<in>set xs. \<forall>y\<in>set xs. x \<noteq> c \<longrightarrow> y \<noteq> c \<longrightarrow> x + sz x \<noteq> y)"

lemma coalesced_but_absorb:
  "coalesced_but c xs sz \<Longrightarrow> c = p \<or> c = q \<Longrightarrow> p \<noteq> q \<Longrightarrow> distinct xs \<Longrightarrow>
     coalesced_but p (remove1 q xs) (sz(p := v))"
  by (auto simp: coalesced_but_def)

lemma JoinAdjacent_from_steps:
  "JoinAdjacent_from l cmp start fin nullptr = Some l"
  "tmp \<noteq> nullptr \<Longrightarrow> fbase l tmp \<noteq> fin \<Longrightarrow> fbase l tmp + fsize l tmp \<noteq> start \<Longrightarrow>
     JoinAdjacent_from l cmp start fin tmp = JoinAdjacent_from l cmp start fin (anext l tmp)"
  by (subst JoinAdjacent_from.simps, simp)+

lemma JoinAdjacent_from_merge:
  "tmp \<noteq> nullptr \<Longrightarrow> fbase l tmp = fin \<Longrightarrow>
     erase (l\<lparr>fsize := (fsize l)(cmp := fsize l cmp + fsize l tmp)\<rparr>) tmp = Some l2 \<Longrightarrow>
     JoinAdjacent_from l cmp start fin tmp =
       JoinAdjacent_from l2 cmp (fbase l2 cmp) (fbase l2 cmp + fsize l2 cmp) (m_Head l2)"
  "tmp \<noteq> nullptr \<Longrightarrow> fbase l tmp \<noteq> fin \<Longrightarrow> fbase l tmp + fsize l tmp = start \<Longrightarrow>
     erase (l\<lparr>fsize := (fsize l)(tmp := fsize l tmp + fsize l cmp)\<rparr>) cmp = Some l2 \<Longrightarrow>
     JoinAdjacent_from l cmp start fin tmp =
       JoinAdjacent_from l2 tmp (fbase l2 tmp) (fbase l2 tmp + fsize l2 tmp) (m_Head l2)"
  by (subst JoinAdjacent_from.simps, simp)+

text \<open>
  The loop returns: each restart works on a shorter list. It keeps the bytes covered, and a list
  coalesced up to \<open>cmp\<close> comes back coalesced.
\<close>

lemma JoinAdjacent_from_correct:
  assumes "fl_rep l (pre @ suf)" "cmp \<in> set (pre @ suf)" "coalesced_but cmp (pre @ suf) (fsize l)"
    and "\<forall>x\<in>set pre. x \<noteq> cmp + fsize l cmp \<and> x + fsize l x \<noteq> cmp"
  shows "\<exists>l' ys. JoinAdjacent_from l cmp cmp (cmp + fsize l cmp) (hd0 suf nullptr) = Some l' \<and>
     fl_rep l' ys \<and> set ys \<subseteq> set (pre @ suf) \<and>
     covers ys (fsize l') = covers (pre @ suf) (fsize l) \<and> coalesced ys (fsize l')"
  using assms
proof (induction "length (pre @ suf)" arbitrary: l pre suf cmp rule: less_induct)
  case less
  have restart: ?case
    if pq: "p \<in> set (pre @ suf)" "q \<in> set (pre @ suf)" "q = p + fsize l p" "cmp = p \<or> cmp = q"
      and step: "\<And>l2. erase (l\<lparr>fsize := (fsize l)(p := fsize l p + fsize l q)\<rparr>) q = Some l2 \<Longrightarrow>
        JoinAdjacent_from l cmp cmp (cmp + fsize l cmp) (hd0 suf nullptr) =
        JoinAdjacent_from l2 p (fbase l2 p) (fbase l2 p + fsize l2 p) (m_Head l2)" for p q
  proof -
    let ?xs = "remove1 q (pre @ suf)"
    obtain l2 where l2: "erase (l\<lparr>fsize := (fsize l)(p := fsize l p + fsize l q)\<rparr>) q = Some l2"
      "fl_rep l2 ?xs" "fsize l2 = (fsize l)(p := fsize l p + fsize l q)" "p \<noteq> q"
      "covers ?xs (fsize l2) = covers (pre @ suf) (fsize l)"
      using absorb [OF less.prems(1) pq(1,2,3)] by auto
    have "distinct (pre @ suf)" using less.prems(1) by (simp add: fl_rep_def alist_rep_def)
    then have *: "coalesced_but p ?xs (fsize l2)" "p \<in> set ?xs"
      using coalesced_but_absorb [OF less.prems(3) pq(4) l2(4)] pq(1) l2(3,4) by auto
    have "length ?xs < length (pre @ suf)" using pq(2) by (rule length_remove1_less)
    moreover have "m_Head l2 = hd0 ?xs nullptr" "fbase l2 p = p"
      using l2(2) *(2) by (auto simp: fl_rep_def alist_rep_def)
    ultimately obtain l' ys where
      "JoinAdjacent_from l cmp cmp (cmp + fsize l cmp) (hd0 suf nullptr) = Some l'" "fl_rep l' ys"
      "set ys \<subseteq> set ?xs" "covers ys (fsize l') = covers ?xs (fsize l2)" "coalesced ys (fsize l')"
      using less.hyps [of "[]" ?xs l2 p] l2(2,3) * step [OF l2(1)]
      by (auto simp del: remove1_append)
    moreover have "set ?xs \<subseteq> set (pre @ suf)" by (rule set_remove1_subset)
    ultimately show ?thesis using l2(5) by (metis subset_trans)
  qed
  show ?case
  proof (use less.prems restart in \<open>induction suf arbitrary: pre\<close>)
    case Nil
    have "coalesced pre (fsize l)" unfolding coalesced_def
    proof (intro ballI)
      fix x y assume xy: "x \<in> set pre" "y \<in> set pre"
      have "fsize l cmp \<noteq> 0" using Nil.prems(1,2) by (auto simp: fl_rep_def seg_ok_def)
      then show "x + fsize l x \<noteq> y"
        using Nil.prems(3,4) xy unfolding coalesced_but_def by (cases "x = cmp") auto
    qed
    then show ?case using Nil.prems by (auto simp: JoinAdjacent_from_steps intro: exI [of _ pre])
  next
    case (Cons tmp suf)
    have tmp: "tmp \<noteq> nullptr" "fbase l tmp = tmp" "anext l tmp = hd0 suf nullptr"
      using Cons.prems(1) by (auto simp: fl_rep_def alist_rep_def)
    consider (before) "tmp = cmp + fsize l cmp"
      | (after) "tmp \<noteq> cmp + fsize l cmp" "cmp = tmp + fsize l tmp"
      | (none) "tmp \<noteq> cmp + fsize l cmp" "tmp + fsize l tmp \<noteq> cmp" by blast
    then show ?case
    proof cases
      case before
      show ?thesis
      proof (rule Cons.prems(5) [of cmp tmp])
        fix l2 assume "erase (l\<lparr>fsize := (fsize l)(cmp := fsize l cmp + fsize l tmp)\<rparr>) tmp = Some l2"
        from JoinAdjacent_from_merge(1) [OF tmp(1) _ this] before tmp
        show "JoinAdjacent_from l cmp cmp (cmp + fsize l cmp) (hd0 (tmp # suf) nullptr) =
            JoinAdjacent_from l2 cmp (fbase l2 cmp) (fbase l2 cmp + fsize l2 cmp) (m_Head l2)" by simp
      qed (use Cons.prems(2) before in auto)
    next
      case after
      show ?thesis
      proof (rule Cons.prems(5) [of tmp cmp])
        fix l2 assume "erase (l\<lparr>fsize := (fsize l)(tmp := fsize l tmp + fsize l cmp)\<rparr>) cmp = Some l2"
        from JoinAdjacent_from_merge(2) [OF tmp(1) _ _ this] after tmp
        show "JoinAdjacent_from l cmp cmp (cmp + fsize l cmp) (hd0 (tmp # suf) nullptr) =
            JoinAdjacent_from l2 tmp (fbase l2 tmp) (fbase l2 tmp + fsize l2 tmp) (m_Head l2)" by simp
      qed (use Cons.prems(2) after in auto)
    next
      case none
      have "JoinAdjacent_from l cmp cmp (cmp + fsize l cmp) (hd0 (tmp # suf) nullptr) =
            JoinAdjacent_from l cmp cmp (cmp + fsize l cmp) (hd0 suf nullptr)"
        using none tmp by (simp add: JoinAdjacent_from_steps)
      then show ?thesis
        using Cons.IH [of "pre @ [tmp]"] Cons.prems none by auto
    qed
  qed
qed

lemma JoinAdjacent_correct:
  assumes "fl_rep l xs" "cmp \<in> set xs" "coalesced_but cmp xs (fsize l)"
  shows "\<exists>l' ys. JoinAdjacent l cmp = Some l' \<and> fl_rep l' ys \<and> set ys \<subseteq> set xs \<and>
     covers ys (fsize l') = covers xs (fsize l) \<and> coalesced ys (fsize l')"
proof -
  have "m_Head l = hd0 xs nullptr" "fbase l cmp = cmp"
    using assms by (auto simp: fl_rep_def alist_rep_def)
  then show ?thesis
    using JoinAdjacent_from_correct [of l "[]" xs cmp] assms by (simp add: JoinAdjacent_def)
qed

text \<open>A new segment, apart from all others, joins the list.\<close>

lemma fl_rep_push:
  assumes rep: "fl_rep l xs" and ok: "seg_ok b sz" and new: "seg b sz \<inter> covers xs (fsize l) = {}"
    and l1: "alist_rep l1 xs" "fbase l1 = (fbase l)(b := b)" "fsize l1 = (fsize l)(b := sz)"
  shows "b \<notin> set xs" "fl_rep (push_back l1 b) (xs @ [b])"
    "covers (xs @ [b]) (fsize l1) = covers xs (fsize l) \<union> seg b sz"
proof -
  show b: "b \<notin> set xs"
  proof
    assume "b \<in> set xs"
    with rep have "unat b \<in> covers xs (fsize l)"
      using unat_in_seg by (auto simp: fl_rep_def covers_def)
    with new unat_in_seg [OF ok] show False by blast
  qed
  then show "covers (xs @ [b]) (fsize l1) = covers xs (fsize l) \<union> seg b sz"
    by (fastforce simp: covers_def l1 split: if_splits)
  have "alist_rep (push_back l1 b) (xs @ [b])"
    using l1(1) ok b by (intro push_back_rep) (simp_all add: seg_ok_def)
  moreover have "seg_disj (xs @ [b]) ((fsize l)(b := sz))"
    using rep new b by (auto simp: fl_rep_def seg_disj_def covers_def)
  ultimately show "fl_rep (push_back l1 b) (xs @ [b])"
    using rep ok b by (auto simp: fl_rep_def l1)
qed

lemma coalesced_but_push:
  "coalesced xs sz \<Longrightarrow> b \<notin> set xs \<Longrightarrow> coalesced_but b (xs @ [b]) (sz(b := v))"
  by (auto simp: coalesced_def coalesced_but_def)

lemma MarkFree_correct:
  assumes "fl_rep l xs" "coalesced xs (fsize l)" "seg_ok b sz" "seg b sz \<inter> covers xs (fsize l) = {}"
  shows "\<exists>l' ys. MarkFree l b sz = Some l' \<and> fl_rep l' ys \<and> coalesced ys (fsize l') \<and>
     set ys \<subseteq> insert b (set xs) \<and> covers ys (fsize l') = covers xs (fsize l) \<union> seg b sz"
proof -
  let ?l1 = "l\<lparr>fbase := (fbase l)(b := b), fsize := (fsize l)(b := sz)\<rparr>"
  have "alist_rep ?l1 xs" using assms(1) by (simp add: fl_rep_def)
  note push = fl_rep_push [OF assms(1,3,4) this, simplified]
  show ?thesis
    using JoinAdjacent_correct [OF push(2), of b] coalesced_but_push [OF assms(2) push(1)] push(3)
    by (simp add: MarkFree_def) metis
qed

lemma fl_rep_erase:
  assumes rep: "fl_rep l xs" and b: "b \<in> set xs"
  obtains l1 where "erase l b = Some l1" "fl_rep l1 (remove1 b xs)" "fsize l1 = fsize l"
    "fbase l1 = fbase l" "covers (remove1 b xs) (fsize l) = covers xs (fsize l) - seg b (fsize l b)"
proof -
  have d: "distinct xs" using rep by (simp add: fl_rep_def alist_rep_def)
  obtain l1 where l1: "erase l b = Some l1" "l1 = erase_at l b" "alist_rep l1 (remove1 b xs)"
    using erase_rep [of l xs b] rep b by (auto simp: fl_rep_def)
  have "fl_rep l1 (remove1 b xs)"
    using rep l1 d by (auto simp: fl_rep_def seg_disj_def)
  moreover have "covers (remove1 b xs) (fsize l) = covers xs (fsize l) - seg b (fsize l b)"
    using rep b d by (fastforce simp: covers_def fl_rep_def seg_disj_def)
  ultimately show thesis using that l1 by simp
qed

lemma MarkUsed_correct:
  assumes rep: "fl_rep l xs" and co: "coalesced xs (fsize l)" and b: "b \<in> set xs"
    and sz: "sz \<le> fsize l b" "sz \<noteq> 0"
  shows "\<exists>l' ys. MarkUsed l b sz = Some l' \<and> fl_rep l' ys \<and> coalesced ys (fsize l') \<and>
     covers ys (fsize l') = covers xs (fsize l) - seg b sz"
proof -
  have ok: "fbase l b = b" "seg_ok b (fsize l b)" using rep b by (auto simp: fl_rep_def)
  have d: "distinct xs" using rep by (simp add: fl_rep_def alist_rep_def)
  obtain l1 where l1: "erase l b = Some l1" "fl_rep l1 (remove1 b xs)" "fsize l1 = fsize l"
    "fbase l1 = fbase l" "covers (remove1 b xs) (fsize l) = covers xs (fsize l) - seg b (fsize l b)"
    by (rule fl_rep_erase [OF rep b])
  have co1: "coalesced (remove1 b xs) (fsize l)" using co d by (auto simp: coalesced_def)
  show ?thesis
  proof (cases "sz < fsize l b")
    case False
    then have "sz = fsize l b" using sz by simp
    then show ?thesis using l1 co1 by (auto simp: MarkUsed_def)
  next
    case True
    note sp = seg_split [OF ok(2) True sz(2)]
    let ?n = "b + sz" and ?m = "fsize l b - sz"
    let ?l3 = "l1\<lparr>fbase := (fbase l1)(?n := fbase l1 b + sz)\<rparr>"
    let ?l4 = "?l3\<lparr>fsize := (fsize ?l3)(?n := fsize ?l3 b - sz)\<rparr>"
    have new: "seg ?n ?m \<inter> covers (remove1 b xs) (fsize l1) = {}"
      unfolding l1(3,5) using sp(2) by blast
    have "alist_rep ?l4 (remove1 b xs)" using l1(2) by (simp add: fl_rep_def)
    note push = fl_rep_push [OF l1(2) sp(1) new this, simplified l1 ok]
    have "seg b (fsize l b) \<subseteq> covers xs (fsize l)" using b by (auto simp: covers_def)
    then have cov: "covers xs (fsize l) - seg b (fsize l b) \<union> seg ?n ?m = covers xs (fsize l) - seg b sz"
      using sp(2,3) by blast
    show ?thesis
      using JoinAdjacent_correct [OF push(2), of ?n] coalesced_but_push [OF co1 push(1)] push(3) True cov
      by (simp add: MarkUsed_def l1 ok Let_def) metis
  qed
qed

section \<open>First fit\<close>

lemma FindFree_from_steps:
  "FindFree_from l nullptr sz = Some nullptr"
  "a \<noteq> nullptr \<Longrightarrow> sz \<le> fsize l a \<Longrightarrow> FindFree_from l a sz = Some a"
  "a \<noteq> nullptr \<Longrightarrow> \<not> sz \<le> fsize l a \<Longrightarrow> FindFree_from l a sz = FindFree_from l (anext l a) sz"
  by (subst FindFree_from.simps, simp)+

lemma FindFree_from_linked:
  "linked (anext l) (aprev l) p xs nullptr \<Longrightarrow> nullptr \<notin> set xs \<Longrightarrow>
     FindFree_from l (hd0 xs nullptr) sz =
       Some (case List.find (\<lambda>x. sz \<le> fsize l x) xs of None \<Rightarrow> nullptr | Some x \<Rightarrow> x)"
  by (induction xs arbitrary: p) (auto simp: FindFree_from_steps)

lemma FindFree_first_fit:
  "alist_rep l xs \<Longrightarrow>
     FindFree l sz = Some (case List.find (\<lambda>x. sz \<le> fsize l x) xs of None \<Rightarrow> nullptr | Some x \<Rightarrow> x)"
  unfolding FindFree_def alist_rep_def using FindFree_from_linked [of l nullptr xs sz] by simp

lemma FindFree_fits:
  assumes "fl_rep l xs" "FindFree l sz = Some p" "p \<noteq> nullptr"
  shows "p \<in> set xs" "sz \<le> fsize l p"
  using assms FindFree_first_fit [of l xs sz]
  by (auto simp: fl_rep_def find_Some_iff split: option.splits)

lemma seg_mono: "sz \<le> n \<Longrightarrow> seg p sz \<subseteq> seg p n"
  by (auto simp: seg_def word_le_nat_alt)

lemma FindFree_complete:
  assumes rep: "fl_rep l xs" and co: "coalesced xs (fsize l)" and "FindFree l sz = Some nullptr"
    and ok: "seg_ok p sz"
  shows "\<not> seg p sz \<subseteq> covers xs (fsize l)"
proof
  assume "seg p sz \<subseteq> covers xs (fsize l)"
  then obtain x where x: "x \<in> set xs" "seg p sz \<subseteq> seg x (fsize l x)"
    using range_in_one_segment [OF _ _ co ok] rep by (auto simp: fl_rep_def)
  have "x \<noteq> nullptr" "unat sz \<le> unat (fsize l x)"
    using x rep ok unat_in_seg [OF ok] by (auto simp: fl_rep_def seg_ok_def seg_def unat_gt_0 word_neq_0_conv
      atLeastLessThan_subset_iff)
  then obtain y where y: "List.find (\<lambda>x. sz \<le> fsize l x) xs = Some y" "y \<in> set xs"
    using find_exists [OF x(1), of "\<lambda>x. sz \<le> fsize l x"] by (auto simp: word_le_nat_alt)
  then show False
    using assms FindFree_first_fit [of l xs sz] by (auto simp: fl_rep_def alist_rep_def)
qed

section \<open>The kernel's free list is a store of free segments\<close>

definition fl_inv :: "freelist \<Rightarrow> bool" where
  "fl_inv l \<longleftrightarrow> (\<exists>xs. fl_rep l xs \<and> coalesced xs (fsize l))"

definition fl_avail :: "freelist \<Rightarrow> nat set" where
  "fl_avail l = \<Union> {covers xs (fsize l) | xs. alist_rep l xs}"

lemma fl_avail_rep [simp]: "alist_rep l xs \<Longrightarrow> fl_avail l = covers xs (fsize l)"
proof -
  assume "alist_rep l xs"
  then have "{covers ys (fsize l) | ys. alist_rep l ys} = {covers xs (fsize l)}"
    using alist_rep_unique by blast
  then show ?thesis by (simp add: fl_avail_def)
qed

lemma fl_invI: "fl_rep l xs \<Longrightarrow> coalesced xs (fsize l) \<Longrightarrow> fl_inv l \<and> fl_avail l = covers xs (fsize l)"
  using fl_inv_def by (auto simp: fl_rep_def)

lemma fl_invE:
  assumes "fl_inv l"
  obtains xs where "fl_rep l xs" "coalesced xs (fsize l)" "fl_avail l = covers xs (fsize l)"
  using assms by (auto simp: fl_inv_def fl_rep_def)

interpretation kfl: free_store fl_inv fl_avail FindFree MarkFree MarkUsed
proof (unfold_locales, goal_cases)
  case (1 s n)
  then show ?case using FindFree_first_fit by (fastforce simp: fl_inv_def fl_rep_def)
next
  case (2 s n p)
  then obtain xs where xs: "fl_rep s xs" "fl_avail s = covers xs (fsize s)" by (auto elim: fl_invE)
  note fits = FindFree_fits [OF xs(1) 2(3,4)]
  with xs have "seg_ok p (fsize s p)" "seg p n \<subseteq> seg p (fsize s p)"
    using seg_mono by (auto simp: fl_rep_def)
  moreover have "seg p (fsize s p) \<subseteq> covers xs (fsize s)" using fits by (auto simp: covers_def)
  ultimately show ?case
    using 2 fits xs by (auto simp: seg_ok_def word_le_nat_alt)
next
  case (3 s n p)
  then show ?case using FindFree_complete by (auto elim!: fl_invE)
next
  case (4 s p n)
  then obtain xs where xs: "fl_rep s xs" "coalesced xs (fsize s)" "fl_avail s = covers xs (fsize s)"
    by (auto elim: fl_invE)
  then show ?case
    using MarkFree_correct [of s xs p n] 4 fl_invI by fastforce
next
  case (5 s n p)
  then obtain xs where xs: "fl_rep s xs" "coalesced xs (fsize s)" "fl_avail s = covers xs (fsize s)"
    by (auto elim: fl_invE)
  then show ?case
    using MarkUsed_correct [OF xs(1,2) FindFree_fits [OF xs(1) 5(3,4)] 5(2)] fl_invI by fastforce
qed

section \<open>Start of day\<close>

text \<open>The boot loader's segments: whole, apart from each other.\<close>

definition map_ok :: "(ptr \<times> u64) list \<Rightarrow> bool" where
  "map_ok segs \<longleftrightarrow> (\<forall>(p, n)\<in>set segs. seg_ok p (n * 4096)) \<and>
     sorted_wrt (\<lambda>(p, n) (q, m). seg p (n * 4096) \<inter> seg q (m * 4096) = {}) segs"

definition map_bytes :: "(ptr \<times> u64) list \<Rightarrow> nat set" where
  "map_bytes segs = (\<Union>(p, n)\<in>set segs. seg p (n * 4096))"

lemma Init_rep:
  "fl_rep l xs \<Longrightarrow> map_ok segs \<Longrightarrow> map_bytes segs \<inter> covers xs (fsize l) = {} \<Longrightarrow>
     fl_rep (Init l segs) (xs @ map fst segs) \<and>
     covers (xs @ map fst segs) (fsize (Init l segs)) = covers xs (fsize l) \<union> map_bytes segs"
proof (induction segs arbitrary: l xs)
  case Nil
  then show ?case by (simp add: map_bytes_def)
next
  case (Cons a segs)
  obtain p n where a: "a = (p, n)" by fastforce
  let ?l1 = "l\<lparr>fbase := (fbase l)(p := p), fsize := (fsize l)(p := n * 4096)\<rparr>"
  have "alist_rep ?l1 xs" using Cons.prems(1) by (simp add: fl_rep_def)
  moreover have "seg_ok p (n * 4096)" "seg p (n * 4096) \<inter> covers xs (fsize l) = {}"
    using Cons.prems(2,3) by (auto simp: a map_ok_def map_bytes_def)
  ultimately have push: "fl_rep (push_back ?l1 p) (xs @ [p])"
    "covers (xs @ [p]) (fsize (push_back ?l1 p)) = covers xs (fsize l) \<union> seg p (n * 4096)"
    using fl_rep_push [OF Cons.prems(1), of p "n * 4096" ?l1] by simp_all
  have "map_ok segs" "map_bytes segs \<inter> covers (xs @ [p]) (fsize (push_back ?l1 p)) = {}"
    using Cons.prems(2,3) unfolding push(2) by (auto simp: a map_ok_def map_bytes_def)
  from Cons.IH [OF push(1) this] show ?case
    unfolding push(2) by (auto simp: a Let_def map_bytes_def)
qed

lemma Init_keeps: "p \<notin> fst ` set segs \<Longrightarrow> fsize (Init l segs) p = fsize l p"
  by (induction l segs rule: Init.induct) (auto simp: Let_def)

lemma Init_inv:
  assumes "map_ok segs" "\<forall>(p, n)\<in>set segs. \<forall>(q, m)\<in>set segs. p + n * 4096 \<noteq> q"
  shows "fl_inv (Init FreeList_new segs) \<and> fl_avail (Init FreeList_new segs) = map_bytes segs"
proof -
  have "fl_rep FreeList_new []"
    by (simp add: fl_rep_def alist_rep_def FreeList_new_def seg_disj_def AnchorList_init_def
        alist.defs freelist.defs)
  with Init_rep [OF this assms(1)]
  have *: "fl_rep (Init FreeList_new segs) (map fst segs)"
    "covers (map fst segs) (fsize (Init FreeList_new segs)) = map_bytes segs" by (simp_all add: covers_def)
  have sz: "fsize (Init l segs) p = n * 4096" if "(p, n) \<in> set segs" "distinct (map fst segs)" for l p n segs
    using that by (induction l segs rule: Init.induct) (auto simp: Let_def Init_keeps)
  have "distinct (map fst segs)" using *(1) by (simp add: fl_rep_def alist_rep_def)
  then have "coalesced (map fst segs) (fsize (Init FreeList_new segs))"
    using assms(2) sz by (fastforce simp: coalesced_def)
  with * fl_invI show ?thesis by metis
qed

section \<open>Properties\<close>

text \<open>A store of one segment of three pages, for the witnesses below.\<close>

definition three_pages :: freelist where
  "three_pages = Init FreeList_new [(0x5000, 3)]"

lemma three_pages_inv: "fl_inv three_pages \<and> fl_avail three_pages = seg 0x5000 0x3000"
  unfolding three_pages_def
  using Init_inv [of "[(0x5000, 3)]"] by (simp add: map_ok_def map_bytes_def seg_ok_def)

lemma three_pages_find: "FindFree three_pages 0x1000 = Some 0x5000"
proof -
  have "alist_rep (Init FreeList_new [(0x5000, 3)]) [0x5000]"
    by (simp add: alist_rep_def Let_def push_back_def FreeList_new_def AnchorList_init_def
        alist.defs freelist.defs)
  from FindFree_first_fit [OF this] show ?thesis by (simp add: three_pages_def Let_def)
qed

text \<open>
  \<open>FindFree\<close> returns and finds a segment exactly when some range of \<open>n\<close> free bytes exists: first
  fit over the coalesced list misses no allocation that could be served.
\<close>

theorem FindFree_finds_iff:
  assumes "fl_inv l" "n \<noteq> 0"
  shows "(\<exists>p. FindFree l n = Some p \<and> p \<noteq> nullptr) \<longleftrightarrow> (\<exists>q. seg_ok q n \<and> seg q n \<subseteq> fl_avail l)"
  using assms by (rule kfl.find_iff)

theorem FindFree_finds_iff_witness:
  "(\<exists>p. FindFree three_pages 0x1000 = Some p \<and> p \<noteq> nullptr) \<and>
   (\<exists>q. seg_ok q 0x1000 \<and> seg q 0x1000 \<subseteq> fl_avail three_pages)"
  using FindFree_finds_iff [of three_pages "0x1000"] three_pages_inv three_pages_find by auto

text \<open>
  \<open>MarkFree\<close> of a segment that is not free returns, adds exactly its bytes to the free ones and
  leaves a well-formed list in which no two segments touch (every merge is found).
\<close>

theorem MarkFree_adds_segment:
  assumes "fl_inv l" "seg_ok p n" "seg p n \<inter> fl_avail l = {}"
  shows "\<exists>l'. MarkFree l p n = Some l' \<and> fl_inv l' \<and> fl_avail l' = fl_avail l \<union> seg p n"
  using assms by (rule kfl.free_law)

theorem MarkFree_adds_segment_witness:
  "\<exists>l'. MarkFree three_pages 0x8000 0x1000 = Some l' \<and> fl_inv l' \<and>
     fl_avail l' = fl_avail three_pages \<union> seg 0x8000 0x1000"
  using MarkFree_adds_segment [of three_pages "0x8000" "0x1000"] three_pages_inv
  by (simp add: seg_ok_def seg_def)



end
