(* ===== verification/LibcFreeList.thy ===== *)
theory LibcFreeList
  imports FreeList
begin

text \<open>
  The free list of the C library, \<^verbatim>\<open>libs/libc/internal/FreeList.h\<close>. It is a list of its own:
  nodes are unlinked without a search, and \<open>MarkUsed\<close> puts the rest of a segment in the place of
  the node it came from. The fields are those of the kernel's list, so the state is the same record.

  The operations are related to the kernel's (\<open>RemoveNode\<close> unlinks like \<open>erase\<close>, \<open>AddNode\<close> appends
  like \<open>push_back\<close>, \<open>JoinAdjacent\<close> merges the same segments), and the list is a second instance of
  the interface \<open>free_store\<close>.
\<close>

section \<open>The code\<close>

partial_function (option) LFindFree_from :: "freelist \<Rightarrow> ptr \<Rightarrow> u64 \<Rightarrow> ptr option" where
  "LFindFree_from l tmp sz =
     (if tmp = nullptr then Some nullptr
      else if sz \<le> fsize l tmp then Some tmp
      else LFindFree_from l (anext l tmp) sz)"

definition LFindFree :: "freelist \<Rightarrow> u64 \<Rightarrow> ptr option" where
  "LFindFree l sz = LFindFree_from l (m_Head l) sz"

definition RemoveNode :: "freelist \<Rightarrow> ptr \<Rightarrow> freelist" where
  "RemoveNode l node =
     (let l1 = (if aprev l node \<noteq> nullptr
                then l\<lparr>anext := (anext l)(aprev l node := anext l node)\<rparr>
                else l\<lparr>m_Head := anext l node\<rparr>)
      in if anext l1 node \<noteq> nullptr
         then l1\<lparr>aprev := (aprev l1)(anext l1 node := aprev l1 node)\<rparr>
         else l1\<lparr>m_Tail := aprev l1 node\<rparr>)"

definition AddNode :: "freelist \<Rightarrow> ptr \<Rightarrow> freelist" where
  "AddNode l node =
     (if m_Head l = nullptr
      then l\<lparr>m_Head := node, m_Tail := node,
             aprev := (aprev l)(node := nullptr), anext := (anext l)(node := nullptr)\<rparr>
      else let l1 = l\<lparr>anext := (anext l)(m_Tail l := node)\<rparr>;
               l2 = l1\<lparr>aprev := (aprev l1)(node := m_Tail l1)\<rparr>;
               l3 = l2\<lparr>anext := (anext l2)(node := nullptr)\<rparr>
           in l3\<lparr>m_Tail := node\<rparr>)"

partial_function (option) LJoinAdjacent_from ::
    "freelist \<Rightarrow> ptr \<Rightarrow> u64 \<Rightarrow> u64 \<Rightarrow> ptr \<Rightarrow> freelist option" where
  "LJoinAdjacent_from l cmp start fin tmp =
     (if tmp = nullptr then Some l
      else if fbase l tmp = fin then
        let l1 = l\<lparr>fsize := (fsize l)(cmp := fsize l cmp + fsize l tmp)\<rparr>;
            l2 = RemoveNode l1 tmp
        in LJoinAdjacent_from l2 cmp (fbase l2 cmp) (fbase l2 cmp + fsize l2 cmp) (m_Head l2)
      else if fbase l tmp + fsize l tmp = start then
        let l1 = l\<lparr>fsize := (fsize l)(tmp := fsize l tmp + fsize l cmp)\<rparr>;
            l2 = RemoveNode l1 cmp
        in LJoinAdjacent_from l2 tmp (fbase l2 tmp) (fbase l2 tmp + fsize l2 tmp) (m_Head l2)
      else LJoinAdjacent_from l cmp start fin (anext l tmp))"

definition LJoinAdjacent :: "freelist \<Rightarrow> ptr \<Rightarrow> freelist option" where
  "LJoinAdjacent l cmp = LJoinAdjacent_from l cmp (fbase l cmp) (fbase l cmp + fsize l cmp) (m_Head l)"

definition LMarkFree :: "freelist \<Rightarrow> ptr \<Rightarrow> u64 \<Rightarrow> freelist option" where
  "LMarkFree l base sz =
     (let l1 = l\<lparr>fbase := (fbase l)(base := base), fsize := (fsize l)(base := sz)\<rparr>
      in LJoinAdjacent (AddNode l1 base) base)"

text \<open>A \<open>base\<close> of \<open>nullptr\<close> (the search found nothing) is a fault.\<close>

definition LMarkUsed :: "freelist \<Rightarrow> ptr \<Rightarrow> u64 \<Rightarrow> freelist option" where
  "LMarkUsed l node sz =
     (if node = nullptr then None
      else if sz < fsize l node then
        let newNode = node + sz;
            l1 = l\<lparr>anext := (anext l)(newNode := anext l node)\<rparr>;
            l2 = l1\<lparr>aprev := (aprev l1)(newNode := aprev l1 node)\<rparr>;
            l3 = l2\<lparr>fbase := (fbase l2)(newNode := fbase l2 node + sz)\<rparr>;
            l4 = l3\<lparr>fsize := (fsize l3)(newNode := fsize l3 node - sz)\<rparr>;
            l5 = (if aprev l4 node \<noteq> nullptr
                  then l4\<lparr>anext := (anext l4)(aprev l4 node := newNode)\<rparr>
                  else l4\<lparr>m_Head := newNode\<rparr>)
        in Some (if anext l5 node \<noteq> nullptr
                 then l5\<lparr>aprev := (aprev l5)(anext l5 node := newNode)\<rparr>
                 else l5\<lparr>m_Tail := newNode\<rparr>)
      else Some (RemoveNode l node))"

section \<open>The same list as the kernel's\<close>

lemma RemoveNode_erase_at: "RemoveNode l n = erase_at l n"
  by (simp add: RemoveNode_def erase_at_def)

lemma AddNode_push_back:
  "alist_rep l xs \<Longrightarrow> t \<notin> set xs \<Longrightarrow> t \<noteq> nullptr \<Longrightarrow> AddNode l t = push_back l t"
  by (cases xs rule: rev_cases; rule freelist.equality)
    (auto simp: AddNode_def push_back_def Let_def alist_rep_def)

lemma LFindFree_from_steps:
  "LFindFree_from l nullptr sz = Some nullptr"
  "a \<noteq> nullptr \<Longrightarrow> sz \<le> fsize l a \<Longrightarrow> LFindFree_from l a sz = Some a"
  "a \<noteq> nullptr \<Longrightarrow> \<not> sz \<le> fsize l a \<Longrightarrow> LFindFree_from l a sz = LFindFree_from l (anext l a) sz"
  by (subst LFindFree_from.simps, simp)+

lemma LFindFree_FindFree:
  assumes "alist_rep l xs"
  shows "LFindFree l sz = FindFree l sz"
proof -
  have "LFindFree_from l (hd0 xs nullptr) sz = FindFree_from l (hd0 xs nullptr) sz"
    if "linked (anext l) (aprev l) p xs nullptr" "nullptr \<notin> set xs" for p
    using that
  proof (induction xs arbitrary: p)
    case (Cons a xs)
    then show ?case
      by (cases "sz \<le> fsize l a") (auto simp: FindFree_from_steps LFindFree_from_steps)
  qed (simp add: FindFree_from_steps LFindFree_from_steps)
  then show ?thesis using assms unfolding LFindFree_def FindFree_def alist_rep_def by metis
qed

lemma LJoinAdjacent_from_steps:
  "LJoinAdjacent_from l cmp start fin nullptr = Some l"
  "tmp \<noteq> nullptr \<Longrightarrow> fbase l tmp \<noteq> fin \<Longrightarrow> fbase l tmp + fsize l tmp \<noteq> start \<Longrightarrow>
     LJoinAdjacent_from l cmp start fin tmp = LJoinAdjacent_from l cmp start fin (anext l tmp)"
  by (subst LJoinAdjacent_from.simps, simp)+

lemma LJoinAdjacent_from_merge:
  "tmp \<noteq> nullptr \<Longrightarrow> fbase l tmp = fin \<Longrightarrow>
     RemoveNode (l\<lparr>fsize := (fsize l)(cmp := fsize l cmp + fsize l tmp)\<rparr>) tmp = l2 \<Longrightarrow>
     LJoinAdjacent_from l cmp start fin tmp =
       LJoinAdjacent_from l2 cmp (fbase l2 cmp) (fbase l2 cmp + fsize l2 cmp) (m_Head l2)"
  "tmp \<noteq> nullptr \<Longrightarrow> fbase l tmp \<noteq> fin \<Longrightarrow> fbase l tmp + fsize l tmp = start \<Longrightarrow>
     RemoveNode (l\<lparr>fsize := (fsize l)(tmp := fsize l tmp + fsize l cmp)\<rparr>) cmp = l2 \<Longrightarrow>
     LJoinAdjacent_from l cmp start fin tmp =
       LJoinAdjacent_from l2 tmp (fbase l2 tmp) (fbase l2 tmp + fsize l2 tmp) (m_Head l2)"
  by (subst LJoinAdjacent_from.simps, simp)+

lemma LJoinAdjacent_from_same:
  assumes "fl_rep l (pre @ suf)" "cmp \<in> set (pre @ suf)"
  shows "LJoinAdjacent_from l cmp cmp (cmp + fsize l cmp) (hd0 suf nullptr) =
    JoinAdjacent_from l cmp cmp (cmp + fsize l cmp) (hd0 suf nullptr)"
  using assms
proof (induction "length (pre @ suf)" arbitrary: l pre suf cmp rule: less_induct)
  case less
  have restart: "LJoinAdjacent_from l2 p (fbase l2 p) (fbase l2 p + fsize l2 p) (m_Head l2) =
      JoinAdjacent_from l2 p (fbase l2 p) (fbase l2 p + fsize l2 p) (m_Head l2) \<and>
      erase (l\<lparr>fsize := (fsize l)(p := fsize l p + fsize l q)\<rparr>) q = Some l2"
    if pq: "p \<in> set (pre @ suf)" "q \<in> set (pre @ suf)" "q = p + fsize l p"
      and l2: "RemoveNode (l\<lparr>fsize := (fsize l)(p := fsize l p + fsize l q)\<rparr>) q = l2" for p q l2
  proof -
    let ?xs = "remove1 q (pre @ suf)"
    have "alist_rep (l\<lparr>fsize := (fsize l)(p := fsize l p + fsize l q)\<rparr>) (pre @ suf)"
      using less.prems(1) by (simp add: fl_rep_def)
    from erase_rep [OF this pq(2)]
    have er: "erase (l\<lparr>fsize := (fsize l)(p := fsize l p + fsize l q)\<rparr>) q = Some l2"
      using l2 by (simp add: RemoveNode_erase_at)
    then have rep: "fl_rep l2 ?xs" "p \<noteq> q" using absorb [OF less.prems(1) pq(1,2,3)] by auto
    have "length ([] @ ?xs) < length (pre @ suf)" using length_remove1_less [OF pq(2)] by simp
    moreover have "p \<in> set ([] @ ?xs)" using pq(1) rep(2) by auto
    moreover have "m_Head l2 = hd0 ?xs nullptr" "fbase l2 p = p"
      using rep(1) calculation(2) by (auto simp: fl_rep_def alist_rep_def)
    ultimately show ?thesis using less.hyps [of "[]" ?xs l2 p] rep(1) er by simp
  qed
  show ?case
  proof (use less.prems restart in \<open>induction suf arbitrary: pre\<close>)
    case Nil
    then show ?case by (simp add: LJoinAdjacent_from_steps JoinAdjacent_from_steps)
  next
    case (Cons tmp suf)
    have m: "tmp \<in> set (pre @ tmp # suf)" by simp
    have tmp: "tmp \<noteq> nullptr" "fbase l tmp = tmp" "anext l tmp = hd0 suf nullptr"
      using Cons.prems(1) by (auto simp: fl_rep_def alist_rep_def)
    consider (before) "tmp = cmp + fsize l cmp"
      | (after) "tmp \<noteq> cmp + fsize l cmp" "cmp = tmp + fsize l tmp"
      | (none) "tmp \<noteq> cmp + fsize l cmp" "tmp + fsize l tmp \<noteq> cmp" by blast
    then show ?case
    proof cases
      case before
      let ?l2 = "RemoveNode (l\<lparr>fsize := (fsize l)(cmp := fsize l cmp + fsize l tmp)\<rparr>) tmp"
      have fb: "fbase l tmp = cmp + fsize l cmp" using tmp before by simp
      have r: "LJoinAdjacent_from ?l2 cmp (fbase ?l2 cmp) (fbase ?l2 cmp + fsize ?l2 cmp) (m_Head ?l2) =
          JoinAdjacent_from ?l2 cmp (fbase ?l2 cmp) (fbase ?l2 cmp + fsize ?l2 cmp) (m_Head ?l2)"
        and e: "erase (l\<lparr>fsize := (fsize l)(cmp := fsize l cmp + fsize l tmp)\<rparr>) tmp = Some ?l2"
        using Cons.prems(3) [of cmp tmp ?l2, OF Cons.prems(2) m before refl] by blast+
      show ?thesis
        unfolding hd0_simps LJoinAdjacent_from_merge(1) [OF tmp(1) fb refl] r
          JoinAdjacent_from_merge(1) [OF tmp(1) fb e] by (rule refl)
    next
      case after
      let ?l2 = "RemoveNode (l\<lparr>fsize := (fsize l)(tmp := fsize l tmp + fsize l cmp)\<rparr>) cmp"
      have fb: "fbase l tmp \<noteq> cmp + fsize l cmp" "fbase l tmp + fsize l tmp = cmp" using tmp after by simp_all
      have r: "LJoinAdjacent_from ?l2 tmp (fbase ?l2 tmp) (fbase ?l2 tmp + fsize ?l2 tmp) (m_Head ?l2) =
          JoinAdjacent_from ?l2 tmp (fbase ?l2 tmp) (fbase ?l2 tmp + fsize ?l2 tmp) (m_Head ?l2)"
        and e: "erase (l\<lparr>fsize := (fsize l)(tmp := fsize l tmp + fsize l cmp)\<rparr>) cmp = Some ?l2"
        using Cons.prems(3) [of tmp cmp ?l2, OF m Cons.prems(2) after(2) refl] by blast+
      show ?thesis
        unfolding hd0_simps LJoinAdjacent_from_merge(2) [OF tmp(1) fb refl] r
          JoinAdjacent_from_merge(2) [OF tmp(1) fb e] by (rule refl)
    next
      case none
      then show ?thesis
        using Cons.IH [of "pre @ [tmp]"] Cons.prems tmp
        by (simp add: JoinAdjacent_from_steps LJoinAdjacent_from_steps)
    qed
  qed
qed

lemma LMarkFree_MarkFree:
  assumes rep: "fl_rep l xs" and ok: "seg_ok b sz" "seg b sz \<inter> covers xs (fsize l) = {}"
  shows "LMarkFree l b sz = MarkFree l b sz"
proof -
  let ?l1 = "l\<lparr>fbase := (fbase l)(b := b), fsize := (fsize l)(b := sz)\<rparr>"
  have al: "alist_rep ?l1 xs" using rep by (simp add: fl_rep_def)
  note push = fl_rep_push [OF rep ok al, simplified]
  have add: "AddNode ?l1 b = push_back ?l1 b"
    using AddNode_push_back [OF al] push(1) ok(1) by (simp add: seg_ok_def)
  have "m_Head (push_back ?l1 b) = hd0 (xs @ [b]) nullptr" "fbase (push_back ?l1 b) b = b"
    using push(2) by (auto simp: fl_rep_def alist_rep_def)
  then show ?thesis
    using LJoinAdjacent_from_same [of "push_back ?l1 b" "[]" "xs @ [b]" b] push(2)
    unfolding LMarkFree_def MarkFree_def LJoinAdjacent_def JoinAdjacent_def Let_def add by simp
qed

section \<open>Taking a segment\<close>

lemma LMarkUsed_replaces:
  assumes rep: "alist_rep l (as @ b # bs)" and n: "b + sz \<notin> set (as @ b # bs)" "b + sz \<noteq> nullptr"
    and sz: "sz < fsize l b"
  shows "\<exists>l'. LMarkUsed l b sz = Some l' \<and> alist_rep l' (as @ (b + sz) # bs) \<and>
    fbase l' = (fbase l)(b + sz := fbase l b + sz) \<and> fsize l' = (fsize l)(b + sz := fsize l b - sz)"
proof -
  have b: "b \<noteq> nullptr" "b + sz \<noteq> b" using rep n by (auto simp: alist_rep_def)
  show ?thesis
  proof (cases as rule: rev_cases)
    case Nil
    then show ?thesis using rep n sz b by (cases bs) (auto simp: alist_rep_def LMarkUsed_def Let_def)
  next
    case (snoc zs z)
    then show ?thesis using rep n sz b by (cases bs) (auto simp: alist_rep_def LMarkUsed_def Let_def)
  qed
qed

text \<open>No other segment ends where the rest of a segment starts.\<close>

lemma no_end_inside:
  assumes dj: "seg_disj xs f" and ok: "\<And>x. x \<in> set xs \<Longrightarrow> seg_ok x (f x)"
    and x: "x \<in> set xs" "b \<in> set xs" "x \<noteq> b" and sz: "sz < f b" "sz \<noteq> 0"
  shows "x + f x \<noteq> b + sz"
proof
  assume e: "x + f x = b + sz"
  note sp = seg_split [OF ok [OF x(2)] sz]
  have "unat (b + sz) = unat x + unat (f x)"
    using seg_end_nat [OF ok [OF x(1)], of "b + sz"] sp(1) e by (simp add: seg_ok_def)
  moreover have "unat (b + sz) = unat b + unat sz" "unat sz \<noteq> 0"
    using seg_end_nat [of b sz "b + sz"] sp ok [OF x(2)] sz
    by (auto simp: seg_ok_def word_less_nat_alt unat_eq_0)
  moreover have "unat (f x) \<noteq> 0" "unat sz < unat (f b)"
    using ok [OF x(1)] sz by (auto simp: seg_ok_def unat_eq_0 word_less_nat_alt)
  ultimately have "unat b + unat sz - 1 \<in> seg x (f x)" "unat b + unat sz - 1 \<in> seg b (f b)"
    by (auto simp: seg_def)
  with dj x show False unfolding seg_disj_def by blast
qed

lemma LMarkUsed_correct:
  assumes rep: "fl_rep l xs" and co: "coalesced xs (fsize l)" and b: "b \<in> set xs"
    and sz: "sz \<le> fsize l b" "sz \<noteq> 0"
  shows "\<exists>l' ys. LMarkUsed l b sz = Some l' \<and> fl_rep l' ys \<and> coalesced ys (fsize l') \<and>
     covers ys (fsize l') = covers xs (fsize l) - seg b sz"
proof -
  have ok: "\<And>x. x \<in> set xs \<Longrightarrow> fbase l x = x \<and> seg_ok x (fsize l x)" and d: "distinct xs"
    and dj: "seg_disj xs (fsize l)"
    using rep by (auto simp: fl_rep_def alist_rep_def)
  obtain as bs where xs: "xs = as @ b # bs" using b by (meson split_list)
  obtain l1 where l1: "erase l b = Some l1" "fl_rep l1 (remove1 b xs)" "fsize l1 = fsize l"
    "fbase l1 = fbase l" "covers (remove1 b xs) (fsize l) = covers xs (fsize l) - seg b (fsize l b)"
    by (rule fl_rep_erase [OF rep b])
  show ?thesis
  proof (cases "sz < fsize l b")
    case False
    then have "sz = fsize l b" using sz by simp
    moreover have "l1 = erase_at l b" using l1(1) erase_rep [of l xs b] rep b by (auto simp: fl_rep_def)
    moreover have "coalesced (remove1 b xs) (fsize l)" using co d by (auto simp: coalesced_def)
    ultimately show ?thesis
      using l1 ok [OF b] by (auto simp: LMarkUsed_def RemoveNode_erase_at seg_ok_def)
  next
    case True
    note sp = seg_split [OF ok [OF b, THEN conjunct2] True sz(2)]
    let ?n = "b + sz" and ?m = "fsize l b - sz"
    have nin: "?n \<notin> set xs"
    proof
      assume m: "?n \<in> set xs"
      have "unat ?n \<in> seg b (fsize l b)" "unat ?n \<in> seg ?n (fsize l ?n)"
        using sp(2) unat_in_seg [OF sp(1)] unat_in_seg ok [OF m] by auto
      moreover have "?n \<noteq> b" using sz(2) by simp
      ultimately show False using dj m b unfolding seg_disj_def by blast
    qed
    obtain l' where l': "LMarkUsed l b sz = Some l'" "alist_rep l' (as @ ?n # bs)"
      "fbase l' = (fbase l)(?n := fbase l b + sz)" "fsize l' = (fsize l)(?n := ?m)"
      using LMarkUsed_replaces [of l as b bs sz] rep nin True sp(1) xs by (auto simp: fl_rep_def seg_ok_def)
    have st: "set (as @ ?n # bs) = insert ?n (set (remove1 b xs))" "b \<notin> set (remove1 b xs)"
      "?n \<notin> set (remove1 b xs)" "set (remove1 b xs) \<subseteq> set xs"
      using d xs nin by (auto simp: remove1_append)
    have new: "seg ?n ?m \<inter> covers (remove1 b xs) (fsize l) = {}"
      unfolding l1(5) using sp(2) by blast
    have "fl_rep l' (as @ ?n # bs)"
      unfolding fl_rep_def seg_disj_def st(1)
      using l' l1(2,3) new st sp(1) ok [OF b] ok
      by (auto simp: fl_rep_def seg_disj_def covers_def)
    moreover have "covers (as @ ?n # bs) (fsize l') = covers (remove1 b xs) (fsize l) \<union> seg ?n ?m"
      unfolding covers_def st(1) l'(4) using st(3) by (auto split: if_splits)
    moreover have "seg b (fsize l b) \<subseteq> covers xs (fsize l)" using b by (auto simp: covers_def)
    then have "covers (remove1 b xs) (fsize l) \<union> seg ?n ?m = covers xs (fsize l) - seg b sz"
      using sp(2,3) l1(5) by blast
    moreover have "coalesced (as @ ?n # bs) (fsize l')"
      unfolding coalesced_def st(1) l'(4)
    proof (intro ballI)
      fix x y assume xy: "x \<in> insert ?n (set (remove1 b xs))" "y \<in> insert ?n (set (remove1 b xs))"
      have "x \<noteq> ?n \<Longrightarrow> x \<in> set xs \<and> x \<noteq> b" "y \<noteq> ?n \<Longrightarrow> y \<in> set xs" using xy st(2,4) by auto
      then show "x + ((fsize l)(?n := ?m)) x \<noteq> y"
        using no_end_inside [OF dj _ _ b _ True sz(2), of x] ok co b sp(1,4)
        unfolding coalesced_def seg_ok_def by (cases "x = ?n"; cases "y = ?n") auto
    qed
    ultimately show ?thesis using l'(1) by metis
  qed
qed

section \<open>The second instance of the interface\<close>

lemma LFindFree_inv: "fl_inv s \<Longrightarrow> LFindFree s n = FindFree s n"
  using LFindFree_FindFree by (auto elim!: fl_invE simp: fl_rep_def)

interpretation lfl: free_store fl_inv fl_avail LFindFree LMarkFree LMarkUsed
proof (unfold_locales, goal_cases)
  case (1 s n)
  then show ?case using kfl.find_returns by (simp add: LFindFree_inv)
next
  case (2 s n p)
  then show ?case using kfl.find_fits [of s n p] by (simp add: LFindFree_inv)
next
  case (3 s n p)
  then show ?case using kfl.find_complete [of s n p] by (simp add: LFindFree_inv)
next
  case (4 s p n)
  then have "LMarkFree s p n = MarkFree s p n" by (metis LMarkFree_MarkFree fl_invE)
  then show ?case using kfl.free_law [of s p n] 4 by simp
next
  case (5 s n p)
  then obtain xs where xs: "fl_rep s xs" "coalesced xs (fsize s)" "fl_avail s = covers xs (fsize s)"
    by (auto elim: fl_invE)
  moreover have "FindFree s n = Some p" using 5(1,3) by (simp add: LFindFree_inv)
  ultimately show ?case
    using LMarkUsed_correct [OF xs(1,2) FindFree_fits [OF xs(1) _ 5(4)] 5(2)] fl_invI by fastforce
qed

end
