(* ===== verification/CMem.thy ===== *)
theory CMem
  imports Prelude
begin

text \<open>
  The memory of a C program as the functions of \<^verbatim>\<open>libs/libc\<close> see it: bytes at addresses, where an
  address that is not mapped faults (\<open>None\<close>). Addresses are natural numbers, since a C object never
  wraps around the end of the address space; \<^verbatim>\<open>char\<close> is signed on this target.
\<close>

type_synonym mem = "nat \<rightharpoonup> u8"

definition load :: "mem \<Rightarrow> nat \<Rightarrow> u8 option" where
  "load m a = m a"

definition store :: "mem \<Rightarrow> nat \<Rightarrow> u8 \<Rightarrow> mem option" where
  "store m a v = (if m a = None then None else Some (m(a \<mapsto> v)))"

text \<open>Little-endian 64-bit accesses.\<close>

definition load64 :: "mem \<Rightarrow> nat \<Rightarrow> u64 option" where
  "load64 m a =
     do {
       b0 \<leftarrow> load m a; b1 \<leftarrow> load m (a + 1); b2 \<leftarrow> load m (a + 2); b3 \<leftarrow> load m (a + 3);
       b4 \<leftarrow> load m (a + 4); b5 \<leftarrow> load m (a + 5); b6 \<leftarrow> load m (a + 6); b7 \<leftarrow> load m (a + 7);
       Some (ucast b0 OR push_bit 8 (ucast b1) OR push_bit 16 (ucast b2) OR push_bit 24 (ucast b3) OR
         push_bit 32 (ucast b4) OR push_bit 40 (ucast b5) OR push_bit 48 (ucast b6) OR
         push_bit 56 (ucast b7))
     }"

primrec store_bytes :: "mem \<Rightarrow> nat \<Rightarrow> u8 list \<Rightarrow> mem option" where
  "store_bytes m a [] = Some m"
| "store_bytes m a (b # bs) = do { m' \<leftarrow> store m a b; store_bytes m' (a + 1) bs }"

definition bytes64 :: "u64 \<Rightarrow> u8 list" where
  "bytes64 v = map (\<lambda>i. ucast (drop_bit (8 * i) v)) [0, 1, 2, 3, 4, 5, 6, 7]"

definition store64 :: "mem \<Rightarrow> nat \<Rightarrow> u64 \<Rightarrow> mem option" where
  "store64 m a v = store_bytes m a (bytes64 v)"

text \<open>The bytes \<open>bs\<close> lie at \<open>a\<close>; the range of \<open>n\<close> bytes from \<open>a\<close> is mapped.\<close>

primrec holds_bytes :: "mem \<Rightarrow> nat \<Rightarrow> u8 list \<Rightarrow> bool" where
  "holds_bytes m a [] \<longleftrightarrow> True"
| "holds_bytes m a (b # bs) \<longleftrightarrow> m a = Some b \<and> holds_bytes m (a + 1) bs"

definition mapped :: "mem \<Rightarrow> nat \<Rightarrow> nat \<Rightarrow> bool" where
  "mapped m a n \<longleftrightarrow> {a ..< a + n} \<subseteq> dom m"

text \<open>\<open>put m a bs\<close>: the memory with \<open>bs\<close> written from \<open>a\<close> on; the specification of the copy loops.\<close>

primrec put :: "mem \<Rightarrow> nat \<Rightarrow> u8 list \<Rightarrow> mem" where
  "put m a [] = m"
| "put m a (b # bs) = put (m(a \<mapsto> b)) (a + 1) bs"

lemma put_apply: "put m a bs x = (if a \<le> x \<and> x < a + length bs then Some (bs ! (x - a)) else m x)"
proof (induction bs arbitrary: m a)
  case (Cons b bs)
  then show ?case by (auto simp: nth_Cons')
qed auto

lemma put_append: "put m a (xs @ ys) = put (put m a xs) (a + length xs) ys"
  by (rule ext) (auto simp: put_apply nth_append)

lemma mapped_Suc: "mapped m a (Suc n) \<longleftrightarrow> m a \<noteq> None \<and> mapped m (a + 1) n"
proof -
  have "{a ..< a + Suc n} = insert a {a + 1 ..< a + 1 + n}" by auto
  then show ?thesis by (auto simp: mapped_def)
qed

lemma mapped_upd [simp]: "mapped m b k \<Longrightarrow> mapped (m(a \<mapsto> v)) b k"
  by (auto simp: mapped_def)

lemma mapped_nth: "mapped m a n \<Longrightarrow> i < n \<Longrightarrow> \<exists>v. m (a + i) = Some v"
  using subsetD [of "{a ..< a + n}" "dom m" "a + i"] by (auto simp: mapped_def)

lemma mapped_put: "mapped m b k \<Longrightarrow> mapped (put m a bs) b k"
  by (auto simp: mapped_def put_apply dom_def subset_iff)

lemma holds_bytes_iff: "holds_bytes m a bs \<longleftrightarrow> (\<forall>i < length bs. m (a + i) = Some (bs ! i))"
proof (induction bs arbitrary: a)
  case (Cons b bs)
  have "(\<forall>i < Suc (length bs). m (a + i) = Some ((b # bs) ! i)) \<longleftrightarrow>
      m a = Some b \<and> (\<forall>i < length bs. m (a + 1 + i) = Some (bs ! i))"
    by (auto simp: less_Suc_eq_0_disj)
  then show ?case using Cons by simp
qed simp

lemma holds_bytes_append [simp]:
  "holds_bytes m a (xs @ ys) \<longleftrightarrow> holds_bytes m a xs \<and> holds_bytes m (a + length xs) ys"
  by (induction xs arbitrary: a) auto

lemma holds_bytes_mapped: "holds_bytes m a bs \<Longrightarrow> mapped m a (length bs)"
  by (induction bs arbitrary: a) (auto simp: mapped_Suc, simp add: mapped_def)

lemma mapped_holds: "mapped m a n \<Longrightarrow> \<exists>bs. length bs = n \<and> holds_bytes m a bs"
proof (induction n arbitrary: a)
  case (Suc n)
  then show ?case unfolding mapped_Suc by (metis holds_bytes.simps(2) length_Cons not_None_eq)
qed simp

lemma holds_put [simp]: "holds_bytes (put m a bs) a bs"
  by (simp add: holds_bytes_iff put_apply)

lemma holds_put_other:
  "holds_bytes m b cs \<Longrightarrow> {a ..< a + length bs} \<inter> {b ..< b + length cs} = {} \<Longrightarrow>
     holds_bytes (put m a bs) b cs"
  by (fastforce simp: holds_bytes_iff put_apply)

lemma holds_bytes_unique:
  "holds_bytes m a xs \<Longrightarrow> holds_bytes m a ys \<Longrightarrow> length xs = length ys \<Longrightarrow> xs = ys"
  by (simp add: holds_bytes_iff list_eq_iff_nth_eq)

lemma store_bytes_put: "mapped m a (length bs) \<Longrightarrow> store_bytes m a bs = Some (put m a bs)"
  by (induction bs arbitrary: m a) (auto simp: mapped_Suc store_def)

lemma ucast_ucast_byte: "ucast (ucast (w :: u64) :: u8) = take_bit 8 w"
  by (rule bit_word_eqI) (auto simp: bit_simps)

lemma take_bit_extend:
  "take_bit k w OR push_bit k (take_bit 8 (drop_bit k w)) = take_bit (k + 8) (w :: u64)"
  by (rule bit_word_eqI) (auto simp: bit_simps)

lemma bytes64_join:
  "ucast (ucast (drop_bit 0 v) :: u8) OR push_bit 8 (ucast (ucast (drop_bit 8 v) :: u8)) OR
   push_bit 16 (ucast (ucast (drop_bit 16 v) :: u8)) OR push_bit 24 (ucast (ucast (drop_bit 24 v) :: u8)) OR
   push_bit 32 (ucast (ucast (drop_bit 32 v) :: u8)) OR push_bit 40 (ucast (ucast (drop_bit 40 v) :: u8)) OR
   push_bit 48 (ucast (ucast (drop_bit 48 v) :: u8)) OR push_bit 56 (ucast (ucast (drop_bit 56 v) :: u8)) = (v :: u64)"
  unfolding ucast_ucast_byte or.assoc [symmetric] drop_bit_0 id_apply
    take_bit_extend [of 8 v, simplified] take_bit_extend [of 16 v, simplified]
    take_bit_extend [of 24 v, simplified] take_bit_extend [of 32 v, simplified]
    take_bit_extend [of 40 v, simplified] take_bit_extend [of 48 v, simplified]
    take_bit_extend [of 56 v, simplified]
  by (simp add: take_bit_word_eq_self)

lemma load64_bytes: "holds_bytes m a (bytes64 v) \<Longrightarrow> load64 m a = Some v"
proof -
  assume h: "holds_bytes m a (bytes64 v)"
  have *: "m (a + k) = Some (bytes64 v ! k)" if "k < 8" for k
    using h that by (simp add: holds_bytes_iff bytes64_def)
  show ?thesis
    using * [of 0] * [of 1] * [of 2] * [of 3] * [of 4] * [of 5] * [of 6] * [of 7] bytes64_join [of v]
    by (simp add: bytes64_def load64_def load_def)
qed

end
