(* ===== verification/CString.thy ===== *)
theory CString
  imports CMem
begin

text \<open>
  \<^verbatim>\<open>libs/libc/string/*.c\<close>: the block and string functions of the C library, each as the loop it is,
  over the byte memory of \<open>CMem\<close>. A loop with a bound is a total function; a loop that runs to a
  terminator is a partial function, so that the theorems on it also say that it returns. A
  \<^verbatim>\<open>size_t\<close> that the code decrements past zero is a 64-bit word.
\<close>

section \<open>Blocks\<close>

function memcmp_loop :: "mem \<Rightarrow> nat \<Rightarrow> nat \<Rightarrow> nat \<Rightarrow> nat \<Rightarrow> int option" where
  "memcmp_loop m a b i n =
     (if i < n then
        do {
          x \<leftarrow> load m (a + i);
          y \<leftarrow> load m (b + i);
          if x \<noteq> y then Some (sint x - sint y) else memcmp_loop m a b (i + 1) n
        }
      else Some 0)"
  by pat_completeness auto
termination memcmp_loop
  by (relation "measure (\<lambda>(m, a, b, i, n). n - i)") auto

declare memcmp_loop.simps [simp del]

definition memcmp :: "mem \<Rightarrow> nat \<Rightarrow> nat \<Rightarrow> nat \<Rightarrow> int option" where
  "memcmp m s1 s2 n = memcmp_loop m s1 s2 0 n"

function memcpy_loop :: "mem \<Rightarrow> nat \<Rightarrow> nat \<Rightarrow> nat \<Rightarrow> nat \<Rightarrow> mem option" where
  "memcpy_loop m d s i n =
     (if i < n then
        do { c \<leftarrow> load m (s + i); m' \<leftarrow> store m (d + i) c; memcpy_loop m' d s (i + 1) n }
      else Some m)"
  by pat_completeness auto
termination memcpy_loop
  by (relation "measure (\<lambda>(m, d, s, i, n). n - i)") auto

declare memcpy_loop.simps [simp del]

definition memcpy :: "mem \<Rightarrow> nat \<Rightarrow> nat \<Rightarrow> nat \<Rightarrow> (mem \<times> nat) option" where
  "memcpy m dst src n = do { m' \<leftarrow> memcpy_loop m dst src 0 n; Some (m', dst) }"

text \<open>The loop \<^verbatim>\<open>while (i-- > 0)\<close> of the copy from the end.\<close>

fun memmove_down :: "mem \<Rightarrow> nat \<Rightarrow> nat \<Rightarrow> nat \<Rightarrow> mem option" where
  "memmove_down m d s i =
     (if i > 0 then
        do { c \<leftarrow> load m (s + (i - 1)); m' \<leftarrow> store m (d + (i - 1)) c; memmove_down m' d s (i - 1) }
      else Some m)"

declare memmove_down.simps [simp del]

definition memmove :: "mem \<Rightarrow> nat \<Rightarrow> nat \<Rightarrow> nat \<Rightarrow> (mem \<times> nat) option" where
  "memmove m dst src n =
     do {
       m' \<leftarrow> (if dst < src then memcpy_loop m dst src 0 n else memmove_down m dst src n);
       Some (m', dst)
     }"

text \<open>The index of \<open>memset\<close> is an \<^verbatim>\<open>int\<close>: counting past \<open>2\<^sup>3\<^sup>1 - 1\<close> is undefined (\<open>None\<close>).\<close>

function memset_loop :: "mem \<Rightarrow> nat \<Rightarrow> u8 \<Rightarrow> nat \<Rightarrow> nat \<Rightarrow> mem option" where
  "memset_loop m d c i n =
     (if i < n then
        do { m' \<leftarrow> store m (d + i) c; if i < 2 ^ 31 - 1 then memset_loop m' d c (i + 1) n else None }
      else Some m)"
  by pat_completeness auto
termination memset_loop
  by (relation "measure (\<lambda>(m, d, c, i, n). n - i)") auto

declare memset_loop.simps [simp del]

definition memset :: "mem \<Rightarrow> nat \<Rightarrow> int \<Rightarrow> nat \<Rightarrow> (mem \<times> nat) option" where
  "memset m s c n = do { m' \<leftarrow> memset_loop m s (word_of_int c) 0 n; Some (m', s) }"

section \<open>Strings\<close>

partial_function (option) strlen_loop :: "mem \<Rightarrow> nat \<Rightarrow> nat \<Rightarrow> nat option" where
  "strlen_loop m s i = do { c \<leftarrow> load m (s + i); if c \<noteq> 0 then strlen_loop m s (i + 1) else Some i }"

definition strlen :: "mem \<Rightarrow> nat \<Rightarrow> nat option" where
  "strlen m s = strlen_loop m s 0"

partial_function (option) strcpy_loop :: "mem \<Rightarrow> nat \<Rightarrow> nat \<Rightarrow> nat \<Rightarrow> (mem \<times> nat) option" where
  "strcpy_loop m dst src i =
     do {
       c \<leftarrow> load m (src + i);
       if c \<noteq> 0 then do { m' \<leftarrow> store m (dst + i) c; strcpy_loop m' dst src (i + 1) } else Some (m, i)
     }"

definition strcpy :: "mem \<Rightarrow> nat \<Rightarrow> nat \<Rightarrow> (mem \<times> nat) option" where
  "strcpy m dst src =
     do { (m1, i) \<leftarrow> strcpy_loop m dst src 0; m2 \<leftarrow> store m1 (dst + i) 0; Some (m2, dst) }"

text \<open>The search for the end of \<open>dst\<close> in \<open>strcat\<close> is the loop of \<open>strlen\<close>.\<close>

definition strcat :: "mem \<Rightarrow> nat \<Rightarrow> nat \<Rightarrow> (mem \<times> nat) option" where
  "strcat m dst src =
     do { i \<leftarrow> strlen_loop m dst 0; (m', _) \<leftarrow> strcpy m (dst + i) src; Some (m', dst) }"

function strncpy_copy :: "mem \<Rightarrow> nat \<Rightarrow> nat \<Rightarrow> nat \<Rightarrow> nat \<Rightarrow> (mem \<times> nat) option" where
  "strncpy_copy m dst src i n =
     (if i < n then
        do {
          c \<leftarrow> load m (src + i);
          if c \<noteq> 0 then do { m' \<leftarrow> store m (dst + i) c; strncpy_copy m' dst src (i + 1) n }
          else Some (m, i)
        }
      else Some (m, i))"
  by pat_completeness auto
termination strncpy_copy
  by (relation "measure (\<lambda>(m, d, s, i, n). n - i)") auto

declare strncpy_copy.simps [simp del]

function strncpy_pad :: "mem \<Rightarrow> nat \<Rightarrow> nat \<Rightarrow> nat \<Rightarrow> mem option" where
  "strncpy_pad m dst i n =
     (if i < n then do { m' \<leftarrow> store m (dst + i) 0; strncpy_pad m' dst (i + 1) n } else Some m)"
  by pat_completeness auto
termination strncpy_pad
  by (relation "measure (\<lambda>(m, d, i, n). n - i)") auto

declare strncpy_pad.simps [simp del]

definition strncpy :: "mem \<Rightarrow> nat \<Rightarrow> nat \<Rightarrow> nat \<Rightarrow> (mem \<times> nat) option" where
  "strncpy m dst src n =
     do { (m1, i) \<leftarrow> strncpy_copy m dst src 0 n; m2 \<leftarrow> strncpy_pad m1 dst i n; Some (m2, dst) }"

definition strncat :: "mem \<Rightarrow> nat \<Rightarrow> nat \<Rightarrow> nat \<Rightarrow> (mem \<times> nat) option" where
  "strncat m dst src n =
     do {
       dst_len \<leftarrow> strlen m dst;
       (m1, i) \<leftarrow> strncpy_copy m (dst + dst_len) src 0 n;
       m2 \<leftarrow> store m1 (dst + dst_len + i) 0;
       Some (m2, dst)
     }"

text \<open>Characters are compared as \<^verbatim>\<open>char\<close>, which is signed; \<open>strchr\<close> compares with the full \<^verbatim>\<open>int\<close>.\<close>

partial_function (option) strchr :: "mem \<Rightarrow> nat \<Rightarrow> int \<Rightarrow> nat option" where
  "strchr m str c =
     do {
       x \<leftarrow> load m str;
       if x \<noteq> 0 \<and> sint x \<noteq> c then strchr m (str + 1) c
       else Some (if x \<noteq> 0 then str else 0)
     }"

partial_function (option) strcmp :: "mem \<Rightarrow> nat \<Rightarrow> nat \<Rightarrow> int option" where
  "strcmp m s1 s2 =
     do {
       x \<leftarrow> load m s1;
       y \<leftarrow> load m s2;
       if x \<noteq> 0 \<and> x = y then strcmp m (s1 + 1) (s2 + 1) else Some (sint x - sint y)
     }"

text \<open>
  \<open>n-- > 0\<close> is evaluated only when both characters agree and are not the terminator, and it
  decrements \<open>n\<close> also when it fails, wrapping around at zero.
\<close>

partial_function (option) strncmp :: "mem \<Rightarrow> nat \<Rightarrow> nat \<Rightarrow> u64 \<Rightarrow> int option" where
  "strncmp m s1 s2 n =
     do {
       x \<leftarrow> load m s1;
       y \<leftarrow> load m s2;
       if x \<noteq> 0 \<and> x = y then
         (if n > 0 then strncmp m (s1 + 1) (s2 + 1) (n - 1)
          else Some (if n - 1 = 0 then 0 else sint x - sint y))
       else Some (if n = 0 then 0 else sint x - sint y)
     }"

text \<open>\<open>malloc\<close> is a parameter here: it takes the memory and a size and returns the new memory and a pointer.\<close>

definition strdup :: "(mem \<Rightarrow> nat \<Rightarrow> (mem \<times> nat) option) \<Rightarrow> mem \<Rightarrow> nat \<Rightarrow> (mem \<times> nat) option" where
  "strdup malloc m s =
     do {
       len \<leftarrow> strlen m s;
       let size' = len + 1;
       (m1, s2) \<leftarrow> malloc m size';
       if s2 = 0 then Some (m1, 0)
       else do { (m2, _) \<leftarrow> memcpy m1 s2 s size'; Some (m2, s2) }
     }"

text \<open>
  \<open>strtok\<close> keeps the rest of the string in the static pointer \<open>next\<close>, here an argument and a result.
  The first search looks at every delimiter, the second stops at the first that matches.
\<close>

partial_function (option) strtok_in_delim :: "mem \<Rightarrow> nat \<Rightarrow> u8 \<Rightarrow> nat \<Rightarrow> bool \<Rightarrow> bool option" where
  "strtok_in_delim m delim c j found =
     do {
       d \<leftarrow> load m (delim + j);
       if d \<noteq> 0 then strtok_in_delim m delim c (j + 1) (found \<or> c = d) else Some found
     }"

partial_function (option) strtok_token :: "mem \<Rightarrow> nat \<Rightarrow> nat \<Rightarrow> nat \<Rightarrow> (nat \<times> bool) option" where
  "strtok_token m str delim i =
     do {
       c \<leftarrow> load m (str + i);
       if c = 0 then Some (i, False)
       else do {
         found_delim \<leftarrow> strtok_in_delim m delim c 0 False;
         if \<not> found_delim then Some (i, True) else strtok_token m str delim (i + 1)
       }
     }"

partial_function (option) strtok_is_delim :: "mem \<Rightarrow> nat \<Rightarrow> u8 \<Rightarrow> nat \<Rightarrow> bool option" where
  "strtok_is_delim m delim c j =
     do {
       d \<leftarrow> load m (delim + j);
       if d = 0 then Some False else if c = d then Some True else strtok_is_delim m delim c (j + 1)
     }"

partial_function (option) strtok_finish :: "mem \<Rightarrow> nat \<Rightarrow> nat \<Rightarrow> nat \<Rightarrow> (nat \<times> bool) option" where
  "strtok_finish m str delim i =
     do {
       c \<leftarrow> load m (str + i);
       if c = 0 then Some (i, False)
       else do {
         found_delim \<leftarrow> strtok_is_delim m delim c 0;
         if found_delim then Some (i, True) else strtok_finish m str delim (i + 1)
       }
     }"

definition strtok_scan :: "mem \<Rightarrow> nat \<Rightarrow> nat \<Rightarrow> nat \<Rightarrow> (mem \<times> nat \<times> nat) option" where
  "strtok_scan m next' str delim =
     do {
       c \<leftarrow> load m str;
       if c = 0 then Some (m, 0, 0)
       else do {
         d \<leftarrow> load m delim;
         if d = 0 then Some (m, next', str)
         else do {
           (i, found_token) \<leftarrow> strtok_token m str delim 0;
           if \<not> found_token then Some (m, 0, 0)
           else do {
             let str1 = str + i;
             (i1, found_delim) \<leftarrow> strtok_finish m str1 delim 0;
             if found_delim then do { m1 \<leftarrow> store m (str1 + i1) 0; Some (m1, str1 + i1 + 1, str1) }
             else Some (m, 0, str1)
           }
         }
       }
     }"

definition strtok :: "mem \<Rightarrow> nat \<Rightarrow> nat \<Rightarrow> nat \<Rightarrow> (mem \<times> nat \<times> nat) option" where
  "strtok m next' str delim =
     (if str = 0 then if next' = 0 then Some (m, next', 0) else strtok_scan m next' next' delim
      else strtok_scan m next' str delim)"

section \<open>Copying\<close>

lemma load_some [simp]: "load m a = m a"
  by (simp add: load_def)

lemma store_mapped [simp]: "m a = Some v \<Longrightarrow> store m a w = Some (m(a \<mapsto> w))"
  by (simp add: store_def)

lemma put_snoc: "put m d (bs @ [b]) = (put m d bs)(d + length bs \<mapsto> b)"
  by (simp add: put_append)

lemma put_take_Suc:
  "i < length bs \<Longrightarrow> put m d (take (Suc i) bs) = (put m d (take i bs))(d + i \<mapsto> bs ! i)"
  by (simp add: take_Suc_conv_app_nth put_snoc)

lemma put_upd_before: "x < a \<Longrightarrow> (put m a bs)(x \<mapsto> v) = put (m(x \<mapsto> v)) a bs"
  by (auto simp: fun_eq_iff put_apply)

lemma put_drop_pred:
  "i < length bs \<Longrightarrow> (put m (d + Suc i) (drop (Suc i) bs))(d + i \<mapsto> bs ! i) = put m (d + i) (drop i bs)"
  by (simp add: put_upd_before Cons_nth_drop_Suc [symmetric])

lemma memcpy_loop_put:
  assumes "holds_bytes m s bs" "mapped m d (length bs)" "d \<le> s \<or> s + length bs \<le> d" "i \<le> length bs"
  shows "memcpy_loop (put m d (take i bs)) d s i (length bs) = Some (put m d bs)"
  using assms(4)
proof (induction "length bs - i" arbitrary: i)
  case 0
  then show ?case by (simp add: memcpy_loop.simps)
next
  case (Suc k)
  then have i: "i < length bs" by simp
  have "put m d (take i bs) (s + i) = Some (bs ! i)"
    using assms(1,3) i by (auto simp: put_apply holds_bytes_iff)
  moreover obtain v where "put m d (take i bs) (d + i) = Some v"
    using mapped_nth [OF mapped_put [OF assms(2)] i] by blast
  ultimately show ?case
    using Suc.hyps(1) [of "Suc i"] Suc.hyps(2) i put_take_Suc [OF i, of m d]
    by (subst memcpy_loop.simps) simp
qed

lemma memmove_down_put:
  assumes "holds_bytes m s bs" "mapped m d (length bs)" "s \<le> d" "i \<le> length bs"
  shows "memmove_down (put m (d + i) (drop i bs)) d s i = Some (put m d bs)"
  using assms(4)
proof (induction i)
  case 0
  then show ?case by (simp add: memmove_down.simps)
next
  case (Suc i)
  then have i: "i < length bs" by simp
  have "put m (d + Suc i) (drop (Suc i) bs) (s + i) = Some (bs ! i)"
    using assms(1,3) i by (auto simp: put_apply holds_bytes_iff)
  moreover obtain v where "put m (d + Suc i) (drop (Suc i) bs) (d + i) = Some v"
    using mapped_nth [OF mapped_put [OF assms(2)] i] by blast
  ultimately show ?case
    using Suc i put_drop_pred [OF i, of m d] by (subst memmove_down.simps) simp
qed

lemma memcpy_put:
  assumes "holds_bytes m s bs" "mapped m d (length bs)" "d \<le> s \<or> s + length bs \<le> d"
  shows "memcpy m d s (length bs) = Some (put m d bs, d)"
  using memcpy_loop_put [OF assms, of 0] by (simp add: memcpy_def)

lemma memset_loop_put:
  assumes "mapped m d n" "n < 2 ^ 31" "i \<le> n"
  shows "memset_loop (put m d (replicate i c)) d c i n = Some (put m d (replicate n c))"
  using assms(3)
proof (induction "n - i" arbitrary: i)
  case 0
  then show ?case by (simp add: memset_loop.simps)
next
  case (Suc k)
  then have i: "i < n" by simp
  obtain v where "put m d (replicate i c) (d + i) = Some v"
    using mapped_nth [OF mapped_put [OF assms(1)] i] by blast
  moreover have "put m d (replicate (Suc i) c) = (put m d (replicate i c))(d + i \<mapsto> c)"
    by (auto simp: fun_eq_iff put_apply nth_replicate simp del: replicate_Suc)
  ultimately show ?case
    using Suc.hyps(1) [of "Suc i"] Suc.hyps(2) i assms(2) by (subst memset_loop.simps) simp
qed

lemma memset_put:
  "mapped m d n \<Longrightarrow> n < 2 ^ 31 \<Longrightarrow> memset m d c n = Some (put m d (replicate n (word_of_int c)), d)"
  using memset_loop_put [of m d n 0] by (simp add: memset_def)

section \<open>Terminated strings\<close>

definition cstr :: "mem \<Rightarrow> nat \<Rightarrow> u8 list \<Rightarrow> bool" where
  "cstr m p cs \<longleftrightarrow> holds_bytes m p (cs @ [0]) \<and> 0 \<notin> set cs"

lemma cstr_simps [simp]:
  "cstr m p [] \<longleftrightarrow> m p = Some 0"
  "cstr m p (c # cs) \<longleftrightarrow> m p = Some c \<and> c \<noteq> 0 \<and> cstr m (p + 1) cs"
  by (auto simp: cstr_def)

lemma cstr_append [simp]:
  "cstr m p (xs @ ys) \<longleftrightarrow> holds_bytes m p xs \<and> 0 \<notin> set xs \<and> cstr m (p + length xs) ys"
  by (auto simp: cstr_def)

lemma cstr_unique: "cstr m p xs \<Longrightarrow> cstr m p ys \<Longrightarrow> xs = ys"
proof (induction xs arbitrary: p ys)
  case Nil
  then show ?case by (cases ys) auto
next
  case (Cons x xs)
  then show ?case by (cases ys) auto
qed

lemma strlen_loop_cstr: "cstr m (s + i) cs \<Longrightarrow> strlen_loop m s i = Some (i + length cs)"
proof (induction cs arbitrary: i)
  case Nil
  then show ?case by (subst strlen_loop.simps) simp
next
  case (Cons c cs)
  then show ?case by (subst strlen_loop.simps) simp
qed

lemma strlen_cstr: "cstr m s cs \<Longrightarrow> strlen m s = Some (length cs)"
  using strlen_loop_cstr [of m s 0] by (simp add: strlen_def)

lemma cstr_put_other:
  "cstr m p cs \<Longrightarrow> {a ..< a + length bs} \<inter> {p .. p + length cs} = {} \<Longrightarrow> cstr (put m a bs) p cs"
  unfolding cstr_def by (auto simp flip: One_nat_def intro!: holds_put_other simp: put_apply)

lemma strcpy_loop_put:
  assumes "cstr m s cs" "mapped m d (length cs)" "d \<le> s \<or> s + length cs < d" "i \<le> length cs"
  shows "strcpy_loop (put m d (take i cs)) d s i = Some (put m d cs, length cs)"
  using assms(4)
proof (induction "length cs - i" arbitrary: i)
  case 0
  then have "put m d (take i cs) (s + i) = Some 0"
    using assms(1,3) by (auto simp: put_apply cstr_def)
  then show ?case using 0 by (subst strcpy_loop.simps) simp
next
  case (Suc k)
  then have i: "i < length cs" by simp
  have "put m d (take i cs) (s + i) = Some (cs ! i)" "cs ! i \<noteq> 0"
    using assms(1,3) i nth_mem [OF i] by (auto simp: put_apply holds_bytes_iff cstr_def nth_append less_SucI simp del: nth_mem)
  moreover obtain v where "put m d (take i cs) (d + i) = Some v"
    using mapped_nth [OF mapped_put [OF assms(2)] i] by blast
  ultimately show ?case
    using Suc.hyps(1) [of "Suc i"] Suc.hyps(2) i put_take_Suc [OF i, of m d]
    by (subst strcpy_loop.simps) simp
qed

lemma mapped_le: "mapped m d n \<Longrightarrow> k \<le> n \<Longrightarrow> mapped m d k"
  unfolding mapped_def by (rule order_trans [rotated]) auto

lemma mapped_shift: "mapped m d (k + n) \<Longrightarrow> mapped m (d + k) n"
  unfolding mapped_def by (rule order_trans [rotated]) auto

lemma strcpy_put:
  assumes "cstr m s cs" "mapped m d (length cs + 1)" "d \<le> s \<or> s + length cs < d"
  shows "strcpy m d s = Some (put m d (cs @ [0]), d)"
proof -
  have "strcpy_loop m d s 0 = Some (put m d cs, length cs)"
    using strcpy_loop_put [OF assms(1) mapped_le [OF assms(2)] assms(3), of 0] by simp
  moreover obtain v where "put m d cs (d + length cs) = Some v"
    using mapped_nth [OF mapped_put [OF assms(2)], of "length cs" d cs] by auto
  ultimately show ?thesis by (simp add: strcpy_def put_snoc)
qed

lemma strcat_put:
  assumes "cstr m d ds" "cstr m s cs" "mapped m d (length ds + length cs + 1)"
    and "s + length cs < d + length ds \<or> d + length ds \<le> s"
  shows "strcat m d s = Some (put m (d + length ds) (cs @ [0]), d)"
proof -
  have "mapped m (d + length ds) (length cs + 1)"
    using mapped_shift [of m d "length ds"] assms(3) by simp
  then show ?thesis
    using strcpy_put [OF assms(2), of "d + length ds"] assms(4) strlen_loop_cstr [of m d 0 ds] assms(1)
    by (auto simp: strcat_def)
qed

lemma strncpy_copy_put:
  assumes "cstr m s cs" "mapped m d (min n (length cs))" "d \<le> s \<or> s + length cs < d"
    and "i \<le> min n (length cs)"
  shows "strncpy_copy (put m d (take i cs)) d s i n = Some (put m d (take n cs), min n (length cs))"
  using assms(4)
proof (induction "min n (length cs) - i" arbitrary: i)
  case 0
  then have *: "i = min n (length cs)" by simp
  show ?case
  proof (cases "i < n")
    case True
    then have "put m d (take i cs) (s + i) = Some 0"
      using * assms(1,3) by (auto simp: put_apply cstr_def)
    then show ?thesis using * True by (subst strncpy_copy.simps) simp
  next
    case False
    then show ?thesis using * by (subst strncpy_copy.simps) (simp add: min_def split: if_splits)
  qed
next
  case (Suc k)
  then have i: "i < length cs" "i < n" by simp_all
  have "put m d (take i cs) (s + i) = Some (cs ! i)" "cs ! i \<noteq> 0"
    using assms(1,3) i nth_mem [OF i(1)] by (auto simp: put_apply holds_bytes_iff cstr_def nth_append less_SucI simp del: nth_mem)
  moreover obtain v where "put m d (take i cs) (d + i) = Some v"
    using mapped_nth [OF mapped_put [OF assms(2)], of i] i by auto
  ultimately show ?case
    using Suc.hyps(1) [of "Suc i"] Suc.hyps(2) i put_take_Suc [OF i(1), of m d]
    by (subst strncpy_copy.simps) simp
qed

lemma strncpy_pad_put:
  assumes "mapped m d n" "k \<le> n"
  shows "strncpy_pad m d k n = Some (put m (d + k) (replicate (n - k) 0))"
  using assms
proof (induction "n - k" arbitrary: m k)
  case 0
  then show ?case by (simp add: strncpy_pad.simps)
next
  case (Suc j)
  then have k: "k < n" by simp
  obtain v where "m (d + k) = Some v" using mapped_nth [OF Suc.prems(1) k] by blast
  moreover have "replicate (n - k) (0 :: u8) = 0 # replicate (n - Suc k) 0"
    using k by (metis Suc_diff_Suc replicate_Suc)
  ultimately show ?case
    using Suc.hyps(1) [of "Suc k" "m(d + k \<mapsto> 0)"] Suc.hyps(2) Suc.prems k
    by (subst strncpy_pad.simps) simp
qed

lemma strncpy_put:
  assumes "cstr m s cs" "mapped m d n" "d \<le> s \<or> s + length cs < d"
  shows "strncpy m d s n = Some (put m d (take n cs @ replicate (n - length cs) 0), d)"
proof -
  have "strncpy_copy m d s 0 n = Some (put m d (take n cs), min n (length cs))"
    using strncpy_copy_put [OF assms(1) mapped_le [OF assms(2)] assms(3), of n 0] by simp
  moreover have "strncpy_pad (put m d (take n cs)) d (min n (length cs)) n =
      Some (put m d (take n cs @ replicate (n - length cs) 0))"
    using strncpy_pad_put [OF mapped_put [OF assms(2)], of "min n (length cs)"]
    by (simp add: put_append min_def split: if_splits)
  ultimately show ?thesis by (simp add: strncpy_def)
qed

lemma strncat_put:
  assumes "cstr m d ds" "cstr m s cs" "mapped m d (length ds + min n (length cs) + 1)"
    and "s + length cs < d + length ds \<or> d + length ds \<le> s"
  shows "strncat m d s n = Some (put m (d + length ds) (take n cs @ [0]), d)"
proof -
  let ?e = "d + length ds" and ?k = "min n (length cs)"
  have mp: "mapped m ?e (?k + 1)" using mapped_shift [of m d "length ds"] assms(3) by simp
  have "strncpy_copy m ?e s 0 n = Some (put m ?e (take n cs), ?k)"
    using strncpy_copy_put [OF assms(2) mapped_le [OF mp], of n 0] assms(4) by auto
  moreover obtain v where "put m ?e (take n cs) (?e + ?k) = Some v"
    using mapped_nth [OF mapped_put [OF mp], of ?k] by auto
  ultimately show ?thesis
    by (simp add: strncat_def strlen_cstr [OF assms(1)] put_snoc min.commute)
qed

section \<open>Comparing and searching\<close>

text \<open>The difference of the first two characters that differ; 0 if one list ends first.\<close>

fun first_diff :: "u8 list \<Rightarrow> u8 list \<Rightarrow> int" where
  "first_diff (x # xs) (y # ys) = (if x \<noteq> y then sint x - sint y else first_diff xs ys)"
| "first_diff _ _ = 0"

lemma first_diff_zero: "length xs = length ys \<Longrightarrow> first_diff xs ys = 0 \<longleftrightarrow> xs = ys"
  by (induction xs ys rule: first_diff.induct) (auto dest: signed_word_eqI)

lemma strcmp_first_diff:
  "cstr m p xs \<Longrightarrow> cstr m q ys \<Longrightarrow> strcmp m p q = Some (first_diff (xs @ [0]) (ys @ [0]))"
proof (induction xs arbitrary: p q ys)
  case Nil
  then show ?case by (subst strcmp.simps) (cases ys; simp)
next
  case (Cons x xs)
  then show ?case by (subst strcmp.simps) (cases ys; simp)
qed

lemma unat_Suc_pred: "0 < (n :: u64) \<Longrightarrow> unat n = Suc (unat (n - 1))"
  by (metis Suc_pred' unat_gt_0 unat_minus_one word_neq_0_conv)

lemma strncmp_first_diff:
  "cstr m p xs \<Longrightarrow> cstr m q ys \<Longrightarrow>
     strncmp m p q n = Some (first_diff (take (unat n) (xs @ [0])) (take (unat n) (ys @ [0])))"
proof (induction xs arbitrary: p q ys n)
  case Nil
  then show ?case
    by (subst strncmp.simps; cases "n = 0"; cases ys)
      (auto simp add: unat_Suc_pred word_neq_0_conv)
next
  case (Cons x xs)
  show ?case
  proof (cases "n = 0")
    case True
    with Cons.prems show ?thesis by (subst strncmp.simps) (cases ys; simp)
  next
    case False
    then have "unat n = Suc (unat (n - 1))" by (simp add: unat_Suc_pred word_gt_0)
    with False Cons.prems Cons.IH show ?thesis
      by (subst strncmp.simps) (cases ys; auto simp add: word_gt_0)
  qed
qed

lemma first_diff_prefix:
  "0 \<notin> set xs \<Longrightarrow> 0 \<notin> set ys \<Longrightarrow>
     first_diff (take k (xs @ [0])) (take k (ys @ [0])) = 0 \<longleftrightarrow> take k (xs @ [0]) = take k (ys @ [0])"
proof (induction xs ys arbitrary: k rule: list_induct2')
  case (2 x xs)
  then show ?case by (cases k) (auto dest!: signed_word_eqI [of x 0, simplified] simp: take_Cons' split: if_splits)
next
  case (3 y ys)
  then show ?case by (cases k) (auto dest!: signed_word_eqI [of y 0, simplified] simp: take_Cons' split: if_splits)
next
  case (4 x xs y ys)
  then show ?case by (cases k) (auto dest: signed_word_eqI)
qed (simp add: first_diff_zero)

lemma strncmp_zero:
  assumes "cstr m p xs" "cstr m q ys"
  shows "\<exists>r. strncmp m p q n = Some r \<and> (r = 0 \<longleftrightarrow> take (unat n) (xs @ [0]) = take (unat n) (ys @ [0]))"
  using strncmp_first_diff [OF assms, of n] first_diff_prefix [of xs ys] assms by (simp add: cstr_def)

text \<open>Comparing as many characters as one of the strings has tests whether it is a prefix of the other.\<close>

lemma strncmp_prefix:
  assumes "cstr m p xs" "cstr m q ys" "length xs < 2 ^ 64"
  shows "\<exists>r. strncmp m p q (of_nat (length xs)) = Some r \<and> (r = 0 \<longleftrightarrow> take (length xs) ys = xs)"
proof -
  have "unat (of_nat (length xs) :: u64) = length xs" using assms(3) by (simp add: unsigned_of_nat take_bit_nat_eq_self)
  moreover have "take (length xs) (xs @ [0]) = take (length xs) (ys @ [0]) \<longleftrightarrow> take (length xs) ys = xs"
  proof (cases "length xs \<le> length ys")
    case False
    then have "take (length xs) ys \<noteq> xs" "take (length xs) (ys @ [0]) = ys @ [0]" by auto
    then show ?thesis using assms(1) by (auto simp: cstr_def)
  qed auto
  ultimately show ?thesis using strncmp_zero [OF assms(1,2), of "of_nat (length xs)"] by auto
qed

lemma memcmp_loop_diff:
  "holds_bytes m a (xs) \<Longrightarrow> holds_bytes m b ys \<Longrightarrow> length xs = length ys \<Longrightarrow> i \<le> length xs \<Longrightarrow>
     memcmp_loop m a b i (length xs) = Some (first_diff (drop i xs) (drop i ys))"
proof (induction "length xs - i" arbitrary: i)
  case 0
  then show ?case by (simp add: memcmp_loop.simps)
next
  case (Suc k)
  then have i: "i < length xs" "i < length ys" by simp_all
  then show ?case
    using Suc.hyps(1) [of "Suc i"] Suc.hyps(2) Suc.prems
    by (subst memcmp_loop.simps) (simp add: holds_bytes_iff Cons_nth_drop_Suc [symmetric])
qed

lemma memcmp_signed:
  assumes "holds_bytes m a [0xFF]" "holds_bytes m b [1]"
  shows "memcmp m a b 1 = Some (- 2)"
  using memcmp_loop_diff [OF assms, of 0] by (simp add: memcmp_def)

lemma strchr_index:
  "cstr m p cs \<Longrightarrow> strchr m p c =
     Some (let k = length (takeWhile (\<lambda>x. sint x \<noteq> c) cs) in if k < length cs then p + k else 0)"
proof (induction cs arbitrary: p)
  case Nil
  then show ?case by (subst strchr.simps) simp
next
  case (Cons x cs)
  then show ?case by (subst strchr.simps) (auto simp: Let_def)
qed

section \<open>Tokens\<close>

lemma strtok_in_delim_set:
  "cstr m (delim + j) ds \<Longrightarrow> strtok_in_delim m delim c j found = Some (found \<or> c \<in> set ds)"
proof (induction ds arbitrary: j found)
  case Nil
  then show ?case by (subst strtok_in_delim.simps) simp
next
  case (Cons d ds)
  then show ?case by (subst strtok_in_delim.simps) auto
qed

lemma strtok_is_delim_set: "cstr m (delim + j) ds \<Longrightarrow> strtok_is_delim m delim c j = Some (c \<in> set ds)"
proof (induction ds arbitrary: j)
  case Nil
  then show ?case by (subst strtok_is_delim.simps) simp
next
  case (Cons d ds)
  then show ?case by (subst strtok_is_delim.simps) auto
qed

lemma strtok_token_skip:
  assumes "cstr m delim ds"
  shows "cstr m (str + i) cs \<Longrightarrow> strtok_token m str delim i =
     Some (i + length (takeWhile (\<lambda>c. c \<in> set ds) cs), \<not> set cs \<subseteq> set ds)"
proof (induction cs arbitrary: i)
  case Nil
  then show ?case by (subst strtok_token.simps) simp
next
  case (Cons c cs)
  then show ?case
    using strtok_in_delim_set [of m delim 0 ds] assms by (subst strtok_token.simps) simp
qed

lemma strtok_finish_at:
  assumes "cstr m delim ds"
  shows "cstr m (str + i) cs \<Longrightarrow> strtok_finish m str delim i =
     Some (i + length (takeWhile (\<lambda>c. c \<notin> set ds) cs), \<exists>c\<in>set cs. c \<in> set ds)"
proof (induction cs arbitrary: i)
  case Nil
  then show ?case by (subst strtok_finish.simps) simp
next
  case (Cons c cs)
  then show ?case
    using strtok_is_delim_set [of m delim 0 ds] assms by (subst strtok_finish.simps) simp
qed

lemma strtok_scan_token:
  assumes str: "cstr m s (pre @ tok @ post)" and ds: "cstr m delim ds" "ds \<noteq> []"
    and parts: "set pre \<subseteq> set ds" "tok \<noteq> []" "set tok \<inter> set ds = {}" "post = [] \<or> hd post \<in> set ds"
  shows "strtok_scan m nx s delim =
    (if post = [] then Some (m, 0, s + length pre)
     else Some (m(s + length pre + length tok \<mapsto> 0), s + length pre + length tok + 1, s + length pre))"
proof -
  obtain t ts where t: "tok = t # ts" using parts(2) by (cases tok) auto
  have "t \<notin> set ds" using parts t by auto
  have first: "\<exists>c. m s = Some c \<and> c \<noteq> 0" using str t by (cases pre) auto
  have d0: "\<exists>d. m delim = Some d \<and> d \<noteq> 0" using ds by (cases ds) auto
  have tw1: "takeWhile (\<lambda>c. c \<in> set ds) (pre @ tok @ post) = pre"
    using parts(1) t \<open>t \<notin> set ds\<close> by (subst takeWhile_append2) auto
  have tw2: "takeWhile (\<lambda>c. c \<notin> set ds) (tok @ post) = tok"
    using parts(3,4) by (subst takeWhile_append2; cases post) auto
  have s1: "strtok_token m s delim 0 = Some (length pre, True)"
    using strtok_token_skip [OF ds(1), of s 0 "pre @ tok @ post"] str \<open>t \<notin> set ds\<close> t
    unfolding tw1 by auto
  have s2: "strtok_finish m (s + length pre) delim 0 = Some (length tok, post \<noteq> [])"
    using strtok_finish_at [OF ds(1), of "s + length pre" 0 "tok @ post"] str parts
    unfolding tw2 by (cases post) auto
  have "post \<noteq> [] \<Longrightarrow> \<exists>c. m (s + length pre + length tok) = Some c"
    using str by (auto simp: neq_Nil_conv)
  then show ?thesis
    using first d0 s1 s2 by (auto simp: strtok_scan_def Let_def)
qed

section \<open>Properties\<close>

text \<open>Concrete memories for the witnesses: strings placed one after the other, with room behind them.\<close>

definition demo_mem :: mem where
  "demo_mem = put (\<lambda>_. None) 16 [44, 97, 98, 44, 99, 0, 44, 0, 97, 98, 0, 7, 7, 7, 7, 7]"

lemma demo_mem_mapped: "16 \<le> a \<Longrightarrow> a + n \<le> 32 \<Longrightarrow> mapped demo_mem a n"
  by (auto simp: mapped_def demo_mem_def put_apply simp del: put.simps)

lemma demo_mem_strings:
  "holds_bytes demo_mem 16 [44, 97, 98]" "demo_mem 17 = Some 97"
  "cstr demo_mem 16 ([44] @ [97, 98] @ [44, 99])" "cstr demo_mem 17 [97, 98, 44, 99]"
  "cstr demo_mem 22 [44]" "cstr demo_mem 24 [97, 98]"
  by (simp_all add: demo_mem_def put_apply)

text \<open>
  C39: \<open>memmove\<close> returns and leaves at the destination exactly the bytes the source range held before,
  however the two ranges overlap; every other byte keeps its value.
\<close>

theorem memmove_moves:
  assumes "holds_bytes m src bs" "mapped m dst (length bs)"
  shows "\<exists>m'. memmove m dst src (length bs) = Some (m', dst) \<and> holds_bytes m' dst bs \<and>
     (\<forall>a. a \<notin> {dst ..< dst + length bs} \<longrightarrow> m' a = m a)"
proof -
  have "memmove m dst src (length bs) = Some (put m dst bs, dst)"
  proof (cases "dst < src")
    case True
    then show ?thesis using memcpy_loop_put [OF assms, of 0] by (simp add: memmove_def)
  next
    case False
    then show ?thesis using memmove_down_put [OF assms, of "length bs"] by (simp add: memmove_def)
  qed
  then show ?thesis by (auto simp: put_apply)
qed

theorem memmove_moves_witness:
  "\<exists>m'. memmove demo_mem 18 16 3 = Some (m', 18) \<and> holds_bytes m' 18 [44, 97, 98] \<and> m' 17 = Some 97"
  using memmove_moves [OF demo_mem_strings(1) demo_mem_mapped, of 18] demo_mem_strings(2)
  by (auto simp: numeral_3_eq_3)

text \<open>
  \<open>strncmp\<close> returns; its result is the difference of the first characters that differ among the
  first \<open>n\<close> (0 if there are none), although the counter wraps around when the limit is reached; in
  particular it is 0 exactly when the strings, terminator included, agree on their first \<open>n\<close> characters.
\<close>

theorem strncmp_compares_prefix:
  assumes "cstr m p xs" "cstr m q ys"
  shows "strncmp m p q n = Some (first_diff (take (unat n) (xs @ [0])) (take (unat n) (ys @ [0]))) \<and>
     (strncmp m p q n = Some 0 \<longleftrightarrow> take (unat n) (xs @ [0]) = take (unat n) (ys @ [0]))"
  using strncmp_first_diff [OF assms, of n] first_diff_prefix [of xs ys] assms by (simp add: cstr_def)

theorem strncmp_compares_prefix_witness:
  "strncmp demo_mem 17 24 2 = Some 0 \<and> strncmp demo_mem 17 24 3 = Some 44"
  using strncmp_compares_prefix [OF demo_mem_strings(4,6), of 2]
    strncmp_compares_prefix [OF demo_mem_strings(4,6), of 3] by simp

text \<open>
  \<open>strcat\<close> returns the destination, which then holds the two strings one after the other and is
  terminated; nothing outside the appended part changes. The source may not overlap the end of the
  destination.
\<close>

theorem strcat_appends:
  assumes "cstr m d ds" "cstr m s cs" "mapped m d (length ds + length cs + 1)"
    and "s + length cs < d \<or> d + length ds + length cs < s"
  shows "\<exists>m'. strcat m d s = Some (m', d) \<and> cstr m' d (ds @ cs) \<and> cstr m' s cs \<and>
     (\<forall>a. a \<notin> {d + length ds .. d + length ds + length cs} \<longrightarrow> m' a = m a)"
proof -
  let ?m = "put m (d + length ds) (cs @ [0])"
  have "strcat m d s = Some (?m, d)" using strcat_put [OF assms(1-3)] assms(4) by auto
  moreover have "holds_bytes ?m d ds"
    using assms(1) by (intro holds_put_other) (auto simp: cstr_def)
  then have "cstr ?m d (ds @ cs)"
    using assms(1,2) holds_put [of m "d + length ds" "cs @ [0]"] by (auto simp: cstr_def)
  moreover have "cstr ?m s cs" using assms(2,4) by (intro cstr_put_other) auto
  ultimately show ?thesis by (auto simp: put_apply)
qed

theorem strcat_appends_witness:
  "\<exists>m'. strcat demo_mem 24 22 = Some (m', 24) \<and> cstr m' 24 [97, 98, 44]"
  using strcat_appends [OF demo_mem_strings(6,5) demo_mem_mapped] by auto

text \<open>
  A call of \<open>strtok\<close> on a string skips leading delimiters, returns the token behind them,
  terminated in place, and remembers the position behind the delimiter that ended it (or nothing if
  the string ended). A following call with \<open>NULL\<close> continues there.
\<close>

theorem strtok_returns_token:
  assumes "cstr m s (pre @ tok @ post)" "cstr m delim ds" "ds \<noteq> []" "s \<noteq> 0"
    and "set pre \<subseteq> set ds" "tok \<noteq> []" "set tok \<inter> set ds = {}" "post = [] \<or> hd post \<in> set ds"
  shows "\<exists>m' nx'. strtok m nx s delim = Some (m', nx', s + length pre) \<and>
     strtok m s 0 delim = Some (m', nx', s + length pre) \<and>
     cstr m' (s + length pre) tok \<and>
     (if post = [] then nx' = 0 else nx' = s + length pre + length tok + 1 \<and> cstr m' nx' (tl post))"
proof -
  note sc = strtok_scan_token [OF assms(1,2,3,5,6,7,8)]
  let ?e = "s + length pre + length tok"
  show ?thesis
  proof (cases "post = []")
    case True
    then show ?thesis using sc assms(1,4) by (auto simp: strtok_def)
  next
    case False
    then obtain c cs where post: "post = c # cs" by (cases post) auto
    have "m(?e \<mapsto> 0) = put m ?e [0]" by simp
    then have "holds_bytes (m(?e \<mapsto> 0)) (s + length pre) tok" "cstr (m(?e \<mapsto> 0)) (?e + 1) cs"
      using assms(1) post holds_put_other [of m "s + length pre" tok ?e "[0]"]
        cstr_put_other [of m "?e + 1" cs ?e "[0]"] by (auto simp del: fun_upd_apply)
    then show ?thesis using sc assms(1,4) post by (auto simp: strtok_def cstr_def)
  qed
qed

theorem strtok_returns_token_witness:
  "\<exists>m'. strtok demo_mem 0 16 22 = Some (m', 20, 17) \<and> cstr m' 17 [97, 98] \<and> cstr m' 20 [99]"
  using strtok_returns_token [OF demo_mem_strings(3,5), of 0] by auto

end
