(* ===== verification/LibcHeap.thy ===== *)
theory LibcHeap
  imports LibcFreeList CString
begin

text \<open>
  \<^verbatim>\<open>libs/libc/stdlib/malloc.cpp\<close>: the heap of a user program. The state is the free list, the next
  address at which pages are requested, and the program's memory. The system call that maps pages is
  the parameter \<open>sys\<close> (its result is not looked at by the code); a block starts with its size, as a
  64-bit word, and the pointer handed out is 16 bytes behind it.
\<close>

section \<open>The code\<close>

record heap =
  g_FreeList :: freelist
  g_HeapPos :: u64
  hmem :: mem

type_synonym alloc_call = "mem \<Rightarrow> ptr \<Rightarrow> u64 \<Rightarrow> mem"

definition alloc_pages :: "alloc_call \<Rightarrow> heap \<Rightarrow> ptr \<Rightarrow> u64 \<Rightarrow> heap" where
  "alloc_pages sys h addr numPages = h\<lparr>hmem := sys (hmem h) addr numPages\<rparr>"

definition ReserveNew :: "alloc_call \<Rightarrow> heap \<Rightarrow> u64 \<Rightarrow> heap option" where
  "ReserveNew sys h sz =
     (let n = (sz + 4095) div 4096;
          h1 = alloc_pages sys h (g_HeapPos h) n
      in do {
        fl \<leftarrow> LMarkFree (g_FreeList h1) (g_HeapPos h1) (n * 4096);
        Some (h1\<lparr>g_FreeList := fl, g_HeapPos := g_HeapPos h1 + n * 4096\<rparr>)
      })"

definition block_size :: "u64 \<Rightarrow> u64" where
  "block_size sz = (sz + 8 * 2 + 63) div 64 * 64"

definition malloc :: "alloc_call \<Rightarrow> heap \<Rightarrow> u64 \<Rightarrow> (heap \<times> ptr) option" where
  "malloc sys h size0 =
     (let sz = block_size size0
      in do {
        g \<leftarrow> LFindFree (g_FreeList h) sz;
        (h1, g1) \<leftarrow>
          (if g = nullptr
           then do { h1 \<leftarrow> ReserveNew sys h sz; g1 \<leftarrow> LFindFree (g_FreeList h1) sz; Some (h1, g1) }
           else Some (h, g));
        fl \<leftarrow> LMarkUsed (g_FreeList h1) g1 sz;
        (m1, _) \<leftarrow> memset (hmem h1) (unat g1) 0 (unat sz);
        m2 \<leftarrow> store64 m1 (unat g1) sz;
        Some (h1\<lparr>g_FreeList := fl, hmem := m2\<rparr>, g1 + 16)
      })"

definition free :: "heap \<Rightarrow> ptr \<Rightarrow> heap option" where
  "free h block =
     (if block = nullptr then Some h
      else let b = block - 16
           in do {
             sz \<leftarrow> load64 (hmem h) (unat b);
             fl \<leftarrow> LMarkFree (g_FreeList h) b sz;
             Some (h\<lparr>g_FreeList := fl\<rparr>)
           })"

definition realloc :: "alloc_call \<Rightarrow> heap \<Rightarrow> ptr \<Rightarrow> u64 \<Rightarrow> (heap \<times> ptr) option" where
  "realloc sys h p sz =
     (if p = nullptr then malloc sys h sz
      else do {
        srcSize \<leftarrow> load64 (hmem h) (unat (p - 16));
        if sz = srcSize then Some (h, p)
        else do {
          (h1, res) \<leftarrow> malloc sys h sz;
          (m, _) \<leftarrow> memcpy (hmem h1) (unat res) (unat p) (unat (if sz > srcSize then srcSize else sz));
          Some (h1\<lparr>hmem := m\<rparr>, res)
        }
      })"

section \<open>Well-formed heaps\<close>

text \<open>The address of the first page the heap asks for.\<close>

definition heap_base :: nat where
  "heap_base = 0xFF000000"

text \<open>\<open>bs\<close> are the blocks in use: base and size of each.\<close>

definition heap_rep :: "heap \<Rightarrow> (ptr \<times> u64) list \<Rightarrow> bool" where
  "heap_rep h bs \<longleftrightarrow> fl_inv (g_FreeList h) \<and> heap_base \<le> unat (g_HeapPos h) \<and>
     fl_avail (g_FreeList h) \<subseteq> {heap_base ..< unat (g_HeapPos h)} \<and>
     {heap_base ..< unat (g_HeapPos h)} \<subseteq> dom (hmem h) \<and>
     (\<forall>(b, n)\<in>set bs. seg_ok b n \<and> 16 \<le> unat n \<and> seg b n \<subseteq> {heap_base ..< unat (g_HeapPos h)} \<and>
        seg b n \<inter> fl_avail (g_FreeList h) = {} \<and> load64 (hmem h) (unat b) = Some n) \<and>
     sorted_wrt (\<lambda>(b, n) (c, k). seg b n \<inter> seg c k = {}) bs"

text \<open>What the code relies on when it asks the kernel for pages: they become readable and writable.\<close>

definition maps_pages :: "alloc_call \<Rightarrow> bool" where
  "maps_pages sys \<longleftrightarrow> (\<forall>m a n. seg a (n * 4096) \<subseteq> dom (sys m a n) \<and> (\<forall>x\<in>dom m. sys m a n x = m x))"

lemma unat_block_size:
  assumes "unat n + 79 < 2 ^ 64"
  shows "unat (block_size n) = (unat n + 79) div 64 * 64"
proof -
  have "unat (n + 79) = unat n + 79" using assms by (simp add: unat_word_ariths)
  moreover have "(unat n + 79) div 64 * 64 \<le> unat n + 79" by (rule div_times_less_eq_dividend)
  ultimately show ?thesis
    using assms by (simp add: block_size_def unat_div unat_word_ariths add.assoc)
qed

lemma load64_cong: "(\<And>i. i < 8 \<Longrightarrow> m (a + i) = m' (a + i)) \<Longrightarrow> load64 m a = load64 m' a"
proof -
  assume *: "\<And>i. i < 8 \<Longrightarrow> m (a + i) = m' (a + i)"
  show ?thesis
    using * [of 0] * [of 1] * [of 2] * [of 3] * [of 4] * [of 5] * [of 6] * [of 7]
    by (simp add: load64_def load_def)
qed

lemma heap_repD:
  assumes "heap_rep h bs" "(b, n) \<in> set bs"
  shows "seg_ok b n" "seg b n \<subseteq> {heap_base ..< unat (g_HeapPos h)}" "seg b n \<inter> fl_avail (g_FreeList h) = {}"
    "load64 (hmem h) (unat b) = Some n" "i < 8 \<Longrightarrow> unat b + i \<in> seg b n"
  using assms by (auto simp: heap_rep_def seg_def)

lemma unat_reserve:
  assumes "unat (sz :: u64) + 4095 < 2 ^ 64" "sz \<noteq> 0"
  shows "unat ((sz + 4095) div 4096 * 4096) = (unat sz + 4095) div 4096 * 4096"
    "unat sz \<le> unat ((sz + 4095) div 4096 * 4096)" "unat ((sz + 4095) div 4096 * 4096) \<le> unat sz + 4095"
proof -
  have "unat (sz + 4095) = unat sz + 4095" using assms by (simp add: unat_word_ariths)
  moreover have le: "(unat sz + 4095) div 4096 * 4096 \<le> unat sz + 4095" by (rule div_times_less_eq_dividend)
  ultimately show *: "unat ((sz + 4095) div 4096 * 4096) = (unat sz + 4095) div 4096 * 4096"
    using assms by (simp add: unat_div unat_word_ariths)
  show "unat sz \<le> unat ((sz + 4095) div 4096 * 4096)" "unat ((sz + 4095) div 4096 * 4096) \<le> unat sz + 4095"
    unfolding * using le by auto
qed

lemma ReserveNew_correct:
  assumes rep: "heap_rep h bs" and sys: "maps_pages sys" and sz: "sz \<noteq> 0"
    and room: "unat (g_HeapPos h) + unat sz + 4096 < 2 ^ 64"
  shows "\<exists>h' g. ReserveNew sys h sz = Some h' \<and> heap_rep h' bs \<and>
    LFindFree (g_FreeList h') sz = Some g \<and> g \<noteq> nullptr \<and> (\<forall>x\<in>dom (hmem h). hmem h' x = hmem h x)"
proof -
  let ?n = "(sz + 4095) div 4096" and ?p = "g_HeapPos h"
  let ?len = "?n * 4096" and ?m = "sys (hmem h) ?p ?n"
  note len = unat_reserve [OF _ sz] 
  have lens: "unat sz \<le> unat ?len" "unat ?len \<le> unat sz + 4095" using len room by auto
  have sz0: "unat sz \<noteq> 0" using sz by (simp add: unat_eq_0)
  have p0: "?p \<noteq> nullptr" using rep by (auto simp: heap_rep_def heap_base_def)
  have ok: "seg_ok ?p ?len" "seg_ok ?p sz"
    using lens sz0 p0 room sz by (auto simp: seg_ok_def unat_eq_0 [symmetric] simp del: unat_eq_0)
  have new: "seg ?p ?len \<inter> fl_avail (g_FreeList h) = {}"
    using rep by (fastforce simp: heap_rep_def seg_def)
  have inv: "fl_inv (g_FreeList h)" using rep by (simp add: heap_rep_def)
  obtain fl where fl: "LMarkFree (g_FreeList h) ?p ?len = Some fl" "fl_inv fl"
    "fl_avail fl = fl_avail (g_FreeList h) \<union> seg ?p ?len"
    using lfl.free_law [OF inv ok(1) new] by blast
  let ?h = "h\<lparr>hmem := ?m, g_FreeList := fl, g_HeapPos := ?p + ?len\<rparr>"
  have res: "ReserveNew sys h sz = Some ?h" using fl by (simp add: ReserveNew_def alloc_pages_def Let_def)
  have pos: "unat (?p + ?len) = unat ?p + unat ?len" using lens room by (simp add: unat_word_ariths)
  have keep: "\<forall>x\<in>dom (hmem h). ?m x = hmem h x" and maps: "seg ?p ?len \<subseteq> dom ?m"
    using sys by (auto simp: maps_pages_def)
  have dom: "{heap_base ..< unat (g_HeapPos h)} \<subseteq> dom (hmem h)" using rep by (simp add: heap_rep_def)
  have "load64 ?m (unat b) = Some n" if bn: "(b, n) \<in> set bs" for b n
  proof -
    have "load64 ?m (unat b) = load64 (hmem h) (unat b)"
      using heap_repD(2,5) [OF rep bn] dom keep by (intro load64_cong) blast
    then show ?thesis using heap_repD(4) [OF rep bn] by simp
  qed
  moreover have "{heap_base ..< unat ?p + unat ?len} \<subseteq> dom ?m"
  proof
    fix x assume x: "x \<in> {heap_base ..< unat ?p + unat ?len}"
    show "x \<in> dom ?m"
    proof (cases "x < unat ?p")
      case True
      with x dom have "x \<in> dom (hmem h)" by (auto simp del: domIff)
      with keep show ?thesis by (metis domIff)
    next
      case False
      with x have "x \<in> seg ?p ?len" by (simp add: seg_def)
      with maps show ?thesis by blast
    qed
  qed
  moreover have "seg b n \<inter> seg ?p ?len = {}" if "(b, n) \<in> set bs" for b n
    using heap_repD(2) [OF rep that] by (fastforce simp: seg_def)
  ultimately have "heap_rep ?h bs"
    using rep fl pos by (fastforce simp: heap_rep_def seg_def)
  moreover have "seg ?p sz \<subseteq> fl_avail fl" using fl(3) lens(1) by (auto simp: seg_def)
  then have "\<exists>g. LFindFree fl sz = Some g \<and> g \<noteq> nullptr" using lfl.find_iff [OF fl(2) sz] ok(2) by blast
  ultimately show ?thesis using res keep by auto
qed

text \<open>The second half of \<open>malloc\<close>: the segment that was found becomes a zeroed block with a header.\<close>

lemma take_block:
  assumes rep: "heap_rep h bs" and g: "LFindFree (g_FreeList h) sz = Some g" "g \<noteq> nullptr"
    and sz: "16 \<le> unat sz" "unat sz < 2 ^ 31"
  shows "\<exists>fl m1 m2. LMarkUsed (g_FreeList h) g sz = Some fl \<and>
    memset (hmem h) (unat g) 0 (unat sz) = Some (m1, unat g) \<and> store64 m1 (unat g) sz = Some m2 \<and>
    heap_rep (h\<lparr>g_FreeList := fl, hmem := m2\<rparr>) ((g, sz) # bs) \<and>
    (\<forall>x. x \<in> {unat g + 8 ..< unat g + unat sz} \<longrightarrow> m2 x = Some 0) \<and>
    (\<forall>x. x \<notin> seg g sz \<longrightarrow> m2 x = hmem h x)"
proof -
  have inv: "fl_inv (g_FreeList h)" and sz0: "sz \<noteq> 0" using rep sz by (auto simp: heap_rep_def)
  note fits = lfl.find_fits [OF inv sz0 g]
  obtain fl where fl: "LMarkUsed (g_FreeList h) g sz = Some fl" "fl_inv fl"
    "fl_avail fl = fl_avail (g_FreeList h) - seg g sz"
    using lfl.used_law [OF inv sz0 g] by blast
  have sub: "seg g sz \<subseteq> {heap_base ..< unat (g_HeapPos h)}" and dom: "{heap_base ..< unat (g_HeapPos h)} \<subseteq> dom (hmem h)"
    using rep fits by (auto simp: heap_rep_def)
  then have mp: "mapped (hmem h) (unat g) (unat sz)" unfolding mapped_def seg_def by (rule subset_trans)
  let ?m1 = "put (hmem h) (unat g) (replicate (unat sz) 0)"
  let ?m2 = "put ?m1 (unat g) (bytes64 sz)"
  have ms: "memset (hmem h) (unat g) 0 (unat sz) = Some (?m1, unat g)"
    using memset_put [OF mp sz(2)] by simp
  have st: "store64 ?m1 (unat g) sz = Some ?m2"
    unfolding store64_def
    by (intro store_bytes_put mapped_le [OF mapped_put [OF mp]]) (use sz in \<open>simp add: bytes64_def\<close>)
  have at: "?m2 x = (if x \<in> seg g sz then if x < unat g + 8 then ?m2 x else Some 0 else hmem h x)" for x
    using sz by (auto simp: put_apply seg_def bytes64_def)
  have other: "seg b n \<inter> seg g sz = {}" if "(b, n) \<in> set bs" for b n
    using heap_repD(3) [OF rep that] fits by blast
  then have other2: "\<forall>(c, k)\<in>set bs. seg g sz \<inter> seg c k = {}" by blast
  have "load64 ?m2 (unat b) = Some n" if bn: "(b, n) \<in> set bs" for b n
  proof -
    have "load64 ?m2 (unat b) = load64 (hmem h) (unat b)"
      using heap_repD(5) [OF rep bn] other [OF bn] at by (intro load64_cong) (metis disjoint_iff)
    then show ?thesis using heap_repD(4) [OF rep bn] by simp
  qed
  moreover have "load64 ?m2 (unat g) = Some sz" by (rule load64_bytes) simp
  moreover have "{heap_base ..< unat (g_HeapPos h)} \<subseteq> dom ?m2"
    using dom by (auto simp: put_apply)
  ultimately have "heap_rep (h\<lparr>g_FreeList := fl, hmem := ?m2\<rparr>) ((g, sz) # bs)"
    using rep fl fits sub sz other2 by (auto simp: heap_rep_def)
  then show ?thesis
    using fl(1) ms st sz by (auto simp: put_apply seg_def bytes64_def)
qed

lemma malloc_correct:
  assumes rep: "heap_rep h bs" and sys: "maps_pages sys" and n: "unat n < 2 ^ 31 - 128"
    and room: "unat (g_HeapPos h) + unat n + 8192 < 2 ^ 64"
  shows "\<exists>h' g. malloc sys h n = Some (h', g + 16) \<and> heap_rep h' ((g, block_size n) # bs) \<and>
    (\<forall>x. x \<in> {unat g + 8 ..< unat g + unat (block_size n)} \<longrightarrow> hmem h' x = Some 0) \<and>
    (\<forall>x\<in>dom (hmem h). x \<notin> seg g (block_size n) \<longrightarrow> hmem h' x = hmem h x)"
proof -
  have bs: "unat (block_size n) = (unat n + 79) div 64 * 64" using n by (intro unat_block_size) simp
  have le: "(unat n + 79) div 64 * 64 \<le> unat n + 79" "unat n + 16 \<le> (unat n + 79) div 64 * 64" by auto
  have sz: "16 \<le> unat (block_size n)" "unat (block_size n) < 2 ^ 31" "block_size n \<noteq> 0"
    using bs le n by (auto simp flip: unat_eq_0)
  have room2: "unat (g_HeapPos h) + unat (block_size n) + 4096 < 2 ^ 64" using room bs le(1) by linarith
  have inv: "fl_inv (g_FreeList h)" using rep by (simp add: heap_rep_def)
  obtain g where g: "LFindFree (g_FreeList h) (block_size n) = Some g" using lfl.find_returns [OF inv] by blast
  have fin: ?thesis if "heap_rep h1 bs" "LFindFree (g_FreeList h1) (block_size n) = Some g1" "g1 \<noteq> nullptr"
    "\<forall>x\<in>dom (hmem h). hmem h1 x = hmem h x"
    "(if g = nullptr
      then do { h1 \<leftarrow> ReserveNew sys h (block_size n); g1 \<leftarrow> LFindFree (g_FreeList h1) (block_size n); Some (h1, g1) }
      else Some (h, g)) = Some (h1, g1)" for h1 g1
    using take_block [OF that(1-3) sz(1,2)] that(4,5) g by (fastforce simp: malloc_def Let_def)
  show ?thesis
  proof (cases "g = nullptr")
    case True
    obtain h' g' where "ReserveNew sys h (block_size n) = Some h'" "heap_rep h' bs"
      "LFindFree (g_FreeList h') (block_size n) = Some g'" "g' \<noteq> nullptr" "\<forall>x\<in>dom (hmem h). hmem h' x = hmem h x"
      using ReserveNew_correct [OF rep sys sz(3) room2] by auto
    then show ?thesis using fin [of h' g'] True by simp
  next
    case False
    then show ?thesis using fin [of h g] rep g by simp
  qed
qed

lemma free_correct:
  assumes rep: "heap_rep h (bs1 @ (b, n) # bs2)"
  shows "\<exists>h'. free h (b + 16) = Some h' \<and> heap_rep h' (bs1 @ bs2) \<and> hmem h' = hmem h \<and>
    fl_avail (g_FreeList h') = fl_avail (g_FreeList h) \<union> seg b n"
proof -
  have m: "(b, n) \<in> set (bs1 @ (b, n) # bs2)" by simp
  note D = heap_repD [OF rep m]
  have inv: "fl_inv (g_FreeList h)" using rep by (simp add: heap_rep_def)
  obtain fl where fl: "LMarkFree (g_FreeList h) b n = Some fl" "fl_inv fl"
    "fl_avail fl = fl_avail (g_FreeList h) \<union> seg b n"
    using lfl.free_law [OF inv D(1,3)] by blast
  have "b + 16 \<noteq> nullptr"
  proof
    assume "b + 16 = nullptr"
    then have "b = - 16" by (simp add: eq_neg_iff_add_eq_0)
    then have "unat b = 2 ^ 64 - 16" by simp
    moreover have "16 \<le> unat n" "unat b + unat n \<le> unat (g_HeapPos h)"
      using rep m D(2) by (auto simp: heap_rep_def seg_def)
    ultimately show False using unat_lt_64 [of "g_HeapPos h"] by simp
  qed
  moreover have "sorted_wrt (\<lambda>(b, n) (c, k). seg b n \<inter> seg c k = {}) (bs1 @ bs2) \<and>
     (\<forall>(c, k)\<in>set (bs1 @ bs2). seg c k \<inter> seg b n = {})"
    using rep by (fastforce simp: heap_rep_def sorted_wrt_append)
  then have "heap_rep (h\<lparr>g_FreeList := fl\<rparr>) (bs1 @ bs2)"
    using rep fl D(2) by (fastforce simp: heap_rep_def)
  ultimately show ?thesis using fl D(4) by (simp add: free_def)
qed

section \<open>Properties\<close>

text \<open>The heap of a program that has just started, and a kernel that maps zeroed pages.\<close>

definition heap_start :: heap where
  "heap_start = \<lparr>g_FreeList = FreeList_new, g_HeapPos = 0xFF000000, hmem = Map.empty\<rparr>"

definition zero_pages :: alloc_call where
  "zero_pages m a n = (\<lambda>x. if m x = None \<and> x \<in> seg a (n * 4096) then Some 0 else m x)"

lemma heap_start_rep: "heap_rep heap_start [] \<and> maps_pages zero_pages"
  using Init_inv [of "[]"]
  by (auto simp: heap_rep_def heap_start_def heap_base_def map_ok_def map_bytes_def maps_pages_def zero_pages_def)

text \<open>
  C19: \<open>malloc\<close> returns a block of its own: large enough for the request, zeroed, apart from every live
  block and from all free memory, with the contents of the live blocks unchanged. (Requests are below
  \<open>2\<^sup>3\<^sup>1 - 128\<close> bytes, and the kernel maps the pages it is asked for.)
\<close>

theorem malloc_gives_fresh_block:
  assumes "heap_rep h bs" "maps_pages sys" "unat n < 2 ^ 31 - 128"
    and "unat (g_HeapPos h) + unat n + 8192 < 2 ^ 64"
  shows "\<exists>h' p. malloc sys h n = Some (h', p) \<and> heap_rep h' ((p - 16, block_size n) # bs) \<and>
    unat n + 16 \<le> unat (block_size n) \<and>
    (\<forall>x. unat (p - 16) + 16 \<le> x \<and> x < unat (p - 16) + unat (block_size n) \<longrightarrow> hmem h' x = Some 0) \<and>
    (\<forall>(b, k)\<in>set bs. \<forall>x\<in>seg b k. hmem h' x = hmem h x)"
proof -
  obtain h' g where h': "malloc sys h n = Some (h', g + 16)" "heap_rep h' ((g, block_size n) # bs)"
    "\<forall>x. x \<in> {unat g + 8 ..< unat g + unat (block_size n)} \<longrightarrow> hmem h' x = Some 0"
    "\<forall>x\<in>dom (hmem h). x \<notin> seg g (block_size n) \<longrightarrow> hmem h' x = hmem h x"
    using malloc_correct [OF assms] by blast
  have "unat n + 16 \<le> unat (block_size n)" using unat_block_size [of n] assms(3) by simp
  moreover have "hmem h' x = hmem h x" if "(b, k) \<in> set bs" "x \<in> seg b k" for b k x
  proof -
    have "x \<in> dom (hmem h)" using assms(1) heap_repD(2) [OF assms(1) that(1)] that(2) unfolding heap_rep_def by blast
    moreover have "x \<notin> seg g (block_size n)" using h'(2) that by (auto simp: heap_rep_def)
    ultimately show ?thesis using h'(4) by blast
  qed
  ultimately show ?thesis using h' by (intro exI [of _ h'] exI [of _ "g + 16"]) auto
qed

theorem malloc_gives_fresh_block_witness:
  "\<exists>h' p. malloc zero_pages heap_start 100 = Some (h', p) \<and> heap_rep h' [(p - 16, 128)]"
  using malloc_gives_fresh_block [of heap_start "[]" zero_pages 100] heap_start_rep
  by (auto simp: heap_start_def block_size_def)

text \<open>
  C21: \<open>free\<close> of a live block returns it: the block leaves the set of live blocks, its bytes join the
  free memory, and no other block changes. In particular a block can be freed right after \<open>malloc\<close>,
  which leaves the same live blocks as before.
\<close>

theorem free_releases_block:
  assumes "heap_rep h (bs1 @ (b, n) # bs2)"
  shows "\<exists>h'. free h (b + 16) = Some h' \<and> heap_rep h' (bs1 @ bs2) \<and> hmem h' = hmem h \<and>
    fl_avail (g_FreeList h') = fl_avail (g_FreeList h) \<union> seg b n"
  using assms by (rule free_correct)

theorem free_releases_block_witness:
  "\<exists>h p h'. malloc zero_pages heap_start 100 = Some (h, p) \<and> free h p = Some h' \<and> heap_rep h' []"
proof -
  obtain h g where "malloc zero_pages heap_start 100 = Some (h, g + 16)" "heap_rep h [(g, 128)]"
    using malloc_correct [of heap_start "[]" zero_pages 100] heap_start_rep
    by (auto simp: heap_start_def block_size_def)
  with free_releases_block [of h "[]" g 128 "[]"] show ?thesis by auto
qed

text \<open>
  The size of a request is not checked against overflow: a request of almost \<open>2\<^sup>6\<^sup>4\<close> bytes is served
  with a block of at most 64 bytes.
\<close>

lemma block_size_wraps:
  assumes "2 ^ 64 \<le> unat n + 79"
  shows "unat (block_size n) \<le> 64"
proof -
  have "unat (n + 79) = unat n + 79 - 2 ^ 64"
    using assms unat_lt_64 [of n] by (simp add: unat_word_ariths le_mod_geq)
  then have "unat (n + 79) \<le> 78" using unat_lt_64 [of n] by linarith
  then have "unat ((n + 79) div 64) \<le> 1" by (simp add: unat_div)
  then have "unat ((n + 79) div 64 * 64) = unat ((n + 79) div 64) * 64" by (simp add: unat_word_ariths)
  moreover have "block_size n = (n + 79) div 64 * 64" by (simp add: block_size_def add.assoc)
  ultimately show ?thesis using mult_le_mono1 [OF \<open>unat ((n + 79) div 64) \<le> 1\<close>, of 64] by simp
qed

text \<open>
  \<open>realloc\<close> takes the size in the header for the size of the contents: asked for exactly that many
  bytes it returns the same block, whose contents are 16 bytes smaller.
\<close>

lemma realloc_short_block:
  assumes "heap_rep h ((b, n) # bs)"
  shows "realloc sys h (b + 16) n = Some (h, b + 16) \<or> b + 16 = nullptr"
  using heap_repD(4) [OF assms, of b n] by (simp add: realloc_def)

end
