(* ===== verification/CTime.thy ===== *)
theory CTime
  imports Prelude
begin

text \<open>
  Calendar time of the C library: \<^verbatim>\<open>libs/libc/time/gmtime.c\<close> and \<^verbatim>\<open>libs/libc/time/time.c\<close>. A time
  stamp counts seconds since 1970; \<open>self_gmtime\<close> splits it, \<open>mktime\<close> puts it together again in 32-bit
  unsigned arithmetic, which wraps around.
\<close>

section \<open>The code\<close>

record tm =
  tm_sec :: nat
  tm_min :: nat
  tm_hour :: nat
  tm_mday :: nat
  tm_mon :: nat
  tm_year :: nat
  tm_wday :: nat
  tm_yday :: nat
  tm_isdst :: nat

definition Days :: "nat list" where
  "Days = [31, 28, 31, 30, 31, 30, 31, 31, 30, 31, 30, 31]"

definition ONE_YEAR_HOURS :: nat where
  "ONE_YEAR_HOURS = 8760"

definition FOUR_YEAR_HOURS :: nat where
  "FOUR_YEAR_HOURS = 35064"

definition one_year_hours :: "nat \<Rightarrow> nat" where
  "one_year_hours year = (if year AND 3 = 0 then ONE_YEAR_HOURS + 24 else ONE_YEAR_HOURS)"

function year_loop :: "nat \<Rightarrow> nat \<Rightarrow> nat \<times> nat" where
  "year_loop year timestamp =
     (if timestamp < one_year_hours year then (year, timestamp)
      else year_loop (year + 1) (timestamp - one_year_hours year))"
  by pat_completeness auto
termination year_loop
  by (relation "measure snd") (auto simp: one_year_hours_def ONE_YEAR_HOURS_def)

declare year_loop.simps [simp del]

text \<open>The walk along the table of month lengths; a walk past its end does not happen (see below).\<close>

fun month_loop :: "nat list \<Rightarrow> nat \<Rightarrow> nat \<Rightarrow> nat \<times> nat" where
  "month_loop [] mon timestamp = (mon, timestamp)"
| "month_loop (d # ds) mon timestamp =
     (if d < timestamp then month_loop ds (mon + 1) (timestamp - d) else (mon, timestamp))"

definition self_gmtime :: "tm \<Rightarrow> nat \<Rightarrow> tm" where
  "self_gmtime tm0 timestamp =
     (if timestamp > 0x7FFFFFFF then tm0
      else
        let tm1 = tm0\<lparr>tm_isdst := 0, tm_sec := timestamp mod 60\<rparr>;
            minutes = timestamp div 60;
            tm2 = tm1\<lparr>tm_min := minutes mod 60\<rparr>;
            hours = minutes div 60;
            tm3 = tm2\<lparr>tm_wday := (hours div 24 + 4) mod 7\<rparr>;
            four_year_num = hours div FOUR_YEAR_HOURS;
            (year, rest) = year_loop (four_year_num * 4 + 70) (hours mod FOUR_YEAR_HOURS);
            tm4 = tm3\<lparr>tm_year := year, tm_hour := rest mod 24\<rparr>;
            day = rest div 24 + 1;
            tm5 = tm4\<lparr>tm_yday := day - 1\<rparr>
        in if year AND 3 = 0 \<and> day = 60 then tm5\<lparr>tm_mon := 1, tm_mday := 29\<rparr>
           else
             let day' = (if year AND 3 = 0 \<and> day > 60 then day - 1 else day);
                 (mon, mday) = month_loop Days 0 day'
             in tm5\<lparr>tm_mon := mon, tm_mday := mday\<rparr>)"

text \<open>The structure \<open>gmtime\<close> returns is a new block of the heap, which \<open>malloc\<close> clears.\<close>

definition gmtime :: "nat \<Rightarrow> tm" where
  "gmtime t = self_gmtime \<lparr>tm_sec = 0, tm_min = 0, tm_hour = 0, tm_mday = 0, tm_mon = 0, tm_year = 0,
     tm_wday = 0, tm_yday = 0, tm_isdst = 0\<rparr> t"

definition localtime :: "nat \<Rightarrow> tm" where
  "localtime t = gmtime t"

definition mktime :: "tm \<Rightarrow> nat" where
  "mktime tm_now =
     (let year0 = of_nat (tm_year tm_now) + 1900 :: u32;
          mon0 = of_nat (tm_mon tm_now) + 1 :: u32;
          day = of_nat (tm_mday tm_now);
          hour = of_nat (tm_hour tm_now);
          min' = of_nat (tm_min tm_now);
          sec = of_nat (tm_sec tm_now);
          (mon, year) = (if 0 \<ge> sint (mon0 - 2) then (mon0 - 2 + 12, year0 - 1) else (mon0 - 2, year0))
      in unat ((((year div 4 - year div 100 + year div 400 + 367 * mon div 12 + day +
           year * 365 - 719499) * 24 + hour) * 60 + min') * 60 + sec))"

definition difftime :: "nat \<Rightarrow> nat \<Rightarrow> u64" where
  "difftime t1 t0 = of_nat t1 - of_nat t0"

section \<open>Years\<close>

lemma and_3: "n AND 3 = n mod (4 :: nat)"
  using take_bit_eq_mask [of 2 n] by (simp add: take_bit_eq_mod mask_eq_exp_minus_1)

text \<open>The hours before year \<open>k\<close> of a block of four, counted from 1970, 1974, and so on.\<close>

definition hours_before :: "nat \<Rightarrow> nat" where
  "hours_before k = (if k = 0 then 0 else if k = 1 then 8760 else if k = 2 then 17520 else 26304)"

lemma year_loop_block:
  assumes "year mod 4 = 2" "h < FOUR_YEAR_HOURS"
  shows "\<exists>k r. k < 4 \<and> year_loop year h = (year + k, r) \<and> h = hours_before k + r \<and>
    r < (if k = 2 then 8784 else 8760)"
proof -
  have m: "one_year_hours year = 8760" "one_year_hours (year + 1) = 8760" "one_year_hours (year + 2) = 8784"
    "one_year_hours (year + 3) = 8760"
    using assms(1) by (auto simp: one_year_hours_def ONE_YEAR_HOURS_def and_3) presburger+
  consider "h < 8760" | "8760 \<le> h" "h < 17520" | "17520 \<le> h" "h < 26304" | "26304 \<le> h"
    by linarith
  then show ?thesis
  proof cases
    case 1
    then have "year_loop year h = (year + 0, h) \<and> h = hours_before 0 + h \<and> h < 8760"
      by (simp add: year_loop.simps [of year] m hours_before_def)
    then show ?thesis by force
  next
    case 2
    then have "year_loop year h = (year + 1, h - 8760) \<and> h = hours_before 1 + (h - 8760) \<and> h - 8760 < 8760"
      by (auto simp: year_loop.simps [of year] year_loop.simps [of "Suc year"] m [simplified] hours_before_def)
    then show ?thesis by force
  next
    case 3
    then have "year_loop year h = (year + 2, h - 17520) \<and> h = hours_before 2 + (h - 17520) \<and> h - 17520 < 8784"
      by (auto simp: year_loop.simps [of year] year_loop.simps [of "Suc year"]
          year_loop.simps [of "Suc (Suc year)"] m [simplified] hours_before_def)
    then show ?thesis by force
  next
    case 4
    have m3: "one_year_hours (Suc (Suc (Suc year))) = 8760" using m(4) by (simp add: numeral_3_eq_3)
    from 4 have "year_loop year h = (year + 3, h - 26304) \<and> h = hours_before 3 + (h - 26304) \<and> h - 26304 < 8760"
      using assms(2)
      by (auto simp: year_loop.simps [of year] year_loop.simps [of "Suc year"]
          year_loop.simps [of "Suc (Suc year)"] year_loop.simps [of "Suc (Suc (Suc year))"]
          m(1,2,3) [simplified] m3 hours_before_def FOUR_YEAR_HOURS_def)
    then show ?thesis by force
  qed
qed

section \<open>Months\<close>

lemma month_loop_walk:
  "0 < d \<Longrightarrow> d \<le> sum_list ds \<Longrightarrow>
     \<exists>j r. month_loop ds k d = (k + j, r) \<and> j < length ds \<and> d = sum_list (take j ds) + r \<and> 0 < r \<and> r \<le> ds ! j"
proof (induction ds arbitrary: k d)
  case (Cons a ds)
  show ?case
  proof (cases "a < d")
    case True
    then have "0 < d - a" "d - a \<le> sum_list ds" using Cons.prems by auto
    then obtain j r where "month_loop ds (k + 1) (d - a) = (k + 1 + j, r)" "j < length ds"
      "d - a = sum_list (take j ds) + r" "0 < r" "r \<le> ds ! j"
      using Cons.IH by blast
    then have "month_loop (a # ds) k d = (k + Suc j, r)" "Suc j < length (a # ds)"
      "d = sum_list (take (Suc j) (a # ds)) + r" "0 < r" "r \<le> (a # ds) ! Suc j" using True by auto
    then show ?thesis by blast
  next
    case False
    then have "month_loop (a # ds) k d = (k + 0, d) \<and> d \<le> (a # ds) ! 0" by simp
    then show ?thesis using Cons.prems(1) by force
  qed
qed simp

definition days_before :: "nat \<Rightarrow> nat" where
  "days_before mon = sum_list (take mon Days)"

lemma month_loop_Days:
  "0 < d \<Longrightarrow> d \<le> 365 \<Longrightarrow>
     \<exists>mon mday. month_loop Days 0 d = (mon, mday) \<and> mon < 12 \<and> d = days_before mon + mday \<and> 0 < mday \<and> mday \<le> Days ! mon"
proof -
  have "sum_list Days = 365" "length Days = 12" by (simp_all add: Days_def)
  then show "0 < d \<Longrightarrow> d \<le> 365 \<Longrightarrow> ?thesis"
    using month_loop_walk [of d Days 0] unfolding days_before_def by auto
qed

lemma less_12: "mon < 12 \<Longrightarrow> mon \<in> {0, 1, 2, 3, 4, 5, 6, 7, 8, 9, 10, 11 :: nat}"
  by simp presburger

section \<open>The inverse\<close>

text \<open>The number of days \<open>mktime\<close> computes, without wrap-around.\<close>

definition civil_days :: "nat \<Rightarrow> nat \<Rightarrow> nat \<Rightarrow> nat" where
  "civil_days year mon mday =
     (let (mn, yr) = (if mon < 2 then (mon + 11, year - 1) else (mon - 1, year))
      in yr div 4 - yr div 100 + yr div 400 + 367 * mn div 12 + mday + yr * 365 - 719499)"

lemma century: "1969 \<le> yr \<Longrightarrow> yr < 2100 \<Longrightarrow> yr div 100 = yr div 400 + (15 :: nat)"
proof -
  assume "1969 \<le> yr" "yr < 2100"
  then have "yr div 100 = (if yr < 2000 then 19 else 20)" "yr div 400 = (if yr < 2000 then 4 else 5)"
    by (auto intro!: div_nat_eqI)
  then show ?thesis by simp
qed

lemma civil_days_alt:
  assumes "1970 \<le> year" "year < 2100"
  shows "civil_days year mon mday =
    (if mon < 2 then (year - 1) div 4 + 367 * (mon + 11) div 12 + mday + (year - 1) * 365 - 719514
     else year div 4 + 367 * (mon - 1) div 12 + mday + year * 365 - 719514)"
proof -
  have *: "yr div 4 - yr div 100 + yr div 400 + a + b - 719499 = yr div 4 + a + b - 719514"
    if "1969 \<le> yr" "yr < 2100" for yr a b :: nat
  proof -
    have "yr div 100 = yr div 400 + 15" "yr div 400 \<le> 5" "492 \<le> yr div 4"
      using century [OF that] that div_le_mono [of 1969 yr 4] div_le_mono [of yr 2099 400] by simp_all
    then show ?thesis by linarith
  qed
  show ?thesis using * [of "year - 1"] * [of year] assms by (simp add: civil_days_def Let_def add.assoc)
qed

lemma civil_days_block:
  assumes "q < 18" "k < 4" "mon < 12" "0 < mday"
  shows "civil_days (1970 + 4 * q + k) mon mday + 1 =
    1461 * q + hours_before k div 24 + days_before mon + mday + (if k = 2 \<and> 2 \<le> mon then 1 else 0)"
proof -
  have k: "k = 0 \<or> k = 1 \<or> k = 2 \<or> k = 3" using assms(2) by auto
  have d: "(1972 + 4 * q) div 4 = 493 + q" "(1973 + 4 * q) div 4 = 493 + q" "(1970 + 4 * q) div 4 = 492 + q"
    "(1971 + 4 * q) div 4 = 492 + q" "(1969 + 4 * q) div 4 = 492 + q" by presburger+
  have "civil_days (1970 + 4 * q + k) mon mday + 1 =
    (if mon < 2 then (1969 + 4 * q + k) div 4 + 367 * (mon + 11) div 12 + mday + (1969 + 4 * q + k) * 365 - 719513
     else (1970 + 4 * q + k) div 4 + 367 * (mon - 1) div 12 + mday + (1970 + 4 * q + k) * 365 - 719513)"
  proof -
    have b: "492 \<le> (1969 + 4 * q + k) div 4" "492 \<le> (1970 + 4 * q + k) div 4" "336 \<le> 367 * (mon + 11) div 12"
      using div_le_mono [of 1969 "1969 + 4 * q + k" 4] div_le_mono [of 1969 "1970 + 4 * q + k" 4]
        div_le_mono [of 4037 "367 * (mon + 11)" 12] by simp_all
    then have
      "719514 \<le> (1969 + 4 * q + k) div 4 + 367 * (mon + 11) div 12 + mday + (1969 + 4 * q + k) * 365"
      using assms(4) by (simp only: add_mult_distrib)
    moreover have
      "719514 \<le> (1970 + 4 * q + k) div 4 + 367 * (mon - 1) div 12 + mday + (1970 + 4 * q + k) * 365"
      using assms(4) b(2) by (simp only: add_mult_distrib)
    moreover have "(1970 + 4 * q + k) - 1 = 1969 + 4 * q + k" by simp
    moreover have "x - 719514 + 1 = x - 719513" if "719514 \<le> x" for x :: nat using that by simp
    moreover have "1970 \<le> 1970 + 4 * q + k" "1970 + 4 * q + k < 2100" using assms by simp_all
    ultimately show ?thesis by (simp only: civil_days_alt split: if_split) metis
  qed
  moreover have "days_before mon = (if mon < 2 then 31 * mon else 367 * (mon - 1) div 12 + 29)"
    using less_12 [OF assms(3)] by (elim insertE emptyE) (simp_all add: days_before_def Days_def)
  ultimately show ?thesis
    using k less_12 [OF assms(3)]
    by (elim disjE insertE emptyE) (simp_all add: d hours_before_def)
qed

section \<open>Wrap-around in \<open>mktime\<close>\<close>

lemma of_nat_div_u32: "a < 2 ^ 32 \<Longrightarrow> b < 2 ^ 32 \<Longrightarrow> (of_nat a :: u32) div of_nat b = of_nat (a div b)"
proof -
  assume "a < 2 ^ 32" "b < 2 ^ 32"
  moreover from this have "a div b < 2 ^ 32" using div_le_dividend [of a b] by linarith
  ultimately have "unat ((of_nat a :: u32) div of_nat b) = unat (of_nat (a div b) :: u32)"
    by (simp add: unat_div unsigned_of_nat take_bit_nat_eq_self)
  then show ?thesis by (simp add: word_unat_eq_iff)
qed

lemma of_nat_minus: "b \<le> a \<Longrightarrow> (of_nat a :: u32) - of_nat b = of_nat (a - b)"
  by (simp add: of_nat_diff)

lemma mktime_mon: "mon < 12 \<Longrightarrow> 0 \<ge> sint (of_nat mon + 1 - 2 :: u32) \<longleftrightarrow> mon < 2"
  by (drule less_12, elim insertE emptyE) simp_all

lemma days_word:
  fixes yr mn d :: nat
  assumes "yr < 2100" "mn \<le> 12"
    and "719499 \<le> yr div 4 - yr div 100 + yr div 400 + 367 * mn div 12 + d + yr * 365"
  shows "(of_nat yr :: u32) div 4 - of_nat yr div 100 + of_nat yr div 400 + 367 * of_nat mn div 12 + of_nat d +
      of_nat yr * 365 - 719499 =
    of_nat (yr div 4 - yr div 100 + yr div 400 + 367 * mn div 12 + d + yr * 365 - 719499)"
proof -
  have div: "(of_nat yr :: u32) div 4 = of_nat (yr div 4)" "(of_nat yr :: u32) div 100 = of_nat (yr div 100)"
    "(of_nat yr :: u32) div 400 = of_nat (yr div 400)" "367 * (of_nat mn :: u32) div 12 = of_nat (367 * mn div 12)"
    using of_nat_div_u32 [of yr 4] of_nat_div_u32 [of yr 100] of_nat_div_u32 [of yr 400]
      of_nat_div_u32 [of "367 * mn" 12] assms by simp_all
  have le: "yr div 100 \<le> yr div 4" by (rule div_le_mono2) simp_all
  show ?thesis
    unfolding div of_nat_diff [OF assms(3)]
    by (simp only: of_nat_add of_nat_diff [OF le] of_nat_mult of_nat_numeral)
qed

lemma mktime_civil:
  assumes "70 \<le> tm_year t" "tm_year t < 200" "tm_mon t < 12" "0 < tm_mday t"
    and "(civil_days (tm_year t + 1900) (tm_mon t) (tm_mday t) * 24 + tm_hour t) * 3600 +
      tm_min t * 60 + tm_sec t < 2 ^ 32"
  shows "mktime t = (civil_days (tm_year t + 1900) (tm_mon t) (tm_mday t) * 24 + tm_hour t) * 3600 +
      tm_min t * 60 + tm_sec t"
proof -
  let ?Y = "tm_year t + 1900" and ?m = "tm_mon t" and ?d = "tm_mday t"
  define mn yr where "mn = (if ?m < 2 then ?m + 11 else ?m - 1)" and "yr = (if ?m < 2 then ?Y - 1 else ?Y)"
  let ?S = "yr div 4 - yr div 100 + yr div 400 + 367 * mn div 12 + ?d + yr * 365"
  have yr: "1969 \<le> yr" "yr < 2100" "mn \<le> 12" using assms(1-3) by (auto simp: yr_def mn_def)
  have civil: "civil_days ?Y ?m ?d = ?S - 719499" by (auto simp: civil_days_def mn_def yr_def Let_def)
  have "719499 \<le> ?S"
  proof -
    have "yr div 100 = yr div 400 + 15" "yr div 400 \<le> 5" "492 \<le> yr div 4"
      using century [OF yr(1,2)] yr div_le_mono [of 1969 yr 4] div_le_mono [of yr 2099 400] by simp_all
    moreover have "?m < 2 \<Longrightarrow> 336 \<le> 367 * mn div 12"
      using div_le_mono [of 4037 "367 * (?m + 11)" 12] by (simp add: mn_def)
    moreover have "\<not> ?m < 2 \<Longrightarrow> 1970 \<le> yr" using assms(1) by (simp add: yr_def)
    ultimately show ?thesis using assms(4) yr(1) by linarith
  qed
  note dw = days_word [OF yr(2,3) this]
  have sel: "(if 0 \<ge> sint (of_nat ?m + 1 - 2 :: u32) then (of_nat ?m + 1 - 2 + 12, of_nat (tm_year t) + 1900 - 1)
      else (of_nat ?m + 1 - 2, of_nat (tm_year t) + 1900)) = (of_nat mn :: u32, of_nat yr :: u32)"
    using mktime_mon [OF assms(3)] assms(1) by (auto simp: mn_def yr_def of_nat_diff)
  have "mktime t = unat ((((of_nat (?S - 719499) :: u32) * 24 + of_nat (tm_hour t)) * 60 + of_nat (tm_min t)) * 60 + of_nat (tm_sec t))"
    unfolding mktime_def Let_def sel dw [symmetric] by simp
  also have "\<dots> = unat (of_nat ((((?S - 719499) * 24 + tm_hour t) * 60 + tm_min t) * 60 + tm_sec t) :: u32)"
    by simp
  also have "\<dots> = (((?S - 719499) * 24 + tm_hour t) * 60 + tm_min t) * 60 + tm_sec t"
    using assms(5) unfolding civil
    by (simp add: unsigned_of_nat take_bit_nat_eq_self del: of_nat_add of_nat_mult)
  finally show ?thesis unfolding civil by simp
qed

lemma days_before_bounds:
  "mon < 12 \<Longrightarrow> 0 < mday \<Longrightarrow> mday \<le> Days ! mon \<Longrightarrow> 2 \<le> mon \<longleftrightarrow> 60 \<le> days_before mon + mday"
  "mon < 12 \<Longrightarrow> Days ! mon \<le> 31"
  by (drule less_12, elim insertE emptyE; simp add: Days_def days_before_def)+

lemma date_part:
  assumes "q < 18" "k < 4" and day: "0 < day" "day \<le> (if k = 2 then 366 else 365)"
  shows "\<exists>mon mday. (if k = 2 \<and> day = 60 then (1, 29)
      else month_loop Days 0 (if k = 2 \<and> day > 60 then day - 1 else day)) = (mon, mday) \<and>
    mon < 12 \<and> 0 < mday \<and> mday \<le> 31 \<and>
    civil_days (1970 + 4 * q + k) mon mday + 1 = 1461 * q + hours_before k div 24 + day"
proof (cases "k = 2 \<and> day = 60")
  case True
  then show ?thesis using civil_days_block [of q k 1 29] assms by (simp add: days_before_def Days_def)
next
  case False
  let ?d = "if k = 2 \<and> day > 60 then day - 1 else day"
  have "0 < ?d" "?d \<le> 365" using day by (auto split: if_splits)
  then obtain mon mday where m: "month_loop Days 0 ?d = (mon, mday)" "mon < 12" "?d = days_before mon + mday"
    "0 < mday" "mday \<le> Days ! mon" using month_loop_Days by blast
  have "k = 2 \<Longrightarrow> 2 \<le> mon \<longleftrightarrow> day > 60"
    using days_before_bounds(1) [OF m(2,4,5)] m(3) False by (auto split: if_splits)
  then have "days_before mon + mday + (if k = 2 \<and> 2 \<le> mon then 1 else 0) = day"
    using m(3) by (auto split: if_splits)
  then show ?thesis
    using m False civil_days_block [OF assms(1,2) m(2,4)] days_before_bounds(2) [OF m(2)]
    by (auto intro: order_trans)
qed

section \<open>Properties\<close>

text \<open>
  C34: \<open>mktime\<close> is the inverse of \<open>gmtime\<close> on every time stamp up to \<open>0x7FFFFFFF\<close> (January 2038): no second
  is lost or shifted, across leap years, months and the 32-bit arithmetic of \<open>mktime\<close>; and the split
  is in range: months below 12, days within the month, hours below 24.
\<close>

theorem mktime_gmtime_roundtrip:
  assumes "t \<le> 0x7FFFFFFF"
  shows "mktime (gmtime t) = t \<and> tm_mon (gmtime t) < 12 \<and> 0 < tm_mday (gmtime t) \<and> tm_mday (gmtime t) \<le> 31 \<and>
    tm_hour (gmtime t) < 24 \<and> tm_min (gmtime t) < 60 \<and> tm_sec (gmtime t) < 60"
proof -
  define H where "H = t div 60 div 60"
  define q where "q = H div FOUR_YEAR_HOURS"
  have H: "H \<le> 596523" using assms div_le_mono [of t "0x7FFFFFFF" 3600] by (simp add: H_def div_mult2_eq [symmetric])
  have q: "q < 18" using H div_le_mono [of H 596523 35064] by (simp add: q_def FOUR_YEAR_HOURS_def)
  obtain k r where k: "k < 4" "year_loop (q * 4 + 70) (H mod FOUR_YEAR_HOURS) = (q * 4 + 70 + k, r)"
    "H mod FOUR_YEAR_HOURS = hours_before k + r" "r < (if k = 2 then 8784 else 8760)"
    using year_loop_block [of "q * 4 + 70" "H mod FOUR_YEAR_HOURS"] by (auto simp: FOUR_YEAR_HOURS_def)
  have leap: "(q * 4 + 70 + k) AND 3 = 0 \<longleftrightarrow> k = 2" using k(1) unfolding and_3 by presburger
  define day where "day = r div 24 + 1"
  have "0 < day" "day \<le> (if k = 2 then 366 else 365)"
    using k(4) div_le_mono [of r 8783 24] div_le_mono [of r 8759 24] by (auto simp: day_def split: if_splits)
  from date_part [OF q k(1) this] obtain mon mday where
    m: "(if k = 2 \<and> day = 60 then (1, 29)
      else month_loop Days 0 (if k = 2 \<and> day > 60 then day - 1 else day)) = (mon, mday)"
    "mon < 12" "0 < mday" "mday \<le> 31"
    "civil_days (1970 + 4 * q + k) mon mday + 1 = 1461 * q + hours_before k div 24 + day" by blast
  have g: "tm_sec (gmtime t) = t mod 60" "tm_min (gmtime t) = t div 60 mod 60" "tm_hour (gmtime t) = r mod 24"
    "tm_year (gmtime t) = q * 4 + 70 + k" "tm_mon (gmtime t) = mon" "tm_mday (gmtime t) = mday"
    using assms m(1) unfolding gmtime_def self_gmtime_def Let_def
    by (auto simp: H_def [symmetric] q_def [symmetric] k(2) leap [simplified] day_def split: if_splits)
  have "H = 35064 * q + (hours_before k + r)"
    using k(3) mult_div_mod_eq [of FOUR_YEAR_HOURS H] by (simp add: q_def FOUR_YEAR_HOURS_def)
  moreover have "hours_before k = 24 * (hours_before k div 24)" by (simp add: hours_before_def)
  moreover have "r = 24 * (day - 1) + r mod 24" by (simp add: day_def)
  ultimately have civ: "civil_days (1970 + 4 * q + k) mon mday * 24 + r mod 24 = H"
    using m(5) \<open>0 < day\<close> by linarith
  have t: "H * 3600 + t div 60 mod 60 * 60 + t mod 60 = t"
    using mult_div_mod_eq [of 60 t] mult_div_mod_eq [of 60 "t div 60"] unfolding H_def by linarith
  have Y: "q * 4 + 70 + k + 1900 = 1970 + 4 * q + k" by simp
  have "mktime (gmtime t) = t"
    using mktime_civil [of "gmtime t"] assms m q k(1) unfolding g Y civ t by simp
  then show ?thesis using m unfolding g by simp
qed

theorem mktime_gmtime_roundtrip_witness: "mktime (gmtime 951782400) = 951782400"
  using mktime_gmtime_roundtrip [of 951782400] by simp

end
