(* ===== verification/Stdlib.thy ===== *)
theory Stdlib
  imports CString
begin

text \<open>
  \<^verbatim>\<open>libs/libc/stdlib\<close> without the heap, and the character classes of \<^verbatim>\<open>libs/libc/include/ctype.h\<close>:
  numbers read from strings (\<open>atoi\<close>, \<open>atol\<close>, with 32-bit and 64-bit wrap-around), the table of exit
  functions, and the environment. The environment is the array of string pointers before its
  \<open>NULL\<close>; the strings lie in the program's memory.
\<close>

section \<open>Character classes\<close>

definition isblank :: "int \<Rightarrow> bool" where
  "isblank c \<longleftrightarrow> c = 32 \<or> c = 9"

text \<open>The last alternative of \<open>isspace\<close> is the letter \<open>v\<close>, as in the code.\<close>

definition isspace :: "int \<Rightarrow> bool" where
  "isspace c \<longleftrightarrow> c = 32 \<or> c = 10 \<or> c = 12 \<or> c = 13 \<or> c = 9 \<or> c = 118"

definition isdigit :: "int \<Rightarrow> bool" where
  "isdigit c \<longleftrightarrow> 48 \<le> c \<and> c \<le> 57"

definition isxdigit :: "int \<Rightarrow> bool" where
  "isxdigit c \<longleftrightarrow> (48 \<le> c \<and> c \<le> 57) \<or> (65 \<le> c \<and> c \<le> 70) \<or> (97 \<le> c \<and> c \<le> 102)"

definition isupper :: "int \<Rightarrow> bool" where
  "isupper c \<longleftrightarrow> 65 \<le> c \<and> c \<le> 90"

definition islower :: "int \<Rightarrow> bool" where
  "islower c \<longleftrightarrow> 97 \<le> c \<and> c \<le> 122"

definition iscntrl :: "int \<Rightarrow> bool" where
  "iscntrl c \<longleftrightarrow> (0 \<le> c \<and> c \<le> 0x1F) \<or> c = 0x7F"

definition isgraph :: "int \<Rightarrow> bool" where
  "isgraph c \<longleftrightarrow> 0x21 \<le> c \<and> c \<le> 0x7E"

definition isprint :: "int \<Rightarrow> bool" where
  "isprint c \<longleftrightarrow> 0x20 \<le> c \<and> c \<le> 0x7E"

definition isalpha :: "int \<Rightarrow> bool" where
  "isalpha c \<longleftrightarrow> isupper c \<or> islower c"

definition isalnum :: "int \<Rightarrow> bool" where
  "isalnum c \<longleftrightarrow> isalpha c \<or> isdigit c"

definition ispunct :: "int \<Rightarrow> bool" where
  "ispunct c \<longleftrightarrow> isgraph c \<and> \<not> isspace c \<and> \<not> isalnum c"

definition tolower :: "int \<Rightarrow> int" where
  "tolower c = (if isupper c then c + 0x20 else c)"

definition toupper :: "int \<Rightarrow> int" where
  "toupper c = (if islower c then c - 0x20 else c)"

definition toascii :: "int \<Rightarrow> int" where
  "toascii c = c AND 0x7F"

section \<open>Numbers\<close>

definition abs_int :: "32 word \<Rightarrow> 32 word" where
  "abs_int i = (if sint i < 0 then - i else i)"

partial_function (option) skip_spaces :: "mem \<Rightarrow> nat \<Rightarrow> nat \<Rightarrow> nat option" where
  "skip_spaces m str i =
     do { c \<leftarrow> load m (str + i); if isspace (sint c) then skip_spaces m str (i + 1) else Some i }"

partial_function (option) atoi_digits :: "mem \<Rightarrow> nat \<Rightarrow> nat \<Rightarrow> 32 word \<Rightarrow> 32 word option" where
  "atoi_digits m str i num =
     do {
       c \<leftarrow> load m (str + i);
       if isdigit (sint c)
       then atoi_digits m str (i + 1) (push_bit 3 num + push_bit 1 num + word_of_int (sint c - 48))
       else Some num
     }"

definition atoi :: "mem \<Rightarrow> nat \<Rightarrow> 32 word option" where
  "atoi m str =
     do {
       i \<leftarrow> skip_spaces m str 0;
       c \<leftarrow> load m (str + i);
       num \<leftarrow> atoi_digits m str (if c = 43 \<or> c = 45 then i + 1 else i) 0;
       Some (if c = 45 then - num else num)
     }"

partial_function (option) atol_digits :: "mem \<Rightarrow> nat \<Rightarrow> nat \<Rightarrow> 64 word \<Rightarrow> 64 word option" where
  "atol_digits m str i num =
     do {
       c \<leftarrow> load m (str + i);
       if isdigit (sint c)
       then atol_digits m str (i + 1) (push_bit 3 num + push_bit 1 num + word_of_int (sint c - 48))
       else Some num
     }"

definition atol :: "mem \<Rightarrow> nat \<Rightarrow> 64 word option" where
  "atol m str =
     do {
       i \<leftarrow> skip_spaces m str 0;
       c \<leftarrow> load m (str + i);
       num \<leftarrow> atol_digits m str (if c = 43 \<or> c = 45 then i + 1 else i) 0;
       Some (if c = 45 then - num else num)
     }"

text \<open>The decimal value of a sequence of digit characters.\<close>

definition dec_value :: "u8 list \<Rightarrow> nat" where
  "dec_value ds = foldl (\<lambda>a d. 10 * a + (unat d - 48)) 0 ds"

definition digit_char :: "u8 \<Rightarrow> bool" where
  "digit_char d \<longleftrightarrow> 48 \<le> unat d \<and> unat d \<le> 57"

lemma sint_ascii: "unat (c :: u8) < 128 \<Longrightarrow> sint c = int (unat c)"
proof -
  assume "unat c < 128"
  then have "uint c < 128" by (simp add: nat_less_iff flip: nat_uint_eq)
  moreover have "- 128 \<le> uint c" by (rule order_trans [OF _ uint_ge_0]) simp
  ultimately have "signed_take_bit 7 (uint c) = uint c" by (intro signed_take_bit_int_eq_self) simp_all
  then show ?thesis by (simp add: sint_uint)
qed

lemma sint_not_ascii: "128 \<le> unat (c :: u8) \<Longrightarrow> sint c < 0"
proof -
  assume *: "128 \<le> unat c"
  then have "128 \<le> uint c" by (simp add: le_nat_iff flip: nat_uint_eq)
  moreover have "uint c < 256" using unsigned_less [of c] by simp
  ultimately have "signed_take_bit 7 (uint c) < 0"
    by (simp add: signed_take_bit_eq_take_bit_shift take_bit_eq_mod mod_pos_geq)
  then show ?thesis by (simp add: sint_uint)
qed

lemma isdigit_char [simp]: "isdigit (sint c) \<longleftrightarrow> digit_char c"
  using sint_ascii [of c] sint_not_ascii [of c] unfolding isdigit_def digit_char_def by linarith

lemma digit_value: "digit_char d \<Longrightarrow> word_of_int (sint d - 48) = (of_nat (unat d - 48) :: 'a :: len word)"
proof -
  assume d: "digit_char d"
  then have "sint d - 48 = int (unat d - 48)" using sint_ascii [of d] unfolding digit_char_def by linarith
  then show ?thesis by (simp only: of_int_of_nat_eq)
qed

lemma times_ten: "push_bit 3 (of_nat a :: 'a :: len word) + push_bit 1 (of_nat a) = of_nat (10 * a)"
  by (simp add: push_bit_eq_mult)

lemma atoi_digits_steps:
  "m (str + i) = Some d \<Longrightarrow> digit_char d \<Longrightarrow> atoi_digits m str i n =
     atoi_digits m str (i + 1) (push_bit 3 n + push_bit 1 n + word_of_int (sint d - 48))"
  "m (str + i) = Some d \<Longrightarrow> \<not> digit_char d \<Longrightarrow> atoi_digits m str i n = Some n"
  "m (str + i) = Some d \<Longrightarrow> digit_char d \<Longrightarrow> atol_digits m str i k =
     atol_digits m str (i + 1) (push_bit 3 k + push_bit 1 k + word_of_int (sint d - 48))"
  "m (str + i) = Some d \<Longrightarrow> \<not> digit_char d \<Longrightarrow> atol_digits m str i k = Some k"
  by (subst atoi_digits.simps atol_digits.simps, simp)+

lemma digits_value:
  assumes "m (str + i + length ds) = Some c" "\<not> digit_char c"
    and "holds_bytes m (str + i) ds" "list_all digit_char ds"
  shows "atoi_digits m str i (of_nat a) = Some (of_nat (foldl (\<lambda>a d. 10 * a + (unat d - 48)) a ds))"
    and "atol_digits m str i (of_nat a) = Some (of_nat (foldl (\<lambda>a d. 10 * a + (unat d - 48)) a ds))"
  using assms
proof (induction ds arbitrary: i a)
  case Nil
  {
    case 1
    then show ?case by (simp add: atoi_digits_steps)
  next
    case 2
    then show ?case by (simp add: atoi_digits_steps)
  }
next
  case (Cons d ds)
  {
    case 1
    then have d: "m (str + i) = Some d" "digit_char d" by simp_all
    show ?case
      unfolding atoi_digits_steps(1) [of m str i d, OF d] times_ten digit_value [OF d(2)] of_nat_add [symmetric] foldl_Cons
      using Cons.IH(1) [of "i + 1"] 1 by (simp del: of_nat_add of_nat_mult)
  next
    case 2
    then have d: "m (str + i) = Some d" "digit_char d" by simp_all
    show ?case
      unfolding atoi_digits_steps(3) [of m str i d, OF d] times_ten digit_value [OF d(2)] of_nat_add [symmetric] foldl_Cons
      using Cons.IH(2) [of "i + 1"] 2 by (simp del: of_nat_add of_nat_mult)
  }
qed

lemma skip_spaces_run:
  "holds_bytes m (str + i) sp \<Longrightarrow> list_all (\<lambda>c. isspace (sint c)) sp \<Longrightarrow> m (str + i + length sp) = Some c \<Longrightarrow>
     \<not> isspace (sint c) \<Longrightarrow> skip_spaces m str i = Some (i + length sp)"
proof (induction sp arbitrary: i)
  case Nil
  then show ?case by (subst skip_spaces.simps) simp
next
  case (Cons d sp)
  then show ?case by (subst skip_spaces.simps) simp
qed

lemma isspace_not_number: "c = 43 \<or> c = 45 \<or> digit_char c \<Longrightarrow> \<not> isspace (sint c)"
proof -
  assume "c = 43 \<or> c = 45 \<or> digit_char c"
  then have u: "43 \<le> unat c" "unat c \<le> 57" by (auto simp: digit_char_def)
  then have "sint c = int (unat c)" by (intro sint_ascii) simp
  with u show ?thesis unfolding isspace_def by linarith
qed

text \<open>The shape of a number as \<open>atoi\<close> and \<open>atol\<close> read it, with the character behind it.\<close>

definition number_at :: "mem \<Rightarrow> nat \<Rightarrow> u8 list \<Rightarrow> u8 list \<Rightarrow> u8 list \<Rightarrow> bool" where
  "number_at m str sp sg ds \<longleftrightarrow> holds_bytes m str (sp @ sg @ ds) \<and> list_all (\<lambda>c. isspace (sint c)) sp \<and>
     sg \<in> {[], [43], [45]} \<and> list_all digit_char ds \<and> ds \<noteq> [] \<and>
     (\<exists>c. m (str + length (sp @ sg @ ds)) = Some c \<and> \<not> digit_char c)"

lemma number_at_parts:
  assumes "number_at m str sp sg ds"
  shows "\<exists>c. skip_spaces m str 0 = Some (length sp) \<and> m (str + length sp) = Some c \<and>
    (c = 45 \<longleftrightarrow> sg = [45]) \<and> length sp + length sg = (if c = 43 \<or> c = 45 then length sp + 1 else length sp)"
proof -
  obtain d ds' where ds: "ds = d # ds'" "digit_char d" using assms by (cases ds) (auto simp: number_at_def)
  define c where "c = hd (sg @ ds)"
  have c: "m (str + length sp) = Some c" "c = 43 \<or> c = 45 \<or> digit_char c"
    using assms ds by (auto simp: number_at_def c_def)
  have "skip_spaces m str 0 = Some (length sp)"
    using skip_spaces_run [of m str 0 sp c] assms c isspace_not_number [OF c(2)] by (simp add: number_at_def)
  moreover have "digit_char c \<Longrightarrow> c \<noteq> 43 \<and> c \<noteq> 45" by (auto simp: digit_char_def)
  ultimately show ?thesis using c assms ds by (auto simp: number_at_def c_def digit_char_def)
qed

lemma atoi_number:
  assumes "number_at m str sp sg ds"
  shows "atoi m str = Some (if sg = [45] then - of_nat (dec_value ds) else of_nat (dec_value ds))"
    and "atol m str = Some (if sg = [45] then - of_nat (dec_value ds) else of_nat (dec_value ds))"
proof -
  obtain c where c: "skip_spaces m str 0 = Some (length sp)" "m (str + length sp) = Some c"
    "c = 45 \<longleftrightarrow> sg = [45]" "length sp + length sg = (if c = 43 \<or> c = 45 then length sp + 1 else length sp)"
    using number_at_parts [OF assms] by blast
  let ?i = "length sp + length sg"
  obtain e where "m (str + ?i + length ds) = Some e" "\<not> digit_char e" "holds_bytes m (str + ?i) ds"
    "list_all digit_char ds" using assms by (auto simp: number_at_def add.assoc)
  note v = digits_value [OF this, where a = 0, folded dec_value_def]
  show "atoi m str = Some (if sg = [45] then - of_nat (dec_value ds) else of_nat (dec_value ds))"
    unfolding atoi_def c(1) load_some c(2) bind.bind_lunit c(4) [symmetric] using c(3) v(1) by simp
  show "atol m str = Some (if sg = [45] then - of_nat (dec_value ds) else of_nat (dec_value ds))"
    unfolding atol_def c(1) load_some c(2) bind.bind_lunit c(4) [symmetric] using c(3) v(2) by simp
qed

section \<open>Exit functions\<close>

text \<open>The table \<^verbatim>\<open>_atexit_tab\<close> has 32 entries, 0 for a free one.\<close>

definition ATEXIT_MAX :: nat where
  "ATEXIT_MAX = 32"

function atexit_loop :: "u64 list \<Rightarrow> u64 \<Rightarrow> nat \<Rightarrow> u64 list \<times> int" where
  "atexit_loop tab func i =
     (if i < ATEXIT_MAX then
        if tab ! i = 0 then (tab[i := func], 0) else atexit_loop tab func (i + 1)
      else (tab, -1))"
  by pat_completeness auto
termination atexit_loop
  by (relation "measure (\<lambda>(tab, func, i). ATEXIT_MAX - i)") auto

declare atexit_loop.simps [simp del]

definition atexit :: "u64 list \<Rightarrow> u64 \<Rightarrow> u64 list \<times> int" where
  "atexit tab func = atexit_loop tab func 0"

text \<open>The functions \<open>exit\<close> calls, in order, before it enters the kernel with the status.\<close>

fun exit_calls :: "u64 list \<Rightarrow> nat \<Rightarrow> u64 list" where
  "exit_calls tab 0 = []"
| "exit_calls tab (Suc i) = (if tab ! i \<noteq> 0 then [tab ! i] else []) @ exit_calls tab i"

definition exit :: "u64 list \<Rightarrow> int \<Rightarrow> u64 list \<times> int" where
  "exit tab status = (exit_calls tab ATEXIT_MAX, status)"

lemma atexit_loop_first:
  assumes "length tab = ATEXIT_MAX" "length fs \<le> ATEXIT_MAX" "i \<le> length fs" "0 \<notin> set fs"
    and "tab = fs @ replicate (ATEXIT_MAX - length fs) 0"
  shows "atexit_loop tab f i = (if length fs < ATEXIT_MAX then (tab[length fs := f], 0) else (tab, -1))"
  using assms(3)
proof (induction "length fs - i" arbitrary: i)
  case 0
  then show ?case
    using assms by (subst atexit_loop.simps) (auto simp: nth_append)
next
  case (Suc k)
  then have i: "i < length fs" by simp
  then have "tab ! i \<noteq> 0" "i < ATEXIT_MAX" using assms(2,4,5) nth_mem [OF i] by (auto simp: nth_append simp del: nth_mem)
  then show ?case using Suc.hyps(1) [of "Suc i"] Suc.hyps(2) i by (subst atexit_loop.simps) simp
qed

lemma exit_calls_rev: "n \<le> length tab \<Longrightarrow> exit_calls tab n = rev (filter (\<lambda>f. f \<noteq> 0) (take n tab))"
  by (induction n) (auto simp: take_Suc_conv_app_nth)

section \<open>The environment\<close>

record env =
  environ :: "nat list"
  inheap :: bool
  emem :: mem
  env_errno :: int

definition env_einval :: int where
  "env_einval = 22"

definition env_enomem :: int where
  "env_enomem = 12"

fun getenv_loop :: "mem \<Rightarrow> nat \<Rightarrow> nat \<Rightarrow> nat list \<Rightarrow> nat option" where
  "getenv_loop m name namelen [] = Some 0"
| "getenv_loop m name namelen (e # es) =
     do {
       r \<leftarrow> strncmp m name e (of_nat namelen);
       if r = 0 then Some (e + namelen + 1) else getenv_loop m name namelen es
     }"

text \<open>The length is taken before the pointer is checked, so a null pointer faults as in the code.\<close>

definition bad_name :: "mem \<Rightarrow> nat \<Rightarrow> bool option" where
  "bad_name m name =
     do {
       namelen \<leftarrow> strlen m name;
       if name = 0 \<or> namelen = 0 then Some True
       else do { p \<leftarrow> strchr m name 61; Some (p \<noteq> 0) }
     }"

definition getenv :: "env \<Rightarrow> nat \<Rightarrow> (env \<times> nat) option" where
  "getenv e name =
     do {
       namelen \<leftarrow> strlen (emem e) name;
       bad \<leftarrow> bad_name (emem e) name;
       if bad then Some (e\<lparr>env_errno := env_einval\<rparr>, 0)
       else do { v \<leftarrow> getenv_loop (emem e) name namelen (environ e); Some (e, v) }
     }"

text \<open>
  \<open>environ_relocate\<close>: whether the array could be allocated is the parameter \<open>alloc\<close>; the copied array
  holds the same pointers.
\<close>

definition environ_relocate :: "(nat \<Rightarrow> bool) \<Rightarrow> env \<Rightarrow> env \<times> int" where
  "environ_relocate alloc e =
     (if alloc ((2 + length (environ e)) * 8) then (e\<lparr>inheap := True\<rparr>, 0)
      else (e\<lparr>env_errno := env_enomem\<rparr>, - 1))"

text \<open>The loop returns the index of the entry that was replaced, or the length of the array.\<close>

fun putenv_loop :: "mem \<Rightarrow> nat \<Rightarrow> nat \<Rightarrow> nat list \<Rightarrow> nat option" where
  "putenv_loop m string' namelen [] = Some 0"
| "putenv_loop m string' namelen (e # es) =
     do {
       r \<leftarrow> strncmp m e string' (of_nat namelen);
       if r = 0 then Some 0 else do { i \<leftarrow> putenv_loop m string' namelen es; Some (i + 1) }
     }"

definition putenv :: "(nat \<Rightarrow> bool) \<Rightarrow> env \<Rightarrow> nat \<Rightarrow> (env \<times> int) option" where
  "putenv alloc e string' =
     do {
       stringlen \<leftarrow> strlen (emem e) string';
       p \<leftarrow> (if string' = 0 \<or> stringlen = 0 then Some 0 else strchr (emem e) string' 61);
       if p = 0 then Some (e\<lparr>env_errno := env_einval\<rparr>, - 1)
       else do {
         i \<leftarrow> putenv_loop (emem e) string' (p - string') (environ e);
         if i < length (environ e) then Some (e\<lparr>environ := (environ e)[i := string']\<rparr>, 0)
         else let (e1, r) = environ_relocate alloc e
              in if r < 0 then Some (e1, - 1)
                 else Some (e1\<lparr>environ := environ e1 @ [string']\<rparr>, 0)
       }
     }"

fun unsetenv_loop :: "mem \<Rightarrow> nat \<Rightarrow> nat \<Rightarrow> nat list \<Rightarrow> nat option" where
  "unsetenv_loop m name namelen [] = Some 0"
| "unsetenv_loop m name namelen (e # es) =
     do {
       r \<leftarrow> strncmp m name e (of_nat namelen);
       if r = 0 then Some 0 else do { i \<leftarrow> unsetenv_loop m name namelen es; Some (i + 1) }
     }"

definition unsetenv :: "env \<Rightarrow> nat \<Rightarrow> (env \<times> int) option" where
  "unsetenv e name =
     do {
       namelen \<leftarrow> strlen (emem e) name;
       bad \<leftarrow> bad_name (emem e) name;
       if bad then Some (e\<lparr>env_errno := env_einval\<rparr>, - 1)
       else do {
         i \<leftarrow> unsetenv_loop (emem e) name namelen (environ e);
         Some (e\<lparr>environ := take i (environ e) @ drop (i + 1) (environ e)\<rparr>, 0)
       }
     }"

text \<open>
  \<open>setenv\<close>: \<open>malloc\<close> is a parameter that returns the memory and the new pointer (0 when it fails);
  \<open>eqs\<close> is the address of the literal \<^verbatim>\<open>"="\<close>.
\<close>

definition setenv ::
    "(nat \<Rightarrow> bool) \<Rightarrow> (mem \<Rightarrow> nat \<Rightarrow> (mem \<times> nat) option) \<Rightarrow> nat \<Rightarrow> env \<Rightarrow> nat \<Rightarrow> nat \<Rightarrow> bool \<Rightarrow>
     (env \<times> int) option" where
  "setenv alloc malloc eqs e name value overwrite =
     do {
       bad \<leftarrow> bad_name (emem e) name;
       if bad then Some (e\<lparr>env_errno := env_einval\<rparr>, - 1)
       else do {
         (e1, oldval) \<leftarrow> getenv e name;
         if oldval \<noteq> 0 \<and> \<not> overwrite then Some (e1\<lparr>env_errno := env_einval\<rparr>, - 1)
         else do {
           vlen \<leftarrow> strlen (emem e1) value;
           olen \<leftarrow> (if oldval \<noteq> 0 then strlen (emem e1) oldval else Some 0);
           if oldval \<noteq> 0 \<and> vlen \<le> olen
           then do { (m, _) \<leftarrow> strcpy (emem e1) oldval value; Some (e1\<lparr>emem := m\<rparr>, 0) }
           else do {
             (e2, r) \<leftarrow> (if oldval \<noteq> 0 then unsetenv e1 name else Some (e1, 0));
             if r < 0 then Some (e2, - 1)
             else do {
               nlen \<leftarrow> strlen (emem e2) name;
               (m1, var) \<leftarrow> malloc (emem e2) (nlen + vlen + 2);
               if var = 0 then Some (e2\<lparr>emem := m1\<rparr>, - 1)
               else do {
                 (m2, _) \<leftarrow> strcpy m1 var name;
                 (m3, _) \<leftarrow> strcat m2 var eqs;
                 (m4, _) \<leftarrow> strcat m3 var value;
                 (e3, r) \<leftarrow> putenv alloc (e2\<lparr>emem := m4\<rparr>) var;
                 Some (e3, if r \<noteq> 0 then - 1 else 0)
               }
             }
           }
         }
       }
     }"

text \<open>The strings of an environment, and the entries whose first characters are a given name.\<close>

definition env_strings :: "mem \<Rightarrow> nat list \<Rightarrow> u8 list list \<Rightarrow> bool" where
  "env_strings m es ss \<longleftrightarrow> list_all2 (cstr m) es ss"

definition starts_with :: "u8 list \<Rightarrow> u8 list \<Rightarrow> bool" where
  "starts_with nm s \<longleftrightarrow> take (length nm) s = nm"

definition first_match :: "u8 list \<Rightarrow> u8 list list \<Rightarrow> nat" where
  "first_match nm ss = length (takeWhile (\<lambda>s. \<not> starts_with nm s) ss)"

lemma first_match_Cons [simp]:
  "first_match nm [] = 0"
  "first_match nm (s # ss) = (if starts_with nm s then 0 else Suc (first_match nm ss))"
  by (simp_all add: first_match_def)

text \<open>\<open>strncmp\<close> against the first \<open>n\<close> characters of the second string.\<close>

lemma strncmp_front:
  assumes "cstr m p xs" "cstr m q ys" "n \<le> length ys" "n < 2 ^ 64"
  shows "\<exists>r. strncmp m p q (of_nat n) = Some r \<and> (r = 0 \<longleftrightarrow> take n xs = take n ys)"
proof -
  have "unat (of_nat n :: u64) = n" using assms(4) by (simp add: unsigned_of_nat take_bit_nat_eq_self)
  moreover have "take n (xs @ [0]) = take n ys \<longleftrightarrow> take n xs = take n ys"
  proof (cases "n \<le> length xs")
    case False
    then have "take n xs \<noteq> take n ys" "take n (xs @ [0]) = xs @ [0]"
      using assms(3) by (auto dest: arg_cong [where f = length])
    moreover have "0 \<notin> set (take n ys)" using assms(2) by (auto simp: cstr_def dest: in_set_takeD)
    ultimately show ?thesis by (metis in_set_conv_decomp)
  qed simp
  ultimately show ?thesis using strncmp_zero [OF assms(1,2), of "of_nat n"] assms(3) by simp
qed

lemma putenv_loop_first:
  assumes "cstr m p s" "nm = take n s" "n \<le> length s" "n < 2 ^ 64"
  shows "env_strings m es ss \<Longrightarrow> putenv_loop m p n es = Some (first_match nm ss)"
proof (induction es arbitrary: ss)
  case (Cons e es)
  then obtain t ts where ss: "ss = t # ts" "cstr m e t" "env_strings m es ts"
    by (auto simp: env_strings_def list_all2_Cons1)
  obtain r where "strncmp m e p (of_nat n) = Some r" "r = 0 \<longleftrightarrow> take n t = take n s"
    using strncmp_front [OF ss(2) assms(1,3,4)] by blast
  then show ?case using Cons.IH [OF ss(3)] ss(1) assms(2,3) by (auto simp: starts_with_def min_def)
qed (simp add: env_strings_def)

lemma unsetenv_loop_first:
  assumes "cstr m p nm" "length nm < 2 ^ 64"
  shows "env_strings m es ss \<Longrightarrow> unsetenv_loop m p (length nm) es = Some (first_match nm ss)"
proof (induction es arbitrary: ss)
  case (Cons e es)
  then obtain t ts where ss: "ss = t # ts" "cstr m e t" "env_strings m es ts"
    by (auto simp: env_strings_def list_all2_Cons1)
  obtain r where "strncmp m p e (of_nat (length nm)) = Some r" "r = 0 \<longleftrightarrow> take (length nm) t = nm"
    using strncmp_prefix [OF assms(1) ss(2) assms(2)] by blast
  then show ?case using Cons.IH [OF ss(3)] ss(1) by (auto simp: starts_with_def)
qed (simp add: env_strings_def)

lemma getenv_loop_first:
  assumes "cstr m p nm" "length nm < 2 ^ 64"
  shows "env_strings m es ss \<Longrightarrow> getenv_loop m p (length nm) es =
    Some (if first_match nm ss < length es then es ! first_match nm ss + length nm + 1 else 0)"
proof (induction es arbitrary: ss)
  case (Cons e es)
  then obtain t ts where ss: "ss = t # ts" "cstr m e t" "env_strings m es ts"
    by (auto simp: env_strings_def list_all2_Cons1)
  obtain r where "strncmp m p e (of_nat (length nm)) = Some r" "r = 0 \<longleftrightarrow> take (length nm) t = nm"
    using strncmp_prefix [OF assms(1) ss(2) assms(2)] by blast
  then show ?case using Cons.IH [OF ss(3)] ss(1) by (auto simp: starts_with_def)
qed (simp add: env_strings_def)

text \<open>A name: not empty and without \<^verbatim>\<open>=\<close>.\<close>

definition env_name :: "u8 list \<Rightarrow> bool" where
  "env_name nm \<longleftrightarrow> nm \<noteq> [] \<and> 61 \<notin> set nm \<and> length nm < 2 ^ 31"

lemma sint_61: "sint (c :: u8) = 61 \<longleftrightarrow> c = 61"
proof -
  have "sint (61 :: u8) = 61" by simp
  then show ?thesis by (metis signed_word_eqI)
qed

lemma strchr_eq:
  assumes "cstr m p cs" "p \<noteq> 0"
  shows "\<exists>q. strchr m p 61 = Some q \<and> (q = 0 \<longleftrightarrow> 61 \<notin> set cs)"
    and "61 \<notin> set nm \<Longrightarrow> cs = nm @ 61 # val \<Longrightarrow> strchr m p 61 = Some (p + length nm)"
proof -
  have "length (takeWhile (\<lambda>x. x \<noteq> 61) cs) < length cs \<longleftrightarrow> 61 \<in> set cs"
    by (induction cs) auto
  moreover have tw: "61 \<notin> set nm \<Longrightarrow> takeWhile (\<lambda>x. x \<noteq> 61) (nm @ 61 # val) = nm" for val
    by (induction nm) auto
  ultimately show "\<exists>q. strchr m p 61 = Some q \<and> (q = 0 \<longleftrightarrow> 61 \<notin> set cs)"
    using strchr_index [OF assms(1), of 61] assms(2) by (simp add: sint_61 Let_def)
  show "61 \<notin> set nm \<Longrightarrow> cs = nm @ 61 # val \<Longrightarrow> strchr m p 61 = Some (p + length nm)"
    using strchr_index [OF assms(1), of 61] tw by (simp add: sint_61 Let_def)
qed

lemma bad_name_ok: "cstr m p nm \<Longrightarrow> p \<noteq> 0 \<Longrightarrow> env_name nm \<Longrightarrow> bad_name m p = Some False"
  using strlen_cstr [of m p nm] strchr_eq(1) [of m p nm] by (auto simp: bad_name_def env_name_def)

lemma getenv_first:
  assumes "env_strings (emem e) (environ e) ss" "cstr (emem e) p nm" "p \<noteq> 0" "env_name nm"
  shows "getenv e p = Some (e, if first_match nm ss < length (environ e)
    then environ e ! first_match nm ss + length nm + 1 else 0)"
  using getenv_loop_first [OF assms(2) _ assms(1)] bad_name_ok [OF assms(2,3,4)] strlen_cstr [OF assms(2)]
    assms(4) by (simp add: getenv_def env_name_def)

lemma putenv_first:
  assumes "env_strings (emem e) (environ e) ss" "cstr (emem e) p (nm @ 61 # val)" "p \<noteq> 0" "env_name nm"
  shows "putenv alloc e p =
    (let i = first_match nm ss
     in if i < length (environ e) then Some (e\<lparr>environ := (environ e)[i := p]\<rparr>, 0)
        else if alloc ((2 + length (environ e)) * 8)
        then Some (e\<lparr>inheap := True, environ := environ e @ [p]\<rparr>, 0)
        else Some (e\<lparr>env_errno := env_enomem\<rparr>, - 1))"
proof -
  have "putenv_loop (emem e) p (length nm) (environ e) = Some (first_match nm ss)"
    using putenv_loop_first [OF assms(2) _ _ _ assms(1), of nm "length nm"] assms(4) by (simp add: env_name_def)
  moreover have "strchr (emem e) p 61 = Some (p + length nm)"
    using strchr_eq(2) [OF assms(2,3)] assms(4) by (simp add: env_name_def)
  ultimately show ?thesis
    using strlen_cstr [OF assms(2)] assms(3)
    by (simp add: putenv_def environ_relocate_def Let_def)
qed

lemma first_match_le: "first_match nm ss \<le> length ss"
  by (simp add: first_match_def length_takeWhile_le)

lemma first_match_append:
  "first_match nm (ss @ [s]) = (if first_match nm ss < length ss then first_match nm ss
     else if starts_with nm s then length ss else Suc (length ss))"
  by (induction ss) auto

lemma first_match_update:
  "first_match nm ss < length ss \<Longrightarrow> starts_with nm s \<Longrightarrow>
     first_match nm (ss[first_match nm ss := s]) = first_match nm ss"
  by (induction ss) auto

section \<open>Properties\<close>

text \<open>
  \<open>atoi\<close> returns and reads an optionally signed decimal number behind white space, up to the first
  character that is no digit; within the range of \<^verbatim>\<open>int\<close> the shifts and additions do not wrap around.
\<close>

theorem atoi_reads_number:
  assumes "number_at m str sp sg ds" "dec_value ds < 2 ^ 31"
  shows "\<exists>w. atoi m str = Some w \<and> sint w = (if sg = [45] then - int (dec_value ds) else int (dec_value ds))"
proof -
  let ?v = "int (dec_value ds)"
  have "sint (of_nat (dec_value ds) :: 32 word) = ?v"
    using assms(2) by (simp add: signed_of_nat signed_take_bit_int_eq_self)
  moreover have "sint (- of_nat (dec_value ds) :: 32 word) = - ?v"
  proof -
    have *: "- of_nat (dec_value ds) = (word_of_int (- ?v) :: 32 word)" by simp
    have "signed_take_bit 31 (- ?v) = - ?v"
      using assms(2) by (intro signed_take_bit_int_eq_self) simp_all
    then show ?thesis unfolding * signed_of_int by simp
  qed
  ultimately show ?thesis using atoi_number(1) [OF assms(1)] by auto
qed

theorem atoi_reads_number_witness:
  "\<exists>w. atoi (put Map.empty 1 [32, 45, 52, 50, 0]) 1 = Some w \<and> sint w = - 42"
  using atoi_reads_number [of "put Map.empty 1 [32, 45, 52, 50, 0]" 1 "[32]" "[45]" "[52, 50]"]
  by (simp add: number_at_def digit_char_def dec_value_def isspace_def)

text \<open>
  After \<open>putenv\<close> of \<open>name=value\<close> a \<open>getenv\<close> of the name returns the value, whether the variable was
  there before or the array had to grow; all other entries keep their place.
\<close>

theorem putenv_getenv_roundtrip:
  assumes "env_strings (emem e) (environ e) ss" "cstr (emem e) p (nm @ 61 # val)" "p \<noteq> 0" "env_name nm"
    and "cstr (emem e) q nm" "q \<noteq> 0" "alloc ((2 + length (environ e)) * 8)"
  shows "\<exists>e'. putenv alloc e p = Some (e', 0) \<and> getenv e' q = Some (e', p + length nm + 1) \<and>
     cstr (emem e') (p + length nm + 1) val \<and>
     (\<forall>i < length (environ e). i \<noteq> first_match nm ss \<longrightarrow> environ e' ! i = environ e ! i)"
proof -
  have len: "length ss = length (environ e)" using assms(1) by (auto simp: env_strings_def list_all2_lengthD)
  have sw: "starts_with nm (nm @ 61 # val)" by (simp add: starts_with_def)
  have val: "cstr (emem e) (p + length nm + 1) val" using assms(2) by simp
  show ?thesis
  proof (cases "first_match nm ss < length (environ e)")
    case True
    let ?e = "e\<lparr>environ := (environ e)[first_match nm ss := p]\<rparr>"
    have "env_strings (emem ?e) (environ ?e) (ss[first_match nm ss := nm @ 61 # val])"
      using assms(1,2) by (simp add: env_strings_def list_all2_update_cong)
    from getenv_first [OF this _ assms(6,4)] show ?thesis
      using putenv_first [OF assms(1-4), of alloc] True len assms(5) val
      by (simp add: first_match_update sw Let_def)
  next
    case False
    let ?e = "e\<lparr>inheap := True, environ := environ e @ [p]\<rparr>"
    have "env_strings (emem ?e) (environ ?e) (ss @ [nm @ 61 # val])"
      using assms(1,2) len by (simp add: env_strings_def list_all2_append)
    from getenv_first [OF this _ assms(6,4)] show ?thesis
      using putenv_first [OF assms(1-4), of alloc] False len assms(5,7) val
      by (simp add: first_match_append sw Let_def nth_append)
  qed
qed

definition demo_env :: env where
  "demo_env = \<lparr>environ = [1], inheap = False,
     emem = put Map.empty 1 [65, 61, 49, 0, 66, 61, 50, 0, 66, 0], env_errno = 0\<rparr>"

theorem putenv_getenv_roundtrip_witness:
  "\<exists>e'. putenv (\<lambda>_. True) demo_env 5 = Some (e', 0) \<and> getenv e' 9 = Some (e', 7)"
  using putenv_getenv_roundtrip [of demo_env "[[65, 61, 49]]" 5 "[66]" "[50]" 9 "\<lambda>_. True"]
  by (auto simp: demo_env_def env_strings_def env_name_def put_apply)

text \<open>
  The name is only compared as a prefix: a variable whose name starts with the given one is found
  instead, and the returned pointer then lies inside its name.
\<close>

lemma getenv_finds_longer_name:
  assumes "emem e = put Map.empty 1 [80, 65, 84, 72, 61, 47, 0, 80, 65, 0]" "environ e = [1]"
  shows "getenv e 8 = Some (e, 4)"
  using getenv_first [of e "[[80, 65, 84, 72, 61, 47]]" 8 "[80, 65]"] assms
  by (simp add: env_strings_def env_name_def put_apply starts_with_def)

text \<open>
  Up to 32 functions can be registered with \<open>atexit\<close>; \<open>exit\<close> calls all of them, the last
  registered first, and any further registration is refused without losing one.
\<close>

theorem exit_calls_in_reverse:
  assumes "0 \<notin> set fs" "length fs \<le> ATEXIT_MAX"
  shows "exit (foldl (\<lambda>tab f. fst (atexit tab f)) (replicate ATEXIT_MAX 0) fs) st = (rev fs, st) \<and>
    snd (atexit (foldl (\<lambda>tab f. fst (atexit tab f)) (replicate ATEXIT_MAX 0) fs) f) =
      (if length fs < ATEXIT_MAX then 0 else - 1)"
proof -
  have tab: "foldl (\<lambda>tab f. fst (atexit tab f)) (replicate ATEXIT_MAX 0) fs =
      fs @ replicate (ATEXIT_MAX - length fs) 0"
    using assms
  proof (induction fs rule: rev_induct)
    case (snoc f fs)
    then have "ATEXIT_MAX - length fs = Suc (ATEXIT_MAX - length (fs @ [f]))" by simp
    then show ?case
      using snoc atexit_loop_first [of "fs @ replicate (ATEXIT_MAX - length fs) 0" fs 0 f]
      by (simp add: atexit_def)
  qed simp
  have "filter (\<lambda>f. f \<noteq> 0) fs = fs" using assms(1) by (auto intro: filter_True)
  then show ?thesis
    unfolding tab using assms atexit_loop_first [of "fs @ replicate (ATEXIT_MAX - length fs) 0" fs 0 f]
    by (simp add: exit_def exit_calls_rev atexit_def)
qed

theorem exit_calls_in_reverse_witness:
  "exit (foldl (\<lambda>tab f. fst (atexit tab f)) (replicate ATEXIT_MAX 0) [7, 8, 9]) 1 = ([9, 8, 7], 1)"
  using exit_calls_in_reverse [of "[7, 8, 9]" 1] by (simp add: ATEXIT_MAX_def)

end
