(* ===== verification/Printf.thy ===== *)
theory Printf
  imports Stdlib
begin

text \<open>
  \<^verbatim>\<open>libs/libc/stdio/vsnprintf.c\<close>: formatted output into a buffer, with the conversions of integers and
  strings it uses. The buffer and the format lie in the program's memory, so a write outside of the
  mapped range is a fault (\<open>None\<close>). The variable arguments are the list of 64-bit words that
  \<^verbatim>\<open>va_arg\<close> takes one after the other.
\<close>

section \<open>Integers to text\<close>

text \<open>The base is 2, 8, 10 or 16 at every call; the test of it makes the loop a total function.\<close>

function count_digits :: "nat \<Rightarrow> nat \<Rightarrow> nat" where
  "count_digits n base = (if n > 0 \<and> base > 1 then Suc (count_digits (n div base) base) else 0)"
  by pat_completeness auto
termination count_digits
  by (relation "measure fst") auto

declare count_digits.simps [simp del]

definition digit_code :: "bool \<Rightarrow> nat \<Rightarrow> u8" where
  "digit_code uppercase r =
     (if r \<le> 9 then of_nat (r + 48) else if uppercase then of_nat (r - 10 + 65) else of_nat (r - 10 + 97))"

text \<open>The loop over \<open>b\<close>, downwards; the counter here is \<open>b + 1\<close>.\<close>

fun uimaxtoa_write :: "mem \<Rightarrow> nat \<Rightarrow> nat \<Rightarrow> nat \<Rightarrow> bool \<Rightarrow> nat \<Rightarrow> mem option" where
  "uimaxtoa_write m integer buffer base uppercase 0 = Some m"
| "uimaxtoa_write m integer buffer base uppercase (Suc b) =
     (if integer \<noteq> 0 then
        do {
          m' \<leftarrow> store m (buffer + b) (digit_code uppercase (integer mod base));
          uimaxtoa_write m' (integer div base) buffer base uppercase b
        }
      else Some m)"

definition uimaxtoa :: "mem \<Rightarrow> nat \<Rightarrow> nat \<Rightarrow> nat \<Rightarrow> bool \<Rightarrow> nat \<Rightarrow> (mem \<times> nat) option" where
  "uimaxtoa m integer buffer base uppercase size' =
     (let digits = count_digits integer base
      in if buffer = 0 \<and> integer = 0 then Some (m, 1)
         else if buffer = 0 \<and> integer > 0 then Some (m, digits)
         else if integer = 0 then do { m' \<leftarrow> store m buffer 48; Some (m', 1) }
         else let digits' = (if size' > 0 \<and> digits > size' then size' else digits)
              in do {
                m' \<leftarrow> uimaxtoa_write m integer buffer base uppercase digits';
                Some (m', digits')
              })"

text \<open>\<^verbatim>\<open>size - 1\<close> on a \<^verbatim>\<open>size_t\<close>.\<close>

definition size_pred :: "nat \<Rightarrow> nat" where
  "size_pred n = (if n = 0 then 2 ^ 64 - 1 else n - 1)"

definition imaxtoa :: "mem \<Rightarrow> int \<Rightarrow> nat \<Rightarrow> nat \<Rightarrow> bool \<Rightarrow> nat \<Rightarrow> (mem \<times> nat) option" where
  "imaxtoa m integer buffer base uppercase size' =
     (if integer \<ge> 0 then uimaxtoa m (nat integer) buffer base uppercase size'
      else if buffer = 0 then
        do { (m', n) \<leftarrow> uimaxtoa m (nat (- integer)) 0 base uppercase size'; Some (m', n + 1) }
      else do {
        m1 \<leftarrow> store m buffer 45;
        if size' = 1 then Some (m1, 1)
        else do {
          (m2, n) \<leftarrow> uimaxtoa m1 (nat (- integer)) (buffer + 1) base uppercase (size_pred size');
          Some (m2, n + 1)
        }
      })"

definition simaxtoa :: "mem \<Rightarrow> int \<Rightarrow> nat \<Rightarrow> nat \<Rightarrow> bool \<Rightarrow> nat \<Rightarrow> (mem \<times> nat) option" where
  "simaxtoa m integer buffer base uppercase size' =
     (if buffer = 0 \<and> integer \<ge> 0 then
        do { (m', n) \<leftarrow> uimaxtoa m (nat integer) 0 base uppercase size'; Some (m', n + 1) }
      else if buffer = 0 \<and> integer < 0 then
        do { (m', n) \<leftarrow> uimaxtoa m (nat (- integer)) 0 base uppercase size'; Some (m', n + 1) }
      else do {
        m1 \<leftarrow> store m buffer (if integer \<ge> 0 then 43 else 45);
        if size' = 1 then Some (m1, 1)
        else do {
          (m2, n) \<leftarrow> uimaxtoa m1 (if integer \<ge> 0 then nat integer else nat (- integer))
            (buffer + 1) base uppercase (size_pred size');
          Some (m2, n + 1)
        }
      })"

section \<open>Alignment\<close>

text \<open>The cut of the width to the space that is left.\<close>

definition clip_width :: "int \<Rightarrow> int \<Rightarrow> int" where
  "clip_width width max' =
     (let w = (if width > 0 \<and> max' > 0 \<and> width > max' then max' else width)
      in if w < 0 \<and> - max' < 0 \<and> w < - max' then - max' else w)"

text \<open>The three functions differ only in the conversion \<open>toa\<close> they call.\<close>

definition maxtoa_fill ::
    "(mem \<Rightarrow> 'i \<Rightarrow> nat \<Rightarrow> nat \<Rightarrow> bool \<Rightarrow> nat \<Rightarrow> (mem \<times> nat) option) \<Rightarrow>
     mem \<Rightarrow> 'i \<Rightarrow> nat \<Rightarrow> nat \<Rightarrow> bool \<Rightarrow> int \<Rightarrow> int \<Rightarrow> int \<Rightarrow> (mem \<times> nat) option" where
  "maxtoa_fill toa m integer buffer base uppercase width0 filler max' =
     (if max' < 0 then Some (m, 0)
      else do {
        (_, size_i) \<leftarrow> toa m integer 0 base uppercase 0;
        let width = clip_width width0 max';
        if size_i > nat \<bar>width\<bar> then toa m integer buffer base uppercase (nat \<bar>width\<bar>)
        else if width = 0 \<and> max' > 0 then toa m integer buffer base uppercase (nat max')
        else if width = 0 then toa m integer buffer base uppercase (nat \<bar>width\<bar>)
        else do {
          let size_f = nat \<bar>width\<bar> - size_i;
          if width < 0 then do {
            (m1, _) \<leftarrow> toa m integer buffer base uppercase 0;
            (m2, _) \<leftarrow> memset m1 (buffer + size_i) filler size_f;
            Some (m2, nat \<bar>width\<bar>)
          } else do {
            (m1, _) \<leftarrow> memset m buffer filler size_f;
            (m2, _) \<leftarrow> toa m1 integer (buffer + size_f) base uppercase 0;
            Some (m2, nat \<bar>width\<bar>)
          }
        }
      })"

definition uimaxtoa_fill :: "mem \<Rightarrow> nat \<Rightarrow> nat \<Rightarrow> nat \<Rightarrow> bool \<Rightarrow> int \<Rightarrow> int \<Rightarrow> int \<Rightarrow> (mem \<times> nat) option" where
  "uimaxtoa_fill = maxtoa_fill uimaxtoa"

definition imaxtoa_fill :: "mem \<Rightarrow> int \<Rightarrow> nat \<Rightarrow> nat \<Rightarrow> bool \<Rightarrow> int \<Rightarrow> int \<Rightarrow> int \<Rightarrow> (mem \<times> nat) option" where
  "imaxtoa_fill = maxtoa_fill imaxtoa"

definition simaxtoa_fill :: "mem \<Rightarrow> int \<Rightarrow> nat \<Rightarrow> nat \<Rightarrow> bool \<Rightarrow> int \<Rightarrow> int \<Rightarrow> int \<Rightarrow> (mem \<times> nat) option" where
  "simaxtoa_fill = maxtoa_fill simaxtoa"

text \<open>
  The difference \<open>size_f\<close> is a \<^verbatim>\<open>size_t\<close> and wraps around when the string is longer than the width;
  the index \<open>width\<close> may be negative.
\<close>

definition strtostr_fill :: "mem \<Rightarrow> nat \<Rightarrow> nat \<Rightarrow> int \<Rightarrow> int \<Rightarrow> int \<Rightarrow> (mem \<times> int) option" where
  "strtostr_fill m string' buffer width0 filler max' =
     (if max' < 0 then Some (m, 0)
      else do {
        size_s \<leftarrow> strlen m string';
        let width = clip_width width0 max';
        let aw = nat \<bar>width\<bar>;
        if width \<noteq> 0 \<and> size_s > aw then do {
          (m1, _) \<leftarrow> memcpy m buffer string' aw;
          m2 \<leftarrow> store m1 (nat (int buffer + width)) 0;
          Some (m2, width)
        } else if width = 0 \<and> max' > 0 \<and> size_s > nat max' then do {
          (m1, _) \<leftarrow> memcpy m buffer string' (nat max');
          m2 \<leftarrow> store m1 (buffer + nat max') 0;
          Some (m2, max')
        } else if width = 0 \<and> max' > 0 \<and> size_s < nat max' then do {
          (m1, _) \<leftarrow> memcpy m buffer string' size_s;
          m2 \<leftarrow> store m1 (buffer + size_s) 0;
          Some (m2, int size_s)
        } else do {
          let size_f = (if size_s \<le> aw then aw - size_s else 2 ^ 64 + aw - size_s);
          m2 \<leftarrow> (if width \<ge> 0 then do {
              (m1, _) \<leftarrow> memset m buffer filler size_f;
              (m2, _) \<leftarrow> strncpy m1 (buffer + size_f) string' size_s;
              Some m2
            } else do {
              (m1, _) \<leftarrow> strncpy m buffer string' size_s;
              (m2, _) \<leftarrow> memset m1 (buffer + size_s) filler size_f;
              Some m2
            });
          m3 \<leftarrow> store m2 (buffer + aw) 0;
          Some (m3, int aw)
        }
      })"

section \<open>The format\<close>

datatype specifier = SPECIFIER_NONE | SPECIFIER_FLAGS | SPECIFIER_WIDTH | SPECIFIER_PRECISION | SPECIFIER_TYPE

record pflags =
  FLAG_PLUS :: bool
  FLAG_MINUS :: bool
  FLAG_SPACE :: bool
  FLAG_ALTERNATE :: bool
  FLAG_ZERO :: bool

record pstate =
  pmem :: mem
  pf :: nat
  ps :: int
  remain :: int
  pspec :: specifier
  pflag :: pflags
  width_str :: "u8 list"
  precision_str :: "u8 list"
  pargs :: "u64 list"

text \<open>The address \<^verbatim>\<open>&str[s]\<close>.\<close>

definition at_index :: "nat \<Rightarrow> int \<Rightarrow> nat" where
  "at_index str s = nat (int str + s)"

fun take_digits :: "mem \<Rightarrow> nat \<Rightarrow> nat \<Rightarrow> (u8 list \<times> nat) option" where
  "take_digits m a 0 = Some ([], a)"
| "take_digits m a (Suc k) =
     do {
       c \<leftarrow> load m a;
       if isdigit (sint c) then do { (ds, a') \<leftarrow> take_digits m (a + 1) k; Some (c # ds, a') }
       else Some ([], a)
     }"

text \<open>\<^verbatim>\<open>width_str[w] = 0\<close> is outside of the array when all of it was filled.\<close>

definition read_number :: "mem \<Rightarrow> nat \<Rightarrow> nat \<Rightarrow> (u8 list \<times> nat) option" where
  "read_number m a str_size =
     do { (ds, a') \<leftarrow> take_digits m a str_size; if length ds < str_size then Some (ds, a') else None }"

definition va_arg :: "u64 list \<Rightarrow> (u64 \<times> u64 list) option" where
  "va_arg ap = (case ap of [] \<Rightarrow> None | v # ap' \<Rightarrow> Some (v, ap'))"

definition put_unsigned ::
    "mem \<Rightarrow> u64 list \<Rightarrow> nat \<Rightarrow> nat \<Rightarrow> bool \<Rightarrow> int \<Rightarrow> int \<Rightarrow> int \<Rightarrow> (mem \<times> int \<times> u64 list) option" where
  "put_unsigned m ap dst base uppercase alignment filler rem =
     do {
       (v, ap') \<leftarrow> va_arg ap;
       (m', n) \<leftarrow> uimaxtoa_fill m (unat v) dst base uppercase alignment filler rem;
       Some (m', int n, ap')
     }"

definition put_signed ::
    "mem \<Rightarrow> u64 list \<Rightarrow> bool \<Rightarrow> nat \<Rightarrow> int \<Rightarrow> int \<Rightarrow> int \<Rightarrow> (mem \<times> int \<times> u64 list) option" where
  "put_signed m ap with_plus dst alignment filler rem =
     do {
       (v, ap') \<leftarrow> va_arg ap;
       (m', n) \<leftarrow> (if with_plus then simaxtoa_fill m (sint v) dst 10 False alignment filler rem
                   else imaxtoa_fill m (sint v) dst 10 False alignment filler rem);
       Some (m', int n, ap')
     }"

definition atoi_str :: "u8 list \<Rightarrow> int option" where
  "atoi_str ds = do { w \<leftarrow> atoi (put Map.empty 1 (ds @ [0])) 1; Some (sint w) }"

text \<open>
  The case \<open>SPECIFIER_TYPE\<close>. \<open>convert\<close> is the switch over the conversion character: it returns the
  memory, the number of characters, the rest of the arguments, the number of format characters
  consumed and how far \<open>s\<close> was moved by the conversion itself (\<^verbatim>\<open>%c\<close> only).
\<close>

definition convert_hh :: "mem \<Rightarrow> u64 list \<Rightarrow> pflags \<Rightarrow> u8 \<Rightarrow> nat \<Rightarrow> int \<Rightarrow> int \<Rightarrow> int \<Rightarrow>
    (mem \<times> int \<times> u64 list) option" where
  "convert_hh m ap fl c dst alignment filler rem =
     (if c = 100 \<or> c = 105 then put_signed m ap (FLAG_PLUS fl) dst alignment filler rem
      else if c = 117 then put_unsigned m ap dst 10 False alignment filler rem
      else if c = 111 then put_unsigned m ap dst 8 False alignment filler rem
      else if c = 120 then put_unsigned m ap dst 16 False alignment filler rem
      else if c = 88 then put_unsigned m ap dst 16 True alignment filler rem
      else if c = 98 then put_unsigned m ap dst 2 False alignment filler rem
      else Some (m, 0, ap))"

definition convert :: "mem \<Rightarrow> u64 list \<Rightarrow> pflags \<Rightarrow> nat \<Rightarrow> nat \<Rightarrow> int \<Rightarrow> int \<Rightarrow> int \<Rightarrow>
    (mem \<times> int \<times> u64 list \<times> nat \<times> int) option" where
  "convert m ap fl a dst alignment filler rem =
     do {
       c \<leftarrow> load m a;
       if c = 112 then do {
         (m', n, ap') \<leftarrow> put_unsigned m ap dst 16 False 16 48 rem; Some (m', n, ap', 1, 0)
       } else if c = 120 then do {
         (m', n, ap') \<leftarrow> put_unsigned m ap dst 16 False alignment filler rem; Some (m', n, ap', 1, 0)
       } else if c = 88 then do {
         (m', n, ap') \<leftarrow> put_unsigned m ap dst 16 True alignment filler rem; Some (m', n, ap', 1, 0)
       } else if c = 100 \<or> c = 105 then do {
         (m', n, ap') \<leftarrow> put_signed m ap (FLAG_PLUS fl) dst alignment filler rem; Some (m', n, ap', 1, 0)
       } else if c = 117 then do {
         (m', n, ap') \<leftarrow> put_unsigned m ap dst 10 False alignment filler rem; Some (m', n, ap', 1, 0)
       } else if c = 104 then do {
         c1 \<leftarrow> load m (a + 1);
         if c1 = 104 then do {
           c2 \<leftarrow> load m (a + 2);
           (m', n, ap') \<leftarrow> convert_hh m ap fl c2 dst alignment filler rem;
           Some (m', n, ap', 3, 0)
         } else Some (m, 0, ap, 2, 0)
       } else if c = 115 then do {
         (v, ap') \<leftarrow> va_arg ap;
         (m', n) \<leftarrow> strtostr_fill m (unat v) dst alignment 32 rem;
         Some (m', n, ap', 1, 0)
       } else if c = 99 then do {
         (v, ap') \<leftarrow> va_arg ap;
         m' \<leftarrow> store m dst (ucast v);
         Some (m', 0, ap', 1, 1)
       } else Some (m, 0, ap, 1, 0)
     }"

definition vsn_type :: "nat \<Rightarrow> nat \<Rightarrow> pstate \<Rightarrow> pstate option" where
  "vsn_type str format st =
     do {
       width \<leftarrow> atoi_str (width_str st);
       precision \<leftarrow> atoi_str (precision_str st);
       let fl = pflag st;
       let filler0 = (if FLAG_SPACE fl then 32 else if FLAG_ZERO fl then 48 else 32);
       let filler = (if FLAG_MINUS fl then 32 else filler0);
       let alignment = (if FLAG_MINUS fl then - width else width);
       (m', n, ap', k, ds) \<leftarrow>
         convert (pmem st) (pargs st) fl (format + pf st) (at_index str (ps st)) alignment filler (remain st);
       Some (st\<lparr>pmem := m', pf := pf st + k, ps := ps st + ds + n, remain := remain st - n,
                pspec := SPECIFIER_NONE, pargs := ap'\<rparr>)
     }"

definition vsn_flags :: "nat \<Rightarrow> pstate \<Rightarrow> pstate option" where
  "vsn_flags format st =
     do {
       c \<leftarrow> load (pmem st) (format + pf st);
       let next' = st\<lparr>pf := pf st + 1\<rparr>;
       Some (if c = 43 then next'\<lparr>pflag := (pflag st)\<lparr>FLAG_PLUS := True\<rparr>\<rparr>
         else if c = 45 then next'\<lparr>pflag := (pflag st)\<lparr>FLAG_MINUS := True\<rparr>\<rparr>
         else if c = 32 then next'\<lparr>pflag := (pflag st)\<lparr>FLAG_SPACE := True\<rparr>\<rparr>
         else if c = 35 then next'\<lparr>pflag := (pflag st)\<lparr>FLAG_ALTERNATE := True\<rparr>\<rparr>
         else if c = 48 then next'\<lparr>pflag := (pflag st)\<lparr>FLAG_ZERO := True\<rparr>\<rparr>
         else st\<lparr>pspec := SPECIFIER_WIDTH\<rparr>)
     }"

definition vsn_none :: "nat \<Rightarrow> nat \<Rightarrow> pstate \<Rightarrow> pstate option" where
  "vsn_none str format st =
     do {
       c \<leftarrow> load (pmem st) (format + pf st);
       if c \<noteq> 37 then do {
         m' \<leftarrow> store (pmem st) (at_index str (ps st)) c;
         Some (st\<lparr>pmem := m', pf := pf st + 1, ps := ps st + 1, remain := remain st - 1\<rparr>)
       } else do {
         c1 \<leftarrow> load (pmem st) (format + pf st + 1);
         if c1 = 37 then do {
           m' \<leftarrow> store (pmem st) (at_index str (ps st)) 37;
           Some (st\<lparr>pmem := m', pf := pf st + 2, ps := ps st + 1, remain := remain st - 1\<rparr>)
         } else Some (st\<lparr>pf := pf st + 1, pspec := SPECIFIER_FLAGS\<rparr>)
       }
     }"

definition vsn_step :: "nat \<Rightarrow> nat \<Rightarrow> nat \<Rightarrow> pstate \<Rightarrow> pstate option" where
  "vsn_step str format str_size st =
     (case pspec st of
        SPECIFIER_NONE \<Rightarrow> vsn_none str format st
      | SPECIFIER_FLAGS \<Rightarrow> vsn_flags format st
      | SPECIFIER_WIDTH \<Rightarrow>
          do {
            (ds, a) \<leftarrow> read_number (pmem st) (format + pf st) str_size;
            c \<leftarrow> load (pmem st) a;
            Some (if c = 46
              then st\<lparr>width_str := ds, pf := a - format + 1, pspec := SPECIFIER_PRECISION\<rparr>
              else st\<lparr>width_str := ds, pf := a - format, pspec := SPECIFIER_TYPE\<rparr>)
          }
      | SPECIFIER_PRECISION \<Rightarrow>
          do {
            (ds, a) \<leftarrow> read_number (pmem st) (format + pf st) str_size;
            Some (st\<lparr>precision_str := ds, pf := a - format, pspec := SPECIFIER_TYPE\<rparr>)
          }
      | SPECIFIER_TYPE \<Rightarrow> vsn_type str format st)"

text \<open>The index \<open>s\<close> is compared with \<^verbatim>\<open>size - 1\<close> as an unsigned 64-bit number.\<close>

partial_function (option) vsn_loop :: "nat \<Rightarrow> nat \<Rightarrow> u64 \<Rightarrow> nat \<Rightarrow> pstate \<Rightarrow> pstate option" where
  "vsn_loop str format size' str_size st =
     do {
       c \<leftarrow> load (pmem st) (format + pf st);
       if c \<noteq> 0 \<and> (word_of_int (ps st) :: u64) < size' - 1
       then do { st' \<leftarrow> vsn_step str format str_size st; vsn_loop str format size' str_size st' }
       else Some st
     }"

definition BUFSIZ :: nat where
  "BUFSIZ = 512"

definition vsn_start :: "mem \<Rightarrow> u64 \<Rightarrow> u64 list \<Rightarrow> pstate" where
  "vsn_start m size' ap =
     \<lparr>pmem = m, pf = 0, ps = 0, remain = sint (ucast (size' - 1) :: 32 word), pspec = SPECIFIER_NONE,
      pflag = \<lparr>FLAG_PLUS = False, FLAG_MINUS = False, FLAG_SPACE = False, FLAG_ALTERNATE = False, FLAG_ZERO = False\<rparr>,
      width_str = [], precision_str = [], pargs = ap\<rparr>"

definition vsnprintf :: "mem \<Rightarrow> nat \<Rightarrow> u64 \<Rightarrow> nat \<Rightarrow> u64 list \<Rightarrow> (mem \<times> int) option" where
  "vsnprintf m str size' format ap =
     do {
       let str_size = (if unat size' > BUFSIZ div 2 then BUFSIZ div 2 else unat size');
       st \<leftarrow> vsn_loop str format size' str_size (vsn_start m size' ap);
       m' \<leftarrow> store (pmem st) (at_index str (ps st)) 0;
       Some (m', ps st)
     }"

definition vsprintf :: "mem \<Rightarrow> nat \<Rightarrow> nat \<Rightarrow> u64 list \<Rightarrow> (mem \<times> int) option" where
  "vsprintf m str format ap = vsnprintf m str (of_nat BUFSIZ) format ap"

definition sprintf :: "mem \<Rightarrow> nat \<Rightarrow> nat \<Rightarrow> u64 list \<Rightarrow> (mem \<times> int) option" where
  "sprintf m str fmt ap = vsprintf m str fmt ap"

definition snprintf :: "mem \<Rightarrow> nat \<Rightarrow> u64 \<Rightarrow> nat \<Rightarrow> u64 list \<Rightarrow> (mem \<times> int) option" where
  "snprintf m str size' fmt ap = vsnprintf m str size' fmt ap"

section \<open>Positional notation\<close>

text \<open>The digits of a number, most significant first.\<close>

function digits_of :: "nat \<Rightarrow> nat \<Rightarrow> nat list" where
  "digits_of base n = (if n > 0 \<and> base > 1 then digits_of base (n div base) @ [n mod base] else [])"
  by pat_completeness auto
termination digits_of
  by (relation "measure snd") auto

declare digits_of.simps [simp del]

lemma digits_of_0 [simp]: "digits_of base 0 = []" "count_digits 0 base = 0"
  by (simp_all add: digits_of.simps count_digits.simps)

lemma length_digits_of: "length (digits_of base n) = count_digits n base"
proof (induction base n rule: digits_of.induct)
  case (1 base n)
  then show ?case by (subst digits_of.simps, subst count_digits.simps) simp
qed

lemma value_digits_of: "1 < base \<Longrightarrow> foldl (\<lambda>a d. base * a + d) 0 (digits_of base n) = n"
proof (induction base n rule: digits_of.induct)
  case (1 base n)
  then show ?case by (subst digits_of.simps) auto
qed

lemma digits_of_less: "1 < base \<Longrightarrow> list_all (\<lambda>d. d < base) (digits_of base n)"
proof (induction base n rule: digits_of.induct)
  case (1 base n)
  then show ?case by (subst digits_of.simps) auto
qed

lemma hd_digits_of: "1 < base \<Longrightarrow> 0 < n \<Longrightarrow> digits_of base n \<noteq> [] \<and> hd (digits_of base n) \<noteq> 0"
proof (induction base n rule: digits_of.induct)
  case (1 base n)
  show ?case
  proof (cases "n div base = 0")
    case True
    then have "n < base" using 1 by (simp add: div_eq_0_iff)
    then show ?thesis using 1 by (subst digits_of.simps, subst (2) digits_of.simps) (simp add: True)
  next
    case False
    then have "digits_of base (n div base) \<noteq> [] \<and> hd (digits_of base (n div base)) \<noteq> 0" using 1 by simp
    then show ?thesis using 1 by (subst digits_of.simps, subst (2) digits_of.simps) simp
  qed
qed

lemma put_upd_after: "put (m(a + length xs \<mapsto> c)) a xs = put m a (xs @ [c])"
  by (auto simp: fun_eq_iff put_apply nth_append)

lemma uimaxtoa_write_digits:
  "1 < base \<Longrightarrow> k \<le> count_digits n base \<Longrightarrow> mapped m buffer k \<Longrightarrow>
     uimaxtoa_write m n buffer base up k =
       Some (put m buffer (map (digit_code up) (drop (count_digits n base - k) (digits_of base n))))"
proof (induction k arbitrary: m n)
  case 0
  then show ?case by (simp flip: length_digits_of)
next
  case (Suc b)
  then have n: "0 < n" by (cases "n = 0") auto
  then have cnt: "count_digits n base = Suc (count_digits (n div base) base)"
    and dg: "digits_of base n = digits_of base (n div base) @ [n mod base]"
    using Suc.prems by (subst count_digits.simps, simp, subst digits_of.simps, simp)
  let ?c = "digit_code up (n mod base)"
  let ?ds = "map (digit_code up) (drop (count_digits (n div base) base - b) (digits_of base (n div base)))"
  have len: "length ?ds = b" using Suc.prems(2) cnt by (simp add: length_digits_of)
  obtain v where "m (buffer + b) = Some v" using mapped_nth [OF Suc.prems(3), of b] by auto
  moreover have "uimaxtoa_write (m(buffer + b \<mapsto> ?c)) (n div base) buffer base up b =
      Some (put (m(buffer + b \<mapsto> ?c)) buffer ?ds)"
    using Suc.prems cnt by (intro Suc.IH mapped_upd mapped_le [OF Suc.prems(3)]) simp_all
  moreover have "put (m(buffer + b \<mapsto> ?c)) buffer ?ds = put m buffer (?ds @ [?c])"
    using put_upd_after [of m buffer ?ds ?c] len by simp
  ultimately show ?case
    using n Suc.prems(2) cnt by (simp add: dg length_digits_of)
qed

lemma uimaxtoa_digits:
  assumes "1 < base" "0 < n" "buffer \<noteq> 0" "mapped m buffer (count_digits n base)"
  shows "uimaxtoa m n buffer base up 0 =
    Some (put m buffer (map (digit_code up) (digits_of base n)), count_digits n base)"
  using assms uimaxtoa_write_digits [of base "count_digits n base" n m buffer up]
  by (simp add: uimaxtoa_def Let_def)

text \<open>A limit keeps the least significant digits only.\<close>

lemma uimaxtoa_cut:
  assumes "1 < base" "0 < n" "buffer \<noteq> 0" "0 < k" "k < count_digits n base" "mapped m buffer k"
  shows "uimaxtoa m n buffer base up k =
    Some (put m buffer (map (digit_code up) (drop (count_digits n base - k) (digits_of base n))), k)"
  using assms uimaxtoa_write_digits [of base k n m buffer up]
  by (simp add: uimaxtoa_def Let_def)

lemma digit_code_decimal: "r < 10 \<Longrightarrow> unat (digit_code up r) = r + 48"
proof -
  assume "r < 10"
  then have "unat (of_nat (r + 48) :: u8) = r + 48"
    by (simp add: unsigned_of_nat take_bit_nat_eq_self del: of_nat_add)
  then show ?thesis using \<open>r < 10\<close> by (simp add: digit_code_def del: of_nat_add)
qed

lemma decimal_digits:
  "list_all (\<lambda>d. d < 10) ds \<Longrightarrow> list_all digit_char (map (digit_code up) ds) \<and>
     foldl (\<lambda>a d. 10 * a + (unat d - 48)) a (map (digit_code up) ds) = foldl (\<lambda>a d. 10 * a + d) a ds"
  by (induction ds arbitrary: a) (simp_all add: digit_code_decimal digit_char_def)

lemma sint_of_nat_small: "v < 2 ^ 31 \<Longrightarrow> sint (of_nat v :: 32 word) = int v"
  by (simp add: signed_of_nat signed_take_bit_int_eq_self)

section \<open>The limit that is not kept\<close>

text \<open>
  Without a width, the number of characters left in the buffer plays no part in the conversion of an
  integer: the branch meant for it is never reached, since every number has at least one digit.
\<close>

lemma uimaxtoa_length_pos: "1 < base \<Longrightarrow> \<exists>k. uimaxtoa m n 0 base up 0 = Some (m, k) \<and> 0 < k"
  by (cases "n = 0") (auto simp: uimaxtoa_def Let_def count_digits.simps)

lemma uimaxtoa_fill_ignores_limit:
  assumes "1 < base" "0 \<le> max'"
  shows "uimaxtoa_fill m n buffer base up 0 filler max' = uimaxtoa m n buffer base up 0"
  using uimaxtoa_length_pos [OF assms(1), of m n up] assms(2)
  by (auto simp: uimaxtoa_fill_def maxtoa_fill_def clip_width_def Let_def)

lemma memset_loop_huge: "2 ^ 31 \<le> n \<Longrightarrow> i \<le> 2 ^ 31 - 1 \<Longrightarrow> memset_loop m d c i n = None"
proof (induction "2 ^ 31 - 1 - i" arbitrary: i m)
  case 0
  then have "i = 2 ^ 31 - 1" by simp
  then show ?case using 0 by (subst memset_loop.simps) (simp add: bind_eq_None_conv)
next
  case (Suc k)
  then have "\<And>m. memset_loop m d c (Suc i) n = None" by simp
  moreover have "i < n" using Suc.prems by simp
  ultimately show ?case by (subst memset_loop.simps) (simp add: bind_eq_None_conv)
qed

lemma strtostr_exact_fit:
  assumes "cstr m p cs" "cs \<noteq> []" "length cs < 2 ^ 31"
  shows "strtostr_fill m p buffer 0 filler (int (length cs)) = None"
  using assms memset_loop_huge [of "2 ^ 64 - length cs" 0 m buffer "word_of_int filler"]
  by (simp add: strtostr_fill_def strlen_cstr clip_width_def memset_def)

section \<open>Plain text\<close>

lemma vsn_loop_steps:
  "pmem st (format + pf st) = Some 0 \<Longrightarrow> vsn_loop str format sz n st = Some st"
  "pmem st (format + pf st) = Some c \<Longrightarrow> \<not> (word_of_int (ps st) :: u64) < sz - 1 \<Longrightarrow>
     vsn_loop str format sz n st = Some st"
  "pmem st (format + pf st) = Some c \<Longrightarrow> c \<noteq> 0 \<Longrightarrow> (word_of_int (ps st) :: u64) < sz - 1 \<Longrightarrow>
     vsn_loop str format sz n st = vsn_step str format n st \<bind> vsn_loop str format sz n"
  by (subst vsn_loop.simps, simp)+

lemma index_less:
  "unat (sz :: u64) \<noteq> 0 \<Longrightarrow> (word_of_int (int k) :: u64) < sz - 1 \<longleftrightarrow> k < unat sz - 1" if "k < 2 ^ 64"
proof -
  assume "unat sz \<noteq> 0"
  then have "sz \<noteq> 0" by auto
  then have "unat (sz - 1) = unat sz - 1" by (simp add: unat_minus_one)
  moreover have "unat (word_of_int (int k) :: u64) = k"
    using that by (simp add: unsigned_of_nat take_bit_nat_eq_self)
  ultimately show ?thesis by (simp add: word_less_nat_alt)
qed

text \<open>The state after \<open>i\<close> characters of plain text.\<close>

definition text_state :: "mem \<Rightarrow> nat \<Rightarrow> u64 \<Rightarrow> u64 list \<Rightarrow> u8 list \<Rightarrow> nat \<Rightarrow> pstate" where
  "text_state m str sz ap cs i =
     (vsn_start m sz ap)\<lparr>pmem := put m str (take i cs), pf := i, ps := int i,
       remain := remain (vsn_start m sz ap) - int i\<rparr>"

lemma vsn_loop_text:
  assumes fmt: "cstr m format cs" "37 \<notin> set cs" and sz: "unat sz \<noteq> 0"
    and room: "mapped m str (min (length cs) (unat sz - 1) + 1)"
    and apart: "str + unat sz \<le> format \<or> format + length cs < str"
    and i: "i \<le> min (length cs) (unat sz - 1)"
  shows "vsn_loop str format sz n (text_state m str sz ap cs i) =
    Some (text_state m str sz ap cs (min (length cs) (unat sz - 1)))"
  using i
proof (induction "min (length cs) (unat sz - 1) - i" arbitrary: i)
  case 0
  then have i: "i = min (length cs) (unat sz - 1)" by (simp add: min_def split: if_splits)
  show ?case
  proof (cases "i < unat sz - 1")
    case True
    then have "i = length cs" using i by simp
    then have "put m str (take i cs) (format + i) = Some 0"
      using fmt apart True by (auto simp: put_apply cstr_def)
    then show ?thesis unfolding i [symmetric] by (intro vsn_loop_steps(1)) (simp add: text_state_def)
  next
    case False
    have "i < 2 ^ 64" using i unat_lt_64 [of sz] by simp
    have "mapped m format (length (cs @ [0]))" using fmt(1) unfolding cstr_def by (blast intro: holds_bytes_mapped)
    moreover have "i < length (cs @ [0])" using i by (simp add: min_def)
    ultimately obtain c where "put m str (take i cs) (format + i) = Some c"
      using mapped_nth [OF mapped_put] by blast
    then show ?thesis
      using False index_less [OF \<open>i < 2 ^ 64\<close> sz] unfolding i [symmetric]
      by (intro vsn_loop_steps(2)) (simp_all add: text_state_def)
  qed
next
  case (Suc k)
  then have i: "i < length cs" "i < unat sz - 1" by simp_all
  have lt: "i < 2 ^ 64" using i(2) unat_lt_64 [of sz] by simp
  have c: "put m str (take i cs) (format + i) = Some (cs ! i)"
    using fmt(1) apart i by (auto simp: put_apply cstr_def holds_bytes_iff nth_append less_SucI)
  have nz: "cs ! i \<noteq> 0" "cs ! i \<noteq> 37"
    using fmt nth_mem [OF i(1)] by (auto simp: cstr_def simp del: nth_mem)
  have "i < min (length cs) (unat sz - 1) + 1" using i by simp
  then obtain v where v: "put m str (take i cs) (str + i) = Some v"
    using mapped_nth [OF mapped_put [OF room]] by blast
  have "vsn_step str format n (text_state m str sz ap cs i) = Some (text_state m str sz ap cs (Suc i))"
    using c nz v put_take_Suc [OF i(1), of m str]
    by (simp add: vsn_step_def vsn_none_def text_state_def vsn_start_def at_index_def nat_int_add flip: of_nat_add)
  then have "vsn_loop str format sz n (text_state m str sz ap cs i) =
      vsn_loop str format sz n (text_state m str sz ap cs (Suc i))"
    using c nz(1) i index_less [OF lt sz] by (subst vsn_loop_steps(3)) (simp_all add: text_state_def)
  then show ?case using Suc.hyps(1) [of "Suc i"] Suc.hyps(2) i by simp
qed

lemma atoi_str_Nil: "atoi_str [] = Some 0"
proof -
  have "skip_spaces (put Map.empty 1 [0]) 1 0 = Some 0" by (subst skip_spaces.simps) (simp add: isspace_def)
  moreover have "atoi_digits (put Map.empty 1 [0]) 1 0 0 = Some 0"
    by (subst atoi_digits.simps) (simp add: isdigit_def)
  ultimately show ?thesis by (simp add: atoi_str_def atoi_def)
qed

text \<open>
  The call \<^verbatim>\<open>snprintf(buf, n + 1, "%s", s)\<close> with a string of exactly \<open>n\<close> characters, the largest that
  fits, runs into a \<open>memset\<close> of almost \<open>2\<^sup>6\<^sup>4\<close> bytes.
\<close>

lemma vsnprintf_exact_fit_faults:
  assumes "cstr m format [37, 115]" "cstr m (unat p) cs" "cs \<noteq> []" "length cs < 2 ^ 31 - 1"
  shows "vsnprintf m str (of_nat (length cs) + 1) format [p] = None"
proof -
  let ?sz = "of_nat (length cs) + 1 :: u64"
  let ?n = "if unat ?sz > BUFSIZ div 2 then BUFSIZ div 2 else unat ?sz"
  have len: "unat (of_nat (length cs) :: u64) = length cs" "length cs \<noteq> 0"
    using assms(3,4) by (simp_all add: unsigned_of_nat take_bit_nat_eq_self)
  then have sz: "unat ?sz = length cs + 1" using assms(4) by (simp add: unat_word_ariths)
  have lt: "(0 :: u64) < ?sz - 1" using len by (simp add: word_less_nat_alt)
  have rem: "remain (vsn_start m ?sz [p]) = int (length cs)"
    using assms(4) by (simp add: vsn_start_def unsigned_of_nat signed_of_nat take_bit_nat_eq_self signed_take_bit_int_eq_self)
  have n: "0 < ?n" "\<exists>k. ?n = Suc k" using sz by (auto simp: BUFSIZ_def intro: Suc_pred [symmetric])
  let ?s0 = "vsn_start m ?sz [p]"
  let ?s1 = "?s0\<lparr>pf := 1, pspec := SPECIFIER_FLAGS\<rparr>"
  let ?s2 = "?s1\<lparr>pspec := SPECIFIER_WIDTH\<rparr>"
  let ?s3 = "?s2\<lparr>width_str := [], pf := 1, pspec := SPECIFIER_TYPE\<rparr>"
  have m: "m format = Some 37" "m (format + 1) = Some 115" using assms(1) by simp_all
  have "vsn_step str format ?n ?s0 = Some ?s1"
    using m by (simp add: vsn_step_def vsn_none_def vsn_start_def)
  moreover have "vsn_step str format ?n ?s1 = Some ?s2"
    using m by (simp add: vsn_step_def vsn_flags_def vsn_start_def)
  moreover have "vsn_step str format ?n ?s2 = Some ?s3"
    using n(2) m by (auto simp: vsn_step_def vsn_start_def read_number_def isdigit_def)
  moreover have "vsn_step str format ?n ?s3 = None"
    using m rem strtostr_exact_fit [OF assms(2,3)] assms(4)
    by (simp add: vsn_step_def vsn_type_def vsn_start_def atoi_str_Nil convert_def va_arg_def)
  ultimately have "vsn_loop str format ?sz ?n ?s0 = None"
    using m lt vsn_loop_steps(3) [of ?s0 format 37 ?sz str ?n] vsn_loop_steps(3) [of ?s1 format 115 ?sz str ?n]
      vsn_loop_steps(3) [of ?s2 format 115 ?sz str ?n] vsn_loop_steps(3) [of ?s3 format 115 ?sz str ?n]
    by (simp add: vsn_start_def)
  then show ?thesis by (simp add: vsnprintf_def Let_def)
qed

section \<open>Properties\<close>

text \<open>
  \<open>uimaxtoa\<close> writes the positional notation of the number in the given base: digits below the base,
  no leading zero, whose value is the number; nothing else in memory changes.
\<close>

theorem uimaxtoa_positional:
  assumes "1 < base" "base \<le> 16" "0 < n" "buffer \<noteq> 0" "mapped m buffer (count_digits n base)"
  shows "\<exists>ds. uimaxtoa m n buffer base up 0 = Some (put m buffer (map (digit_code up) ds), length ds) \<and>
    foldl (\<lambda>a d. base * a + d) 0 ds = n \<and> list_all (\<lambda>d. d < base) ds \<and> ds \<noteq> [] \<and> hd ds \<noteq> 0"
  using uimaxtoa_digits [OF assms(1,3,4,5)] value_digits_of [OF assms(1)] digits_of_less [OF assms(1)]
    hd_digits_of [OF assms(1,3)] by (auto simp: length_digits_of)

theorem uimaxtoa_positional_witness:
  "\<exists>ds. uimaxtoa (put Map.empty 8 [0, 0, 0]) 255 8 16 True 0 =
     Some (put (put Map.empty 8 [0, 0, 0]) 8 (map (digit_code True) ds), length ds) \<and>
     foldl (\<lambda>a d. 16 * a + d) 0 ds = 255"
proof -
  have "count_digits 255 16 = 2" by (simp add: count_digits.simps)
  then have "mapped (put Map.empty 8 [0, 0, 0]) 8 (count_digits 255 16)"
    by (auto simp: mapped_def put_apply simp del: put.simps)
  then show ?thesis using uimaxtoa_positional [of 16 255 8 "put Map.empty 8 [0, 0, 0]" True] by auto
qed

text \<open>
  C37: printing a number in decimal and reading it back with \<open>atoi\<close> gives the same number, for every
  value of a non-negative \<^verbatim>\<open>int\<close>.
\<close>

theorem uimaxtoa_atoi_roundtrip:
  assumes "n < 2 ^ 31" "buffer \<noteq> 0" "mapped m buffer (count_digits n 10 + 2)"
  shows "\<exists>m' k w. uimaxtoa m n buffer 10 False 0 = Some (m', k) \<and> atoi (m'(buffer + k \<mapsto> 0)) buffer = Some w \<and>
    sint w = int n"
proof -
  define ds where "ds = (if n = 0 then [0] else digits_of 10 n)"
  let ?cs = "map (digit_code False) ds"
  have lt: "list_all (\<lambda>d. d < 10) ds" using digits_of_less [of 10 n] by (simp add: ds_def)
  have val: "dec_value ?cs = n"
    using decimal_digits [OF lt, of False 0] value_digits_of [of 10 n] by (simp add: dec_value_def ds_def)
  have u: "uimaxtoa m n buffer 10 False 0 = Some (put m buffer ?cs, length ?cs)"
  proof (cases "n = 0")
    case True
    then obtain v where "m buffer = Some v" using mapped_nth [OF assms(3), of 0] by auto
    then show ?thesis using True assms(2) by (simp add: uimaxtoa_def ds_def digit_code_def)
  next
    case False
    then show ?thesis
      using uimaxtoa_digits [of 10 n buffer m] assms(2) mapped_le [OF assms(3)]
      by (simp add: ds_def length_digits_of)
  qed
  have "ds \<noteq> []" using hd_digits_of [of 10 n] by (simp add: ds_def)
  moreover have "(put m buffer ?cs)(buffer + length ?cs \<mapsto> 0) = put m buffer (?cs @ [0])" by (simp add: put_snoc)
  moreover have "holds_bytes (put m buffer (?cs @ [0])) buffer (?cs @ [0])" by (rule holds_put)
  ultimately have "number_at ((put m buffer ?cs)(buffer + length ?cs \<mapsto> 0)) buffer [] [] ?cs"
    using decimal_digits [OF lt, of False 0] by (simp add: number_at_def digit_char_def)
  from atoi_number(1) [OF this] u val sint_of_nat_small [OF assms(1)] show ?thesis by auto
qed

theorem uimaxtoa_atoi_roundtrip_witness:
  "\<exists>m' k w. uimaxtoa (put Map.empty 8 (replicate 8 0)) 407 8 10 False 0 = Some (m', k) \<and>
     atoi (m'(8 + k \<mapsto> 0)) 8 = Some w \<and> sint w = 407"
proof -
  have "count_digits 407 10 = 3" by (simp add: count_digits.simps)
  then have "mapped (put Map.empty 8 (replicate 8 0)) 8 (count_digits 407 10 + 2)"
    by (auto simp: mapped_def put_apply)
  then show ?thesis using uimaxtoa_atoi_roundtrip [of 407 8] by auto
qed

text \<open>
  A format without conversions is copied, cut to the size of the buffer, and terminated;
  \<open>vsnprintf\<close> returns the number of characters written and touches nothing outside of the buffer.
\<close>

theorem vsnprintf_plain_text:
  assumes "cstr m format cs" "37 \<notin> set cs" "sz \<noteq> 0"
    and "mapped m str (min (length cs) (unat sz - 1) + 1)"
    and "str + unat sz \<le> format \<or> format + length cs < str"
  shows "vsnprintf m str sz format ap =
    Some (put m str (take (unat sz - 1) cs @ [0]), int (min (length cs) (unat sz - 1)))"
proof -
  let ?k = "min (length cs) (unat sz - 1)"
  have sz: "unat sz \<noteq> 0" using assms(3) by (simp add: unat_eq_0)
  have st: "vsn_start m sz ap = text_state m str sz ap cs 0" by (simp add: text_state_def vsn_start_def)
  have tk: "take ?k cs = take (unat sz - 1) cs" by (simp add: min_def)
  obtain v where "put m str (take (unat sz - 1) cs) (str + ?k) = Some v"
    using mapped_nth [OF mapped_put [OF assms(4)], of ?k] by auto
  moreover have "put m str (take (unat sz - 1) cs @ [0]) = (put m str (take (unat sz - 1) cs))(str + ?k \<mapsto> 0)"
    by (simp add: put_snoc min.commute)
  ultimately show ?thesis
    unfolding vsnprintf_def st Let_def using vsn_loop_text [OF assms(1,2) sz assms(4,5), of 0]
    by (simp add: text_state_def vsn_start_def at_index_def nat_int_add tk [simplified] flip: of_nat_add)
qed

theorem vsnprintf_plain_text_witness:
  "vsnprintf (put Map.empty 8 [1, 1, 1, 104, 105, 33, 0]) 8 3 11 [] =
     Some (put Map.empty 8 [104, 105, 0, 104, 105, 33, 0], 2)"
proof -
  let ?m = "put Map.empty 8 [1, 1, 1, 104, 105, 33, 0]"
  have "mapped ?m 8 (min (length [104, 105, 33 :: u8]) (unat (3 :: u64) - 1) + 1)"
    by (auto simp: mapped_def put_apply simp del: put.simps)
  then show ?thesis
    using vsnprintf_plain_text [of ?m 11 "[104, 105, 33]" 3 8 "[]"] by (simp add: fun_upd_twist)
qed

end
