(* ===== verification/Stdio.thy ===== *)
theory Stdio
  imports Printf
begin

text \<open>
  \<^verbatim>\<open>libs/libc/stdio/file.c\<close>, \<^verbatim>\<open>stdio.c\<close>, \<^verbatim>\<open>vfprintf.c\<close>: buffered streams. The system calls a stream uses
  are fields of the record \<open>os\<close> over a world of type \<open>'w\<close>, which is the kernel's side of the
  interface; \<open>os_alloc\<close> says whether \<^verbatim>\<open>malloc\<close> gave a buffer. A stream's buffer is a list of bytes,
  and its position \<open>ptr\<close> an index into it.
\<close>

section \<open>Streams\<close>

datatype bufmode = IONBF | IOLBF | IOFBF

record 'w os =
  os_write :: "'w \<Rightarrow> int \<Rightarrow> u8 list \<Rightarrow> 'w \<times> int"
  os_read :: "'w \<Rightarrow> int \<Rightarrow> nat \<Rightarrow> 'w \<times> int \<times> u8 list"
  os_lseek :: "'w \<Rightarrow> int \<Rightarrow> int \<Rightarrow> int \<Rightarrow> 'w \<times> int"
  os_open :: "'w \<Rightarrow> string \<Rightarrow> nat \<Rightarrow> nat \<Rightarrow> 'w \<times> int"
  os_close :: "'w \<Rightarrow> int \<Rightarrow> 'w \<times> int"
  os_alloc :: "'w \<Rightarrow> nat \<Rightarrow> bool"

record FILE =
  fd :: int
  f_error :: bool
  f_eof :: bool
  f_nfree :: bool
  bufmode :: bufmode
  bufsize :: nat
  nr :: int
  nw :: nat
  cnt :: int
  fptr :: nat
  buf :: "u8 list option"

definition EOF :: int where
  "EOF = - 1"

definition SEEK_CUR :: int where
  "SEEK_CUR = 1"

definition stdio_streams :: "FILE list" where
  "stdio_streams =
     [\<lparr>fd = 0, f_error = False, f_eof = False, f_nfree = False, bufmode = IOLBF, bufsize = BUFSIZ, nr = 0, nw = 0, cnt = 0, fptr = 0, buf = None\<rparr>,
      \<lparr>fd = 1, f_error = False, f_eof = False, f_nfree = False, bufmode = IOLBF, bufsize = BUFSIZ, nr = 0, nw = 0, cnt = 0, fptr = 0, buf = None\<rparr>,
      \<lparr>fd = 2, f_error = False, f_eof = False, f_nfree = False, bufmode = IONBF, bufsize = 1, nr = 0, nw = 0, cnt = 0, fptr = 0, buf = None\<rparr>]"

section \<open>Opening and closing\<close>

definition O_RDONLY :: nat where "O_RDONLY = 0"
definition O_WRONLY :: nat where "O_WRONLY = 1"
definition O_RDWR :: nat where "O_RDWR = 2"
definition O_CREAT :: nat where "O_CREAT = 64"
definition O_TRUNC :: nat where "O_TRUNC = 512"
definition O_APPEND :: nat where "O_APPEND = 1024"

definition fopen_flags :: "string \<Rightarrow> nat option" where
  "fopen_flags mode =
     (if mode = ''r'' \<or> mode = ''rb'' then Some O_RDONLY
      else if mode = ''r+'' \<or> mode = ''r+b'' \<or> mode = ''rb+'' then Some O_RDWR
      else if mode = ''w'' \<or> mode = ''wb'' then Some (O_WRONLY OR O_CREAT OR O_TRUNC)
      else if mode = ''w+'' \<or> mode = ''w+b'' \<or> mode = ''wb+'' then Some (O_RDWR OR O_CREAT OR O_TRUNC)
      else if mode = ''a'' \<or> mode = ''ab'' then Some (O_WRONLY OR O_CREAT OR O_APPEND)
      else if mode = ''a+'' \<or> mode = ''a+b'' \<or> mode = ''ab+'' then Some (O_RDWR OR O_CREAT OR O_APPEND)
      else None)"

text \<open>The size of the structure is 56 bytes; a result of \<open>None\<close> is the null pointer.\<close>

definition fopen :: "'w os \<Rightarrow> 'w \<Rightarrow> string \<Rightarrow> string \<Rightarrow> 'w \<times> FILE option" where
  "fopen os w path mode =
     (case fopen_flags mode of
        None \<Rightarrow> (w, None)
      | Some flags \<Rightarrow>
          if \<not> os_alloc os w 56 then (w, None)
          else let (w1, d) = os_open os w path flags 438
               in if d < 0 then (w1, None)
                  else (w1, Some \<lparr>fd = d, f_error = False, f_eof = False, f_nfree = False, bufmode = IOFBF,
                         bufsize = BUFSIZ, nr = 0, nw = 0, cnt = 0, fptr = 0, buf = None\<rparr>))"

text \<open>\<open>fdopen\<close> sets the descriptor and the flags only; the rest of the cleared block reads as zeros.\<close>

definition fdopen :: "'w os \<Rightarrow> 'w \<Rightarrow> int \<Rightarrow> FILE option" where
  "fdopen os w d =
     (if \<not> os_alloc os w 56 then None
      else Some \<lparr>fd = d, f_error = False, f_eof = False, f_nfree = False, bufmode = IONBF,
             bufsize = 0, nr = 0, nw = 0, cnt = 0, fptr = 0, buf = None\<rparr>)"

section \<open>Flushing\<close>

text \<open>The loop of \<open>fflush\<close>: \<open>p\<close> is the position of the next byte to write. A \<^verbatim>\<open>write\<close> that returns 0 forever never ends it.\<close>

partial_function (option) fflush_loop :: "'w os \<Rightarrow> 'w \<Rightarrow> FILE \<Rightarrow> nat \<Rightarrow> ('w \<times> FILE \<times> int) option" where
  "fflush_loop os w f p =
     (if nw f > 0 then
        case os_write os w (fd f) (take (nw f) (drop p (the (buf f)))) of (w1, n0) \<Rightarrow>
          if n0 < 0 then Some (w1, f\<lparr>f_error := True\<rparr>, EOF)
          else let n = (if n0 > int (nw f) then int (nw f) else n0)
               in fflush_loop os w1 (f\<lparr>nw := nw f - nat n\<rparr>) (p + nat n)
      else Some (w, f, 0))"

definition fflush :: "'w os \<Rightarrow> 'w \<Rightarrow> FILE \<Rightarrow> ('w \<times> FILE \<times> int) option" where
  "fflush os w f =
     do {
       (w1, f1, res) \<leftarrow> fflush_loop os w f 0;
       Some (w1, f1\<lparr>fptr := 0, nw := 0, nr := 0\<rparr>, res)
     }"

definition fclose :: "'w os \<Rightarrow> 'w \<Rightarrow> FILE \<Rightarrow> ('w \<times> FILE \<times> int) option" where
  "fclose os w f =
     do {
       (w1, f1) \<leftarrow>
         (if buf f \<noteq> None
          then do {
            (w1, f1) \<leftarrow> (if nw f \<noteq> 0 then do { (w1, f1, _) \<leftarrow> fflush os w f; Some (w1, f1) } else Some (w, f));
            Some (w1, f1\<lparr>buf := None\<rparr>)
          }
          else Some (w, f));
       let (w2, r) = os_close os w1 (fd f1);
       Some (w2, f1, r)
     }"

definition feof :: "FILE \<Rightarrow> bool" where
  "feof f = f_eof f"

definition ferror :: "FILE \<Rightarrow> bool" where
  "ferror f = f_error f"

definition fileno :: "FILE \<Rightarrow> int" where
  "fileno f = fd f"

definition setvbuf :: "'w os \<Rightarrow> 'w \<Rightarrow> FILE \<Rightarrow> u8 list option \<Rightarrow> bufmode \<Rightarrow> nat \<Rightarrow> ('w \<times> FILE) option" where
  "setvbuf os w f b mode sz =
     do {
       (w1, f1) \<leftarrow> (if buf f \<noteq> None \<and> cnt f > 0 then do { (w1, f1, _) \<leftarrow> fflush os w f; Some (w1, f1) } else Some (w, f));
       Some (w1, f1\<lparr>bufmode := mode, bufsize := sz, buf := b, fptr := 0, cnt := 0\<rparr>)
     }"

section \<open>Reading\<close>

text \<open>
  \<open>_fillbuf\<close>: the bytes the kernel stored come with the result of \<^verbatim>\<open>read\<close>. The byte under the
  position is returned as an unsigned number.
\<close>

definition fillbuf :: "'w os \<Rightarrow> 'w \<Rightarrow> FILE \<Rightarrow> 'w \<times> FILE \<times> int" where
  "fillbuf os w f =
     (if buf f = None \<and> \<not> os_alloc os w (bufsize f) then (w, f, EOF)
      else
        let (w1, n, bs) = os_read os w (fd f) (bufsize f);
            f1 = f\<lparr>buf := Some bs, fptr := 0, nr := n - 1\<rparr>
        in if nr f1 < 0 then
             if nr f1 = - 1 then (w1, f1\<lparr>f_eof := True, nr := 0, nw := 0\<rparr>, EOF)
             else (w1, f1\<lparr>f_error := True, nr := 0, nw := 0\<rparr>, EOF)
           else (w1, f1\<lparr>fptr := 1\<rparr>, int (unat (bs ! 0))))"

definition fgetc :: "'w os \<Rightarrow> 'w \<Rightarrow> FILE \<Rightarrow> ('w \<times> FILE \<times> int) option" where
  "fgetc os w f =
     do {
       (w1, f1) \<leftarrow> (if nw f > 0 then do { (w1, f1, _) \<leftarrow> fflush os w f; Some (w1, f1) } else Some (w, f));
       let f2 = f1\<lparr>nr := nr f1 - 1\<rparr>;
       Some (if nr f2 \<ge> 0 then (w1, f2\<lparr>fptr := fptr f2 + 1\<rparr>, int (unat (the (buf f2) ! fptr f2)))
             else fillbuf os w1 f2)
     }"

text \<open>
  \<open>fgets\<close> stores the character as a \<^verbatim>\<open>char\<close> and compares it with \<open>EOF\<close>: the byte 255 ends the line.
  The result is the string, or \<open>None\<close> for the null pointer.
\<close>

fun fgets_loop :: "'w os \<Rightarrow> 'w \<Rightarrow> FILE \<Rightarrow> nat \<Rightarrow> ('w \<times> FILE \<times> u8 list) option" where
  "fgets_loop os w f 0 = Some (w, f, [])"
| "fgets_loop os w f (Suc n) =
     do {
       (w1, f1, c) \<leftarrow> fgetc os w f;
       let b = (word_of_int c :: u8);
       if sint b = EOF \<or> b = 10 then Some (w1, f1, [])
       else do { (w2, f2, s) \<leftarrow> fgets_loop os w1 f1 n; Some (w2, f2, b # s) }
     }"

definition fgets :: "'w os \<Rightarrow> 'w \<Rightarrow> FILE \<Rightarrow> int \<Rightarrow> ('w \<times> FILE \<times> u8 list option) option" where
  "fgets os w f size' =
     do {
       (w1, f1, s) \<leftarrow> fgets_loop os w f (nat (size' - 1));
       Some (w1, f1, if s = [] then None else Some s)
     }"

section \<open>Writing\<close>

definition fputc :: "'w os \<Rightarrow> 'w \<Rightarrow> int \<Rightarrow> FILE \<Rightarrow> ('w \<times> FILE \<times> int) option" where
  "fputc os w c f =
     (if buf f = None \<and> \<not> os_alloc os w (bufsize f) then Some (w, f, EOF)
      else
        let f1 = (if buf f = None
                  then f\<lparr>buf := Some (replicate (bufsize f) 0), nr := 0, nw := 0, fptr := 0\<rparr> else f);
            (w2, f2) = (if nr f1 > 0
                        then (fst (os_lseek os w (fd f1) SEEK_CUR (- nr f1)), f1\<lparr>nr := 0, nw := 0, fptr := 0\<rparr>)
                        else (w, f1));
            f3 = f2\<lparr>buf := Some ((the (buf f2))[fptr f2 := word_of_int c]), fptr := fptr f2 + 1, nw := nw f2 + 1\<rparr>
        in if nw f3 \<ge> bufsize f3 \<or> (bufmode f3 = IOLBF \<and> (word_of_int c :: u8) = 10) \<or> bufmode f3 = IONBF
           then do {
             (w4, f4, r) \<leftarrow> fflush os w2 f3;
             Some (w4, f4, int (unat (word_of_int (if r \<noteq> 0 then EOF else c) :: u8)))
           }
           else Some (w2, f3, int (unat (word_of_int c :: u8))))"

text \<open>\<open>fputs\<close> of the empty string returns an uninitialised variable, the parameter \<open>junk\<close> here.\<close>

fun fputs_loop :: "'w os \<Rightarrow> 'w \<Rightarrow> u8 list \<Rightarrow> FILE \<Rightarrow> int \<Rightarrow> ('w \<times> FILE \<times> int) option" where
  "fputs_loop os w [] f status = Some (w, f, status)"
| "fputs_loop os w (b # bs) f status =
     do {
       (w1, f1, status1) \<leftarrow> fputc os w (sint b) f;
       if status1 = EOF then Some (w1, f1, status1) else fputs_loop os w1 bs f1 status1
     }"

definition fputs :: "'w os \<Rightarrow> 'w \<Rightarrow> u8 list \<Rightarrow> FILE \<Rightarrow> int \<Rightarrow> ('w \<times> FILE \<times> int) option" where
  "fputs os w str f junk = fputs_loop os w str f junk"

text \<open>One member of \<open>fwrite\<close>: \<open>False\<close> when the end was reached before it was complete.\<close>

fun fwrite_member :: "'w os \<Rightarrow> 'w \<Rightarrow> u8 list \<Rightarrow> FILE \<Rightarrow> ('w \<times> FILE \<times> bool) option" where
  "fwrite_member os w [] f = Some (w, f, True)"
| "fwrite_member os w (b # bs) f =
     do {
       (w1, f1, r) \<leftarrow> fputc os w (sint b) f;
       if r = EOF then Some (w1, f1, False) else fwrite_member os w1 bs f1
     }"

fun fwrite_loop :: "'w os \<Rightarrow> 'w \<Rightarrow> u8 list \<Rightarrow> nat \<Rightarrow> nat \<Rightarrow> FILE \<Rightarrow> nat \<Rightarrow> ('w \<times> FILE \<times> nat) option" where
  "fwrite_loop os w bs size' 0 f n = Some (w, f, n)"
| "fwrite_loop os w bs size' (Suc k) f n =
     do {
       (w1, f1, ok) \<leftarrow> fwrite_member os w (take size' bs) f;
       if ok then fwrite_loop os w1 (drop size' bs) size' k f1 (n + 1) else Some (w1, f1, n)
     }"

definition fwrite :: "'w os \<Rightarrow> 'w \<Rightarrow> u8 list \<Rightarrow> nat \<Rightarrow> nat \<Rightarrow> FILE \<Rightarrow> ('w \<times> FILE \<times> nat) option" where
  "fwrite os w bs size' nmemb f = fwrite_loop os w bs size' nmemb f 0"

text \<open>One member of \<open>fread\<close>: the bytes read, whether the stream ended, and whether a line did.\<close>

fun fread_member :: "'w os \<Rightarrow> 'w \<Rightarrow> FILE \<Rightarrow> nat \<Rightarrow> ('w \<times> FILE \<times> u8 list \<times> bool \<times> bool) option" where
  "fread_member os w f 0 = Some (w, f, [], False, False)"
| "fread_member os w f (Suc n) =
     do {
       (w1, f1, c) \<leftarrow> fgetc os w f;
       if c = EOF then Some (w1, f1, [], True, False)
       else if bufmode f1 = IOLBF \<and> c = 10 then Some (w1, f1, [word_of_int c], False, True)
       else do {
         (w2, f2, bs, e, stop) \<leftarrow> fread_member os w1 f1 n;
         Some (w2, f2, word_of_int c # bs, e, stop)
       }
     }"

fun fread :: "'w os \<Rightarrow> 'w \<Rightarrow> nat \<Rightarrow> nat \<Rightarrow> FILE \<Rightarrow> ('w \<times> FILE \<times> u8 list list \<times> nat) option" where
  "fread os w size' 0 f = Some (w, f, [], 0)"
| "fread os w size' (Suc k) f =
     do {
       (w1, f1, bs, e, stop) \<leftarrow> fread_member os w f size';
       if e then Some (w1, f1, [bs], 0)
       else if stop then Some (w1, f1, [bs], 1)
       else do { (w2, f2, bss, n) \<leftarrow> fread os w1 size' k f1; Some (w2, f2, bs # bss, n + 1) }
     }"

section \<open>Standard streams and formatted output\<close>

definition getchar :: "'w os \<Rightarrow> 'w \<Rightarrow> FILE \<Rightarrow> ('w \<times> FILE \<times> int) option" where
  "getchar os w stdin' = fgetc os w stdin'"

definition gets :: "'w os \<Rightarrow> 'w \<Rightarrow> FILE \<Rightarrow> ('w \<times> FILE \<times> u8 list option) option" where
  "gets os w stdin' = fgets os w stdin' (2 ^ 31 - 1)"

definition putchar :: "'w os \<Rightarrow> 'w \<Rightarrow> int \<Rightarrow> FILE \<Rightarrow> ('w \<times> FILE \<times> int) option" where
  "putchar os w c stdout' = fputc os w c stdout'"

definition puts :: "'w os \<Rightarrow> 'w \<Rightarrow> u8 list \<Rightarrow> FILE \<Rightarrow> int \<Rightarrow> ('w \<times> FILE \<times> int) option" where
  "puts os w str stdout' junk = fputs os w str stdout' junk"

text \<open>
  \<open>vfprintf\<close> formats into a local array of \<open>BUFSIZ\<close> bytes, at address \<open>a\<close> here, and writes it out. The
  loop asks \<open>fwrite\<close> for all \<open>n\<close> bytes in every round, from the position reached so far.
\<close>

partial_function (option) vfprintf_loop ::
    "'w os \<Rightarrow> 'w \<Rightarrow> mem \<Rightarrow> nat \<Rightarrow> nat \<Rightarrow> FILE \<Rightarrow> nat \<Rightarrow> ('w \<times> FILE \<times> nat) option" where
  "vfprintf_loop os w m p n f left =
     (if left > 0 then
        do {
          (w1, f1, k) \<leftarrow> fwrite os w (map (\<lambda>i. the (m (p + i))) [0 ..< n]) 1 n f;
          vfprintf_loop os w1 m (p + k) n f1 (left - k)
        }
      else Some (w, f, left))"

definition vfprintf :: "'w os \<Rightarrow> 'w \<Rightarrow> mem \<Rightarrow> nat \<Rightarrow> FILE \<Rightarrow> nat \<Rightarrow> u64 list \<Rightarrow> ('w \<times> FILE \<times> int) option" where
  "vfprintf os w m a f format ap =
     do {
       (m1, n) \<leftarrow> vsnprintf m a (of_nat BUFSIZ) format ap;
       if n < 0 then Some (w, f, n)
       else do {
         (w1, f1, left) \<leftarrow> vfprintf_loop os w m1 a (nat n) f (nat n);
         Some (w1, f1, n - int left)
       }
     }"

definition fprintf :: "'w os \<Rightarrow> 'w \<Rightarrow> mem \<Rightarrow> nat \<Rightarrow> FILE \<Rightarrow> nat \<Rightarrow> u64 list \<Rightarrow> ('w \<times> FILE \<times> int) option" where
  "fprintf os w m a f format ap = vfprintf os w m a f format ap"

definition vprintf :: "'w os \<Rightarrow> 'w \<Rightarrow> mem \<Rightarrow> nat \<Rightarrow> FILE \<Rightarrow> nat \<Rightarrow> u64 list \<Rightarrow> ('w \<times> FILE \<times> int) option" where
  "vprintf os w m a stdout' format ap = vfprintf os w m a stdout' format ap"

definition printf :: "'w os \<Rightarrow> 'w \<Rightarrow> mem \<Rightarrow> nat \<Rightarrow> FILE \<Rightarrow> nat \<Rightarrow> u64 list \<Rightarrow> ('w \<times> FILE \<times> int) option" where
  "printf os w m a stdout' format ap = vprintf os w m a stdout' format ap"

section \<open>What reaches the kernel\<close>

text \<open>
  What a stream relies on: memory for its buffer, and a \<^verbatim>\<open>write\<close> that takes at least one byte, in order
  (\<open>out\<close> is what the file has received).
\<close>

definition sink_ok :: "'w os \<Rightarrow> ('w \<Rightarrow> u8 list) \<Rightarrow> bool" where
  "sink_ok os out \<longleftrightarrow> (\<forall>w n. os_alloc os w n) \<and>
     (\<forall>w d bs. bs \<noteq> [] \<longrightarrow> (\<exists>n w'. os_write os w d bs = (w', int n) \<and> 0 < n \<and> n \<le> length bs \<and>
        out w' = out w @ take n bs))"

definition out_stream :: "FILE \<Rightarrow> bool" where
  "out_stream f \<longleftrightarrow> 0 < bufsize f \<and> (\<forall>b. buf f = Some b \<longrightarrow>
     length b = bufsize f \<and> fptr f = nw f \<and> nw f < bufsize f \<and> nr f = 0)"

definition pending :: "FILE \<Rightarrow> u8 list" where
  "pending f = (case buf f of None \<Rightarrow> [] | Some b \<Rightarrow> take (nw f) b)"

lemma fflush_loop_steps:
  "nw f = 0 \<Longrightarrow> fflush_loop os w f p = Some (w, f, 0)"
  "0 < nw f \<Longrightarrow> os_write os w (fd f) (take (nw f) (drop p (the (buf f)))) = (w', int n) \<Longrightarrow> n \<le> nw f \<Longrightarrow>
     fflush_loop os w f p = fflush_loop os w' (f\<lparr>nw := nw f - n\<rparr>) (p + n)"
  by (subst fflush_loop.simps, simp)+

lemma fflush_loop_writes:
  assumes "sink_ok os out"
  shows "buf f = Some b \<Longrightarrow> p + nw f \<le> length b \<Longrightarrow>
    \<exists>w'. fflush_loop os w f p = Some (w', f\<lparr>nw := 0\<rparr>, 0) \<and> out w' = out w @ take (nw f) (drop p b)"
proof (induction "nw f" arbitrary: f p w rule: less_induct)
  case less
  show ?case
  proof (cases "nw f = 0")
    case True
    then show ?thesis using fflush_loop_steps(1) [OF True, of os w p] by simp
  next
    case False
    let ?bs = "take (nw f) (drop p b)"
    have len: "length ?bs = nw f" using less.prems by simp
    then have "?bs \<noteq> []" using False by auto
    then obtain n w1 where n: "os_write os w (fd f) ?bs = (w1, int n)" "0 < n" "n \<le> nw f" "out w1 = out w @ take n ?bs"
      using assms len unfolding sink_ok_def by metis
    let ?f = "f\<lparr>nw := nw f - n\<rparr>"
    obtain w' where w': "fflush_loop os w1 ?f (p + n) = Some (w', ?f\<lparr>nw := 0\<rparr>, 0)"
      "out w' = out w1 @ take (nw ?f) (drop (p + n) b)"
      using less.hyps [of ?f "p + n" w1] less.prems n by auto
    moreover have "fflush_loop os w f p = fflush_loop os w1 ?f (p + n)"
      using fflush_loop_steps(2) [of f os w p w1 n] n False less.prems(1) by simp
    moreover have "take n ?bs @ take (nw f - n) (drop (p + n) b) = ?bs"
    proof -
      have *: "take n ?bs = take n (drop p b)" "drop (p + n) b = drop n (drop p b)"
        using n(3) by (simp_all add: min_absorb1 add.commute)
      show ?thesis unfolding * take_add [symmetric] using n(3) by simp
    qed
    ultimately show ?thesis using n(4) by simp
  qed
qed

lemma fflush_delivers:
  assumes "sink_ok os out" "out_stream f"
  shows "nw f = 0 \<or> buf f \<noteq> None \<Longrightarrow> \<exists>w' f'. fflush os w f = Some (w', f', 0) \<and> out w' = out w @ pending f \<and>
    f' = f\<lparr>fptr := 0, nw := 0, nr := 0\<rparr>"
proof (cases "nw f = 0")
  case True
  then show ?thesis
    by (auto simp: fflush_def fflush_loop_steps(1) pending_def split: option.splits)
next
  case False
  moreover assume "nw f = 0 \<or> buf f \<noteq> None"
  ultimately obtain b where b: "buf f = Some b" by auto
  then have "nw f \<le> length b" using assms(2) by (auto simp: out_stream_def)
  then obtain w' where "fflush_loop os w f 0 = Some (w', f\<lparr>nw := 0\<rparr>, 0)" "out w' = out w @ take (nw f) b"
    using fflush_loop_writes [OF assms(1) b, of 0 w] by auto
  then show ?thesis using b by (simp add: fflush_def pending_def)
qed

lemma fputc_delivers:
  assumes sink: "sink_ok os out" and f: "out_stream f"
  shows "\<exists>w' f'. fputc os w c f = Some (w', f', int (unat (word_of_int c :: u8))) \<and> out_stream f' \<and>
    buf f' \<noteq> None \<and> out w' @ pending f' = out w @ pending f @ [word_of_int c]"
proof -
  define f1 where "f1 = (if buf f = None
    then f\<lparr>buf := Some (replicate (bufsize f) 0), nr := 0, nw := 0, fptr := 0\<rparr> else f)"
  have f1: "out_stream f1" "pending f1 = pending f" "nr f1 = 0" "buf f1 \<noteq> None" "nw f1 < bufsize f1"
    using f by (auto simp: out_stream_def pending_def f1_def)
  then obtain b where b: "buf f1 = Some b" "length b = bufsize f1" "fptr f1 = nw f1" by (auto simp: out_stream_def)
  define f3 where "f3 = f1\<lparr>buf := Some (b[fptr f1 := word_of_int c]), fptr := fptr f1 + 1, nw := nw f1 + 1\<rparr>"
  have pend: "pending f3 = pending f @ [word_of_int c]"
    using b f1(2,5) by (simp add: f3_def pending_def take_Suc_conv_app_nth flip: take_update_swap)
  let ?flush = "nw f3 \<ge> bufsize f3 \<or> (bufmode f3 = IOLBF \<and> (word_of_int c :: u8) = 10) \<or> bufmode f3 = IONBF"
  have al: "os_alloc os w (bufsize f)" using sink by (simp add: sink_ok_def)
  have eq: "fputc os w c f = (if ?flush then do {
       (w4, f4, r) \<leftarrow> fflush os w f3;
       Some (w4, f4, int (unat (word_of_int (if r \<noteq> 0 then EOF else c) :: u8))) }
     else Some (w, f3, int (unat (word_of_int c :: u8))))"
    unfolding fputc_def f1_def [symmetric] using al f1(3) b by (simp add: f3_def Let_def)
  show ?thesis
  proof (cases ?flush)
    case False
    then show ?thesis using eq pend f1 b by (auto simp: out_stream_def f3_def)
  next
    case True
    have "nw f3 \<le> length (b[fptr f1 := word_of_int c])" using b f1(5) by (simp add: f3_def)
    then obtain w' where "fflush_loop os w f3 0 = Some (w', f3\<lparr>nw := 0\<rparr>, 0)" "out w' = out w @ pending f3"
      using fflush_loop_writes [OF sink, of f3 "b[fptr f1 := word_of_int c]" 0 w]
      by (auto simp: f3_def pending_def)
    then show ?thesis using eq True pend f1 b by (auto simp: out_stream_def f3_def fflush_def pending_def)
  qed
qed

lemma fputc_byte: "word_of_int (sint (b :: u8)) = b" "int (unat (b :: u8)) \<noteq> EOF"
  using of_nat_0_le_iff [of "unat b", where 'a = int] unfolding EOF_def by (simp, linarith)

lemma fwrite_member_delivers:
  assumes sink: "sink_ok os out"
  shows "out_stream f \<Longrightarrow> \<exists>w' f'. fwrite_member os w bs f = Some (w', f', True) \<and> out_stream f' \<and>
    (buf f \<noteq> None \<longrightarrow> buf f' \<noteq> None) \<and> (bs \<noteq> [] \<longrightarrow> buf f' \<noteq> None) \<and>
    out w' @ pending f' = out w @ pending f @ bs"
proof (induction bs arbitrary: w f)
  case (Cons b bs)
  obtain w1 f1 where 1: "fputc os w (sint b) f = Some (w1, f1, int (unat b))" "out_stream f1" "buf f1 \<noteq> None"
    "out w1 @ pending f1 = out w @ pending f @ [b]"
    using fputc_delivers [OF sink Cons.prems, of w "sint b"] by (auto simp: fputc_byte)
  obtain w' f' where "fwrite_member os w1 bs f1 = Some (w', f', True)" "out_stream f'" "buf f' \<noteq> None"
    "out w' @ pending f' = out w1 @ pending f1 @ bs" using Cons.IH [OF 1(2), of w1] 1(3) by auto
  then show ?case using 1 fputc_byte(2) [of b] by simp
qed simp

lemma fwrite_loop_delivers:
  assumes sink: "sink_ok os out"
  shows "out_stream f \<Longrightarrow> length bs = size' * k \<Longrightarrow>
    \<exists>w' f'. fwrite_loop os w bs size' k f n = Some (w', f', n + k) \<and> out_stream f' \<and>
      (buf f \<noteq> None \<or> bs \<noteq> [] \<longrightarrow> buf f' \<noteq> None) \<and> out w' @ pending f' = out w @ pending f @ bs"
proof (induction k arbitrary: w f bs n)
  case (Suc k)
  obtain w1 f1 where 1: "fwrite_member os w (take size' bs) f = Some (w1, f1, True)" "out_stream f1"
    "buf f \<noteq> None \<longrightarrow> buf f1 \<noteq> None" "take size' bs \<noteq> [] \<longrightarrow> buf f1 \<noteq> None"
    "out w1 @ pending f1 = out w @ pending f @ take size' bs"
    using fwrite_member_delivers [OF sink Suc.prems(1)] by metis
  have "length (drop size' bs) = size' * k" using Suc.prems(2) by simp
  from Suc.IH [OF 1(2) this, of w1 "n + 1"] obtain w' f' where
    2: "fwrite_loop os w1 (drop size' bs) size' k f1 (n + 1) = Some (w', f', n + 1 + k)" "out_stream f'"
    "buf f1 \<noteq> None \<or> drop size' bs \<noteq> [] \<longrightarrow> buf f' \<noteq> None"
    "out w' @ pending f' = out w1 @ pending f1 @ drop size' bs" by blast
  have "bs \<noteq> [] \<longrightarrow> take size' bs \<noteq> [] \<or> drop size' bs \<noteq> []" by (metis append_Nil append_take_drop_id)
  then have "buf f \<noteq> None \<or> bs \<noteq> [] \<longrightarrow> buf f' \<noteq> None" using 1(3,4) 2(3) by blast
  moreover have "out w' @ pending f' = out w @ pending f @ bs"
    using 1(5) 2(4) by (metis append.assoc append_take_drop_id)
  ultimately show ?case using 1(1) 2(1,2) by simp
qed simp

section \<open>What comes from the kernel\<close>

text \<open>A \<^verbatim>\<open>read\<close> returns some of the next bytes of the file, none only at its end (\<open>inp\<close> is what is left).\<close>

definition source_ok :: "'w os \<Rightarrow> ('w \<Rightarrow> u8 list) \<Rightarrow> bool" where
  "source_ok os inp \<longleftrightarrow> (\<forall>w n. os_alloc os w n) \<and>
     (\<forall>w d n. 0 < n \<longrightarrow> (\<exists>w' bs. os_read os w d n = (w', int (length bs), bs) \<and> length bs \<le> n \<and>
        inp w = bs @ inp w' \<and> (bs = [] \<longrightarrow> inp w = [])))"

definition in_stream :: "FILE \<Rightarrow> bool" where
  "in_stream f \<longleftrightarrow> 0 < bufsize f \<and> nw f = 0 \<and> 0 \<le> nr f \<and>
     (case buf f of None \<Rightarrow> nr f = 0 | Some b \<Rightarrow> fptr f + nat (nr f) = length b)"

definition unread :: "FILE \<Rightarrow> u8 list" where
  "unread f = (case buf f of None \<Rightarrow> [] | Some b \<Rightarrow> drop (fptr f) b)"

lemma fgetc_takes_byte:
  assumes src: "source_ok os inp" and f: "in_stream f"
  shows "unread f @ inp w = c # rest \<Longrightarrow>
      \<exists>w' f'. fgetc os w f = Some (w', f', int (unat c)) \<and> in_stream f' \<and> unread f' @ inp w' = rest"
    and "unread f @ inp w = [] \<Longrightarrow> \<exists>w' f'. fgetc os w f = Some (w', f', EOF) \<and> f_eof f'"
proof -
  have nw: "nw f = 0" using f by (simp add: in_stream_def)
  let ?f = "f\<lparr>nr := nr f - 1\<rparr>"
  have get: "fgetc os w f = Some (if nr f \<ge> 1 then (w, ?f\<lparr>fptr := fptr f + 1\<rparr>, int (unat (the (buf f) ! fptr f)))
      else fillbuf os w ?f)"
    using nw by (simp add: fgetc_def)
  have sz: "0 < bufsize f" using f by (simp add: in_stream_def)
  obtain w' bs where r: "os_read os w (fd f) (bufsize f) = (w', int (length bs), bs)" "inp w = bs @ inp w'"
    "bs = [] \<longrightarrow> inp w = []" using src sz unfolding source_ok_def by blast
  have al: "os_alloc os w (bufsize f)" using src by (simp add: source_ok_def)
  have empty: "nr f \<le> 0 \<Longrightarrow> unread f = []"
    using f by (auto simp: unread_def in_stream_def split: option.splits)
  have more: "nr f \<ge> 1 \<Longrightarrow> \<exists>b. buf f = Some b \<and> fptr f < length b"
    using f by (auto simp: in_stream_def split: option.splits)
  show "\<exists>w' f'. fgetc os w f = Some (w', f', int (unat c)) \<and> in_stream f' \<and> unread f' @ inp w' = rest"
    if u: "unread f @ inp w = c # rest"
  proof (cases "nr f \<ge> 1")
    case True
    then obtain b where b: "buf f = Some b" "fptr f < length b" using more by blast
    then have "drop (fptr f) b = b ! fptr f # drop (Suc (fptr f)) b" by (simp add: Cons_nth_drop_Suc)
    then show ?thesis using u True f b get by (auto simp: unread_def in_stream_def)
  next
    case False
    then have u2: "bs @ inp w' = c # rest" using u r(2) empty by simp
    have "bs \<noteq> []" using r(2,3) u2 by auto
    then obtain bs' where bs: "bs = c # bs'" using u2 by (cases bs) auto
    then show ?thesis using False get al r u2 sz nw
      by (auto simp: fillbuf_def Let_def in_stream_def unread_def)
  qed
  show "\<exists>w' f'. fgetc os w f = Some (w', f', EOF) \<and> f_eof f'" if u: "unread f @ inp w = []"
  proof (cases "nr f \<ge> 1")
    case True
    then show ?thesis using u more by (auto simp: unread_def)
  next
    case False
    then show ?thesis using get al r u by (auto simp: fillbuf_def Let_def)
  qed
qed

lemma sint_255: "sint (b :: u8) = EOF \<longleftrightarrow> b = 255"
proof -
  have "sint (255 :: u8) = - 1" by simp
  then show ?thesis unfolding EOF_def by (metis signed_word_eqI)
qed

lemma fgets_loop_line:
  assumes src: "source_ok os inp"
  shows "in_stream f \<Longrightarrow> unread f @ inp w = line @ 10 # rest \<Longrightarrow> 10 \<notin> set line \<Longrightarrow> 255 \<notin> set line \<Longrightarrow>
    length line < n \<Longrightarrow> \<exists>w' f'. fgets_loop os w f n = Some (w', f', line) \<and> in_stream f' \<and> unread f' @ inp w' = rest"
proof (induction line arbitrary: w f n)
  case Nil
  then obtain k where n: "n = Suc k" by (cases n) auto
  obtain w' f' where "fgetc os w f = Some (w', f', int (unat (10 :: u8)))" "in_stream f'" "unread f' @ inp w' = rest"
    using fgetc_takes_byte(1) [OF src Nil.prems(1), of w 10 rest] Nil.prems(2) by auto
  then show ?case by (auto simp: n)
next
  case (Cons c line)
  then obtain k where n: "n = Suc k" by (cases n) auto
  obtain w1 f1 where 1: "fgetc os w f = Some (w1, f1, int (unat c))" "in_stream f1"
    "unread f1 @ inp w1 = line @ 10 # rest"
    using fgetc_takes_byte(1) [OF src Cons.prems(1), of w c "line @ 10 # rest"] Cons.prems(2) by auto
  obtain w' f' where "fgets_loop os w1 f1 k = Some (w', f', line)" "in_stream f'" "unread f' @ inp w' = rest"
    using Cons.IH [OF 1(2,3), of k] Cons.prems n by auto
  then show ?case using 1 Cons.prems by (auto simp: n sint_255)
qed

section \<open>Properties\<close>

text \<open>A world that records what is written, one byte at a time, and hands out what is to be read.\<close>

definition demo_os :: "(u8 list \<times> u8 list) os" where
  "demo_os = \<lparr>os_write = (\<lambda>(o', i) d bs. ((o' @ take 1 bs, i), 1)),
     os_read = (\<lambda>(o', i) d n. ((o', drop n i), int (min n (length i)), take n i)),
     os_lseek = (\<lambda>w d a b. (w, 0)), os_open = (\<lambda>w p a b. (w, 3)), os_close = (\<lambda>w d. (w, 0)),
     os_alloc = (\<lambda>w n. True)\<rparr>"

lemma demo_os_ok: "sink_ok demo_os fst" "source_ok demo_os snd"
proof -
  have "\<exists>n w'. os_write demo_os w d bs = (w', int n) \<and> 0 < n \<and> n \<le> length bs \<and> fst w' = fst w @ take n bs"
    if "bs \<noteq> []" for w d bs
    using that by (intro exI [of _ 1]) (auto simp: demo_os_def Suc_le_eq split: prod.splits)
  then show "sink_ok demo_os fst" by (simp add: sink_ok_def) (simp add: demo_os_def)
  show "source_ok demo_os snd" by (auto simp: source_ok_def demo_os_def split: prod.splits)
qed

lemma stdout_ok: "out_stream (stdio_streams ! 1)" "in_stream (stdio_streams ! 0)"
  by (simp_all add: stdio_streams_def out_stream_def in_stream_def BUFSIZ_def)

text \<open>
  C36: \<open>fwrite\<close> followed by \<open>fflush\<close> hands the kernel exactly the bytes that were pending and the bytes
  written, in order and once, whatever the buffering mode and however few bytes each \<^verbatim>\<open>write\<close> accepts;
  both return.
\<close>

theorem fwrite_fflush_delivers:
  assumes "sink_ok os out" "out_stream f" "length bs = size' * nmemb" "bs \<noteq> []"
  shows "\<exists>w1 f1 w2 f2. fwrite os w bs size' nmemb f = Some (w1, f1, nmemb) \<and> out_stream f1 \<and>
    fflush os w1 f1 = Some (w2, f2, 0) \<and> out w2 = out w @ pending f @ bs \<and> pending f2 = []"
proof -
  obtain w1 f1 where 1: "fwrite_loop os w bs size' nmemb f 0 = Some (w1, f1, 0 + nmemb)" "out_stream f1"
    "buf f1 \<noteq> None" "out w1 @ pending f1 = out w @ pending f @ bs"
    using fwrite_loop_delivers [OF assms(1,2,3), of w 0] assms(4) by auto
  obtain w2 f2 where "fflush os w1 f1 = Some (w2, f2, 0)" "out w2 = out w1 @ pending f1"
    "f2 = f1\<lparr>fptr := 0, nw := 0, nr := 0\<rparr>"
    using fflush_delivers [OF assms(1) 1(2), of w1] 1(3) by auto
  then show ?thesis using 1 by (auto simp: fwrite_def pending_def split: option.splits)
qed

theorem fwrite_fflush_delivers_witness:
  "\<exists>w1 f1 w2 f2. fwrite demo_os ([], []) [104, 105] 1 2 (stdio_streams ! 1) = Some (w1, f1, 2) \<and>
     fflush demo_os w1 f1 = Some (w2, f2, 0) \<and> fst w2 = [104, 105]"
  using fwrite_fflush_delivers [OF demo_os_ok(1) stdout_ok(1), of "[104, 105]" 1 2 "([], [])"]
  by (auto simp: pending_def stdio_streams_def)

text \<open>
  \<open>fgets\<close> with room for the line returns the next line without its newline and leaves the stream
  behind it, however the kernel splits the input. (The line is not empty and has no byte 255, which the
  code takes for the end of the file.)
\<close>

theorem fgets_reads_line:
  assumes "source_ok os inp" "in_stream f" "unread f @ inp w = line @ 10 # rest"
    and "10 \<notin> set line" "255 \<notin> set line" "line \<noteq> []" "int (length line) < size' - 1"
  shows "\<exists>w' f'. fgets os w f size' = Some (w', f', Some line) \<and> in_stream f' \<and> unread f' @ inp w' = rest"
proof -
  have "length line < nat (size' - 1)" using assms(7) by simp
  from fgets_loop_line [OF assms(1-5) this] assms(6) show ?thesis by (auto simp: fgets_def)
qed

theorem fgets_reads_line_witness:
  "\<exists>w' f'. fgets demo_os ([], [104, 105, 10, 33]) (stdio_streams ! 0) 80 = Some (w', f', Some [104, 105]) \<and>
     unread f' @ snd w' = [33]"
  using fgets_reads_line [OF demo_os_ok(2) stdout_ok(2), of "([], [104, 105, 10, 33])" "[104, 105]" "[33]" 80]
  by (auto simp: unread_def stdio_streams_def)

text \<open>An empty line is reported like the end of the file, although more input follows.\<close>

lemma fgets_empty_line:
  assumes "source_ok os inp" "in_stream f" "unread f @ inp w = 10 # rest" "1 < size'"
  shows "\<exists>w' f'. fgets os w f size' = Some (w', f', None) \<and> unread f' @ inp w' = rest"
proof -
  have "unread f @ inp w = [] @ 10 # rest" "length ([] :: u8 list) < nat (size' - 1)" using assms(3,4) by simp_all
  from fgets_loop_line [OF assms(1,2) this(1) _ _ this(2)] show ?thesis by (auto simp: fgets_def)
qed

text \<open>A failed \<^verbatim>\<open>write\<close> is not reported: the result of \<open>fputc\<close> is 255, never \<open>EOF\<close>.\<close>

lemma fputc_hides_error:
  assumes "buf f = Some b" "nr f = 0" "bufmode f = IONBF"
    and "\<And>w bs. os_write os w (fd f) bs = (w, - 5)"
  shows "\<exists>f'. fputc os w c f = Some (w, f', 255)"
  using assms by (subst fputc_def) (simp add: fflush_def fflush_loop.simps EOF_def unsigned_minus_1_eq_mask mask_eq_exp_minus_1)

end
