(* ===== verification/Byteswap.thy ===== *)
theory Byteswap
  imports Prelude
begin

text \<open>
  Byte order of the C library, \<^verbatim>\<open>include/bits/byteswap.h\<close> and \<^verbatim>\<open>include/endian.h\<close>. The macros
  \<^verbatim>\<open>__bswap_constant_16/32/64\<close> move each byte with a mask and a shift; the inline functions
  \<^verbatim>\<open>__bswap_16/32/64\<close> use the compiler's byte reversal, here the reversal of the list of bytes.
  The target is little endian, so the conversions of \<^verbatim>\<open>endian.h\<close> are the branch for that order.
\<close>

section \<open>The code\<close>

definition to_bytes :: "nat \<Rightarrow> 'a::len word \<Rightarrow> 'a word list" where
  "to_bytes k x = map (\<lambda>i. drop_bit (8 * i) x AND 0xff) [0..<k]"

definition of_bytes :: "'a::len word list \<Rightarrow> 'a word" where
  "of_bytes bs = foldr (\<lambda>b acc. b OR push_bit 8 acc) bs 0"

definition bswap_constant_16 :: "u16 \<Rightarrow> u16" where
  "bswap_constant_16 x = (drop_bit 8 x AND 0xff) OR push_bit 8 (x AND 0xff)"

definition bswap_16 :: "u16 \<Rightarrow> u16" where
  "bswap_16 bsx = of_bytes (rev (to_bytes 2 bsx))"

definition bswap_constant_32 :: "u32 \<Rightarrow> u32" where
  "bswap_constant_32 x =
     drop_bit 24 (x AND 0xff000000) OR drop_bit 8 (x AND 0x00ff0000)
     OR push_bit 8 (x AND 0x0000ff00) OR push_bit 24 (x AND 0x000000ff)"

definition bswap_32 :: "u32 \<Rightarrow> u32" where
  "bswap_32 bsx = of_bytes (rev (to_bytes 4 bsx))"

definition bswap_constant_64 :: "u64 \<Rightarrow> u64" where
  "bswap_constant_64 x =
     drop_bit 56 (x AND 0xff00000000000000)
     OR drop_bit 40 (x AND 0x00ff000000000000)
     OR drop_bit 24 (x AND 0x0000ff0000000000)
     OR drop_bit 8 (x AND 0x000000ff00000000)
     OR push_bit 8 (x AND 0x00000000ff000000)
     OR push_bit 24 (x AND 0x0000000000ff0000)
     OR push_bit 40 (x AND 0x000000000000ff00)
     OR push_bit 56 (x AND 0x00000000000000ff)"

definition bswap_64 :: "u64 \<Rightarrow> u64" where
  "bswap_64 bsx = of_bytes (rev (to_bytes 8 bsx))"

definition BYTE_ORDER :: int where
  "BYTE_ORDER = 1234"

definition htole16 :: "u16 \<Rightarrow> u16" where
  "htole16 x = (if BYTE_ORDER = 1234 then x else bswap_16 x)"

definition htole32 :: "u32 \<Rightarrow> u32" where
  "htole32 x = (if BYTE_ORDER = 1234 then x else bswap_32 x)"

definition htole64 :: "u64 \<Rightarrow> u64" where
  "htole64 x = (if BYTE_ORDER = 1234 then x else bswap_64 x)"

definition le16toh :: "u16 \<Rightarrow> u16" where
  "le16toh x = (if BYTE_ORDER = 1234 then x else bswap_16 x)"

definition le32toh :: "u32 \<Rightarrow> u32" where
  "le32toh x = (if BYTE_ORDER = 1234 then x else bswap_32 x)"

definition le64toh :: "u64 \<Rightarrow> u64" where
  "le64toh x = (if BYTE_ORDER = 1234 then x else bswap_64 x)"

section \<open>Bits of the bytes\<close>

lemma and_ff: "x AND 0xff = take_bit 8 (x :: 'a::len word)"
  by (simp add: take_bit_eq_mask mask_eq_exp_minus_1)

lemma and_byte: "x AND push_bit k (mask 8) = push_bit k (take_bit 8 (drop_bit k (x :: 'a::len word)))"
  by (rule bit_word_eqI) (auto simp: bit_simps)

lemma of_bytes_Cons [simp]: "of_bytes [] = 0" "of_bytes (b # bs) = b OR push_bit 8 (of_bytes bs)"
  by (simp_all add: of_bytes_def)

lemma bytes_64:
  "(z :: u64) AND 0xff00000000000000 = push_bit 56 (take_bit 8 (drop_bit 56 z))"
  "(z :: u64) AND 0x00ff000000000000 = push_bit 48 (take_bit 8 (drop_bit 48 z))"
  "(z :: u64) AND 0x0000ff0000000000 = push_bit 40 (take_bit 8 (drop_bit 40 z))"
  "(z :: u64) AND 0x000000ff00000000 = push_bit 32 (take_bit 8 (drop_bit 32 z))"
  "(z :: u64) AND 0x00000000ff000000 = push_bit 24 (take_bit 8 (drop_bit 24 z))"
  "(z :: u64) AND 0x0000000000ff0000 = push_bit 16 (take_bit 8 (drop_bit 16 z))"
  "(z :: u64) AND 0x000000000000ff00 = push_bit 8 (take_bit 8 (drop_bit 8 z))"
  using and_byte [of z 56] and_byte [of z 48] and_byte [of z 40] and_byte [of z 32] and_byte [of z 24] and_byte [of z 16] and_byte [of z 8]
  by (simp_all add: mask_eq_exp_minus_1 push_bit_eq_mult)

lemma bytes_32:
  "(y :: u32) AND 0xff000000 = push_bit 24 (take_bit 8 (drop_bit 24 y))"
  "(y :: u32) AND 0x00ff0000 = push_bit 16 (take_bit 8 (drop_bit 16 y))"
  "(y :: u32) AND 0x0000ff00 = push_bit 8 (take_bit 8 (drop_bit 8 y))"
  using and_byte [of y 24] and_byte [of y 16] and_byte [of y 8]
  by (simp_all add: mask_eq_exp_minus_1 push_bit_eq_mult)

lemma byte_position:
  assumes "n < 8 * k"
  obtains q r where "n = 8 * q + r" and "r < (8 :: nat)" and "q < k"
proof
  show "n = 8 * (n div 8) + n mod 8" "n mod 8 < 8" "n div 8 < k" using assms by auto
qed

lemma less_8_cases: "q < (8 :: nat) \<Longrightarrow> q = 0 \<or> q = 1 \<or> q = 2 \<or> q = 3 \<or> q = 4 \<or> q = 5 \<or> q = 6 \<or> q = 7"
  by auto

lemma less_4_cases: "q < (4 :: nat) \<Longrightarrow> q = 0 \<or> q = 1 \<or> q = 2 \<or> q = 3"
  by auto

lemmas bswap_defs = bswap_constant_16_def bswap_constant_32_def bswap_constant_64_def
  bswap_16_def bswap_32_def bswap_64_def to_bytes_def and_ff bytes_32 bytes_64

lemma bswap_constant_reverses_parts:
  "bswap_constant_16 x = bswap_16 x" "bswap_constant_32 y = bswap_32 y" "bswap_constant_64 z = bswap_64 z"
proof -
  have u: "[0..<2] = [0, 1]" "[0..<4] = [0, 1, 2, 3]" "[0..<8] = [0, 1, 2, 3, 4, 5, 6, 7::nat]" by code_simp+
  show "bswap_constant_16 x = bswap_16 x"
    by (rule bit_word_eqI)
      (auto simp: bswap_defs u bit_simps)
  show "bswap_constant_32 y = bswap_32 y"
    by (rule bit_word_eqI)
      (simp add: bswap_defs u bit_simps, auto)
  show "bswap_constant_64 z = bswap_64 z"
  proof (rule bit_word_eqI)
    fix n assume "n < LENGTH(64)"
    then have "n < 8 * 8" by simp
    then obtain q r where q: "n = 8 * q + r" "r < 8" "q < 8" by (rule byte_position)
    then show "bit (bswap_constant_64 z) n = bit (bswap_64 z) n"
      using less_8_cases [OF q(3)] q(1,2) by (elim disjE) (simp_all add: bswap_defs u bit_simps)
  qed
qed

text \<open>
  C40: The shift-and-mask macros are byte reversal at every width: they agree with the functions that
  reverse the list of bytes, so the two branches of the header compute the same value whatever the
  compiler version.
\<close>

theorem bswap_constant_reverses:
  "bswap_constant_16 x = bswap_16 x \<and>
    bswap_constant_32 y = bswap_32 y \<and>
    bswap_constant_64 z = bswap_64 z"
  using bswap_constant_reverses_parts(1) bswap_constant_reverses_parts(2) bswap_constant_reverses_parts(3) by blast

lemma bswap_involutive_parts:
  "bswap_16 (bswap_16 x) = x" "bswap_32 (bswap_32 y) = y" "bswap_64 (bswap_64 z) = z"
proof -
  have u: "[0..<2] = [0, 1]" "[0..<4] = [0, 1, 2, 3]" "[0..<8] = [0, 1, 2, 3, 4, 5, 6, 7::nat]" by code_simp+
  show "bswap_16 (bswap_16 x) = x"
    by (rule bit_word_eqI) (auto simp: bswap_defs u bit_simps)
  show "bswap_32 (bswap_32 y) = y"
  proof (rule bit_word_eqI)
    fix n assume "n < LENGTH(32)"
    then have "n < 8 * 4" by simp
    then obtain q r where q: "n = 8 * q + r" "r < 8" "q < 4" by (rule byte_position)
    then show "bit (bswap_32 (bswap_32 y)) n = bit y n"
      using less_4_cases [OF q(3)] q(1,2) by (elim disjE) (simp_all add: bswap_defs u bit_simps)
  qed
  show "bswap_64 (bswap_64 z) = z"
  proof (rule bit_word_eqI)
    fix n assume "n < LENGTH(64)"
    then have "n < 8 * 8" by simp
    then obtain q r where q: "n = 8 * q + r" "r < 8" "q < 8" by (rule byte_position)
    then show "bit (bswap_64 (bswap_64 z)) n = bit z n"
      using less_8_cases [OF q(3)] q(1,2) by (elim disjE) (simp_all add: bswap_defs u bit_simps)
  qed
qed

text \<open>
  Swapping is its own inverse at every width, and the little-endian conversions of the header are
  mutually inverse.
\<close>

theorem bswap_involutive:
  "bswap_16 (bswap_16 x) = x \<and>
    bswap_32 (bswap_32 y) = y \<and>
    bswap_64 (bswap_64 z) = z"
  using bswap_involutive_parts(1) bswap_involutive_parts(2) bswap_involutive_parts(3) by blast

end
