(* ===== verification/Containers.thy ===== *)
theory Containers
  imports Prelude
begin

text \<open>
  The container templates of the kernel: \<^verbatim>\<open>include/stl/vector.h\<close> (growing array), \<^verbatim>\<open>map.h\<close> (table of
  named values over it), \<^verbatim>\<open>fifo.h\<close> (ring buffer) and \<^verbatim>\<open>stringbuffer.h\<close>. An array obtained with \<^verbatim>\<open>new[]\<close>
  is a list of slots; a slot that was never written is \<open>None\<close>. An access outside an array and a
  remainder by zero are the result \<open>None\<close>. Sizes are natural numbers: they are bounded by the memory
  an array takes.
\<close>

section \<open>Arrays\<close>

definition new_array :: "nat \<Rightarrow> 'a option list" where
  "new_array n = replicate n None"

text \<open>Storing the cells \<open>xs\<close> from index \<open>i\<close> on; \<open>None\<close> when they do not fit.\<close>

definition put_cells :: "'a list \<Rightarrow> nat \<Rightarrow> 'a list \<Rightarrow> 'a list option" where
  "put_cells arr i xs =
     (if i + length xs \<le> length arr then Some (take i arr @ xs @ drop (i + length xs) arr) else None)"

lemma new_array_length [simp]: "length (new_array n) = n"
  by (simp add: new_array_def)

section \<open>Vector\<close>

definition STEP_CAPACITY :: nat where
  "STEP_CAPACITY = 10"

record 'a Vector =
  vdata :: "'a option list"
  vsize :: nat
  vcapacity :: nat

definition Vector_new :: "'a Vector" where
  "Vector_new = \<lparr> vdata = [], vsize = 0, vcapacity = 0 \<rparr>"

text \<open>\<open>data\<close> is null exactly while nothing was allocated; then there is nothing to copy.\<close>

definition Vector_resize :: "nat \<Rightarrow> 'a Vector \<Rightarrow> 'a Vector option" where
  "Vector_resize new_capacity v =
     do { new_data \<leftarrow> put_cells (new_array new_capacity) 0 (take (vsize v) (vdata v));
          Some (v \<lparr> vdata := new_data, vcapacity := new_capacity \<rparr>) }"

definition Vector_push_back :: "'a \<Rightarrow> 'a Vector \<Rightarrow> 'a Vector option" where
  "Vector_push_back value v =
     do { v \<leftarrow> (if vsize v = vcapacity v then Vector_resize (vcapacity v + STEP_CAPACITY) v else Some v);
          d \<leftarrow> put_cells (vdata v) (vsize v) [Some value];
          Some (v \<lparr> vdata := d, vsize := vsize v + 1 \<rparr>) }"

definition Vector_count :: "'a Vector \<Rightarrow> nat" where
  "Vector_count v = vsize v"

definition Vector_at :: "'a Vector \<Rightarrow> nat \<Rightarrow> 'a option" where
  "Vector_at v i = (if i < length (vdata v) then vdata v ! i else None)"

text \<open>\<open>find\<close> returns an unsigned -1 when the value does not occur.\<close>

fun Vector_find_loop :: "'a Vector \<Rightarrow> 'a \<Rightarrow> nat \<Rightarrow> nat \<Rightarrow> u64" where
  "Vector_find_loop v value i 0 = - 1"
| "Vector_find_loop v value i (Suc n) =
     (if Vector_at v i = Some value then of_nat i else Vector_find_loop v value (i + 1) n)"

definition Vector_find :: "'a Vector \<Rightarrow> 'a \<Rightarrow> u64" where
  "Vector_find v value = Vector_find_loop v value 0 (vsize v)"

text \<open>Iteration from \<open>begin()\<close> to \<open>end()\<close>: the iterator is the index.\<close>

fun Vector_iterate :: "'a Vector \<Rightarrow> nat \<Rightarrow> nat \<Rightarrow> 'a option list" where
  "Vector_iterate v i 0 = []"
| "Vector_iterate v i (Suc n) = Vector_at v i # Vector_iterate v (i + 1) n"

definition Vector_elements :: "'a Vector \<Rightarrow> 'a option list" where
  "Vector_elements v = Vector_iterate v 0 (vsize v - 0)"

section \<open>StringTable\<close>

record 'a KeyValuePair =
  kname :: "string option"
  kvalue :: 'a

record 'a StringTable =
  keyValues :: "'a KeyValuePair Vector"
  defaultValue :: 'a

definition StringTable_put :: "string option \<Rightarrow> 'a \<Rightarrow> 'a StringTable \<Rightarrow> 'a StringTable option" where
  "StringTable_put nm value t =
     do { kv \<leftarrow> Vector_push_back \<lparr> kname = nm, kvalue = value \<rparr> (keyValues t);
          Some (t \<lparr> keyValues := kv \<rparr>) }"

fun StringTable_find_loop :: "'a StringTable \<Rightarrow> string \<Rightarrow> nat \<Rightarrow> nat \<Rightarrow> 'a" where
  "StringTable_find_loop t nm i 0 = defaultValue t"
| "StringTable_find_loop t nm i (Suc n) =
     (case Vector_at (keyValues t) i of
        None \<Rightarrow> StringTable_find_loop t nm (i + 1) n
      | Some kv \<Rightarrow>
          if kname kv = None then StringTable_find_loop t nm (i + 1) n
          else if kname kv = Some nm then kvalue kv
          else StringTable_find_loop t nm (i + 1) n)"

definition StringTable_find :: "'a StringTable \<Rightarrow> string option \<Rightarrow> 'a" where
  "StringTable_find t nm =
     (case nm of None \<Rightarrow> defaultValue t
      | Some s \<Rightarrow> StringTable_find_loop t s 0 (Vector_count (keyValues t)))"

definition StringTable_count :: "'a StringTable \<Rightarrow> nat" where
  "StringTable_count t = Vector_count (keyValues t)"

section \<open>FIFOBuffer\<close>

record 'a FIFOBuffer =
  cache :: "'a option list"
  maxSize :: nat
  head :: nat
  tail :: nat
  fcount :: nat

definition FIFOBuffer_new :: "nat \<Rightarrow> 'a FIFOBuffer" where
  "FIFOBuffer_new n =
     \<lparr> cache = (if n > 0 then replicate n None else []), maxSize = n, head = 0, tail = 0, fcount = 0 \<rparr>"

definition FIFOBuffer_push :: "'a \<Rightarrow> 'a FIFOBuffer \<Rightarrow> 'a FIFOBuffer option" where
  "FIFOBuffer_push value b =
     (if maxSize b > 0 \<and> fcount b \<ge> maxSize b then
        Some (b \<lparr> head := (head b + 1) mod maxSize b, fcount := fcount b - 1 \<rparr>)
      else if maxSize b = 0 \<and> fcount b \<ge> length (cache b) then
        Some (b \<lparr> cache := cache b @ [Some value], tail := length (cache b @ [Some value]) - 1 \<rparr>)
      else if fcount b < maxSize b then
        do { c \<leftarrow> put_cells (cache b) (tail b) [Some value];
             Some (b \<lparr> cache := c, tail := (tail b + 1) mod maxSize b, fcount := fcount b + 1 \<rparr>) }
      else Some (b \<lparr> cache := cache b @ [Some value], tail := length (cache b @ [Some value]) - 1,
                    fcount := fcount b + 1 \<rparr>))"

text \<open>The result: \<open>Inl ()\<close> for \<open>false\<close>, otherwise the value read (a cell never written is \<open>None\<close>).\<close>

definition FIFOBuffer_pop :: "'a FIFOBuffer \<Rightarrow> ((unit + 'a option) \<times> 'a FIFOBuffer) option" where
  "FIFOBuffer_pop b =
     (if fcount b = 0 then Some (Inl (), b)
      else if head b \<ge> length (cache b) \<or> maxSize b = 0 then None
      else Some (Inr (cache b ! head b),
                 b \<lparr> head := (head b + 1) mod maxSize b, fcount := fcount b - 1 \<rparr>))"

definition FIFOBuffer_empty :: "'a FIFOBuffer \<Rightarrow> bool" where
  "FIFOBuffer_empty b \<longleftrightarrow> fcount b = 0"

definition FIFOBuffer_size :: "'a FIFOBuffer \<Rightarrow> nat" where
  "FIFOBuffer_size b = fcount b"

section \<open>StringBuffer\<close>

text \<open>The C string in an array: the characters in front of the first 0; \<open>None\<close> if the scan leaves
  the array or meets a cell that was never written.\<close>

fun cstring :: "char option list \<Rightarrow> string option" where
  "cstring [] = None"
| "cstring (None # cs) = None"
| "cstring (Some c # cs) = (if c = CHR 0x00 then Some [] else map_option (Cons c) (cstring cs))"

record StringBuffer =
  sbuffer :: "char option list"
  scapacity :: nat

definition StringBuffer_new :: StringBuffer where
  "StringBuffer_new = \<lparr> sbuffer = (new_array 10)[0 := Some (CHR 0x00)], scapacity = 10 \<rparr>"

definition StringBuffer_resize :: "nat \<Rightarrow> StringBuffer \<Rightarrow> StringBuffer option" where
  "StringBuffer_resize newCapacity b =
     do { s \<leftarrow> cstring (sbuffer b);
          newBuffer \<leftarrow> put_cells (new_array newCapacity) 0 (map Some (s @ [CHR 0x00]));
          Some (b \<lparr> sbuffer := newBuffer, scapacity := newCapacity \<rparr>) }"

text \<open>\<open>str\<close> is a C string: it holds no 0.\<close>

definition StringBuffer_append :: "string \<Rightarrow> StringBuffer \<Rightarrow> StringBuffer option" where
  "StringBuffer_append str b =
     do { s \<leftarrow> cstring (sbuffer b);
          b \<leftarrow> (if length str + length s + 1 > scapacity b
                 then StringBuffer_resize (if scapacity b = 0 then 1 else scapacity b + length str + 2) b
                 else Some b);
          s \<leftarrow> cstring (sbuffer b);
          d \<leftarrow> put_cells (sbuffer b) (length s) (map Some (str @ [CHR 0x00]));
          Some (b \<lparr> sbuffer := d \<rparr>) }"

text \<open>\<open>putc\<close> builds the string of one character; a 0 makes it the empty string.\<close>

definition StringBuffer_putc :: "char \<Rightarrow> StringBuffer \<Rightarrow> StringBuffer option" where
  "StringBuffer_putc ch b = StringBuffer_append (if ch = CHR 0x00 then [] else [ch]) b"

definition StringBuffer_c_str :: "StringBuffer \<Rightarrow> string option" where
  "StringBuffer_c_str b = cstring (sbuffer b)"

definition StringBuffer_copy :: "StringBuffer \<Rightarrow> StringBuffer \<Rightarrow> StringBuffer option" where
  "StringBuffer_copy src b = do { s \<leftarrow> StringBuffer_c_str src; StringBuffer_append s b }"

definition StringBuffer_to_string :: "StringBuffer \<Rightarrow> char option list option" where
  "StringBuffer_to_string b =
     do { s \<leftarrow> cstring (sbuffer b);
          put_cells (new_array (length s + 1)) 0 (map Some s) }"

definition StringBuffer_count :: "StringBuffer \<Rightarrow> nat option" where
  "StringBuffer_count b = map_option length (cstring (sbuffer b))"

section \<open>Vector is a list\<close>

text \<open>\<open>Vector_rep v xs\<close>: the vector holds the list \<open>xs\<close>, inside its capacity.\<close>

definition Vector_rep :: "'a Vector \<Rightarrow> 'a list \<Rightarrow> bool" where
  "Vector_rep v xs \<longleftrightarrow> take (vsize v) (vdata v) = map Some xs \<and> vsize v = length xs \<and>
     length (vdata v) = vcapacity v \<and> vsize v \<le> vcapacity v"

lemma Vector_new_rep: "Vector_rep Vector_new []"
  by (simp add: Vector_rep_def Vector_new_def)

lemma put_cells_app:
  "put_cells (a @ b) (length a) xs = (if length xs \<le> length b then Some (a @ xs @ drop (length xs) b) else None)"
  by (simp add: put_cells_def)

lemma put_cells_app':
  "n = length a \<Longrightarrow> put_cells (a @ b) n xs = (if length xs \<le> length b then Some (a @ xs @ drop (length xs) b) else None)"
  by (simp add: put_cells_app)

lemma Vector_rep_junk:
  "Vector_rep v xs \<longleftrightarrow> (\<exists>junk. vdata v = map Some xs @ junk \<and> vsize v = length xs \<and> vcapacity v = length xs + length junk)"
  (is "_ = ?R")
proof
  assume "Vector_rep v xs"
  then show ?R unfolding Vector_rep_def
    by (intro exI [of _ "drop (vsize v) (vdata v)"]) (metis append_take_drop_id length_drop le_add_diff_inverse)
qed (auto simp: Vector_rep_def)

lemma Vector_resize_rep:
  "Vector_rep v xs \<Longrightarrow> vcapacity v \<le> n \<Longrightarrow> \<exists>v'. Vector_resize n v = Some v' \<and> Vector_rep v' xs \<and> vcapacity v' = n"
  by (auto simp: Vector_resize_def Vector_rep_def put_cells_def new_array_def)

lemma Vector_push_back_rep:
  assumes "Vector_rep v xs"
  shows "\<exists>v'. Vector_push_back x v = Some v' \<and> Vector_rep v' (xs @ [x])"
proof -
  obtain v1 where v1: "(if vsize v = vcapacity v then Vector_resize (vcapacity v + STEP_CAPACITY) v else Some v) = Some v1"
    and r: "Vector_rep v1 xs" and room: "vsize v1 < vcapacity v1"
    using Vector_resize_rep [OF assms, of "vcapacity v + STEP_CAPACITY"] assms
    by (cases "vsize v = vcapacity v") (auto simp: Vector_rep_def STEP_CAPACITY_def)
  then obtain junk where j: "vdata v1 = map Some xs @ junk" "vsize v1 = length xs" "vcapacity v1 = length xs + length junk"
    by (auto simp: Vector_rep_junk)
  then have "put_cells (vdata v1) (vsize v1) [Some x] = Some (map Some xs @ Some x # drop 1 junk)"
    using room by (cases junk) (simp_all add: put_cells_app')
  then show ?thesis
    unfolding Vector_push_back_def v1 using j room by (auto simp: Vector_rep_junk intro!: exI [of _ "drop 1 junk"])
qed

lemma Vector_at_rep: "Vector_rep v xs \<Longrightarrow> i < length xs \<Longrightarrow> Vector_at v i = Some (xs ! i)"
  by (auto simp: Vector_rep_junk Vector_at_def nth_append)

lemma Vector_find_loop_rep:
  "Vector_rep v xs \<Longrightarrow> i + n = length xs \<Longrightarrow> Vector_find_loop v x i n =
    (if x \<in> set (drop i xs) then of_nat (i + length (takeWhile (\<lambda>y. y \<noteq> x) (drop i xs))) else - 1)"
proof (induction n arbitrary: i)
  case (Suc n)
  then have "drop i xs = xs ! i # drop (Suc i) xs" by (simp add: Cons_nth_drop_Suc)
  then show ?case using Suc Vector_at_rep [of v xs i] by auto
qed simp

lemma Vector_iterate_rep: "Vector_rep v xs \<Longrightarrow> i + n = length xs \<Longrightarrow> Vector_iterate v i n = map Some (drop i xs)"
proof (induction n arbitrary: i)
  case (Suc n)
  then have "drop i xs = xs ! i # drop (Suc i) xs" by (simp add: Cons_nth_drop_Suc)
  then show ?case using Suc Vector_at_rep [of v xs i] by simp
qed simp

lemma Vector_refines_list_parts:
  assumes "Vector_rep v xs"
  shows "\<exists>v'. Vector_push_back x v = Some v' \<and> Vector_rep v' (xs @ [x])"
    and "Vector_count v = length xs"
    and "Vector_elements v = map Some xs"
    and "Vector_find v x = (if x \<in> set xs then of_nat (length (takeWhile (\<lambda>y. y \<noteq> x) xs)) else - 1)"
  using Vector_push_back_rep [OF assms, of x] Vector_find_loop_rep [OF assms, of 0 "length xs" x]
    Vector_iterate_rep [OF assms, of 0 "length xs"] assms
  by (auto simp: Vector_count_def Vector_elements_def Vector_find_def Vector_rep_def)

text \<open>
  C38: \<open>Vector\<close> implements a list: \<open>push_back\<close> never writes outside the array, growing it when it is
  full, and appends the value; \<open>count\<close> is the length, iteration delivers the elements in order, and
  \<open>find\<close> returns the position of the first occurrence or -1.
\<close>

theorem Vector_refines_list:
  assumes "Vector_rep v xs"
    shows "(\<exists>v'. Vector_push_back x v = Some v' \<and> Vector_rep v' (xs @ [x])) \<and>
    Vector_count v = length xs \<and>
    Vector_elements v = map Some xs \<and>
    Vector_find v x = (if x \<in> set xs then of_nat (length (takeWhile (\<lambda>y. y \<noteq> x) xs)) else - 1)"
  using Vector_refines_list_parts(1) [OF assms] Vector_refines_list_parts(2) [OF assms] Vector_refines_list_parts(3) [OF assms] Vector_refines_list_parts(4) [OF assms] by blast

theorem Vector_refines_list_witness:
  "\<exists>v'. Vector_push_back (7 :: int) Vector_new = Some v' \<and> Vector_rep v' [7]"
  using Vector_refines_list [OF Vector_new_rep, of "7 :: int"] by simp

section \<open>StringTable\<close>

lemma StringTable_find_loop_rep:
  "Vector_rep (keyValues t) kvs \<Longrightarrow> i + n = length kvs \<Longrightarrow> StringTable_find_loop t nm i n =
    (case find (\<lambda>kv. kname kv = Some nm) (drop i kvs) of None \<Rightarrow> defaultValue t | Some kv \<Rightarrow> kvalue kv)"
proof (induction n arbitrary: i)
  case (Suc n)
  then have "drop i kvs = kvs ! i # drop (Suc i) kvs" by (simp add: Cons_nth_drop_Suc)
  then show ?case using Suc Vector_at_rep [of "keyValues t" kvs i] by auto
qed simp

lemma StringTable_find_rep:
  "Vector_rep (keyValues t) kvs \<Longrightarrow> StringTable_find t (Some nm) =
    (case find (\<lambda>kv. kname kv = Some nm) kvs of None \<Rightarrow> defaultValue t | Some kv \<Rightarrow> kvalue kv)"
  using StringTable_find_loop_rep [of t kvs 0 "length kvs" nm]
  by (auto simp: StringTable_find_def Vector_count_def Vector_rep_def)

lemma find_append: "find P (xs @ ys) = (case find P xs of None \<Rightarrow> find P ys | Some x \<Rightarrow> Some x)"
  by (induction xs) auto

text \<open>A second \<open>put\<close> of a name does not replace the value: the lookup keeps finding the first pair.\<close>

lemma StringTable_put_find:
  assumes "Vector_rep (keyValues t) kvs"
  shows "\<exists>t'. StringTable_put (Some nm) x t = Some t' \<and>
    StringTable_find t' (Some nm) = (if nm \<in> Some -` (kname ` set kvs) then StringTable_find t (Some nm) else x)"
proof -
  obtain v' where v: "Vector_push_back \<lparr> kname = Some nm, kvalue = x \<rparr> (keyValues t) = Some v'"
    and r: "Vector_rep v' (kvs @ [\<lparr> kname = Some nm, kvalue = x \<rparr>])"
    using Vector_push_back_rep [OF assms] by blast
  let ?t = "t \<lparr> keyValues := v' \<rparr>"
  have "find (\<lambda>kv. kname kv = Some nm) kvs = None \<longleftrightarrow> nm \<notin> Some -` (kname ` set kvs)"
    by (auto simp: find_None_iff image_iff)
  moreover have "StringTable_find ?t (Some nm) = (case find (\<lambda>kv. kname kv = Some nm) kvs of None \<Rightarrow> x | Some kv \<Rightarrow> kvalue kv)"
    using StringTable_find_rep [of ?t _ nm] r by (simp add: find_append split: option.splits)
  moreover note StringTable_find_rep [OF assms, of nm]
  ultimately show ?thesis using v by (auto simp: StringTable_put_def split: option.splits)
qed

section \<open>FIFOBuffer\<close>

text \<open>\<open>FIFO_rep b xs\<close>: a bounded ring buffer that holds \<open>xs\<close>, oldest first.\<close>

definition FIFO_rep :: "'a FIFOBuffer \<Rightarrow> 'a list \<Rightarrow> bool" where
  "FIFO_rep b xs \<longleftrightarrow> maxSize b > 0 \<and> length (cache b) = maxSize b \<and> head b < maxSize b \<and>
     fcount b = length xs \<and> length xs \<le> maxSize b \<and> tail b = (head b + length xs) mod maxSize b \<and>
     (\<forall>i < length xs. cache b ! ((head b + i) mod maxSize b) = Some (xs ! i))"

lemma FIFOBuffer_new_rep: "n > 0 \<Longrightarrow> FIFO_rep (FIFOBuffer_new n) []"
  by (simp add: FIFO_rep_def FIFOBuffer_new_def)

lemma put_cells_one: "i < length arr \<Longrightarrow> put_cells arr i [x] = Some (arr[i := x])"
  by (simp add: put_cells_def upd_conv_take_nth_drop)

lemma ring_index_neq: "i < j \<Longrightarrow> j < n \<Longrightarrow> h < n \<Longrightarrow> (h + i) mod n \<noteq> (h + j) mod (n :: nat)"
  by (cases "h + i < n"; cases "h + j < n") (auto simp: mod_if)

lemma FIFO_push_rep:
  assumes "FIFO_rep b xs" and "length xs < maxSize b"
  shows "\<exists>b'. FIFOBuffer_push x b = Some b' \<and> FIFO_rep b' (xs @ [x])"
proof -
  have t: "tail b < length (cache b)" using assms by (simp add: FIFO_rep_def)
  let ?b = "b \<lparr> cache := (cache b)[tail b := Some x], tail := (tail b + 1) mod maxSize b, fcount := fcount b + 1 \<rparr>"
  have "FIFOBuffer_push x b = Some ?b"
    using assms t by (simp add: FIFOBuffer_push_def FIFO_rep_def put_cells_one)
  moreover have "FIFO_rep ?b (xs @ [x])"
    using assms t ring_index_neq [of _ "length xs" "maxSize b" "head b"]
    by (auto simp: FIFO_rep_def nth_append nth_list_update mod_Suc_eq less_Suc_eq) metis
  ultimately show ?thesis by blast
qed

lemma FIFO_pop_rep:
  assumes "FIFO_rep b (x # xs)"
  shows "\<exists>b'. FIFOBuffer_pop b = Some (Inr (Some x), b') \<and> FIFO_rep b' xs"
proof -
  have h: "head b < length (cache b)" "cache b ! head b = Some x" "maxSize b > 0"
    using assms by (auto simp: FIFO_rep_def)
  let ?b = "b \<lparr> head := (head b + 1) mod maxSize b, fcount := fcount b - 1 \<rparr>"
  have "FIFO_rep ?b xs"
    using assms by (auto simp: FIFO_rep_def mod_simps)
  then show ?thesis using h assms by (auto simp: FIFOBuffer_pop_def FIFO_rep_def)
qed

lemma FIFOBuffer_refines_queue_parts:
  assumes "FIFO_rep b xs" and "length xs < maxSize b"
  shows "\<exists>b'. FIFOBuffer_push x b = Some b' \<and> FIFO_rep b' (xs @ [x])"
    and "\<exists>r b'. FIFOBuffer_pop b = Some (r, b') \<and> FIFO_rep b' (tl xs) \<and>
      r = (if xs = [] then Inl () else Inr (Some (hd xs)))"
proof -
  show "\<exists>b'. FIFOBuffer_push x b = Some b' \<and> FIFO_rep b' (xs @ [x])" by (rule FIFO_push_rep [OF assms])
  show "\<exists>r b'. FIFOBuffer_pop b = Some (r, b') \<and> FIFO_rep b' (tl xs) \<and>
      r = (if xs = [] then Inl () else Inr (Some (hd xs)))"
    using assms FIFO_pop_rep [of b "hd xs" "tl xs"] by (cases xs) (auto simp: FIFOBuffer_pop_def FIFO_rep_def)
qed

text \<open>
  A bounded \<open>FIFOBuffer\<close> is a queue as long as it is not full: \<open>push\<close> appends at the back, \<open>pop\<close>
  delivers the oldest element, and neither touches a cell outside the ring, wherever head and tail
  are in it.
\<close>

theorem FIFOBuffer_refines_queue:
  assumes "FIFO_rep b xs" and "length xs < maxSize b"
    shows "(\<exists>b'. FIFOBuffer_push x b = Some b' \<and> FIFO_rep b' (xs @ [x])) \<and>
    (\<exists>r b'. FIFOBuffer_pop b = Some (r, b') \<and> FIFO_rep b' (tl xs) \<and>
      r = (if xs = [] then Inl () else Inr (Some (hd xs))))"
  using FIFOBuffer_refines_queue_parts(1) [OF assms] FIFOBuffer_refines_queue_parts(2) [OF assms] by blast

theorem FIFOBuffer_refines_queue_witness:
  "\<exists>b'. FIFOBuffer_push (5 :: int) (FIFOBuffer_new 2) = Some b' \<and> FIFO_rep b' [5]"
  using FIFOBuffer_refines_queue [OF FIFOBuffer_new_rep [of 2], of "5 :: int"] by (simp add: FIFOBuffer_new_def)

text \<open>
  Pushing onto a full bounded buffer drops the oldest element, as its comment says, but does not store
  the new one.
\<close>

lemma FIFO_push_full:
  assumes "FIFO_rep b (y # xs)" and "length (y # xs) = maxSize b"
  shows "\<exists>b'. FIFOBuffer_push x b = Some b' \<and> FIFO_rep b' xs"
proof -
  have "FIFOBuffer_push x b = map_option snd (FIFOBuffer_pop b)"
    using assms by (auto simp: FIFOBuffer_push_def FIFOBuffer_pop_def FIFO_rep_def)
  then show ?thesis using FIFO_pop_rep [OF assms(1)] by auto
qed

text \<open>An unbounded buffer (the default size 0) never counts its first element.\<close>

lemma FIFO_unbounded_loses:
  "\<exists>b. FIFOBuffer_push x (FIFOBuffer_new 0) = Some b \<and> FIFOBuffer_empty b \<and> FIFOBuffer_pop b = Some (Inl (), b)"
  by (simp add: FIFOBuffer_push_def FIFOBuffer_new_def FIFOBuffer_empty_def FIFOBuffer_pop_def)

section \<open>StringBuffer\<close>

definition SB_rep :: "StringBuffer \<Rightarrow> string \<Rightarrow> bool" where
  "SB_rep b s \<longleftrightarrow> CHR 0x00 \<notin> set s \<and> length (sbuffer b) = scapacity b \<and>
     (\<exists>junk. sbuffer b = map Some (s @ [CHR 0x00]) @ junk)"

lemma cstring_map: "CHR 0x00 \<notin> set s \<Longrightarrow> cstring (map Some s @ Some (CHR 0x00) # junk) = Some s"
  by (induction s) auto

lemma SB_rep_cstring: "SB_rep b s \<Longrightarrow> cstring (sbuffer b) = Some s"
  by (auto simp: SB_rep_def cstring_map)

lemma StringBuffer_new_rep: "SB_rep StringBuffer_new []"
  by (simp add: SB_rep_def StringBuffer_new_def new_array_def numeral_eq_Suc)

lemma StringBuffer_append_rep:
  assumes "SB_rep b s" and "CHR 0x00 \<notin> set str"
  shows "\<exists>b'. StringBuffer_append str b = Some b' \<and> SB_rep b' (s @ str)"
proof -
  have cap: "scapacity b \<ge> length s + 1" using assms by (auto simp: SB_rep_def)
  obtain b1 where b1: "(if length str + length s + 1 > scapacity b
        then StringBuffer_resize (if scapacity b = 0 then 1 else scapacity b + length str + 2) b else Some b) = Some b1"
    and r: "SB_rep b1 s" and room: "length s + length str + 1 \<le> scapacity b1"
  proof (cases "length str + length s + 1 > scapacity b")
    case True
    let ?n = "scapacity b + length str + 2"
    have "put_cells (new_array ?n) 0 (map Some (s @ [CHR 0x00])) = Some (map Some (s @ [CHR 0x00]) @ replicate (?n - length s - 1) None)"
      using cap by (simp add: put_cells_def new_array_def del: replicate.simps)
    then show ?thesis
      using True that cap assms SB_rep_cstring [OF assms(1)] by (auto simp: StringBuffer_resize_def SB_rep_def)
  qed (use that assms in simp)
  obtain junk where j: "sbuffer b1 = map Some s @ Some (CHR 0x00) # junk" "length (sbuffer b1) = scapacity b1"
    using r by (auto simp: SB_rep_def)
  have "put_cells (sbuffer b1) (length s) (map Some (str @ [CHR 0x00])) =
      Some (map Some (s @ str @ [CHR 0x00]) @ drop (length str) junk)"
    using j room by (simp add: put_cells_app')
  then show ?thesis
    unfolding StringBuffer_append_def
    using b1 SB_rep_cstring [OF assms(1)] SB_rep_cstring [OF r] assms j room r by (auto simp: SB_rep_def)
qed

lemma StringBuffer_appends_parts:
  assumes "SB_rep b s" and "CHR 0x00 \<notin> set str" and "SB_rep c str"
  shows "\<exists>b'. StringBuffer_append str b = Some b' \<and> SB_rep b' (s @ str)"
    and "\<exists>b'. StringBuffer_copy c b = Some b' \<and> SB_rep b' (s @ str)"
    and "\<exists>b'. StringBuffer_putc ch b = Some b' \<and> SB_rep b' (if ch = CHR 0x00 then s else s @ [ch])"
    and "StringBuffer_count b = Some (length s)"
  using StringBuffer_append_rep [OF assms(1,2)] StringBuffer_append_rep [OF assms(1), of "[ch]"]
    StringBuffer_append_rep [OF assms(1), of "[]"] SB_rep_cstring [OF assms(1)] SB_rep_cstring [OF assms(3)]
  by (auto simp: StringBuffer_copy_def StringBuffer_c_str_def StringBuffer_putc_def StringBuffer_count_def)

text \<open>
  \<open>StringBuffer\<close> never writes outside its array: appending a string, a character or another
  buffer succeeds, growing the array when needed, and the buffer then holds the concatenation.
\<close>

theorem StringBuffer_appends:
  assumes "SB_rep b s" and "CHR 0x00 \<notin> set str" and "SB_rep c str"
    shows "(\<exists>b'. StringBuffer_append str b = Some b' \<and> SB_rep b' (s @ str)) \<and>
    (\<exists>b'. StringBuffer_copy c b = Some b' \<and> SB_rep b' (s @ str)) \<and>
    (\<exists>b'. StringBuffer_putc ch b = Some b' \<and> SB_rep b' (if ch = CHR 0x00 then s else s @ [ch])) \<and>
    StringBuffer_count b = Some (length s)"
  using StringBuffer_appends_parts(1) [OF assms] StringBuffer_appends_parts(2) [OF assms] StringBuffer_appends_parts(3) [OF assms] StringBuffer_appends_parts(4) [OF assms] by blast

theorem StringBuffer_appends_witness:
  "\<exists>b'. StringBuffer_append [] StringBuffer_new = Some b' \<and> SB_rep b' []"
  using StringBuffer_appends [OF StringBuffer_new_rep _ StringBuffer_new_rep] by simp

text \<open>\<open>to_string\<close> allocates the terminator's cell but copies only the characters: the result is not a
  terminated string.\<close>

lemma StringBuffer_to_string_unterminated:
  assumes "SB_rep b s"
  shows "\<exists>r. StringBuffer_to_string b = Some r \<and> r = map Some s @ [None] \<and> cstring r = None"
proof -
  have "CHR 0x00 \<notin> set s \<Longrightarrow> cstring (map Some s @ [None]) = None" by (induction s) auto
  then show ?thesis
    using assms SB_rep_cstring [OF assms]
    by (simp add: StringBuffer_to_string_def put_cells_def new_array_def SB_rep_def del: replicate.simps(2))
      (simp add: numeral_eq_Suc)
qed

end
