(* ===== verification/Errno.thy ===== *)
theory Errno
  imports Prelude
begin

text \<open>
  Error numbers of the C library (\<^verbatim>\<open>include/errno.h\<close>) and \<^verbatim>\<open>string/strerror.c\<close>, which turns them into
  text. The error numbers from 23 on are inside a disabled block of \<^verbatim>\<open>strerror\<close>.
\<close>

section \<open>Error numbers\<close>

definition EPERM :: int where
  "EPERM = 1"

definition ENOENT :: int where
  "ENOENT = 2"

definition ESRCH :: int where
  "ESRCH = 3"

definition EINTR :: int where
  "EINTR = 4"

definition EIO :: int where
  "EIO = 5"

definition ENXIO :: int where
  "ENXIO = 6"

definition E2BIG :: int where
  "E2BIG = 7"

definition ENOEXEC :: int where
  "ENOEXEC = 8"

definition EBADF :: int where
  "EBADF = 9"

definition ECHILD :: int where
  "ECHILD = 10"

definition EAGAIN :: int where
  "EAGAIN = 11"

definition ENOMEM :: int where
  "ENOMEM = 12"

definition EACCES :: int where
  "EACCES = 13"

definition EFAULT :: int where
  "EFAULT = 14"

definition ENOTBLK :: int where
  "ENOTBLK = 15"

definition EBUSY :: int where
  "EBUSY = 16"

definition EEXIST :: int where
  "EEXIST = 17"

definition EXDEV :: int where
  "EXDEV = 18"

definition ENODEV :: int where
  "ENODEV = 19"

definition ENOTDIR :: int where
  "ENOTDIR = 20"

definition EISDIR :: int where
  "EISDIR = 21"

definition EINVAL :: int where
  "EINVAL = 22"

section \<open>Their texts\<close>

definition strerror :: "int \<Rightarrow> string" where
  "strerror errnum =
    (if errnum = 0 then ''Success''
     else if errnum = EPERM then ''Operation not permitted''
     else if errnum = ENOENT then ''No such file or directory''
     else if errnum = ESRCH then ''No such process''
     else if errnum = EINTR then ''Interrupted system call''
     else if errnum = EIO then ''I/O error''
     else if errnum = ENXIO then ''No such device or address''
     else if errnum = E2BIG then ''Argument list too long''
     else if errnum = ENOEXEC then ''Exec format error''
     else if errnum = EBADF then ''Bad file number''
     else if errnum = ECHILD then ''No child processes''
     else if errnum = EAGAIN then ''Try again''
     else if errnum = ENOMEM then ''Out of memory''
     else if errnum = EACCES then ''Permission denied''
     else if errnum = EFAULT then ''Bad address''
     else if errnum = ENOTBLK then ''Block device required''
     else if errnum = EBUSY then ''Device or resource busy''
     else if errnum = EEXIST then ''File exists''
     else if errnum = EXDEV then ''Cross-device link''
     else if errnum = ENODEV then ''No such device''
     else if errnum = ENOTDIR then ''Not a directory''
     else if errnum = EISDIR then ''Is a directory''
     else if errnum = EINVAL then ''Invalid argument''
     else ''Unknown error'')"

lemmas errno_defs = EPERM_def ENOENT_def ESRCH_def EINTR_def EIO_def ENXIO_def E2BIG_def ENOEXEC_def
  EBADF_def ECHILD_def EAGAIN_def ENOMEM_def EACCES_def EFAULT_def ENOTBLK_def EBUSY_def
  EEXIST_def EXDEV_def ENODEV_def ENOTDIR_def EISDIR_def EINVAL_def

section \<open>Distinct texts\<close>

definition known_errors :: "int list" where
  "known_errors = [0..22]"

lemma strerror_texts_distinct: "distinct (map strerror known_errors)"
  by code_simp

lemma strerror_known_not_unknown: "\<forall>e \<in> set known_errors. strerror e \<noteq> ''Unknown error''"
  by code_simp

text \<open>
  \<open>strerror\<close> is total and tells the error numbers 0 to 22 apart: two numbers with the same text
  are equal or both outside that range, where the text is \<open>Unknown error\<close>.
\<close>

theorem strerror_injective:
  "strerror a = strerror b \<longleftrightarrow> a = b \<or> (a \<notin> {0..22} \<and> b \<notin> {0..22})"
proof -
  have k: "set known_errors = {0..22}" by (simp add: known_errors_def)
  have out: "strerror e = ''Unknown error'' \<longleftrightarrow> e \<notin> {0..22}" for e
  proof
    show "strerror e = ''Unknown error'' \<Longrightarrow> e \<notin> {0..22}" using strerror_known_not_unknown k by auto
    show "e \<notin> {0..22} \<Longrightarrow> strerror e = ''Unknown error''" by (auto simp: strerror_def errno_defs)
  qed
  have inj: "a \<in> {0..22} \<Longrightarrow> b \<in> {0..22} \<Longrightarrow> strerror a = strerror b \<Longrightarrow> a = b"
    using strerror_texts_distinct k by (auto simp: distinct_map inj_on_def)
  show ?thesis using out [of a] out [of b] inj by metis
qed

end
