(* ===== verification/KErrno.thy ===== *)
theory KErrno
  imports Prelude
begin

text \<open>
  The error codes of the kernel, \<^verbatim>\<open>klib/errno.h\<close>, and their texts, \<^verbatim>\<open>klib/errno.cpp\<close>. A kernel function
  that returns \<open>OK\<close> or a negative code is modelled with the type \<open>kerror + 'a\<close>: \<open>Inr\<close> is \<open>OK\<close> together
  with the values the code stores in its output parameters.
\<close>

section \<open>Codes\<close>

datatype kerror =
    ErrorFileNotFound
  | ErrorPermissionDenied
  | ErrorInvalidFD
  | ErrorInvalidBuffer
  | ErrorInvalidPath
  | ErrorInvalidFileSystem
  | ErrorInvalidDevice
  | ErrorFileExists
  | ErrorSeekOffsetOOB
  | ErrorEncounteredSymlink
  | ErrorAddressNotPageAligned
  | ErrorPathTooLong
  | ErrorHardlinkToFolder
  | ErrorHardlinkToDifferentFS
  | ErrorDeleteMountPoint
  | ErrorFolderNotEmpty
  | ErrorNotAFolder
  | ErrorFolderAlreadyMounted
  | ErrorNotABlockDevice
  | ErrorNotAMountPoint
  | ErrorUnmountRoot
  | ErrorMountPointBusy
  | ErrorOpenFolder
  | ErrorNotADevice
  | ErrorThreadNotFound
  | ErrorDetachSubThread
  | ErrorThreadNotExited
  | ErrorInterrupted
  | ErrorNotSupportOperator

text \<open>The value each constant has.\<close>

fun error_code :: "kerror \<Rightarrow> int" where
  "error_code ErrorFileNotFound = -4"
| "error_code ErrorPermissionDenied = -5"
| "error_code ErrorInvalidFD = -6"
| "error_code ErrorInvalidBuffer = -7"
| "error_code ErrorInvalidPath = -8"
| "error_code ErrorInvalidFileSystem = -9"
| "error_code ErrorInvalidDevice = -10"
| "error_code ErrorFileExists = -11"
| "error_code ErrorSeekOffsetOOB = -12"
| "error_code ErrorEncounteredSymlink = -13"
| "error_code ErrorAddressNotPageAligned = -14"
| "error_code ErrorPathTooLong = -15"
| "error_code ErrorHardlinkToFolder = -16"
| "error_code ErrorHardlinkToDifferentFS = -17"
| "error_code ErrorDeleteMountPoint = -18"
| "error_code ErrorFolderNotEmpty = -19"
| "error_code ErrorNotAFolder = -20"
| "error_code ErrorFolderAlreadyMounted = -21"
| "error_code ErrorNotABlockDevice = -22"
| "error_code ErrorNotAMountPoint = -23"
| "error_code ErrorUnmountRoot = -24"
| "error_code ErrorMountPointBusy = -25"
| "error_code ErrorOpenFolder = -26"
| "error_code ErrorNotADevice = -27"
| "error_code ErrorThreadNotFound = -100"
| "error_code ErrorDetachSubThread = -101"
| "error_code ErrorThreadNotExited = -102"
| "error_code ErrorInterrupted = -200"
| "error_code ErrorNotSupportOperator = -201"

definition OK :: int where
  "OK = 0"

definition ErrorToString :: "int \<Rightarrow> string" where
  "ErrorToString err =
    (if err = OK then ''OK''
     else if err = error_code ErrorFileNotFound then ''File not found''
     else if err = error_code ErrorPermissionDenied then ''Permission denied''
     else if err = error_code ErrorInvalidFD then ''Invalid File descriptor''
     else if err = error_code ErrorInvalidBuffer then ''Invalid user buffer''
     else if err = error_code ErrorInvalidPath then ''Invalid path''
     else if err = error_code ErrorInvalidFileSystem then ''Invalid Filesystem''
     else if err = error_code ErrorInvalidDevice then ''Invalid device''
     else if err = error_code ErrorFileExists then ''File exists''
     else if err = error_code ErrorSeekOffsetOOB then ''Seek offset out of bounds''
     else if err = error_code ErrorEncounteredSymlink then ''Encountered symlink''
     else if err = error_code ErrorAddressNotPageAligned then ''Address not page aligned''
     else if err = error_code ErrorPathTooLong then ''Path too long''
     else if err = error_code ErrorHardlinkToFolder then ''Hardlink to folder not allowed''
     else if err = error_code ErrorHardlinkToDifferentFS then ''Hardlink to different filesystem not allowed''
     else if err = error_code ErrorDeleteMountPoint then ''Deleting mountpoint not allowed''
     else if err = error_code ErrorFolderNotEmpty then ''Folder not empty''
     else if err = error_code ErrorNotAFolder then ''Not a folder''
     else if err = error_code ErrorFolderAlreadyMounted then ''Folder is already mounted''
     else if err = error_code ErrorNotABlockDevice then ''Not a block device''
     else if err = error_code ErrorUnmountRoot then ''Unmounting root filesystem not allowed''
     else if err = error_code ErrorMountPointBusy then ''MountPoint is busy''
     else if err = error_code ErrorOpenFolder then ''Opening a folder is not allowed''
     else if err = error_code ErrorNotADevice then ''Not a device''
     else if err = error_code ErrorThreadNotFound then ''Thread not found''
     else if err = error_code ErrorDetachSubThread then ''Detaching a subthread is not allowed''
     else if err = error_code ErrorThreadNotExited then ''Thread has not exited yet''
     else if err = error_code ErrorInterrupted then ''Interrupted''
     else ''unknown error'')"

definition all_errors :: "kerror list" where
  "all_errors = [ErrorFileNotFound, ErrorPermissionDenied, ErrorInvalidFD, ErrorInvalidBuffer,
    ErrorInvalidPath, ErrorInvalidFileSystem, ErrorInvalidDevice, ErrorFileExists,
    ErrorSeekOffsetOOB, ErrorEncounteredSymlink, ErrorAddressNotPageAligned, ErrorPathTooLong,
    ErrorHardlinkToFolder, ErrorHardlinkToDifferentFS, ErrorDeleteMountPoint, ErrorFolderNotEmpty,
    ErrorNotAFolder, ErrorFolderAlreadyMounted, ErrorNotABlockDevice, ErrorNotAMountPoint,
    ErrorUnmountRoot, ErrorMountPointBusy, ErrorOpenFolder, ErrorNotADevice,
    ErrorThreadNotFound, ErrorDetachSubThread, ErrorThreadNotExited, ErrorInterrupted,
    ErrorNotSupportOperator]"

lemma all_errors_complete [simp]: "e \<in> set all_errors"
  by (cases e) (simp_all add: all_errors_def)

lemma codes_distinct: "distinct (map error_code all_errors)"
  by code_simp

lemma error_code_inj [simp]: "error_code a = error_code b \<longleftrightarrow> a = b"
  using codes_distinct by (auto simp: distinct_map inj_on_def)

lemma error_code_negative: "error_code e < 0"
  by (cases e) simp_all

text \<open>
  Two codes have no text of their own: \<open>ErrorNotAMountPoint\<close>, which \<open>Unmount\<close> returns, and
  \<open>ErrorNotSupportOperator\<close>.
\<close>

lemma ErrorToString_unknown:
  "ErrorToString (error_code e) = ''unknown error'' \<longleftrightarrow> e = ErrorNotAMountPoint \<or> e = ErrorNotSupportOperator"
  by (cases e) (simp_all add: ErrorToString_def OK_def)

end
