(* ===== verification/FdTable.thy ===== *)
theory FdTable
  imports KErrno
begin

text \<open>
  The file descriptor table of a process: \<^verbatim>\<open>ThreadFileDescriptors\<close> of \<^verbatim>\<open>task/Thread.h\<close> and the functions of
  \<^verbatim>\<open>task/Scheduler.cpp\<close> that look up, add, copy and close descriptors. The vector of pairs is a list; a
  pointer to one of its elements is its index. The calls into the file system layer (\<^verbatim>\<open>VFS::AddRef\<close>,
  \<^verbatim>\<open>VFS::Close\<close>) are returned in order as a list, so that they can be run on the descriptors of that layer.
  Inserting into the vector leaves pointers at or behind the insertion point dangling, and all of them
  when the vector moves; using such a pointer is the result \<open>None\<close>.
\<close>

section \<open>The table\<close>

record ThreadFileDescriptor =
  fd_id :: int
  sysDesc :: u64

record ThreadFileDescriptors =
  fdsRefCount :: u64
  fds :: "ThreadFileDescriptor list"

datatype vfs_call = VFS_AddRef u64 | VFS_Close u64

section \<open>Operations\<close>

text \<open>The loop of \<open>FindFreeFD\<close>: the table with the new entry, and the entry's index.\<close>

fun FindFreeFD_loop :: "int \<Rightarrow> ThreadFileDescriptor list \<Rightarrow> ThreadFileDescriptor list \<times> nat" where
  "FindFreeFD_loop lastFD [] = ([\<lparr> fd_id = lastFD + 1, sysDesc = 0 \<rparr>], 0)"
| "FindFreeFD_loop lastFD (a # as) =
     (if fd_id a \<noteq> lastFD + 1 then (\<lparr> fd_id = lastFD + 1, sysDesc = 0 \<rparr> # a # as, 0)
      else let (as', i) = FindFreeFD_loop (fd_id a) as in (a # as', i + 1))"

definition FindFreeFD :: "ThreadFileDescriptors \<Rightarrow> ThreadFileDescriptors \<times> nat" where
  "FindFreeFD t = (let (l, i) = FindFreeFD_loop (- 1) (fds t) in (t \<lparr> fds := l \<rparr>, i))"

definition ThreadAddFileDescriptor :: "u64 \<Rightarrow> ThreadFileDescriptors \<Rightarrow> int \<times> ThreadFileDescriptors" where
  "ThreadAddFileDescriptor sd t =
     (let (t, fd) = FindFreeFD t;
          t = t \<lparr> fds := (fds t)[fd := (fds t ! fd) \<lparr> sysDesc := sd \<rparr>] \<rparr>
      in (fd_id (fds t ! fd), t))"

text \<open>The search loop of \<open>ThreadReplaceFileDescriptor\<close> runs to the end, so the last match counts.\<close>

fun find_last_fd :: "int \<Rightarrow> ThreadFileDescriptor list \<Rightarrow> nat \<Rightarrow> nat option \<Rightarrow> nat option" where
  "find_last_fd d [] i r = r"
| "find_last_fd d (a # as) i r = find_last_fd d as (i + 1) (if fd_id a = d then Some i else r)"

text \<open>The position in front of the first larger identifier.\<close>

fun insert_position :: "int \<Rightarrow> ThreadFileDescriptor list \<Rightarrow> nat" where
  "insert_position d [] = 0"
| "insert_position d (a # as) = (if fd_id a > d then 0 else insert_position d as + 1)"

text \<open>\<open>moves\<close> tells whether the insertion makes the vector move its elements to new memory.\<close>

definition ThreadReplaceFileDescriptor ::
  "bool \<Rightarrow> int \<Rightarrow> int \<Rightarrow> ThreadFileDescriptors \<Rightarrow>
     ((kerror + unit) \<times> ThreadFileDescriptors \<times> vfs_call list) option" where
  "ThreadReplaceFileDescriptor moves oldPDesc newPDesc t =
     (if oldPDesc = newPDesc then Some (Inr (), t, [])
      else
        let oldFD = find_last_fd oldPDesc (fds t) 0 None;
            newFD = find_last_fd newPDesc (fds t) 0 None
        in case newFD of
             None \<Rightarrow> Some (Inl ErrorInvalidFD, t, [])
           | Some n \<Rightarrow>
               if sysDesc (fds t ! n) = 0 then Some (Inl ErrorInvalidFD, t, [])
               else
                 let (l, old, valid) =
                   (case oldFD of
                      Some i \<Rightarrow> (fds t, i, True)
                    | None \<Rightarrow>
                        let a = insert_position oldPDesc (fds t)
                        in (take a (fds t) @ \<lparr> fd_id = oldPDesc, sysDesc = 0 \<rparr> # drop a (fds t), a,
                            \<not> moves \<and> n < a))
                 in if \<not> valid then None
                    else
                      let od = sysDesc (l ! old); nd = sysDesc (l ! n); copied = l[old := (l ! old) \<lparr> sysDesc := nd \<rparr>]
                      in if od = 0 then Some (Inr (), t \<lparr> fds := copied \<rparr>, [VFS_AddRef nd])
                         else if od = nd then Some (Inr (), t \<lparr> fds := l \<rparr>, [])
                         else Some (Inr (), t \<lparr> fds := copied \<rparr>, [VFS_Close od, VFS_AddRef nd]))"

fun close_loop :: "int \<Rightarrow> ThreadFileDescriptor list \<Rightarrow> (kerror + unit) \<times> ThreadFileDescriptor list \<times> vfs_call list" where
  "close_loop d [] = (Inl ErrorInvalidFD, [], [])"
| "close_loop d (a # as) =
     (if fd_id a = d then
        if sysDesc a = 0 then (Inl ErrorInvalidFD, a # as, [])
        else (Inr (), a \<lparr> sysDesc := 0 \<rparr> # as, [VFS_Close (sysDesc a)])
      else let (r, as', cs) = close_loop d as in (r, a # as', cs))"

definition ThreadCloseFileDescriptor ::
  "int \<Rightarrow> ThreadFileDescriptors \<Rightarrow> (kerror + unit) \<times> ThreadFileDescriptors \<times> vfs_call list" where
  "ThreadCloseFileDescriptor d t = (let (r, l, cs) = close_loop d (fds t) in (r, t \<lparr> fds := l \<rparr>, cs))"

fun lookup_loop :: "int \<Rightarrow> ThreadFileDescriptor list \<Rightarrow> kerror + u64" where
  "lookup_loop d [] = Inl ErrorInvalidFD"
| "lookup_loop d (a # as) =
     (if fd_id a = d then if sysDesc a = 0 then Inl ErrorInvalidFD else Inr (sysDesc a)
      else lookup_loop d as)"

definition ThreadGetSystemFileDescriptor :: "int \<Rightarrow> ThreadFileDescriptors \<Rightarrow> kerror + u64" where
  "ThreadGetSystemFileDescriptor d t = lookup_loop d (fds t)"

text \<open>\<open>CloneThread\<close> without sharing copies the open entries; \<open>ThreadExit\<close> closes them when the last
  user of the table leaves.\<close>

definition clone_fds :: "ThreadFileDescriptors \<Rightarrow> ThreadFileDescriptors \<times> vfs_call list" where
  "clone_fds t =
     (let kept = filter (\<lambda>fd. sysDesc fd \<noteq> 0) (fds t)
      in (\<lparr> fdsRefCount = 1, fds = kept \<rparr>, map (\<lambda>fd. VFS_AddRef (sysDesc fd)) kept))"

definition share_fds :: "ThreadFileDescriptors \<Rightarrow> ThreadFileDescriptors" where
  "share_fds t = t \<lparr> fdsRefCount := fdsRefCount t + 1 \<rparr>"

text \<open>The table is deleted (\<open>None\<close>) when the count reaches 0.\<close>

definition release_fds :: "ThreadFileDescriptors \<Rightarrow> ThreadFileDescriptors option \<times> vfs_call list" where
  "release_fds t =
     (if fdsRefCount t - 1 = 0
      then (None, map (\<lambda>fd. VFS_Close (sysDesc fd)) (filter (\<lambda>fd. sysDesc fd \<noteq> 0) (fds t)))
      else (Some (t \<lparr> fdsRefCount := fdsRefCount t - 1 \<rparr>), []))"

section \<open>Well-formed tables\<close>

text \<open>Identifiers are non-negative and strictly increasing.\<close>

definition fd_ids :: "ThreadFileDescriptors \<Rightarrow> int list" where
  "fd_ids t = map fd_id (fds t)"

definition fd_inv :: "ThreadFileDescriptors \<Rightarrow> bool" where
  "fd_inv t \<longleftrightarrow> sorted_wrt (<) (fd_ids t) \<and> (\<forall>d \<in> set (fd_ids t). 0 \<le> d)"

text \<open>The table as a map from identifiers to open system descriptors.\<close>

definition fd_map :: "ThreadFileDescriptors \<Rightarrow> int \<Rightarrow> u64 option" where
  "fd_map t d = (case ThreadGetSystemFileDescriptor d t of Inl _ \<Rightarrow> None | Inr s \<Rightarrow> Some s)"

lemma lookup_notin: "d \<notin> fd_id ` set l \<Longrightarrow> lookup_loop d l = Inl ErrorInvalidFD"
  by (induction l) auto

lemma lookup_error: "lookup_loop d l = Inl e \<Longrightarrow> e = ErrorInvalidFD"
  by (induction d l rule: lookup_loop.induct) (auto split: if_splits)

lemma lookup_nth:
  "distinct (map fd_id l) \<Longrightarrow> i < length l \<Longrightarrow> lookup_loop (fd_id (l ! i)) l =
    (if sysDesc (l ! i) = 0 then Inl ErrorInvalidFD else Inr (sysDesc (l ! i)))"
proof (induction l arbitrary: i)
  case (Cons a l)
  then show ?case by (cases i) (auto simp: image_iff)
qed simp



lemma lookup_insert:
  "d \<noteq> fd_id a \<Longrightarrow> lookup_loop d (xs @ a # ys) = lookup_loop d (xs @ ys)"
  by (induction xs) auto

lemma lookup_closed:
  "\<forall>a \<in> set xs. fd_id a \<noteq> d \<Longrightarrow> lookup_loop d (xs @ \<lparr> fd_id = d, sysDesc = 0 \<rparr> # ys) = Inl ErrorInvalidFD"
  by (induction xs) auto

lemma strict_distinct: "sorted_wrt (<) (xs :: int list) \<Longrightarrow> distinct xs"
  by (induction xs) auto

lemma FindFreeFD_loop_spec:
  assumes "sorted_wrt (<) (map fd_id l)" and "\<forall>a \<in> set l. m < fd_id a" and "FindFreeFD_loop m l = (l', i)"
  shows "\<exists>xs ys. l = xs @ ys \<and> i = length xs \<and> l' = xs @ \<lparr> fd_id = m + 1 + int (length xs), sysDesc = 0 \<rparr> # ys \<and>
    map fd_id xs = map (\<lambda>k. m + 1 + int k) [0..<length xs] \<and> (\<forall>a \<in> set ys. m + 1 + int (length xs) < fd_id a)"
  using assms
proof (induction m l arbitrary: l' i rule: FindFreeFD_loop.induct)
  case (1 lastFD)
  then show ?case by simp
next
  case (2 lastFD a as)
  show ?case
  proof (cases "fd_id a = lastFD + 1")
    case False
    then have "\<forall>b \<in> set (a # as). lastFD + 1 < fd_id b" using 2(2,3) by auto
    then show ?thesis using 2(4) False by (intro exI [of _ "[]"] exI [of _ "a # as"]) auto
  next
    case True
    obtain as' j where r: "FindFreeFD_loop (fd_id a) as = (as', j)" by fastforce
    obtain xs ys where h: "as = xs @ ys" "j = length xs"
      "as' = xs @ \<lparr> fd_id = fd_id a + 1 + int (length xs), sysDesc = 0 \<rparr> # ys"
      "map fd_id xs = map (\<lambda>k. fd_id a + 1 + int k) [0..<length xs]"
      "\<forall>b \<in> set ys. fd_id a + 1 + int (length xs) < fd_id b"
      using 2(1) [OF _ _ _ r] 2(2) True by auto
    have "map fd_id (a # xs) = map (\<lambda>k. lastFD + 1 + int k) [0..<length (a # xs)]"
      using h(4) True by (simp add: upt_conv_Cons map_Suc_upt [symmetric] del: upt_Suc)
    then show ?thesis
      using 2(4) True r h by (intro exI [of _ "a # xs"] exI [of _ ys]) (auto simp: algebra_simps)
  qed
qed

lemma ThreadAdd_shape:
  assumes "fd_inv t" and "ThreadAddFileDescriptor sd t = (d, t')"
  obtains xs ys where "fds t = xs @ ys" and "d = int (length xs)"
    and "t' = t \<lparr> fds := xs @ \<lparr> fd_id = d, sysDesc = sd \<rparr> # ys \<rparr>"
    and "fd_id ` set xs = {0..<d}" and "\<forall>a \<in> set ys. d < fd_id a"
proof -
  obtain l i where l: "FindFreeFD_loop (- 1) (fds t) = (l, i)" by fastforce
  obtain xs ys where h: "fds t = xs @ ys" "i = length xs" "l = xs @ \<lparr> fd_id = int (length xs), sysDesc = 0 \<rparr> # ys"
      "map fd_id xs = map int [0..<length xs]" "\<forall>a \<in> set ys. int (length xs) < fd_id a"
    using FindFreeFD_loop_spec [OF _ _ l] assms(1) by (force simp: fd_inv_def fd_ids_def)
  have "fd_id ` set xs = set (map int [0..<length xs])" using h(4) by (metis set_map)
  then have "fd_id ` set xs = {0..<int (length xs)}" by (simp add: image_int_atLeastLessThan)
  then show ?thesis using that assms(2) l h by (auto simp: ThreadAddFileDescriptor_def FindFreeFD_def)
qed

lemma ThreadAddFileDescriptor_least_free_parts:
  assumes "fd_inv t" and "sd \<noteq> 0" and "ThreadAddFileDescriptor sd t = (d, t')"
  shows "fd_inv t'" and "fd_map t' = (fd_map t)(d \<mapsto> sd)"
    and "d \<ge> 0 \<and> d \<notin> set (fd_ids t) \<and> (\<forall>e. 0 \<le> e \<and> e < d \<longrightarrow> e \<in> set (fd_ids t))"
proof -
  obtain xs ys where h: "fds t = xs @ ys" "d = int (length xs)" "t' = t \<lparr> fds := xs @ \<lparr> fd_id = d, sysDesc = sd \<rparr> # ys \<rparr>"
    "fd_id ` set xs = {0..<d}" "\<forall>a \<in> set ys. d < fd_id a"
    by (rule ThreadAdd_shape [OF assms(1,3)])
  have xs: "\<forall>a \<in> set xs. fd_id a < d" using h(4) by auto
  show "fd_inv t'" using assms(1) h xs by (auto simp: fd_inv_def fd_ids_def sorted_wrt_append)
  show "d \<ge> 0 \<and> d \<notin> set (fd_ids t) \<and> (\<forall>e. 0 \<le> e \<and> e < d \<longrightarrow> e \<in> set (fd_ids t))"
    using h xs by (auto simp: fd_ids_def)
  have "lookup_loop d (xs @ \<lparr> fd_id = d, sysDesc = sd \<rparr> # ys) = Inr sd"
    using xs assms(2) by (induction xs) auto
  then show "fd_map t' = (fd_map t)(d \<mapsto> sd)"
    using h by (auto simp: fd_map_def ThreadGetSystemFileDescriptor_def lookup_insert fun_eq_iff)
qed

text \<open>
  C12: Adding a descriptor returns the smallest non-negative number that no entry of the table has, keeps
  the table sorted without duplicates, and makes exactly that number refer to the given system
  descriptor; every other number refers to what it referred to before.
\<close>

theorem ThreadAddFileDescriptor_least_free:
  assumes "fd_inv t" and "sd \<noteq> 0" and "ThreadAddFileDescriptor sd t = (d, t')"
    shows "fd_inv t' \<and>
    fd_map t' = (fd_map t)(d \<mapsto> sd) \<and>
    (d \<ge> 0 \<and> d \<notin> set (fd_ids t) \<and> (\<forall>e. 0 \<le> e \<and> e < d \<longrightarrow> e \<in> set (fd_ids t)))"
  using ThreadAddFileDescriptor_least_free_parts(1) [OF assms] ThreadAddFileDescriptor_least_free_parts(2) [OF assms] ThreadAddFileDescriptor_least_free_parts(3) [OF assms] by blast

definition three_fds :: ThreadFileDescriptors where
  "three_fds = \<lparr> fdsRefCount = 1, fds = [\<lparr> fd_id = 0, sysDesc = 16 \<rparr>, \<lparr> fd_id = 1, sysDesc = 32 \<rparr>, \<lparr> fd_id = 3, sysDesc = 48 \<rparr>] \<rparr>"

lemma three_fds_inv: "fd_inv three_fds"
  by (simp add: fd_inv_def fd_ids_def three_fds_def)

theorem ThreadAddFileDescriptor_least_free_witness:
  "fst (ThreadAddFileDescriptor 64 three_fds) = 2 \<and> fd_map (snd (ThreadAddFileDescriptor 64 three_fds)) 2 = Some 64"
proof -
  obtain d t' where r: "ThreadAddFileDescriptor 64 three_fds = (d, t')" by fastforce
  then have "d = 2" by (auto simp: ThreadAddFileDescriptor_def FindFreeFD_def three_fds_def)
  then show ?thesis using ThreadAddFileDescriptor_least_free [OF three_fds_inv _ r] r by simp
qed

lemma close_loop_spec:
  assumes "distinct (map fd_id l)" and "close_loop d l = (r, l', cs)"
  shows "map fd_id l' = map fd_id l \<and>
    (case lookup_loop d l of
       Inl err \<Rightarrow> r = Inl err \<and> l' = l \<and> cs = []
     | Inr s \<Rightarrow> r = Inr () \<and> cs = [VFS_Close s] \<and>
         (\<forall>e. lookup_loop e l' = (if e = d then Inl ErrorInvalidFD else lookup_loop e l)))"
  using assms
proof (induction d l arbitrary: r l' cs rule: close_loop.induct)
  case (2 d a as)
  then show ?case
    by (cases "fd_id a = d") (auto simp: lookup_notin image_iff split: if_splits sum.splits prod.splits)
qed simp

lemma ThreadCloseFileDescriptor_closes_parts:
  assumes "fd_inv t" and "ThreadCloseFileDescriptor d t = (r, t', cs)"
  shows "fd_inv t'"
    and "case fd_map t d of
      None \<Rightarrow> r = Inl ErrorInvalidFD \<and> t' = t \<and> cs = []
    | Some s \<Rightarrow> r = Inr () \<and> cs = [VFS_Close s] \<and> fd_map t' = (fd_map t)(d := None)"
proof -
  obtain l' where l: "close_loop d (fds t) = (r, l', cs)" "t' = t \<lparr> fds := l' \<rparr>"
    using assms(2) by (auto simp: ThreadCloseFileDescriptor_def split: prod.splits)
  have spec: "map fd_id l' = map fd_id (fds t) \<and>
    (case lookup_loop d (fds t) of
       Inl err \<Rightarrow> r = Inl err \<and> l' = fds t \<and> cs = []
     | Inr s \<Rightarrow> r = Inr () \<and> cs = [VFS_Close s] \<and>
         (\<forall>e. lookup_loop e l' = (if e = d then Inl ErrorInvalidFD else lookup_loop e (fds t))))"
    by (rule close_loop_spec [OF _ l(1)]) (use assms(1) in \<open>simp add: fd_inv_def fd_ids_def strict_distinct\<close>)
  then show "fd_inv t'" using assms(1) l(2) by (simp add: fd_inv_def fd_ids_def)
  show "case fd_map t d of
      None \<Rightarrow> r = Inl ErrorInvalidFD \<and> t' = t \<and> cs = []
    | Some s \<Rightarrow> r = Inr () \<and> cs = [VFS_Close s] \<and> fd_map t' = (fd_map t)(d := None)"
    using spec l(2) lookup_error [of d "fds t"]
    by (cases "lookup_loop d (fds t)") (auto simp: fd_map_def ThreadGetSystemFileDescriptor_def fun_eq_iff)
qed

text \<open>
  C28: Closing a descriptor: an unknown or already closed number is refused with \<open>ErrorInvalidFD\<close> and
  changes nothing; otherwise the file system layer is told to close exactly the system descriptor the
  number stood for, the number becomes unknown, and no other number changes.
\<close>

theorem ThreadCloseFileDescriptor_closes:
  assumes "fd_inv t" and "ThreadCloseFileDescriptor d t = (r, t', cs)"
    shows "fd_inv t' \<and>
    (case fd_map t d of
      None \<Rightarrow> r = Inl ErrorInvalidFD \<and> t' = t \<and> cs = []
    | Some s \<Rightarrow> r = Inr () \<and> cs = [VFS_Close s] \<and> fd_map t' = (fd_map t)(d := None))"
  using ThreadCloseFileDescriptor_closes_parts(1) [OF assms] ThreadCloseFileDescriptor_closes_parts(2) [OF assms] by blast

theorem ThreadCloseFileDescriptor_closes_witness:
  "fd_map three_fds 1 = Some 32 \<and> fd_map (fst (snd (ThreadCloseFileDescriptor 1 three_fds))) 1 = None"
proof -
  obtain r t' cs where c: "ThreadCloseFileDescriptor 1 three_fds = (r, t', cs)" by (metis prod_cases3)
  have m: "fd_map three_fds 1 = Some 32"
    by (simp add: fd_map_def ThreadGetSystemFileDescriptor_def three_fds_def)
  show ?thesis using ThreadCloseFileDescriptor_closes [OF three_fds_inv c] m c by simp
qed

section \<open>Copying a descriptor\<close>

lemma find_last_fd_spec:
  "distinct (map fd_id l) \<Longrightarrow> find_last_fd d l i r =
    (if d \<in> fd_id ` set l then Some (i + length (takeWhile (\<lambda>a. fd_id a \<noteq> d) l)) else r)"
proof (induction d l i r rule: find_last_fd.induct)
  case (2 d a as i r)
  then show ?case by (cases "fd_id a = d") auto
qed simp

lemma takeWhile_stops: "d \<in> fd_id ` set l \<Longrightarrow> length (takeWhile (\<lambda>a. fd_id a \<noteq> d) l) < length l"
  by (induction l) auto

lemma find_last_fd_SomeD:
  assumes "distinct (map fd_id l)" and "find_last_fd d l 0 None = Some n"
  shows "n < length l" and "fd_id (l ! n) = d"
proof -
  have n: "d \<in> fd_id ` set l" "n = length (takeWhile (\<lambda>a. fd_id a \<noteq> d) l)"
    using assms find_last_fd_spec [OF assms(1), of d 0 None] by (auto split: if_splits)
  then show "n < length l" using takeWhile_stops [of d l] by simp
  then show "fd_id (l ! n) = d" using n(2) nth_length_takeWhile by fastforce
qed

lemma find_last_fd_None: "distinct (map fd_id l) \<Longrightarrow> find_last_fd d l 0 None = None \<longleftrightarrow> d \<notin> fd_id ` set l"
  by (simp add: find_last_fd_spec)

lemma insert_position_spec:
  assumes "sorted_wrt (<) (map fd_id l)" and "d \<notin> fd_id ` set l"
  shows "insert_position d l \<le> length l" and "\<forall>a \<in> set (take (insert_position d l) l). fd_id a < d"
    and "\<forall>a \<in> set (drop (insert_position d l) l). d < fd_id a"
proof -
  have "insert_position d l \<le> length l \<and> (\<forall>a \<in> set (take (insert_position d l) l). fd_id a < d) \<and>
    (\<forall>a \<in> set (drop (insert_position d l) l). d < fd_id a)"
    using assms by (induction l) auto
  then show "insert_position d l \<le> length l" "\<forall>a \<in> set (take (insert_position d l) l). fd_id a < d"
    "\<forall>a \<in> set (drop (insert_position d l) l). d < fd_id a" by auto
qed

text \<open>Inserting a closed entry at its position keeps the order and changes no lookup.\<close>

lemma insert_slot:
  fixes l d
  defines "a \<equiv> insert_position d l"
  assumes "sorted_wrt (<) (map fd_id l)" and "d \<notin> fd_id ` set l"
  shows "sorted_wrt (<) (map fd_id (take a l @ \<lparr> fd_id = d, sysDesc = 0 \<rparr> # drop a l))"
    and "set (map fd_id (take a l @ \<lparr> fd_id = d, sysDesc = 0 \<rparr> # drop a l)) = insert d (set (map fd_id l))"
    and "lookup_loop e (take a l @ \<lparr> fd_id = d, sysDesc = 0 \<rparr> # drop a l) = lookup_loop e l"
    and "filter (\<lambda>a. sysDesc a \<noteq> 0) (take a l @ \<lparr> fd_id = d, sysDesc = 0 \<rparr> # drop a l) = filter (\<lambda>a. sysDesc a \<noteq> 0) l"
proof -
  note pos = insert_position_spec [OF assms(2,3), folded a_def]
  obtain xs ys where l: "l = xs @ ys" "take a l = xs" "drop a l = ys" by (metis append_take_drop_id)
  show "sorted_wrt (<) (map fd_id (take a l @ \<lparr> fd_id = d, sysDesc = 0 \<rparr> # drop a l))"
    using assms(2) pos(2,3) unfolding l(2,3) by (auto simp: l(1) sorted_wrt_append)
  show "set (map fd_id (take a l @ \<lparr> fd_id = d, sysDesc = 0 \<rparr> # drop a l)) = insert d (set (map fd_id l))"
    unfolding l(2,3) by (auto simp: l(1))
  show "lookup_loop e (take a l @ \<lparr> fd_id = d, sysDesc = 0 \<rparr> # drop a l) = lookup_loop e l"
    using pos(2) assms(3) lookup_closed [of xs d ys] lookup_notin [of d l] unfolding l(2,3)
    by (cases "e = d") (auto simp: l(1) lookup_insert image_iff)
  show "filter (\<lambda>a. sysDesc a \<noteq> 0) (take a l @ \<lparr> fd_id = d, sysDesc = 0 \<rparr> # drop a l) = filter (\<lambda>a. sysDesc a \<noteq> 0) l"
    unfolding l(2,3) by (simp add: l(1))
qed


text \<open>What the second half of \<open>ThreadReplaceFileDescriptor\<close> does, from the entry of the target on.\<close>

definition copy_entry ::
  "ThreadFileDescriptor list \<Rightarrow> nat \<Rightarrow> nat \<Rightarrow> ThreadFileDescriptor list \<times> vfs_call list" where
  "copy_entry l old n =
     (let od = sysDesc (l ! old); nd = sysDesc (l ! n); copied = l[old := (l ! old) \<lparr> sysDesc := nd \<rparr>]
      in if od = 0 then (copied, [VFS_AddRef nd]) else if od = nd then (l, []) else (copied, [VFS_Close od, VFS_AddRef nd]))"

lemma Replace_cases:
  assumes "ThreadReplaceFileDescriptor moves old new t = Some (r, t', cs)" and "old \<noteq> new" and "fd_inv t"
  obtains (refused) "fd_map t new = None" "r = Inl ErrorInvalidFD" "t' = t" "cs = []"
  | (copied) l i n where "n < length l" "fd_id (l ! n) = new" "sysDesc (l ! n) \<noteq> 0" "i < length l" "fd_id (l ! i) = old"
      "sorted_wrt (<) (map fd_id l)" "set (map fd_id l) = insert old (set (fd_ids t))" "r = Inr ()"
      "\<And>e. lookup_loop e l = lookup_loop e (fds t)" "filter (\<lambda>a. sysDesc a \<noteq> 0) l = filter (\<lambda>a. sysDesc a \<noteq> 0) (fds t)"
      "(fds t', cs) = copy_entry l i n"
proof -
  have dist: "distinct (map fd_id (fds t))" and srt: "sorted_wrt (<) (map fd_id (fds t))"
    using assms(3) by (auto simp: fd_inv_def fd_ids_def strict_distinct)
  show thesis
  proof (cases "find_last_fd new (fds t) 0 None")
    case None
    then show thesis
      using refused assms find_last_fd_None [OF dist, of new]
      by (auto simp: ThreadReplaceFileDescriptor_def fd_map_def ThreadGetSystemFileDescriptor_def lookup_notin)
  next
    case (Some n)
    note n = find_last_fd_SomeD [OF dist Some]
    have ln: "lookup_loop new (fds t) = (if sysDesc (fds t ! n) = 0 then Inl ErrorInvalidFD else Inr (sysDesc (fds t ! n)))"
      using lookup_nth [OF dist n(1)] n(2) by simp
    show thesis
    proof (cases "sysDesc (fds t ! n) = 0")
      case True
      then show thesis
        using refused assms Some ln
        by (auto simp: ThreadReplaceFileDescriptor_def fd_map_def ThreadGetSystemFileDescriptor_def)
    next
      case False
      show thesis
      proof (cases "find_last_fd old (fds t) 0 None")
        case (Some i)
        note i = find_last_fd_SomeD [OF dist Some]
        show thesis
          using assms \<open>find_last_fd new (fds t) 0 None = Some n\<close> Some False n i srt
          by (intro copied [of n "fds t" i])
            (auto simp: ThreadReplaceFileDescriptor_def copy_entry_def Let_def fd_ids_def split: if_splits)
      next
        case None
        let ?a = "insert_position old (fds t)"
        let ?l = "take ?a (fds t) @ \<lparr> fd_id = old, sysDesc = 0 \<rparr> # drop ?a (fds t)"
        have fresh: "old \<notin> fd_id ` set (fds t)" using None find_last_fd_None [OF dist] by blast
        note pos = insert_position_spec [OF srt fresh]
        have valid: "\<not> moves" "n < ?a"
          using assms \<open>find_last_fd new (fds t) 0 None = Some n\<close> None False
          by (auto simp: ThreadReplaceFileDescriptor_def Let_def split: if_splits)
        note ins = insert_slot [OF srt fresh]
        have "(fds t', cs) = copy_entry ?l ?a n" "r = Inr ()"
          using assms(1,2) \<open>find_last_fd new (fds t) 0 None = Some n\<close> None False valid
          by (auto simp: ThreadReplaceFileDescriptor_def copy_entry_def Let_def split: if_splits)
        moreover have "?l ! n = fds t ! n" "?l ! ?a = \<lparr> fd_id = old, sysDesc = 0 \<rparr>" "n < length ?l" "?a < length ?l"
          using pos(1) valid n(1) by (simp_all add: nth_append)
        ultimately show thesis using ins False n(2) copied [of n ?l ?a] by (simp add: fd_ids_def)
      qed
    qed
  qed
qed





text \<open>The call dereferences a dangling pointer when it has to make an entry in front of the one it copies.\<close>

lemma ThreadReplace_dangling:
  "ThreadReplaceFileDescriptor moves 2 3 three_fds = None"
  by (simp add: ThreadReplaceFileDescriptor_def three_fds_def Let_def)

text \<open>A closed entry stays in the table, and its number is never given out again.\<close>

lemma closed_number_not_reused:
  "let t = fst (snd (ThreadCloseFileDescriptor 1 three_fds)) in fd_map t 1 = None \<and> fst (ThreadAddFileDescriptor 9 t) = 2"
  by (simp add: ThreadCloseFileDescriptor_def ThreadAddFileDescriptor_def FindFreeFD_def three_fds_def fd_map_def
      ThreadGetSystemFileDescriptor_def)

section \<open>Reference accounting\<close>

text \<open>How many entries hold a system descriptor, and by how much a list of calls changes its count.\<close>

definition fd_refs :: "ThreadFileDescriptor list \<Rightarrow> u64 \<Rightarrow> int" where
  "fd_refs l s = (\<Sum>a \<leftarrow> l. if sysDesc a = s then 1 else 0)"

fun call_delta :: "u64 \<Rightarrow> vfs_call \<Rightarrow> int" where
  "call_delta s (VFS_AddRef x) = (if x = s then 1 else 0)"
| "call_delta s (VFS_Close x) = (if x = s then - 1 else 0)"

definition delta :: "u64 \<Rightarrow> vfs_call list \<Rightarrow> int" where
  "delta s cs = (\<Sum>c \<leftarrow> cs. call_delta s c)"

lemma fd_refs_filter: "s \<noteq> 0 \<Longrightarrow> fd_refs (filter (\<lambda>a. sysDesc a \<noteq> 0) l) s = fd_refs l s"
  by (induction l) (auto simp: fd_refs_def)

lemma fd_refs_update:
  "i < length l \<Longrightarrow> fd_refs (l[i := (l ! i) \<lparr> sysDesc := x \<rparr>]) s =
    fd_refs l s - (if sysDesc (l ! i) = s then 1 else 0) + (if x = s then 1 else 0)"
proof (induction l arbitrary: i)
  case (Cons a l)
  then show ?case by (cases i) (auto simp: fd_refs_def)
qed simp

lemma close_loop_refs: "s \<noteq> 0 \<Longrightarrow> close_loop d l = (r, l', cs) \<Longrightarrow> fd_refs l' s = fd_refs l s + delta s cs"
  by (induction d l arbitrary: r l' cs rule: close_loop.induct) (auto simp: fd_refs_def delta_def split: if_splits prod.splits)

lemma copy_entry_refs:
  "i < length l \<Longrightarrow> s \<noteq> 0 \<Longrightarrow> fd_refs (fst (copy_entry l i n)) s = fd_refs l s + delta s (snd (copy_entry l i n))"
  by (auto simp: copy_entry_def Let_def fd_refs_update delta_def)

lemma fd_references_conserved_parts:
  assumes "fd_inv t" and "s \<noteq> 0"
  shows "ThreadCloseFileDescriptor d t = (r, t', cs) \<Longrightarrow> fd_refs (fds t') s - fd_refs (fds t) s = delta s cs"
    and "ThreadReplaceFileDescriptor moves old new t = Some (r, t', cs) \<Longrightarrow> fd_refs (fds t') s - fd_refs (fds t) s = delta s cs"
    and "clone_fds t = (t', cs) \<Longrightarrow> fd_refs (fds t') s = fd_refs (fds t) s \<and> fd_refs (fds t') s = delta s cs"
    and "release_fds t = (None, cs) \<Longrightarrow> delta s cs = - fd_refs (fds t) s"
proof -
  show "ThreadCloseFileDescriptor d t = (r, t', cs) \<Longrightarrow> fd_refs (fds t') s - fd_refs (fds t) s = delta s cs"
    using close_loop_refs [OF assms(2), of d "fds t"] by (auto simp: ThreadCloseFileDescriptor_def split: prod.splits)
  show "fd_refs (fds t') s - fd_refs (fds t) s = delta s cs"
    if r: "ThreadReplaceFileDescriptor moves old new t = Some (r, t', cs)"
  proof (cases "old = new")
    case True
    then show ?thesis using r by (simp add: ThreadReplaceFileDescriptor_def delta_def)
  next
    case False
    from r False assms(1) show ?thesis
    proof (cases rule: Replace_cases)
      case (copied l i n)
      have "fd_refs l s = fd_refs (fds t) s" using fd_refs_filter [OF assms(2)] copied(10) by metis
      then show ?thesis using copy_entry_refs [OF copied(4) assms(2), of n] copied(11) by (metis add_diff_cancel_left' fst_conv snd_conv)
    qed (simp add: delta_def)
  qed
  have m: "delta s (map (\<lambda>fd. VFS_AddRef (sysDesc fd)) l) = fd_refs l s"
    "delta s (map (\<lambda>fd. VFS_Close (sysDesc fd)) l) = - fd_refs l s" for l
    by (induction l) (auto simp: delta_def fd_refs_def)
  show "clone_fds t = (t', cs) \<Longrightarrow> fd_refs (fds t') s = fd_refs (fds t) s \<and> fd_refs (fds t') s = delta s cs"
    using m fd_refs_filter [OF assms(2)] by (auto simp: clone_fds_def Let_def)
  show "release_fds t = (None, cs) \<Longrightarrow> delta s cs = - fd_refs (fds t) s"
    using m fd_refs_filter [OF assms(2)] by (auto simp: release_fds_def split: if_splits)
qed

text \<open>
  C14: References to system descriptors are conserved. For every system descriptor, closing and copying
  change the number of entries that hold it by exactly the change the emitted calls make to its
  reference count; cloning the table adds one reference per copied entry; and when the last thread
  releases the table, the calls give back exactly one reference per entry.
\<close>

theorem fd_references_conserved:
  assumes "fd_inv t" and "s \<noteq> 0"
    shows "(ThreadCloseFileDescriptor d t = (r, t', cs) \<longrightarrow> fd_refs (fds t') s - fd_refs (fds t) s = delta s cs) \<and>
    (ThreadReplaceFileDescriptor moves old new t = Some (r, t', cs) \<longrightarrow> fd_refs (fds t') s - fd_refs (fds t) s = delta s cs) \<and>
    (clone_fds t = (t', cs) \<longrightarrow> (fd_refs (fds t') s = fd_refs (fds t) s \<and> fd_refs (fds t') s = delta s cs)) \<and>
    (release_fds t = (None, cs) \<longrightarrow> delta s cs = - fd_refs (fds t) s)"
  using fd_references_conserved_parts(1) [OF assms] fd_references_conserved_parts(2) [OF assms] fd_references_conserved_parts(3) [OF assms] fd_references_conserved_parts(4) [OF assms] by blast

theorem fd_references_conserved_witness:
  "delta 32 (snd (snd (ThreadCloseFileDescriptor 1 three_fds))) = - 1"
proof -
  obtain r t' cs where c: "ThreadCloseFileDescriptor 1 three_fds = (r, t', cs)" by (metis prod_cases3)
  have "fd_refs (fds t') 32 = 0" "fd_refs (fds three_fds) 32 = 1"
    using c by (auto simp: ThreadCloseFileDescriptor_def three_fds_def fd_refs_def)
  then show ?thesis using fd_references_conserved [OF three_fds_inv, where s = 32 and d = 1 and r = r and t' = t' and cs = cs] c by simp
qed

end
