(* ===== verification/Scheduler.thy ===== *)
theory Scheduler
  imports FdTable
begin

text \<open>
  Threads and their scheduling on one processor core, \<^verbatim>\<open>task/Thread.h\<close> and \<^verbatim>\<open>task/Scheduler.cpp\<close>. Thread
  structures live in a heap from addresses to records; the anchored lists (active threads of the core,
  all threads, children of a thread) are lists of addresses, as theory \<open>AnchorList\<close> justifies. An access
  through a pointer to a deleted structure is the result \<open>None\<close>. Memory obtained with \<^verbatim>\<open>new\<close> is an
  argument: the address it is at. The locks around the lists are not part of the state: every operation
  here runs as one step.

  A call that gives the processor away (\<open>ThreadBlock\<close>, \<open>ThreadYield\<close>) ends in the assembly routine
  \<open>SwitchThread\<close>; the operation here is what happens up to that switch, and the code behind it is an
  operation of its own that runs when the thread is current again. The local variable \<open>joinThread\<close> that
  a thread suspended in \<open>ThreadJoin\<close> keeps on its kernel stack is the field \<open>joinFrame\<close>.
\<close>

section \<open>Data\<close>

datatype ThreadStateType = READY | SLEEP | QUEUE_LOCK | JOIN | FINISHED | EXITED

record ThreadState =
  stype :: ThreadStateType
  sarg :: u64

record Registers =
  ds :: u64
  r15 :: u64
  r14 :: u64
  r13 :: u64
  r12 :: u64
  r11 :: u64
  r10 :: u64
  r9 :: u64
  r8 :: u64
  rdi :: u64
  rsi :: u64
  rbp :: u64
  rbx :: u64
  rdx :: u64
  rcx :: u64
  rax :: u64
  intNumber :: u64
  errorCode :: u64
  rip :: u64
  cs :: u64
  rflags :: u64
  userrsp :: u64
  ss :: u64

definition KernelCode :: u64 where "KernelCode = 0x08"
definition KernelData :: u64 where "KernelData = 0x10"
definition UserCode :: u64 where "UserCode = 0x23"
definition UserData :: u64 where "UserData = 0x1B"
definition FLAGS_IF :: u64 where "FLAGS_IF = 0x200"

definition KernelStackSize :: u64 where
  "KernelStackSize = 3 * 4096"

record ThreadMemSpace =
  msRefCount :: u64
  pml4Entry :: u64

record ThreadInfo =
  mainThread :: ptr
  childThreads :: "ptr list"
  tid :: int
  pid :: int
  ppid :: int
  uid :: u64
  gid :: u64
  exitCode :: int
  cwd :: string
  killPending :: bool
  killHandlerRip :: u64
  killHandlerRsp :: u64
  killHandlerSignum :: u64
  killHandlerReturnState :: Registers
  abortPending :: bool
  memSpace :: ptr
  tfds :: ptr
  tstate :: ThreadState
  kernelStack :: u64
  userGSBase :: u64
  userFSBase :: u64
  stickyCount :: u64
  cliCount :: u64
  faultRip :: u64
  registers :: Registers
  fpuBuffer :: ptr
  joinFrame :: "ptr option"

text \<open>The data of the core, the global lists and counters, and the heaps. \<open>exitRip\<close> and \<open>faultEntry\<close>
  are the addresses of \<open>ThreadExit\<close> and \<open>ThreadFaultHandler\<close>; \<open>ifEnabled\<close> is the interrupt flag.\<close>

record sched =
  threads :: "ptr \<Rightarrow> ThreadInfo option"
  memSpaces :: "ptr \<Rightarrow> ThreadMemSpace option"
  fdTables :: "ptr \<Rightarrow> ThreadFileDescriptors option"
  currentThreadKernelStack :: u64
  idleThread :: ptr
  currentThread :: ptr
  activeList :: "ptr list"
  lastTSC :: u64
  TIDCounter :: u64
  GlobalThreadList :: "ptr list"
  InitThread :: ptr
  exitRip :: u64
  faultEntry :: u64
  kernelGS :: u64
  msrGSBase :: u64
  msrKernelGSBase :: u64
  msrFSBase :: u64
  loadedMap :: u64
  ifEnabled :: bool

definition put_thread :: "ptr \<Rightarrow> ThreadInfo \<Rightarrow> sched \<Rightarrow> sched" where
  "put_thread p t s = s \<lparr> threads := (threads s)(p \<mapsto> t) \<rparr>"

text \<open>The registers that make a thread run \<open>ThreadExit(1)\<close> in kernel mode.\<close>

definition exit_registers :: "u64 \<Rightarrow> u64 \<Rightarrow> Registers \<Rightarrow> Registers" where
  "exit_registers addr stack r =
     r \<lparr> cs := KernelCode, ds := KernelData, ss := KernelData, rip := addr, userrsp := stack, rdi := 1 \<rparr>"

section \<open>Timer events\<close>

definition SetupKillHandlerFromTick :: "u64 \<Rightarrow> ThreadInfo \<Rightarrow> ThreadInfo" where
  "SetupKillHandlerFromTick addr t =
     (if killHandlerRip t \<noteq> 0 then
        t \<lparr> killHandlerReturnState := registers t,
            registers := (registers t) \<lparr> rip := killHandlerRip t, userrsp := killHandlerRsp t,
                                         rdi := killHandlerSignum t \<rparr> \<rparr>
      else t \<lparr> registers := exit_registers addr (kernelStack t) (registers t) \<rparr>)"

definition set_state :: "ThreadStateType \<Rightarrow> ThreadInfo \<Rightarrow> ThreadInfo" where
  "set_state ty t = t \<lparr> tstate := (tstate t) \<lparr> stype := ty \<rparr> \<rparr>"

definition wake :: "u64 \<Rightarrow> ThreadInfo \<Rightarrow> ThreadInfo" where
  "wake v t = set_state READY (t \<lparr> registers := (registers t) \<lparr> rax := v \<rparr> \<rparr>)"

definition update_ready :: "u64 \<Rightarrow> ThreadInfo \<Rightarrow> ThreadInfo" where
  "update_ready addr t =
     (let kernelMode = (cs (registers t) AND 3 = 0);
          t = (if \<not> kernelMode \<and> killPending t then SetupKillHandlerFromTick addr (t \<lparr> killPending := False \<rparr>) else t)
      in if \<not> kernelMode \<and> abortPending t
         then t \<lparr> abortPending := False, registers := exit_registers addr (kernelStack t) (registers t) \<rparr>
         else t)"

text \<open>The body of the loop of \<open>UpdateEvents\<close> for the thread at \<open>a\<close>.\<close>

definition update_thread :: "u64 \<Rightarrow> ptr \<Rightarrow> sched \<Rightarrow> sched option" where
  "update_thread dur a s =
     do { t \<leftarrow> threads s a;
          case stype (tstate t) of
            EXITED \<Rightarrow> Some s
          | FINISHED \<Rightarrow> Some (put_thread a (set_state EXITED t) (s \<lparr> activeList := remove1 a (activeList s) \<rparr>))
          | READY \<Rightarrow> Some (put_thread a (update_ready (exitRip s) t) s)
          | QUEUE_LOCK \<Rightarrow> Some s
          | SLEEP \<Rightarrow>
              if killPending t \<or> abortPending t then Some (put_thread a (wake (of_int (error_code ErrorInterrupted)) t) s)
              else if sarg (tstate t) \<le> dur then Some (put_thread a (wake (of_int OK) t) s)
              else Some (put_thread a (t \<lparr> tstate := (tstate t) \<lparr> sarg := sarg (tstate t) - dur \<rparr> \<rparr>) s)
          | JOIN \<Rightarrow>
              if killPending t \<or> abortPending t then Some (put_thread a (wake (of_int (error_code ErrorInterrupted)) t) s)
              else do { jt \<leftarrow> threads s (sarg (tstate t));
                        if stype (tstate jt) = EXITED then Some (put_thread a (wake 0 t) s) else Some s } }"

fun update_loop :: "u64 \<Rightarrow> ptr list \<Rightarrow> sched \<Rightarrow> sched option" where
  "update_loop dur [] s = Some s"
| "update_loop dur (a # as) s = do { s \<leftarrow> update_thread dur a s; update_loop dur as s }"

definition UpdateEvents :: "u64 \<Rightarrow> sched \<Rightarrow> sched option" where
  "UpdateEvents tsc s =
     (let dur = tsc - lastTSC s; s = s \<lparr> lastTSC := tsc \<rparr> in update_loop dur (activeList s) s)"

section \<open>Choosing and switching\<close>

fun find_ready :: "sched \<Rightarrow> ptr list \<Rightarrow> ptr option option" where
  "find_ready s [] = Some None"
| "find_ready s (a # as) =
     do { t \<leftarrow> threads s a;
          if stype (tstate t) = READY then Some (Some a) else find_ready s as }"

definition FindNextThread :: "sched \<Rightarrow> (ptr \<times> sched) option" where
  "FindNextThread s =
     do { r \<leftarrow> find_ready s (activeList s);
          case r of
            None \<Rightarrow> Some (idleThread s, s)
          | Some a \<Rightarrow> Some (a, s \<lparr> activeList := remove1 a (activeList s) @ [a] \<rparr>) }"

definition LoadThreadState :: "ptr \<Rightarrow> sched \<Rightarrow> sched option" where
  "LoadThreadState p s =
     do { t \<leftarrow> threads s p;
          m \<leftarrow> memSpaces s (memSpace t);
          let kernelMode = (cs (registers t) AND 3 = 0)
          in Some (s \<lparr> loadedMap := (if pml4Entry m \<noteq> 0 then pml4Entry m else loadedMap s),
                      msrGSBase := (if kernelMode then kernelGS s else userGSBase t),
                      msrKernelGSBase := (if kernelMode then userGSBase t else kernelGS s),
                      msrFSBase := userFSBase t,
                      currentThreadKernelStack := kernelStack t,
                      currentThread := p \<rparr>) }"

definition SaveThreadStateAndRegs :: "ptr \<Rightarrow> Registers \<Rightarrow> sched \<Rightarrow> sched option" where
  "SaveThreadStateAndRegs p regs s = do { t \<leftarrow> threads s p; Some (put_thread p (t \<lparr> registers := regs \<rparr>) s) }"

definition LoadThreadStateAndRegs :: "ptr \<Rightarrow> sched \<Rightarrow> (Registers \<times> sched) option" where
  "LoadThreadStateAndRegs p s = do { t \<leftarrow> threads s p; s \<leftarrow> LoadThreadState p s; Some (registers t, s) }"

definition Tick :: "u64 \<Rightarrow> Registers \<Rightarrow> sched \<Rightarrow> (Registers \<times> sched) option" where
  "Tick tsc regs s =
     do { t \<leftarrow> threads s (currentThread s);
          if stickyCount t \<noteq> 0 then Some (regs, s)
          else do { s \<leftarrow> UpdateEvents tsc s;
                    (nxt, s) \<leftarrow> FindNextThread s;
                    s \<leftarrow> SaveThreadStateAndRegs (currentThread s) regs s;
                    LoadThreadStateAndRegs nxt s } }"

definition ThreadSetSticky :: "sched \<Rightarrow> sched option" where
  "ThreadSetSticky s =
     do { t \<leftarrow> threads s (currentThread s);
          Some (put_thread (currentThread s) (t \<lparr> stickyCount := stickyCount t + 1 \<rparr>) s) }"

definition ThreadUnsetSticky :: "sched \<Rightarrow> sched option" where
  "ThreadUnsetSticky s =
     do { t \<leftarrow> threads s (currentThread s);
          Some (put_thread (currentThread s) (t \<lparr> stickyCount := stickyCount t - 1 \<rparr>) s) }"

definition ThreadDisableInterrupts :: "sched \<Rightarrow> sched option" where
  "ThreadDisableInterrupts s =
     do { t \<leftarrow> threads s (currentThread s);
          Some (put_thread (currentThread s) (t \<lparr> cliCount := cliCount t + 1 \<rparr>) s \<lparr> ifEnabled := False \<rparr>) }"

definition ThreadEnableInterrupts :: "sched \<Rightarrow> sched option" where
  "ThreadEnableInterrupts s =
     do { t \<leftarrow> threads s (currentThread s);
          let s = put_thread (currentThread s) (t \<lparr> cliCount := cliCount t - 1 \<rparr>) s
          in Some (if cliCount t - 1 = 0 then s \<lparr> ifEnabled := True \<rparr> else s) }"

text \<open>Up to the switch: the state is set and the next thread loaded.\<close>

definition ThreadBlock :: "ThreadStateType \<Rightarrow> u64 \<Rightarrow> sched \<Rightarrow> sched option" where
  "ThreadBlock ty arg s =
     do { s \<leftarrow> ThreadSetSticky s;
          t \<leftarrow> threads s (currentThread s);
          let s = put_thread (currentThread s) (t \<lparr> tstate := \<lparr> stype = ty, sarg = arg \<rparr> \<rparr>) s
          in do { (nxt, s) \<leftarrow> FindNextThread s; LoadThreadState nxt s } }"

text \<open>The result tells whether the processor was given to another thread.\<close>

definition ThreadYield :: "sched \<Rightarrow> (bool \<times> sched) option" where
  "ThreadYield s =
     do { s \<leftarrow> ThreadSetSticky s;
          let self = currentThread s
          in do { (nxt, s) \<leftarrow> FindNextThread s;
                  if nxt = self then do { s \<leftarrow> ThreadUnsetSticky s; Some (False, s) }
                  else do { s \<leftarrow> LoadThreadState nxt s; Some (True, s) } } }"

definition ThreadSleep :: "u64 \<Rightarrow> u64 \<Rightarrow> sched \<Rightarrow> sched option" where
  "ThreadSleep ticksPerMilli ms s = ThreadBlock SLEEP (ms * ticksPerMilli) s"

section \<open>Creating threads\<close>

definition new_registers :: Registers where
  "new_registers = \<lparr> ds = 0, r15 = 0, r14 = 0, r13 = 0, r12 = 0, r11 = 0, r10 = 0, r9 = 0, r8 = 0, rdi = 0, rsi = 0,
     rbp = 0, rbx = 0, rdx = 0, rcx = 0, rax = 0, intNumber = 0, errorCode = 0, rip = 0, cs = 0, rflags = 0,
     userrsp = 0, ss = 0 \<rparr>"

text \<open>\<open>new ThreadInfo()\<close> zeroes the structure.\<close>

definition new_thread :: ThreadInfo where
  "new_thread = \<lparr> mainThread = 0, childThreads = [], tid = 0, pid = 0, ppid = 0, uid = 0, gid = 0, exitCode = 0,
     cwd = [], killPending = False, killHandlerRip = 0, killHandlerRsp = 0, killHandlerSignum = 0,
     killHandlerReturnState = new_registers, abortPending = False, memSpace = 0, tfds = 0,
     tstate = \<lparr> stype = READY, sarg = 0 \<rparr>, kernelStack = 0, userGSBase = 0, userFSBase = 0,
     stickyCount = 0, cliCount = 0, faultRip = 0, registers = new_registers, fpuBuffer = 0, joinFrame = None \<rparr>"

definition MakeMeIdleThread :: "ptr \<Rightarrow> ptr \<Rightarrow> sched \<Rightarrow> sched" where
  "MakeMeIdleThread ms fd s =
     (let p = idleThread s
      in put_thread p (new_thread \<lparr> mainThread := p, memSpace := ms, tfds := fd, stickyCount := 1, cliCount := 1 \<rparr>)
           (s \<lparr> memSpaces := (memSpaces s)(ms \<mapsto> \<lparr> msRefCount = 1, pml4Entry = 0 \<rparr>),
                fdTables := (fdTables s)(fd \<mapsto> \<lparr> fdsRefCount = 1, fds = [] \<rparr>),
                currentThread := p \<rparr>))"

text \<open>\<open>ms\<close>, \<open>fd\<close>, \<open>p\<close> and \<open>stack\<close> are the addresses of the new structures and of the new stack.\<close>

definition CreateKernelThread_raw :: "ptr \<Rightarrow> ptr \<Rightarrow> ptr \<Rightarrow> ptr \<Rightarrow> u64 \<Rightarrow> u64 \<Rightarrow> u64 \<Rightarrow> sched \<Rightarrow> sched" where
  "CreateKernelThread_raw ms fd p stack func arg1 arg2 s =
     (let ks = stack + KernelStackSize;
          t = new_thread \<lparr> mainThread := p, tid := sint (TIDCounter s), memSpace := ms, tfds := fd, kernelStack := ks,
                registers := new_registers \<lparr> cs := KernelCode, ds := KernelData, ss := KernelData, rflags := FLAGS_IF,
                  rip := func, rdi := arg1, rsi := arg2, userrsp := ks \<rparr> \<rparr>
      in put_thread p t
           (s \<lparr> memSpaces := (memSpaces s)(ms \<mapsto> \<lparr> msRefCount = 1, pml4Entry = 0 \<rparr>),
                fdTables := (fdTables s)(fd \<mapsto> \<lparr> fdsRefCount = 1, fds = [] \<rparr>),
                TIDCounter := TIDCounter s + 1,
                activeList := activeList s @ [p],
                GlobalThreadList := GlobalThreadList s @ [p] \<rparr>))"

definition CreateInitKernelThread :: "ptr \<Rightarrow> ptr \<Rightarrow> ptr \<Rightarrow> ptr \<Rightarrow> u64 \<Rightarrow> sched \<Rightarrow> sched option" where
  "CreateInitKernelThread ms fd p stack func s =
     (let s = CreateKernelThread_raw ms fd p stack func 0 0 s
      in do { t \<leftarrow> threads s p; Some (put_thread p (t \<lparr> pid := 1 \<rparr>) (s \<lparr> InitThread := p \<rparr>)) })"

definition add_child :: "ptr \<Rightarrow> ptr \<Rightarrow> sched \<Rightarrow> sched option" where
  "add_child parent p s =
     do { t \<leftarrow> threads s parent; Some (put_thread parent (t \<lparr> childThreads := childThreads t @ [p] \<rparr>) s) }"

definition CreateKernelThread :: "ptr \<Rightarrow> ptr \<Rightarrow> ptr \<Rightarrow> ptr \<Rightarrow> u64 \<Rightarrow> u64 \<Rightarrow> u64 \<Rightarrow> sched \<Rightarrow> (int \<times> sched) option" where
  "CreateKernelThread ms fd p stack func arg1 arg2 s =
     (let s = CreateKernelThread_raw ms fd p stack func arg1 arg2 s
      in do { s \<leftarrow> add_child (InitThread s) p s; t \<leftarrow> threads s p; Some (tid t, s) })"

text \<open>\<open>forked\<close> is the page map \<open>ForkProcessMap\<close> returns, \<open>fpu\<close> the new block for the FPU state. The calls
  into the file system layer come back as in theory \<open>FdTable\<close>.\<close>

definition clone_mem :: "bool \<Rightarrow> ptr \<Rightarrow> u64 \<Rightarrow> ThreadInfo \<Rightarrow> sched \<Rightarrow> (ptr \<times> sched) option" where
  "clone_mem shareMemSpace ms forked t s =
     (if shareMemSpace then
        do { m \<leftarrow> memSpaces s (memSpace t);
             Some (memSpace t, s \<lparr> memSpaces := (memSpaces s)(memSpace t \<mapsto> m \<lparr> msRefCount := msRefCount m + 1 \<rparr>) \<rparr>) }
      else Some (ms, s \<lparr> memSpaces := (memSpaces s)(ms \<mapsto> \<lparr> msRefCount = 1, pml4Entry = forked \<rparr>) \<rparr>))"

definition clone_table :: "bool \<Rightarrow> ptr \<Rightarrow> ThreadInfo \<Rightarrow> sched \<Rightarrow> (ptr \<times> sched \<times> vfs_call list) option" where
  "clone_table shareFDs fd t s =
     do { old \<leftarrow> fdTables s (tfds t);
          if shareFDs then Some (tfds t, s \<lparr> fdTables := (fdTables s)(tfds t \<mapsto> share_fds old) \<rparr>, [])
          else let (new, calls) = clone_fds old in Some (fd, s \<lparr> fdTables := (fdTables s)(fd \<mapsto> new) \<rparr>, calls) }"

definition CloneThread ::
  "bool \<Rightarrow> bool \<Rightarrow> bool \<Rightarrow> ptr \<Rightarrow> ptr \<Rightarrow> ptr \<Rightarrow> ptr \<Rightarrow> ptr \<Rightarrow> u64 \<Rightarrow> Registers \<Rightarrow> sched \<Rightarrow>
     (int \<times> sched \<times> vfs_call list) option" where
  "CloneThread subthread shareMemSpace shareFDs ms fd p stack fpu forked regs s =
     do { t \<leftarrow> threads s (currentThread s);
          (mem, s) \<leftarrow> clone_mem shareMemSpace ms forked t s;
          (tab, s, calls) \<leftarrow> clone_table shareFDs fd t s;
          let newT = new_thread \<lparr> mainThread := (if subthread then mainThread t else p), tid := sint (TIDCounter s),
                memSpace := mem, tfds := tab,
                pid := (if subthread then pid t else sint (TIDCounter s)),
                ppid := (if subthread then ppid t else pid t),
                uid := uid t, gid := gid t, kernelStack := stack + KernelStackSize, cwd := cwd t,
                registers := regs \<lparr> rflags := rflags regs OR FLAGS_IF \<rparr>, fpuBuffer := fpu \<rparr>;
              s = put_thread p newT (s \<lparr> TIDCounter := TIDCounter s + 1 \<rparr>)
          in do { s \<leftarrow> add_child (mainThread t) p s;
                  Some (tid newT, s \<lparr> activeList := activeList s @ [p], GlobalThreadList := GlobalThreadList s @ [p] \<rparr>, calls) } }"

section \<open>Joining, detaching, killing\<close>

text \<open>The first child with the given thread identifier.\<close>

fun find_tid :: "sched \<Rightarrow> int \<Rightarrow> ptr list \<Rightarrow> ptr option option" where
  "find_tid s i [] = Some None"
| "find_tid s i (a # as) = do { t \<leftarrow> threads s a; if tid t = i then Some (Some a) else find_tid s i as }"

definition remove_child :: "ptr \<Rightarrow> ptr \<Rightarrow> sched \<Rightarrow> sched option" where
  "remove_child parent p s =
     do { t \<leftarrow> threads s parent; Some (put_thread parent (t \<lparr> childThreads := remove1 p (childThreads t) \<rparr>) s) }"

definition ThreadDetach :: "int \<Rightarrow> sched \<Rightarrow> ((kerror + unit) \<times> sched) option" where
  "ThreadDetach i s =
     do { t \<leftarrow> threads s (currentThread s);
          m \<leftarrow> threads s (mainThread t);
          r \<leftarrow> find_tid s i (childThreads m);
          case r of
            None \<Rightarrow> Some (Inl ErrorThreadNotFound, s)
          | Some a \<Rightarrow>
              do { c \<leftarrow> threads s a;
                   if mainThread c \<noteq> a then Some (Inl ErrorDetachSubThread, s)
                   else do { s \<leftarrow> remove_child (mainThread t) a s;
                             s \<leftarrow> add_child (InitThread s) a s;
                             Some (Inr (), s) } } }"

text \<open>Removing an exited thread for good: from the list of all threads and from the heap.\<close>

definition delete_thread :: "ptr \<Rightarrow> sched \<Rightarrow> sched" where
  "delete_thread p s = s \<lparr> GlobalThreadList := remove1 p (GlobalThreadList s), threads := (threads s)(p := None) \<rparr>"

definition ThreadTryJoin :: "int \<Rightarrow> sched \<Rightarrow> ((kerror + int) \<times> sched) option" where
  "ThreadTryJoin i s =
     do { t \<leftarrow> threads s (currentThread s);
          m \<leftarrow> threads s (mainThread t);
          r \<leftarrow> find_tid s i (childThreads m);
          case r of
            None \<Rightarrow> Some (Inl ErrorThreadNotFound, s)
          | Some a \<Rightarrow>
              do { c \<leftarrow> threads s a;
                   if stype (tstate c) = EXITED
                   then do { s \<leftarrow> remove_child (mainThread t) a s; Some (Inr (exitCode c), delete_thread a s) }
                   else Some (Inl ErrorThreadNotExited, s) } }"

text \<open>\<open>ThreadJoin\<close> up to the switch, and from the return of \<open>ThreadBlock\<close> with \<open>error\<close> on. \<open>Inr None\<close> of the
  first part means that the thread is blocked.\<close>

definition ThreadJoin_start :: "int \<Rightarrow> sched \<Rightarrow> ((kerror + unit) \<times> sched) option" where
  "ThreadJoin_start i s =
     do { t \<leftarrow> threads s (currentThread s);
          m \<leftarrow> threads s (mainThread t);
          r \<leftarrow> find_tid s i (childThreads m);
          case r of
            None \<Rightarrow> Some (Inl ErrorThreadNotFound, s)
          | Some a \<Rightarrow>
              do { s \<leftarrow> remove_child (mainThread t) a s;
                   t \<leftarrow> threads s (currentThread s);
                   s \<leftarrow> ThreadBlock JOIN a (put_thread (currentThread s) (t \<lparr> joinFrame := Some a \<rparr>) s);
                   Some (Inr (), s) } }"

definition ThreadJoin_finish :: "sched \<Rightarrow> ((int + int) \<times> sched) option" where
  "ThreadJoin_finish s =
     do { s \<leftarrow> ThreadUnsetSticky s;
          t \<leftarrow> threads s (currentThread s);
          a \<leftarrow> joinFrame t;
          let err = sint (rax (registers t));
              s = put_thread (currentThread s) (t \<lparr> joinFrame := None \<rparr>) s
          in if err \<noteq> OK then do { s \<leftarrow> add_child (mainThread t) a s; Some (Inl err, s) }
             else do { c \<leftarrow> threads s a; Some (Inr (exitCode c), delete_thread a s) } }"

definition ThreadKillSig :: "int \<Rightarrow> u64 \<Rightarrow> sched \<Rightarrow> ((kerror + unit) \<times> sched) option" where
  "ThreadKillSig i signum s =
     do { t \<leftarrow> threads s (currentThread s);
          r \<leftarrow> find_tid s i (GlobalThreadList s);
          case r of
            None \<Rightarrow> Some (Inl ErrorThreadNotFound, s)
          | Some a \<Rightarrow>
              do { k \<leftarrow> threads s a;
                   if uid t \<noteq> 0 \<and> uid t \<noteq> uid k then Some (Inl ErrorPermissionDenied, s)
                   else Some (Inr (), put_thread a (k \<lparr> killPending := True, killHandlerSignum := signum \<rparr>) s) } }"

definition ThreadKill :: "int \<Rightarrow> sched \<Rightarrow> ((kerror + unit) \<times> sched) option" where
  "ThreadKill i s = ThreadKillSig i 0 s"

definition ThreadAbort :: "int \<Rightarrow> sched \<Rightarrow> ((kerror + unit) \<times> sched) option" where
  "ThreadAbort i s =
     do { t \<leftarrow> threads s (currentThread s);
          r \<leftarrow> find_tid s i (GlobalThreadList s);
          case r of
            None \<Rightarrow> Some (Inl ErrorThreadNotFound, s)
          | Some a \<Rightarrow>
              do { k \<leftarrow> threads s a;
                   if uid t \<noteq> 0 \<and> uid t \<noteq> uid k then Some (Inl ErrorPermissionDenied, s)
                   else Some (Inr (), put_thread a (k \<lparr> abortPending := True \<rparr>) s) } }"

section \<open>Leaving\<close>

text \<open>One round of \<open>KillChildThreads\<close> for the thread at \<open>p\<close>: the last child is told to abort and waited
  for; \<open>False\<close> when there is none left. The second part runs when the wait is over.\<close>

definition KillChild_start :: "ptr \<Rightarrow> sched \<Rightarrow> (bool \<times> sched) option" where
  "KillChild_start p s =
     do { t \<leftarrow> threads s p;
          if childThreads t = [] then Some (False, s)
          else let jt = last (childThreads t)
               in do { s \<leftarrow> Some (put_thread p (t \<lparr> childThreads := butlast (childThreads t) \<rparr>) s);
                       c \<leftarrow> threads s jt;
                       s \<leftarrow> Some (put_thread jt (c \<lparr> abortPending := True \<rparr>) s);
                       t \<leftarrow> threads s (currentThread s);
                       s \<leftarrow> ThreadBlock JOIN jt (put_thread (currentThread s) (t \<lparr> joinFrame := Some jt \<rparr>) s);
                       Some (True, s) } }"

definition KillChild_finish :: "ptr \<Rightarrow> sched \<Rightarrow> sched option" where
  "KillChild_finish p s =
     do { s \<leftarrow> ThreadUnsetSticky s;
          t \<leftarrow> threads s (currentThread s);
          jt \<leftarrow> joinFrame t;
          let s = put_thread (currentThread s) (t \<lparr> joinFrame := None \<rparr>) s
          in if sint (rax (registers t)) \<noteq> OK then add_child p jt s else Some s }"

definition release_mem :: "ptr \<Rightarrow> sched \<Rightarrow> sched option" where
  "release_mem p s =
     do { m \<leftarrow> memSpaces s p;
          Some (s \<lparr> memSpaces := (memSpaces s)(p := if msRefCount m - 1 = 0 then None else Some (m \<lparr> msRefCount := msRefCount m - 1 \<rparr>)) \<rparr>) }"

definition release_table :: "ptr \<Rightarrow> sched \<Rightarrow> (sched \<times> vfs_call list) option" where
  "release_table p s =
     do { f \<leftarrow> fdTables s p;
          let (r, calls) = release_fds f in Some (s \<lparr> fdTables := (fdTables s)(p := r) \<rparr>, calls) }"

text \<open>\<open>ThreadExit\<close> once the children are gone, up to the switch; the page map of the last user is freed.\<close>

definition ThreadExit :: "int \<Rightarrow> sched \<Rightarrow> (sched \<times> vfs_call list) option" where
  "ThreadExit code s =
     do { s \<leftarrow> ThreadSetSticky s;
          t \<leftarrow> threads s (currentThread s);
          (s, calls) \<leftarrow> release_table (tfds t) s;
          s \<leftarrow> release_mem (memSpace t) s;
          let s = put_thread (currentThread s) (set_state FINISHED (t \<lparr> exitCode := code \<rparr>)) s
          in do { (b, s) \<leftarrow> ThreadYield s; Some (s, calls) } }"

section \<open>Faults and queries\<close>

definition ThreadSetPageFaultRip :: "u64 \<Rightarrow> sched \<Rightarrow> sched option" where
  "ThreadSetPageFaultRip r s =
     do { t \<leftarrow> threads s (currentThread s); Some (put_thread (currentThread s) (t \<lparr> faultRip := r \<rparr>) s) }"

definition ThreadSetupFaultHandler :: "Registers \<Rightarrow> u64 \<Rightarrow> sched \<Rightarrow> (Registers \<times> sched) option" where
  "ThreadSetupFaultHandler regs msg s =
     do { t \<leftarrow> threads s (currentThread s);
          if faultRip t \<noteq> 0 then Some (regs \<lparr> rip := faultRip t \<rparr>, s)
          else Some (regs \<lparr> rip := faultEntry s, userrsp := kernelStack t, rdi := msg, cs := KernelCode, ds := KernelData,
                           ss := KernelData, rflags := FLAGS_IF \<rparr>,
                     put_thread (currentThread s) (t \<lparr> cliCount := 0, stickyCount := 0 \<rparr>) s) }"

definition ThreadGetTID :: "sched \<Rightarrow> int option" where
  "ThreadGetTID s = map_option tid (threads s (currentThread s))"

definition ThreadGetUID :: "sched \<Rightarrow> u64 option" where
  "ThreadGetUID s = map_option uid (threads s (currentThread s))"

definition ThreadGetGID :: "sched \<Rightarrow> u64 option" where
  "ThreadGetGID s = map_option gid (threads s (currentThread s))"

definition syscall_handle_kill :: "u64 \<Rightarrow> u64 \<Rightarrow> sched \<Rightarrow> sched option" where
  "syscall_handle_kill r sp s =
     do { t \<leftarrow> threads s (currentThread s);
          Some (put_thread (currentThread s) (t \<lparr> killHandlerRip := r, killHandlerRsp := sp \<rparr>) s) }"

definition syscall_finish_kill :: "sched \<Rightarrow> (Registers \<times> sched) option" where
  "syscall_finish_kill s =
     do { t \<leftarrow> threads s (currentThread s);
          LoadThreadStateAndRegs (currentThread s)
            (put_thread (currentThread s) (t \<lparr> registers := killHandlerReturnState t \<rparr>) (s \<lparr> ifEnabled := False \<rparr>)) }"

fun ListAllProcessId_loop :: "sched \<Rightarrow> ptr list \<Rightarrow> int list option" where
  "ListAllProcessId_loop s [] = Some []"
| "ListAllProcessId_loop s (a # as) =
     do { t \<leftarrow> threads s a; r \<leftarrow> ListAllProcessId_loop s as;
          Some (if mainThread t = nullptr \<or> pid t = tid t then tid t # r else r) }"

definition ListAllProcessId :: "sched \<Rightarrow> int list option" where
  "ListAllProcessId s = ListAllProcessId_loop s (GlobalThreadList s)"

definition FindThreadInfoAndCopy :: "int \<Rightarrow> sched \<Rightarrow> ThreadInfo option option" where
  "FindThreadInfoAndCopy i s =
     do { r \<leftarrow> find_tid s i (GlobalThreadList s);
          case r of None \<Rightarrow> Some None | Some a \<Rightarrow> do { t \<leftarrow> threads s a; Some (Some t) } }"

fun FindMain_loop :: "sched \<Rightarrow> int \<Rightarrow> ptr list \<Rightarrow> ThreadInfo option option" where
  "FindMain_loop s i [] = Some None"
| "FindMain_loop s i (a # as) =
     do { t \<leftarrow> threads s a;
          if pid t = i \<or> tid t = i then
            if mainThread t = nullptr then Some (Some t) else do { m \<leftarrow> threads s (mainThread t); Some (Some m) }
          else FindMain_loop s i as }"

definition FindProcessMainThreadInfoAndCopy :: "int \<Rightarrow> sched \<Rightarrow> ThreadInfo option option" where
  "FindProcessMainThreadInfoAndCopy i s = FindMain_loop s i (GlobalThreadList s)"

section \<open>Process operations\<close>

text \<open>\<open>ProcessDoExit\<close> once the children are gone, up to the switch: it ends the main thread of the caller.\<close>

definition ProcessDoExit :: "int \<Rightarrow> sched \<Rightarrow> (sched \<times> vfs_call list) option" where
  "ProcessDoExit code s =
     do { me \<leftarrow> threads s (currentThread s);
          let p = (if mainThread me \<noteq> nullptr then mainThread me else currentThread s)
          in do { s \<leftarrow> ThreadSetSticky s;
                  t \<leftarrow> threads s p;
                  (s, calls) \<leftarrow> release_table (tfds t) s;
                  s \<leftarrow> release_mem (memSpace t) s;
                  let s = put_thread p (set_state FINISHED (t \<lparr> exitCode := code \<rparr>)) s
                  in do { (b, s) \<leftarrow> ThreadYield s; Some (s, calls) } } }"

text \<open>\<open>ms\<close> is the address of the new memory space record, used when the old one is shared. The result is
  the register state that \<open>GoToThread\<close> enters, and the page map that is freed, if any.\<close>

definition ThreadExec :: "ptr \<Rightarrow> u64 \<Rightarrow> Registers \<Rightarrow> sched \<Rightarrow> (Registers \<times> u64 option \<times> sched) option" where
  "ThreadExec ms newMap regs s =
     do { s \<leftarrow> ThreadSetSticky s;
          t \<leftarrow> threads s (currentThread s);
          m \<leftarrow> memSpaces s (memSpace t);
          let lastUser = (msRefCount m - 1 = 0);
              freed = (if lastUser \<and> pml4Entry m \<noteq> 0 then Some (pml4Entry m) else None);
              mp = (if lastUser then memSpace t else ms);
              spaces = (memSpaces s)(memSpace t \<mapsto> m \<lparr> msRefCount := msRefCount m - 1 \<rparr>);
              s = s \<lparr> memSpaces := spaces(mp \<mapsto> \<lparr> msRefCount = 1, pml4Entry = newMap \<rparr>), loadedMap := newMap, ifEnabled := False \<rparr>;
              t = t \<lparr> memSpace := mp, cliCount := 0, stickyCount := 0, registers := regs \<lparr> rflags := FLAGS_IF \<rparr> \<rparr>
          in do { s \<leftarrow> LoadThreadState (currentThread s) (put_thread (currentThread s) t s);
                  Some (registers t, freed, s) } }"

record SyscallState =
  userrip :: u64
  suserrsp :: u64
  userrbp :: u64
  userflags :: u64
  userrdi :: u64
  userrbx :: u64
  userr12 :: u64
  userr13 :: u64
  userr14 :: u64
  userr15 :: u64

text \<open>On the way out of a system call: \<open>Inl ()\<close> when the thread exits, otherwise the state to return to.\<close>

definition SetupKillHandlerFromSyscall :: "SyscallState \<Rightarrow> u64 \<Rightarrow> ThreadInfo \<Rightarrow> unit + (SyscallState \<times> ThreadInfo)" where
  "SetupKillHandlerFromSyscall st retVal t =
     (if killHandlerRip t \<noteq> 0 then
        Inr (st \<lparr> userrip := killHandlerRip t, suserrsp := killHandlerRsp t, userrdi := killHandlerSignum t \<rparr>,
             t \<lparr> killHandlerReturnState :=
                   new_registers \<lparr> ds := UserData, r15 := userr15 st, r14 := userr14 st, r13 := userr13 st, r12 := userr12 st,
                     rbp := userrbp st, rbx := userrbx st, rax := retVal, rip := userrip st, cs := UserCode,
                     rflags := userflags st, userrsp := suserrsp st, ss := UserData \<rparr> \<rparr>)
      else Inl ())"

definition ThreadCheckFlags :: "SyscallState \<Rightarrow> u64 \<Rightarrow> sched \<Rightarrow> ((unit + SyscallState) \<times> sched) option" where
  "ThreadCheckFlags st retVal s =
     do { t \<leftarrow> threads s (currentThread s);
          let r = (if killPending t then SetupKillHandlerFromSyscall st retVal (t \<lparr> killPending := False \<rparr>) else Inr (st, t))
          in case r of
               Inl u \<Rightarrow> Some (Inl (), put_thread (currentThread s) (t \<lparr> killPending := False \<rparr>) s)
             | Inr (st, t) \<Rightarrow>
                 if abortPending t then Some (Inl (), put_thread (currentThread s) t s)
                 else Some (Inr st, put_thread (currentThread s) t s) }"

end
