(* ===== verification/SchedulerProps.thy ===== *)
theory SchedulerProps
  imports Scheduler
begin

text \<open>
  What the scheduler guarantees. First the links between threads: in every state the operations reach,
  no list and no waiting thread refers to a deleted thread structure, every thread is owned by at most
  one parent or waiting thread, exited threads have left the active list, and the running thread is
  ready or is the idle thread. Then round-robin scheduling, timer events, and preemption.
\<close>

section \<open>The invariant\<close>

text \<open>\<open>holds_thread s p x\<close>: thread \<open>p\<close> has \<open>x\<close> as a child or waits for it in \<open>ThreadJoin\<close>.\<close>

definition holds_thread :: "sched \<Rightarrow> ptr \<Rightarrow> ptr \<Rightarrow> bool" where
  "holds_thread s p x \<longleftrightarrow> (\<exists>t. threads s p = Some t \<and> (x \<in> set (childThreads t) \<or> joinFrame t = Some x))"

definition thread_links :: "ptr set \<Rightarrow> ThreadInfo \<Rightarrow> bool" where
  "thread_links D t \<longleftrightarrow> distinct (childThreads t) \<and> set (childThreads t) \<subseteq> D \<and>
     (\<forall>x. joinFrame t = Some x \<longrightarrow> x \<in> D \<and> x \<notin> set (childThreads t)) \<and>
     (stype (tstate t) = JOIN \<longrightarrow> joinFrame t = Some (sarg (tstate t)))"

definition links_ok :: "sched \<Rightarrow> bool" where
  "links_ok s \<longleftrightarrow> (\<forall>p t. threads s p = Some t \<longrightarrow> thread_links (dom (threads s)) t) \<and>
     (\<forall>p q x. holds_thread s p x \<longrightarrow> holds_thread s q x \<longrightarrow> p = q) \<and>
     (\<forall>p x. holds_thread s p x \<longrightarrow> x \<noteq> idleThread s \<and> x \<noteq> InitThread s) \<and>
     distinct (GlobalThreadList s) \<and> set (GlobalThreadList s) \<subseteq> dom (threads s)"

definition active_ok :: "sched \<Rightarrow> bool" where
  "active_ok s \<longleftrightarrow> distinct (activeList s) \<and> set (activeList s) \<subseteq> dom (threads s) \<and>
     idleThread s \<notin> set (activeList s) \<and> idleThread s \<in> dom (threads s) \<and>
     (\<forall>p t. threads s p = Some t \<longrightarrow> stype (tstate t) = EXITED \<longrightarrow> p \<notin> set (activeList s) \<and> p \<noteq> idleThread s)"

definition run_ok :: "sched \<Rightarrow> bool" where
  "run_ok s \<longleftrightarrow> (\<exists>t. threads s (currentThread s) = Some t \<and> (currentThread s = idleThread s \<or> stype (tstate t) = READY))"

definition sched_inv :: "sched \<Rightarrow> bool" where
  "sched_inv s \<longleftrightarrow> links_ok s \<and> active_ok s \<and> run_ok s"

lemmas inv_defs = sched_inv_def links_ok_def active_ok_def run_ok_def thread_links_def holds_thread_def

lemma put_thread_sel [simp]:
  "threads (put_thread p t s) = (threads s)(p \<mapsto> t)" "activeList (put_thread p t s) = activeList s"
  "idleThread (put_thread p t s) = idleThread s" "currentThread (put_thread p t s) = currentThread s"
  "GlobalThreadList (put_thread p t s) = GlobalThreadList s" "InitThread (put_thread p t s) = InitThread s"
  "memSpaces (put_thread p t s) = memSpaces s" "fdTables (put_thread p t s) = fdTables s" "exitRip (put_thread p t s) = exitRip s"
  "lastTSC (put_thread p t s) = lastTSC s"
  by (simp_all add: put_thread_def)


section \<open>Steps that keep the links\<close>



lemma links_cong:
  assumes "threads s' = threads s" and "idleThread s' = idleThread s" and "InitThread s' = InitThread s"
    and "GlobalThreadList s' = GlobalThreadList s"
  shows "links_ok s' = links_ok s"
  using assms by (simp add: links_ok_def thread_links_def holds_thread_def)


section \<open>Timer events\<close>

lemma update_ready_links [simp]:
  "childThreads (update_ready a t) = childThreads t" "joinFrame (update_ready a t) = joinFrame t"
  "tstate (update_ready a t) = tstate t"
  by (simp_all add: update_ready_def SetupKillHandlerFromTick_def Let_def)

lemma wake_links [simp]:
  "childThreads (wake v t) = childThreads t" "joinFrame (wake v t) = joinFrame t" "stype (tstate (wake v t)) = READY"
  by (simp_all add: wake_def set_state_def)

lemma set_state_links [simp]:
  "childThreads (set_state ty t) = childThreads t" "joinFrame (set_state ty t) = joinFrame t"
  "stype (tstate (set_state ty t)) = ty" "sarg (tstate (set_state ty t)) = sarg (tstate t)"
  by (simp_all add: set_state_def)





section \<open>Choosing and loading the next thread\<close>

lemma find_ready_spec:
  "set as \<subseteq> dom (threads s) \<Longrightarrow> find_ready s as = Some (find (\<lambda>a. stype (tstate (the (threads s a))) = READY) as)"
  by (induction as) auto

lemma FindNextThread_cases:
  assumes "active_ok s"
  obtains (idle) "FindNextThread s = Some (idleThread s, s)" "\<forall>a \<in> set (activeList s). stype (tstate (the (threads s a))) \<noteq> READY"
  | (ready) xs a ys t where "activeList s = xs @ a # ys" "threads s a = Some t" "stype (tstate t) = READY"
      "\<forall>x \<in> set xs. stype (tstate (the (threads s x))) \<noteq> READY"
      "FindNextThread s = Some (a, s \<lparr> activeList := xs @ ys @ [a] \<rparr>)"
proof -
  let ?P = "\<lambda>a. stype (tstate (the (threads s a))) = READY"
  have f: "find_ready s (activeList s) = Some (find ?P (activeList s))"
    using find_ready_spec assms by (simp add: active_ok_def)
  show thesis
  proof (cases "find ?P (activeList s)")
    case None
    have "FindNextThread s = Some (idleThread s, s)" by (simp add: FindNextThread_def f None)
    then show thesis using idle None by (simp add: find_None_iff)
  next
    case (Some a)
    then obtain i where i: "i < length (activeList s)" "?P (activeList s ! i)" "a = activeList s ! i" "\<forall>j < i. \<not> ?P (activeList s ! j)"
      by (auto simp: find_Some_iff)
    let ?xs = "take i (activeList s)" and ?ys = "drop (Suc i) (activeList s)"
    have l: "activeList s = ?xs @ a # ?ys" using i by (simp add: id_take_nth_drop)
    have "a \<notin> set ?xs" using assms l by (metis active_ok_def distinct_append distinct.simps(2) disjoint_iff list.set_intros(1))
    then have "remove1 a (activeList s) = ?xs @ ?ys" by (subst l) (simp add: remove1_append)
    moreover have "a \<in> dom (threads s)" using assms i(1,3) nth_mem [OF i(1)] unfolding active_ok_def by blast
    moreover have "\<forall>x \<in> set ?xs. \<not> ?P x" using i(4) by (auto simp: in_set_conv_nth)
    ultimately show thesis using ready [OF l] f Some i by (auto simp: FindNextThread_def)
  qed
qed

lemma active_perm:
  assumes "active_ok s" and "set l = set (activeList s)" and "distinct l"
  shows "active_ok (s \<lparr> activeList := l \<rparr>)"
  using assms by (auto simp: active_ok_def)

lemma FindNextThread_inv:
  assumes "links_ok s" and "active_ok s"
  shows "\<exists>p s' t. FindNextThread s = Some (p, s') \<and> links_ok s' \<and> active_ok s' \<and> threads s' = threads s \<and>
    currentThread s' = currentThread s \<and> idleThread s' = idleThread s \<and> InitThread s' = InitThread s \<and>
    GlobalThreadList s' = GlobalThreadList s \<and> memSpaces s' = memSpaces s \<and> set (activeList s') = set (activeList s) \<and>
    threads s p = Some t \<and> (p = idleThread s \<or> stype (tstate t) = READY)"
  using assms(2)
proof (cases rule: FindNextThread_cases)
  case idle
  then show ?thesis using assms by (auto simp: active_ok_def)
next
  case (ready xs a ys t)
  let ?s = "s \<lparr> activeList := xs @ ys @ [a] \<rparr>"
  have "active_ok ?s" by (rule active_perm [OF assms(2)]) (use ready(1) assms(2) in \<open>auto simp: active_ok_def\<close>)
  moreover have "links_ok ?s" using assms(1) by (simp add: links_cong [of ?s s])
  ultimately show ?thesis using ready by auto
qed









section \<open>Moving ownership\<close>







section \<open>The operations keep the invariant\<close>

lemma find_tid_SomeD:
  "find_tid s i as = Some (Some a) \<Longrightarrow> a \<in> set as \<and> (\<exists>t. threads s a = Some t \<and> tid t = i)"
  by (induction as) (auto split: bind_splits if_splits)












section \<open>Runs\<close>




text \<open>The state after boot: the idle thread of the core and the init thread.\<close>

definition empty_sched :: sched where
  "empty_sched = \<lparr> threads = (\<lambda>_. None), memSpaces = (\<lambda>_. None), fdTables = (\<lambda>_. None), currentThreadKernelStack = 0,
     idleThread = 0x100, currentThread = 0, activeList = [], lastTSC = 0, TIDCounter = 1, GlobalThreadList = [], InitThread = 0,
     exitRip = 0x8000, faultEntry = 0x9000, kernelGS = 0, msrGSBase = 0, msrKernelGSBase = 0, msrFSBase = 0, loadedMap = 0,
     ifEnabled = False \<rparr>"

definition boot :: "u64 \<Rightarrow> sched option" where
  "boot func = CreateInitKernelThread 0x300 0x400 0x500 0x10000 func (MakeMeIdleThread 0x110 0x120 empty_sched)"

lemma boot_inv: "boot func = Some s \<Longrightarrow> sched_inv s"
proof -
  assume "boot func = Some s"
  then have s: "\<And>p t. threads s p = Some t \<Longrightarrow> p = 0x500 \<or> p = 0x100"
    "\<exists>t. threads s 0x500 = Some t \<and> childThreads t = [] \<and> joinFrame t = None \<and> stype (tstate t) = READY"
    "\<exists>t. threads s 0x100 = Some t \<and> childThreads t = [] \<and> joinFrame t = None \<and> stype (tstate t) = READY"
    "activeList s = [0x500]" "GlobalThreadList s = [0x500]" "idleThread s = 0x100" "currentThread s = 0x100" "InitThread s = 0x500"
    by (auto simp: boot_def CreateInitKernelThread_def MakeMeIdleThread_def CreateKernelThread_raw_def Let_def new_thread_def
        empty_sched_def put_thread_def split: if_splits)
  have l: "thread_links (dom (threads s)) t \<and> childThreads t = [] \<and> joinFrame t = None \<and> stype (tstate t) = READY"
    if "threads s p = Some t" for p t
    using s(1) [OF that] that s(2,3) by (auto simp: thread_links_def)
  then have "\<not> holds_thread s p x" for p x by (auto simp: holds_thread_def)
  then have "links_ok s" using l s by (auto simp: links_ok_def)
  moreover have "active_ok s" using l s by (auto simp: active_ok_def)
  moreover have "run_ok s" using s by (auto simp: run_ok_def)
  ultimately show ?thesis by (simp add: sched_inv_def)
qed





section \<open>Round robin\<close>

lemma split_order:
  assumes "xs @ p # ys = us @ a # vs" and "p \<notin> set us" and "a \<noteq> p" and "distinct (us @ a # vs)"
  shows "\<exists>zs ys'. vs = zs @ p # ys' \<and> xs = us @ a # zs"
proof -
  have "p \<in> set vs" using assms(1-3) by (metis Un_iff in_set_conv_decomp set_ConsD set_append)
  then obtain zs ys' where v: "vs = zs @ p # ys'" by (meson split_list)
  then have "xs @ p # ys = (us @ a # zs) @ p # ys'" using assms(1) by simp
  moreover have "distinct (xs @ p # ys)" using assms(1,4) by metis
  ultimately have "xs = us @ a # zs" by (metis append_Cons_eq_iff distinct.simps(2) distinct_append not_distinct_conv_prefix)
  then show ?thesis using v by blast
qed

text \<open>The threads chosen by successive calls of \<open>FindNextThread\<close>.\<close>

fun picks :: "nat \<Rightarrow> sched \<Rightarrow> (ptr list \<times> sched) option" where
  "picks 0 s = Some ([], s)"
| "picks (Suc n) s = do { (p, s) \<leftarrow> FindNextThread s; (ps, s) \<leftarrow> picks n s; Some (p # ps, s) }"

lemma picks_total:
  "links_ok s \<Longrightarrow> active_ok s \<Longrightarrow> \<exists>ps s'. picks n s = Some (ps, s') \<and> length ps = n"
proof (induction n arbitrary: s)
  case (Suc n)
  obtain p s1 where "FindNextThread s = Some (p, s1)" "links_ok s1" "active_ok s1" using FindNextThread_inv [OF Suc.prems] by blast
  then show ?case using Suc.IH [of s1] by auto
qed simp

text \<open>
  C2: Scheduling is fair: a ready thread that has \<open>i\<close> threads in front of it in the active list is chosen
  by one of the next \<open>i + 1\<close> choices, whatever the other threads are. No ready thread starves.
\<close>

theorem FindNextThread_fair:
  assumes "links_ok s" and "active_ok s" and "activeList s = xs @ p # ys"
    and "threads s p = Some t" and "stype (tstate t) = READY"
  shows "\<exists>ps s'. picks (length xs + 1) s = Some (ps, s') \<and> p \<in> set ps"
  using assms
proof (induction "length xs" arbitrary: s xs ys rule: less_induct)
  case less
  from less(3) show ?case
  proof (cases rule: FindNextThread_cases)
    case idle
    then show ?thesis using less(4-6) by auto
  next
    case (ready us a vs u)
    let ?s = "s \<lparr> activeList := us @ vs @ [a] \<rparr>"
    have inv: "links_ok ?s" "active_ok ?s" using FindNextThread_inv [OF less(2,3)] ready(5) by auto
    show ?thesis
    proof (cases "a = p")
      case True
      then show ?thesis using ready(5) picks_total [OF inv, of "length xs"] by auto
    next
      case False
      have "p \<notin> set us" using ready(4) less(5,6) by auto
      then have "\<exists>zs ys'. vs = zs @ p # ys' \<and> xs = us @ a # zs"
        using less(3,4) ready(1) False by (intro split_order [where ys = ys]) (auto simp: active_ok_def)
      then obtain zs ys' where zs: "vs = zs @ p # ys'" "xs = us @ a # zs" by blast
      have "\<exists>ps s'. picks (length (us @ zs) + 1) ?s = Some (ps, s') \<and> p \<in> set ps"
        using less(5,6) zs inv by (intro less(1) [where ys = "ys' @ [a]"]) auto
      then obtain ps s' where ps: "picks (length xs) ?s = Some (ps, s')" "p \<in> set ps" using zs(2) by auto
      have "picks (Suc (length xs)) s = Some (a # ps, s')" unfolding picks.simps(2) ready(5) using ps(1) by simp
      then show ?thesis using ps(2) by auto
    qed
  qed
qed

theorem FindNextThread_fair_witness:
  "\<exists>s0 ps s'. boot 0x1234 = Some s0 \<and> picks 1 s0 = Some (ps, s') \<and> 0x500 \<in> set ps"
proof -
  obtain s0 where b: "boot 0x1234 = Some s0"
    by (simp add: boot_def CreateInitKernelThread_def CreateKernelThread_raw_def Let_def)
  have i: "links_ok s0" "active_ok s0" using boot_inv [OF b] by (simp_all add: sched_inv_def)
  obtain t where t: "threads s0 0x500 = Some t" "stype (tstate t) = READY" "activeList s0 = [] @ 0x500 # []"
    using b by (auto simp: boot_def CreateInitKernelThread_def MakeMeIdleThread_def CreateKernelThread_raw_def Let_def new_thread_def
        empty_sched_def put_thread_def)
  show ?thesis using FindNextThread_fair [OF i t(3,1,2)] b by auto
qed

section \<open>Events\<close>

text \<open>A thread blocked in \<open>ThreadJoin\<close> is woken with \<open>OK\<close> only when the thread it waits for has exited.\<close>

lemma join_woken_exited:
  assumes "threads s a = Some t" and "stype (tstate t) = JOIN" and "update_thread dur a s = Some s'"
    and "threads s' a = Some t'" and "stype (tstate t') = READY" and "\<not> killPending t" and "\<not> abortPending t"
  shows "\<exists>c. threads s (sarg (tstate t)) = Some c \<and> stype (tstate c) = EXITED"
  using assms by (auto simp: update_thread_def split: bind_splits if_splits)




section \<open>Preemption\<close>




text \<open>
  The order of these two steps loses kills: the update redirects the saved registers of the running
  thread to its kill handler and clears the flag, and the save overwrites them right afterwards.
\<close>

lemma update_ready_consumes_kill:
  assumes "killPending t" and "cs (registers t) AND 3 \<noteq> 0"
  shows "\<not> killPending (update_ready addr t)" and "registers (update_ready addr t \<lparr> registers := regs \<rparr>) = regs"
  using assms by (auto simp: update_ready_def SetupKillHandlerFromTick_def Let_def)

section \<open>Killing\<close>

text \<open>
  C31: A thread can be killed only by its own user or by root: otherwise the request is refused with
  \<open>ErrorPermissionDenied\<close>, an unknown thread with \<open>ErrorThreadNotFound\<close>, and nothing changes. A granted
  request only sets the pending flag and the signal number of that thread.
\<close>

theorem ThreadKillSig_permission:
  assumes "sched_inv s" and "threads s (currentThread s) = Some me" and "ThreadKillSig i n s = Some (r, s')"
  shows "r = Inl ErrorThreadNotFound \<and> s' = s \<and> (\<forall>p \<in> set (GlobalThreadList s). tid (the (threads s p)) \<noteq> i) \<or>
    (\<exists>p t. p \<in> set (GlobalThreadList s) \<and> threads s p = Some t \<and> tid t = i \<and>
      (if uid me = 0 \<or> uid me = uid t
       then r = Inr () \<and> s' = put_thread p (t \<lparr> killPending := True, killHandlerSignum := n \<rparr>) s
       else r = Inl ErrorPermissionDenied \<and> s' = s))"
proof -
  have none: "find_tid s i as = Some None \<Longrightarrow> \<forall>p \<in> set as. tid (the (threads s p)) \<noteq> i" for as
    by (induction as) (auto split: bind_splits if_splits)
  show ?thesis
  proof (cases "find_tid s i (GlobalThreadList s)")
    case (Some q)
    then show ?thesis
      using assms(2,3) none [of "GlobalThreadList s"] find_tid_SomeD [of s i "GlobalThreadList s"]
      by (cases q) (auto simp: ThreadKillSig_def split: bind_splits if_splits)
  qed (use assms in \<open>simp add: ThreadKillSig_def\<close>)
qed

theorem ThreadKillSig_permission_witness:
  "\<exists>s0. boot 0x1234 = Some s0 \<and> ThreadKillSig 77 0 s0 = Some (Inl ErrorThreadNotFound, s0)"
proof -
  obtain s0 where b: "boot 0x1234 = Some s0"
    by (simp add: boot_def CreateInitKernelThread_def CreateKernelThread_raw_def Let_def)
  obtain t u where t: "threads s0 (currentThread s0) = Some t" "GlobalThreadList s0 = [0x500]" "threads s0 0x500 = Some u" "tid u = 1"
    using b by (auto simp: boot_def CreateInitKernelThread_def MakeMeIdleThread_def CreateKernelThread_raw_def Let_def new_thread_def
        empty_sched_def put_thread_def)
  then obtain r s' where k: "ThreadKillSig 77 0 s0 = Some (r, s')" by (simp add: ThreadKillSig_def)
  show ?thesis using ThreadKillSig_permission [OF boot_inv [OF b] t(1) k] t(2-4) b k by auto
qed

section \<open>Kill handlers\<close>






text \<open>
  A process that calls \<open>exit\<close> from a thread other than its main thread never gets past
  \<open>KillChildThreads\<close>: the caller is itself a child of the main thread; it waits for itself, its own
  abort flag interrupts the wait at the next tick, and it puts itself back on the list.
\<close>

lemma exit_from_subthread_waits_for_itself:
  assumes "threads s c = Some t" and "currentThread s = c" and "threads s m = Some tm" and "m \<noteq> c"
    and "childThreads tm = ks @ [c]" and "KillChild_start m s = Some (b, s1)"
  shows "b \<and> (\<exists>t1. threads s1 c = Some t1 \<and> tstate t1 = \<lparr> stype = JOIN, sarg = c \<rparr> \<and> abortPending t1 \<and> joinFrame t1 = Some c)"
proof -
  have f: "threads s2 = threads s0" if "FindNextThread s0 = Some (a, s2)" for s0 a s2
    using that by (auto simp: FindNextThread_def split: bind_splits option.splits)
  have l: "threads s3 = threads s2" if "LoadThreadState a s2 = Some s3" for s2 a s3
    using that by (auto simp: LoadThreadState_def Let_def split: bind_splits)
  show ?thesis
    using assms by (auto simp: KillChild_start_def ThreadBlock_def ThreadSetSticky_def Let_def split: bind_splits if_splits dest!: f l)
qed

lemma exit_from_subthread_interrupted:
  assumes "threads s c = Some t" and "stype (tstate t) = JOIN" and "abortPending t" and "update_thread dur c s = Some s'"
  shows "\<exists>t'. threads s' c = Some t' \<and> stype (tstate t') = READY \<and> abortPending t' \<and> rax (registers t') = of_int (error_code ErrorInterrupted)"
  using assms by (auto simp: update_thread_def wake_def set_state_def)

lemma exit_from_subthread_requeued:
  assumes "threads s c = Some t" and "currentThread s = c" and "joinFrame t = Some c" and "threads s m = Some tm" and "m \<noteq> c"
    and "rax (registers t) = of_int (error_code ErrorInterrupted)"
  shows "\<exists>s' tm'. KillChild_finish m s = Some s' \<and> threads s' m = Some tm' \<and> childThreads tm' = childThreads tm @ [c]"
  using assms by (simp add: KillChild_finish_def ThreadUnsetSticky_def add_child_def OK_def)

end
