(* ===== verification/Locks.thy ===== *)
theory Locks
  imports Scheduler
begin

text \<open>
  The locks of the kernel: the atomic counter (\<^verbatim>\<open>multicore/Atomics.h\<close>), the spin lock
  (\<^verbatim>\<open>multicore/locks/StickyLock.cpp\<close>) and the queue lock (\<^verbatim>\<open>multicore/locks/QueueLock.cpp\<close>). Each function
  is a function on the memory word or structure it changes; the locks are then run by any number of
  threads whose steps interleave, as relations on the lock and the set of threads that are inside.
\<close>

section \<open>Atomic counters\<close>

definition Atomic_Write :: "u64 \<Rightarrow> u64 \<Rightarrow> u64" where
  "Atomic_Write val m_Value = val"

definition Atomic_Read :: "u64 \<Rightarrow> u64" where
  "Atomic_Read m_Value = m_Value"

definition Atomic_Inc :: "u64 \<Rightarrow> u64" where
  "Atomic_Inc m_Value = m_Value + 1"

text \<open>The exchange-and-add instruction leaves the old value in the register.\<close>

definition Atomic_PostInc :: "u64 \<Rightarrow> u64 \<times> u64" where
  "Atomic_PostInc m_Value = (m_Value, m_Value + 1)"

definition Atomic_Dec :: "u64 \<Rightarrow> u64" where
  "Atomic_Dec m_Value = m_Value - 1"

definition Atomic_DecAndCheckZero :: "u64 \<Rightarrow> bool \<times> u64" where
  "Atomic_DecAndCheckZero m_Value = (m_Value - 1 = 0, m_Value - 1)"

section \<open>Spin lock\<close>

text \<open>The exchange of 1 with the lock word, and of 0.\<close>

definition TryLock :: "u64 \<Rightarrow> bool \<times> u64" where
  "TryLock m_Val = (m_Val = 0, 1)"

definition DoUnlock :: "u64 \<Rightarrow> u64" where
  "DoUnlock m_Val = 0"

text \<open>The loop of the acquiring functions. Other cores change the lock word between two attempts, so the loop
  reads it from the history \<open>w\<close>: \<open>w i\<close> is the word that the attempt \<open>i\<close> exchanges. The result is the attempt
  that took the lock and the word it left; \<open>None\<close> means that the loop spins forever.\<close>

partial_function (option) Spin_loop :: "(nat \<Rightarrow> u64) \<Rightarrow> nat \<Rightarrow> (nat \<times> u64) option" where
  "Spin_loop w i = (case TryLock (w i) of (got, v) \<Rightarrow> if got then Some (i, v) else Spin_loop w (Suc i))"

definition Spinlock :: "(nat \<Rightarrow> u64) \<Rightarrow> sched \<Rightarrow> ((nat \<times> u64) \<times> sched) option" where
  "Spinlock w s = do { s \<leftarrow> ThreadSetSticky s; r \<leftarrow> Spin_loop w 0; Some (r, s) }"

definition Unlock :: "u64 \<Rightarrow> sched \<Rightarrow> (u64 \<times> sched) option" where
  "Unlock m_Val s = (let m_Val = DoUnlock m_Val in do { s \<leftarrow> ThreadUnsetSticky s; Some (m_Val, s) })"

definition Spinlock_Cli :: "(nat \<Rightarrow> u64) \<Rightarrow> sched \<Rightarrow> ((nat \<times> u64) \<times> sched) option" where
  "Spinlock_Cli w s = do { s \<leftarrow> ThreadDisableInterrupts s; r \<leftarrow> Spin_loop w 0; Some (r, s) }"

definition Unlock_Cli :: "u64 \<Rightarrow> sched \<Rightarrow> (u64 \<times> sched) option" where
  "Unlock_Cli m_Val s = (let m_Val = DoUnlock m_Val in do { s \<leftarrow> ThreadEnableInterrupts s; Some (m_Val, s) })"

definition Spinlock_Raw :: "(nat \<Rightarrow> u64) \<Rightarrow> (nat \<times> u64) option" where
  "Spinlock_Raw w = Spin_loop w 0"

definition Unlock_Raw :: "u64 \<Rightarrow> u64" where
  "Unlock_Raw m_Val = DoUnlock m_Val"

lemma Spin_loop_held: "w i \<noteq> 0 \<Longrightarrow> Spin_loop w i = Spin_loop w (Suc i)"
  by (subst Spin_loop.simps) (simp add: TryLock_def)

lemma Spin_loop_free: "w i = 0 \<Longrightarrow> Spin_loop w i = Some (i, 1)"
  by (subst Spin_loop.simps) (simp add: TryLock_def)

lemma Spin_loop_skip: "(\<And>j. i \<le> j \<Longrightarrow> j < i + k \<Longrightarrow> w j \<noteq> 0) \<Longrightarrow> Spin_loop w i = Spin_loop w (i + k)"
  by (induction k) (simp_all add: Spin_loop_held)

lemma Spin_loop_returns: "Spin_loop w i = Some r \<Longrightarrow> w (fst r) = 0"
  by (erule Spin_loop.raw_induct [where P = "\<lambda>w i r. w (fst r) = 0", rotated])
    (fastforce simp: TryLock_def split: if_splits)

text \<open>
  C29: Waiting for a spin lock. The acquiring loop returns as soon as one of its attempts finds the lock
  free, at the first such attempt, and leaves the lock word taken; if every attempt finds the lock held,
  it never returns.
\<close>

theorem Spinlock_Raw_waits:
  "Spinlock_Raw w = (if \<exists>j. w j = 0 then Some (LEAST j. w j = 0, 1) else None)"
proof (cases "\<exists>j. w j = 0")
  case True
  let ?j = "LEAST j. w j = 0"
  have "w ?j = 0" using True by (rule LeastI_ex)
  moreover have "Spin_loop w 0 = Spin_loop w (0 + ?j)" by (rule Spin_loop_skip) (use not_less_Least in fastforce)
  ultimately show ?thesis using True by (simp add: Spinlock_Raw_def Spin_loop_free)
next
  case False
  then show ?thesis using Spin_loop_returns [of w 0] by (cases "Spin_loop w 0") (auto simp: Spinlock_Raw_def)
qed

text \<open>Threads that compete for a spin lock: the lock word and the threads inside.\<close>

record spin_sys =
  lockWord :: u64
  spinInside :: "ptr set"

inductive spin_step :: "spin_sys \<Rightarrow> spin_sys \<Rightarrow> bool" where
  acquire: "t \<notin> spinInside s \<Longrightarrow> TryLock (lockWord s) = (True, v) \<Longrightarrow>
    spin_step s (s \<lparr> lockWord := v, spinInside := insert t (spinInside s) \<rparr>)"
| spin: "TryLock (lockWord s) = (False, v) \<Longrightarrow> spin_step s (s \<lparr> lockWord := v \<rparr>)"
| release: "t \<in> spinInside s \<Longrightarrow> spin_step s (s \<lparr> lockWord := DoUnlock (lockWord s), spinInside := spinInside s - {t} \<rparr>)"


inductive_cases spin_stepE: "spin_step s s'"




section \<open>Queue lock\<close>

record QueueLock =
  m_Count :: u64
  m_Queue :: "ptr list"

definition QueueLock_init :: "u64 \<Rightarrow> QueueLock" where
  "QueueLock_init count = \<lparr> m_Count = count, m_Queue = [] \<rparr>"

text \<open>The part of \<open>Lock\<close> under the inner spin lock: \<open>True\<close> when the lock was taken, otherwise the thread has
  been put into the queue and goes on to block itself.\<close>

definition QueueLock_Lock :: "ptr \<Rightarrow> QueueLock \<Rightarrow> bool \<times> QueueLock" where
  "QueueLock_Lock t q =
     (if m_Count q > 0 then (True, q \<lparr> m_Count := m_Count q - 1 \<rparr>)
      else (False, q \<lparr> m_Queue := m_Queue q @ [t] \<rparr>))"

text \<open>\<open>Unlock\<close>: the thread that gets the lock, if one waits.\<close>

definition QueueLock_Unlock :: "QueueLock \<Rightarrow> ptr option \<times> QueueLock" where
  "QueueLock_Unlock q =
     (case m_Queue q of
        [] \<Rightarrow> (None, q \<lparr> m_Count := m_Count q + 1 \<rparr>)
      | t # ts \<Rightarrow> (Some t, q \<lparr> m_Queue := ts \<rparr>))"

text \<open>The lock with the states of its threads and the set of threads that hold it.\<close>

record queue_sys =
  qlock :: QueueLock
  qstate :: "ptr \<Rightarrow> ThreadStateType"
  qholders :: "ptr set"

definition wake_opt :: "ptr option \<Rightarrow> (ptr \<Rightarrow> ThreadStateType) \<Rightarrow> ptr \<Rightarrow> ThreadStateType" where
  "wake_opt p st = (case p of None \<Rightarrow> st | Some t \<Rightarrow> st(t := READY))"

inductive queue_step :: "queue_sys \<Rightarrow> queue_sys \<Rightarrow> bool" where
  take: "t \<notin> qholders s \<Longrightarrow> t \<notin> set (m_Queue (qlock s)) \<Longrightarrow> QueueLock_Lock t (qlock s) = (True, q) \<Longrightarrow>
    queue_step s (s \<lparr> qlock := q, qholders := insert t (qholders s) \<rparr>)"
| enqueue: "t \<notin> qholders s \<Longrightarrow> t \<notin> set (m_Queue (qlock s)) \<Longrightarrow> QueueLock_Lock t (qlock s) = (False, q) \<Longrightarrow>
    queue_step s (s \<lparr> qlock := q \<rparr>)"
| sleep: "queue_step s (s \<lparr> qstate := (qstate s)(t := QUEUE_LOCK) \<rparr>)"
| unlock: "t \<in> qholders s \<Longrightarrow> QueueLock_Unlock (qlock s) = (p, q) \<Longrightarrow>
    queue_step s (s \<lparr> qlock := q, qstate := wake_opt p (qstate s), qholders := (qholders s - {t}) \<union> set_option p \<rparr>)"





definition queue_start :: "u64 \<Rightarrow> queue_sys" where
  "queue_start n = \<lparr> qlock = QueueLock_init n, qstate = (\<lambda>_. READY), qholders = {} \<rparr>"


section \<open>Mutual exclusion\<close>



text \<open>The queue is served in the order of arrival: the longest waiting thread gets the lock.\<close>

lemma QueueLock_fifo:
  "m_Queue q = t # ts \<Longrightarrow> QueueLock_Unlock q = (Some t, q \<lparr> m_Queue := ts \<rparr>)"
  by (simp add: QueueLock_Unlock_def)

text \<open>
  A wake-up can be lost: if the lock is handed over after a thread has put itself into the queue but
  before it has blocked itself, the thread then blocks although it holds the lock and is in no queue.
\<close>

lemma QueueLock_lost_wakeup:
  assumes "h \<noteq> w"
  shows "\<exists>s. queue_step\<^sup>*\<^sup>* (queue_start 1) s \<and> qholders s = {w} \<and> qstate s w = QUEUE_LOCK \<and> m_Queue (qlock s) = []"
proof -
  let ?s0 = "queue_start 1"
  let ?s1 = "\<lparr> qlock = \<lparr> m_Count = 0, m_Queue = [] \<rparr>, qstate = (\<lambda>_. READY), qholders = {h} \<rparr>"
  let ?s2 = "?s1 \<lparr> qlock := \<lparr> m_Count = 0, m_Queue = [w] \<rparr> \<rparr>"
  let ?s3 = "?s1 \<lparr> qstate := wake_opt (Some w) (\<lambda>_. READY), qholders := ({h} - {h}) \<union> set_option (Some w) \<rparr>"
  let ?s4 = "?s3 \<lparr> qstate := (qstate ?s3)(w := QUEUE_LOCK) \<rparr>"
  have "queue_step ?s0 ?s1" using take [of h ?s0 "\<lparr> m_Count = 0, m_Queue = [] \<rparr>"]
    by (simp add: queue_start_def QueueLock_init_def QueueLock_Lock_def)
  moreover have "queue_step ?s1 ?s2" using enqueue [of w ?s1 "\<lparr> m_Count = 0, m_Queue = [w] \<rparr>"] assms
    by (simp add: QueueLock_Lock_def)
  moreover have "queue_step ?s2 ?s3" using unlock [of h ?s2 "Some w" "\<lparr> m_Count = 0, m_Queue = [] \<rparr>"]
    by (simp add: QueueLock_Unlock_def)
  moreover have "queue_step ?s3 ?s4" by (rule sleep)
  ultimately have "queue_step\<^sup>*\<^sup>* ?s0 ?s4" by (meson converse_rtranclp_into_rtranclp rtranclp.rtrancl_refl)
  then show ?thesis by (intro exI [of _ ?s4]) simp
qed

end
