(* ===== verification/Path.thy ===== *)
theory Path
  imports KErrno
begin

text \<open>
  Paths of the virtual file system, \<^verbatim>\<open>kernel/Kernel/fs/VFS.cpp\<close>: how a path that comes from user space is
  made absolute and normal, how it is matched against mount points and directory entries. A path
  buffer is the string it holds; the code rewrites it in place from left to right, never ahead of the
  position it reads. The copy from user space (\<^verbatim>\<open>kpathcpy_usersafe\<close>) is the argument \<open>userPath\<close>, which
  is \<open>None\<close> when the copy fails; what it delivers, terminator included, takes at most 255 bytes.
\<close>

section \<open>The code\<close>

definition slash :: char where
  "slash = CHR ''/''"

definition IsPathRelative :: "string \<Rightarrow> bool" where
  "IsPathRelative path \<longleftrightarrow> (case path of [] \<Rightarrow> True | c # _ \<Rightarrow> c \<noteq> slash)"

definition PrepareRelativePath :: "string \<Rightarrow> string \<Rightarrow> kerror + string" where
  "PrepareRelativePath cwd pathBuffer =
     (if length cwd = 0 then Inr pathBuffer
      else if length pathBuffer + length cwd + 2 > 256 then Inl ErrorPathTooLong
      else Inr (cwd @ slash # pathBuffer))"

definition PrepareAbsolutePath :: "string \<Rightarrow> string" where
  "PrepareAbsolutePath pathBuffer = dropWhile (\<lambda>c. c = slash) pathBuffer"

text \<open>The first loop of \<open>NormalizePath\<close> cuts the path at its slashes; \<open>cur\<close> is the name being read.\<close>

fun cut_path :: "string \<Rightarrow> string \<Rightarrow> string list" where
  "cut_path cur [] = [cur]"
| "cut_path cur (c # cs) = (if c = slash then cur # cut_path [] cs else cut_path (cur @ [c]) cs)"

text \<open>The second loop removes \<open>.\<close> and \<open>..\<close>, shifting the rest of the stack down.\<close>

function dots_loop :: "string list \<Rightarrow> nat \<Rightarrow> string list" where
  "dots_loop stack i =
     (if i < length stack then
        if stack ! i = ''.'' then dots_loop (take i stack @ drop (i + 1) stack) i
        else if stack ! i = ''..'' then
          if i = 0 then dots_loop (drop 1 stack) 0
          else dots_loop (take (i - 1) stack @ drop (i + 1) stack) (i - 1)
        else dots_loop stack (i + 1)
      else stack)"
  by pat_completeness auto
termination dots_loop
  by (relation "measure (\<lambda>(stack, i). 2 * length stack - i)") auto

declare dots_loop.simps [simp del]

text \<open>The third loop joins the names again.\<close>

fun join_path :: "string list \<Rightarrow> string" where
  "join_path [] = []"
| "join_path [d] = d"
| "join_path (d # ds) = d @ slash # join_path ds"

definition NormalizePath :: "string \<Rightarrow> string" where
  "NormalizePath pathBuffer = join_path (dots_loop (cut_path [] pathBuffer) 0)"

text \<open>The loop of \<open>PreparePath\<close> that drops repeated slashes, with the flag \<open>lastWasSlash\<close> at its end.\<close>

fun squeeze :: "bool \<Rightarrow> string \<Rightarrow> string \<times> bool" where
  "squeeze lastWasSlash [] = ([], lastWasSlash)"
| "squeeze lastWasSlash (c # cs) =
     (if c = slash then
        if lastWasSlash then squeeze True cs else (let (r, l) = squeeze True cs in (slash # r, l))
      else (let (r, l) = squeeze False cs in (c # r, l)))"

definition PreparePath :: "string \<Rightarrow> string option \<Rightarrow> kerror + string" where
  "PreparePath cwd userPath =
     (case userPath of
        None \<Rightarrow> Inl ErrorInvalidBuffer
      | Some p \<Rightarrow>
          (case (if IsPathRelative p then PrepareRelativePath cwd p else Inr (PrepareAbsolutePath p)) of
             Inl err \<Rightarrow> Inl err
           | Inr q \<Rightarrow>
               let (r, lastWasSlash) = squeeze False q
               in Inr (NormalizePath (if lastWasSlash then butlast r else r))))"

section \<open>Matching\<close>

fun MountCmp :: "string \<Rightarrow> string \<Rightarrow> bool" where
  "MountCmp path [] \<longleftrightarrow> path = [] \<or> hd path = slash"
| "MountCmp [] (m # mount) \<longleftrightarrow> False"
| "MountCmp (p # path) (m # mount) \<longleftrightarrow> m = p \<and> MountCmp path mount"

definition AdvancePath :: "string \<Rightarrow> string \<Rightarrow> string" where
  "AdvancePath path mp =
     (let rest = drop (length mp) path
      in case rest of [] \<Rightarrow> [] | c # cs \<Rightarrow> if c = slash then cs else rest)"

text \<open>\<open>PathWalk\<close>: the rest of the path if its first name is \<open>entry\<close>.\<close>

fun PathWalk :: "string \<Rightarrow> string \<Rightarrow> string option" where
  "PathWalk [] [] = Some []"
| "PathWalk (p # path) [] = (if p = slash then Some path else None)"
| "PathWalk [] (e # entry) = None"
| "PathWalk (p # path) (e # entry) = (if e \<noteq> p then None else PathWalk path entry)"

fun IsLastPathEntry :: "string \<Rightarrow> bool" where
  "IsLastPathEntry [] \<longleftrightarrow> True"
| "IsLastPathEntry (c # path) \<longleftrightarrow> (if c = slash then False else IsLastPathEntry path)"

text \<open>\<open>start\<close> is the text behind the last separator met so far.\<close>

fun GetFileName_loop :: "string \<Rightarrow> string \<Rightarrow> string" where
  "GetFileName_loop start [] = start"
| "GetFileName_loop start (c # path) = GetFileName_loop (if c = slash then path else start) path"

definition GetFileName :: "string \<Rightarrow> string" where
  "GetFileName path = GetFileName_loop path path"

section \<open>Names and normal paths\<close>

definition valid_name :: "string \<Rightarrow> bool" where
  "valid_name d \<longleftrightarrow> d \<noteq> [] \<and> slash \<notin> set d \<and> d \<noteq> ''.'' \<and> d \<noteq> ''..''"

text \<open>The names of a path, and what they lead to: the specification of path resolution.\<close>

definition names :: "string \<Rightarrow> string list" where
  "names p = filter (\<lambda>d. d \<noteq> []) (cut_path [] p)"

definition step_name :: "string list \<Rightarrow> string \<Rightarrow> string list" where
  "step_name st d = (if d = ''.'' then st else if d = ''..'' then butlast st else st @ [d])"

definition resolve :: "string list \<Rightarrow> string list \<Rightarrow> string list" where
  "resolve st ds = foldl step_name st ds"

lemma cut_path_cur: "cut_path cur p = (cur @ hd (cut_path [] p)) # tl (cut_path [] p)"
proof (induction p arbitrary: cur)
  case (Cons c cs)
  show ?case using Cons [of "cur @ [c]"] Cons [of "[c]"] by auto
qed simp

lemma cut_path_Cons [simp]:
  "cut_path [] (slash # p) = [] # cut_path [] p"
  "c \<noteq> slash \<Longrightarrow> cut_path [] (c # p) = (c # hd (cut_path [] p)) # tl (cut_path [] p)"
  using cut_path_cur [of "[c]" p] by simp_all

declare cut_path.simps(2) [simp del]

lemma cut_path_nonempty [simp]: "cut_path cur p \<noteq> []"
  by (induction cur p rule: cut_path.induct) (auto simp: cut_path.simps)

lemma cut_path_no_slash: "slash \<notin> set cur \<Longrightarrow> d \<in> set (cut_path cur p) \<Longrightarrow> slash \<notin> set d"
  by (induction cur p rule: cut_path.induct) (auto simp: cut_path.simps split: if_splits)

lemma names_ok: "d \<in> set (names p) \<Longrightarrow> d \<noteq> [] \<and> slash \<notin> set d"
  using cut_path_no_slash [of "[]" d p] by (auto simp: names_def)

lemma join_path_Cons: "join_path (d # ds) = d @ (if ds = [] then [] else slash # join_path ds)"
  by (cases ds) simp_all

lemma cut_path_append:
  "slash \<notin> set d \<Longrightarrow> cut_path cur (d @ p) = cut_path (cur @ d) p"
  by (induction d arbitrary: cur) (auto simp: cut_path.simps)

lemma cut_join:
  "ds \<noteq> [] \<Longrightarrow> (\<And>d. d \<in> set ds \<Longrightarrow> slash \<notin> set d) \<Longrightarrow> cut_path [] (join_path ds) = ds"
proof (induction ds)
  case (Cons d ds)
  have "cut_path [] d = [d]" using cut_path_append [of d "[]" "[]"] Cons.prems(2) [of d] by simp
  then show ?case
    using Cons cut_path_append [of d "[]" "slash # join_path ds"] by (auto simp: join_path_Cons cut_path.simps)
qed simp

section \<open>The loops\<close>

lemma dots_loop_resolve: "dots_loop (st @ ds) (length st) = resolve st ds"
proof (induction "length ds" arbitrary: st ds rule: less_induct)
  case less
  show ?case
  proof (cases ds)
    case Nil
    then show ?thesis by (simp add: dots_loop.simps resolve_def)
  next
    case (Cons d es)
    have IH: "dots_loop (st' @ es) (length st') = resolve st' es" for st' using less Cons by simp
    have dd: "dots_loop (st @ d # es) (length st) = resolve (step_name st d) es"
    proof (cases "d = ''..'' \<and> st \<noteq> []")
      case True
      then have "take (length st - 1) (st @ d # es) @ drop (length st + 1) (st @ d # es) = butlast st @ es"
        by (simp add: butlast_conv_take)
      then show ?thesis
        using True IH [of "butlast st"] by (subst dots_loop.simps) (simp add: nth_append step_name_def)
    next
      case False
      then show ?thesis
        using IH [of st] IH [of "st @ [d]"] IH [of "[]"]
        by (subst dots_loop.simps) (auto simp: nth_append step_name_def)
    qed
    then show ?thesis using Cons by (simp add: resolve_def)
  qed
qed

definition finish :: "string \<times> bool \<Rightarrow> string" where
  "finish rl = (if snd rl then butlast (fst rl) else fst rl)"

lemma squeeze_names:
  shows "names q = [] \<Longrightarrow> squeeze True q = ([], True)"
    and "names q \<noteq> [] \<Longrightarrow> finish (squeeze True q) = join_path (names q) \<and> fst (squeeze True q) \<noteq> []"
    and "let ns = filter (\<lambda>d. d \<noteq> []) (tl (cut_path [] q)) in
      finish (squeeze False q) = hd (cut_path [] q) @ (if ns = [] then [] else slash # join_path ns) \<and>
      (snd (squeeze False q) \<longrightarrow> fst (squeeze False q) \<noteq> [])"
proof (induction q)
  case Nil
  { case 1 show ?case by simp }
  { case 2 then show ?case by (simp add: names_def) }
  { case 3 show ?case by (simp add: finish_def) }
next
  case (Cons c q)
  have sl: "c = slash \<Longrightarrow> names (c # q) = names q" by (simp add: names_def)
  have nsl: "c \<noteq> slash \<Longrightarrow> names (c # q) =
    (c # hd (cut_path [] q)) # filter (\<lambda>d. d \<noteq> []) (tl (cut_path [] q))" by (simp add: names_def)
  obtain rt et where t: "squeeze True q = (rt, et)" by fastforce
  obtain rf ef where f: "squeeze False q = (rf, ef)" by fastforce
  { case 1 then show ?case using Cons sl nsl by (cases "c = slash") auto }
  { case 2 then show ?case
      using Cons(2,3) sl nsl f by (cases "c = slash") (auto simp: finish_def join_path_Cons Let_def split: if_splits) }
  { case 3 show ?case
    proof (cases "c = slash")
      case True
      then show ?thesis using Cons(1,2) t by (cases "names q = []") (auto simp: finish_def names_def Let_def)
    next
      case False
      then show ?thesis using Cons(3) f by (auto simp: finish_def Let_def split: if_splits)
    qed }
qed

lemma finish_squeeze:
  assumes "IsPathRelative q"
  shows "finish (squeeze False q) = join_path (names q)"
proof (cases q)
  case (Cons c cs)
  then have "c \<noteq> slash" using assms by (simp add: IsPathRelative_def)
  then show ?thesis using squeeze_names(3) [of q] Cons by (simp add: names_def join_path_Cons Let_def)
qed (simp add: finish_def names_def)

lemma NormalizePath_names:
  assumes "\<And>d. d \<in> set ns \<Longrightarrow> d \<noteq> [] \<and> slash \<notin> set d"
  shows "NormalizePath (join_path ns) = join_path (resolve [] ns)"
proof (cases "ns = []")
  case True
  then show ?thesis using dots_loop_resolve [of "[]" "[[]]"] by (simp add: NormalizePath_def resolve_def step_name_def)
next
  case False
  then show ?thesis using dots_loop_resolve [of "[]" ns] cut_join [of ns] assms by (simp add: NormalizePath_def)
qed

text \<open>The path the code works on, before names are looked at.\<close>

definition absolute_of :: "string \<Rightarrow> string \<Rightarrow> string" where
  "absolute_of cwd p = (if IsPathRelative p \<and> cwd \<noteq> [] then cwd @ slash # p else p)"

lemma cut_path_slash: "cut_path cur (p @ slash # q) = cut_path cur p @ cut_path [] q"
  by (induction p arbitrary: cur) (auto simp: cut_path.simps)

lemma names_slash: "names (p @ slash # q) = names p @ names q"
  by (simp add: names_def cut_path_slash)

lemma names_Nil [simp]: "names [] = []"
  by (simp add: names_def)

lemma names_dropWhile: "names (dropWhile (\<lambda>c. c = slash) p) = names p"
  by (induction p) (auto simp: names_def)

lemma dropWhile_relative: "IsPathRelative (dropWhile (\<lambda>c. c = slash) p)"
  by (induction p) (auto simp: IsPathRelative_def)

lemma PreparePath_resolve:
  assumes "IsPathRelative cwd"
  shows "PreparePath cwd (Some p) =
    (if IsPathRelative p \<and> cwd \<noteq> [] \<and> length p + length cwd + 2 > 256 then Inl ErrorPathTooLong
     else Inr (join_path (resolve [] (names (absolute_of cwd p)))))"
proof -
  have fin: "(let (r, l) = squeeze False q in Inr (NormalizePath (if l then butlast r else r))) =
      Inr (join_path (resolve [] (names q)))" if "IsPathRelative q" for q
  proof -
    obtain r l where rl: "squeeze False q = (r, l)" by fastforce
    then have "(if l then butlast r else r) = join_path (names q)"
      using finish_squeeze [OF that] by (simp add: finish_def split: if_splits)
    then show ?thesis using rl NormalizePath_names [of "names q"] names_ok by simp
  qed
  show ?thesis
  proof (cases "IsPathRelative p")
    case True
    have "cwd \<noteq> [] \<Longrightarrow> IsPathRelative (cwd @ slash # p)" using assms by (cases cwd) (auto simp: IsPathRelative_def)
    then show ?thesis
      using True fin [of p] fin [of "cwd @ slash # p"]
      by (auto simp: PreparePath_def PrepareRelativePath_def absolute_of_def)
  next
    case False
    then show ?thesis
      using fin [OF dropWhile_relative, of p]
      by (simp add: PreparePath_def PrepareAbsolutePath_def absolute_of_def names_dropWhile)
  qed
qed

lemma resolve_valid:
  "(\<And>d. d \<in> set ds \<Longrightarrow> d \<noteq> [] \<and> slash \<notin> set d) \<Longrightarrow> list_all valid_name st \<Longrightarrow> list_all valid_name (resolve st ds)"
proof (induction ds arbitrary: st)
  case (Cons d ds)
  have "list_all valid_name (step_name st d)"
    using Cons.prems(2) Cons.prems(1) [of d] by (auto simp: step_name_def valid_name_def list_all_iff dest: in_set_butlastD)
  then show ?case using Cons by (simp add: resolve_def)
qed (simp add: resolve_def)

lemma resolve_fixed: "list_all valid_name ds \<Longrightarrow> resolve st ds = st @ ds"
  by (induction ds arbitrary: st) (auto simp: resolve_def step_name_def valid_name_def)

lemma cut_path_length: "ns \<noteq> [] \<Longrightarrow> [] \<notin> set ns \<Longrightarrow> 2 * length ns \<le> length (join_path ns) + 1"
proof (induction ns)
  case (Cons d ns)
  then have "length d \<ge> 1" by (cases d) auto
  then show ?case using Cons by (cases "ns = []") (auto simp: join_path_Cons)
qed simp

lemma squeeze_length: "length (fst (squeeze b q)) \<le> length q"
  by (induction b q rule: squeeze.induct) (auto split: prod.splits)

lemma finish_length: "length (finish (squeeze b q)) \<le> length q"
  using squeeze_length [of b q] by (auto simp: finish_def)

section \<open>What path preparation guarantees\<close>

text \<open>
  C11: \<open>PreparePath\<close> implements path resolution. For a working directory without leading slash, the
  prepared path is the slash-separated list of the names that are reached by walking the names of the
  working directory and of the given path in order, where \<open>.\<close> stays, \<open>..\<close> goes up (and stays at the
  root), and empty names are ignored; every name of the result is proper (not empty, no slash, neither
  \<open>.\<close> nor \<open>..\<close>). The one failure is a relative path that does not fit behind the working directory.
\<close>

theorem PreparePath_resolves:
  assumes "IsPathRelative cwd"
  shows "(if IsPathRelative p \<and> cwd \<noteq> [] \<and> length p + length cwd + 2 > 256
      then PreparePath cwd (Some p) = Inl ErrorPathTooLong
      else \<exists>ds. PreparePath cwd (Some p) = Inr (join_path ds) \<and> list_all valid_name ds \<and>
        ds = resolve (resolve [] (if IsPathRelative p then names cwd else [])) (names p))"
proof -
  have na: "names (absolute_of cwd p) = (if IsPathRelative p then names cwd else []) @ names p"
    by (simp add: absolute_of_def names_slash)
  have v: "list_all valid_name (resolve [] (names q))" for q
    by (rule resolve_valid) (auto simp: names_ok)
  show ?thesis using PreparePath_resolve [OF assms, of p] na v [of "absolute_of cwd p"] by (auto simp: resolve_def)
qed

theorem PreparePath_resolves_witness:
  "IsPathRelative ''home/me'' \<and> PreparePath ''home/me'' (Some ''.././/you/../a/'') = Inr ''home/a''"
proof -
  have "IsPathRelative ''home/me''" by code_simp
  moreover have "names ''home/me'' = [''home'', ''me'']" "names ''.././/you/../a/'' = [''..'', ''.'', ''you'', ''..'', ''a'']"
    "IsPathRelative ''.././/you/../a/''" "join_path [''home'', ''a''] = ''home/a''" by code_simp+
  ultimately show ?thesis
    using PreparePath_resolves [of "''home/me''" "''.././/you/../a/''"] by (simp add: resolve_def step_name_def)
qed

text \<open>
  A prepared path is a fixed point: preparing it again as an absolute path, whatever the working
  directory, returns it unchanged. So every operation that stores a prepared path can hand it out again.
\<close>

theorem PreparePath_idempotent:
  assumes "IsPathRelative cwd" and "IsPathRelative cwd'" and "PreparePath cwd (Some p) = Inr r"
  shows "PreparePath cwd' (Some (slash # r)) = Inr r"
proof -
  obtain ds where r: "r = join_path ds" and ds: "list_all valid_name ds"
    using PreparePath_resolve [OF assms(1), of p] assms(3) resolve_valid [of "names (absolute_of cwd p)" "[]"]
    by (auto simp: names_ok split: if_splits)
  have "names (slash # r) = ds"
    using r ds cut_join [of ds] by (cases "ds = []") (auto simp: names_def valid_name_def list_all_iff)
  then show ?thesis
    using PreparePath_resolve [OF assms(2), of "slash # r"] r resolve_fixed [OF ds, of "[]"]
    by (auto simp: absolute_of_def IsPathRelative_def)
qed

theorem PreparePath_idempotent_witness:
  "PreparePath ''usr'' (Some ''lib/../bin'') = Inr ''usr/bin'' \<and> PreparePath ''tmp'' (Some ''/usr/bin'') = Inr ''usr/bin''"
proof -
  have a: "PreparePath ''usr'' (Some ''lib/../bin'') = Inr ''usr/bin''" by code_simp
  have b: "IsPathRelative ''usr''" "IsPathRelative ''tmp''" by code_simp+
  show ?thesis using PreparePath_idempotent [OF b a] a by (simp add: slash_def)
qed

text \<open>
  C25: The array of 128 name pointers in \<open>NormalizePath\<close> is large enough for every path that fits the
  buffer: what the slash-dropping loop hands over is cut into at most 128 names, because every name
  but the only one of an empty path takes at least one character.
\<close>

theorem NormalizePath_stack_fits:
  assumes "IsPathRelative q" and "length q \<le> 255"
  shows "length (cut_path [] (let (r, l) = squeeze False q in if l then butlast r else r)) \<le> 128"
proof -
  have f: "(let (r, l) = squeeze False q in if l then butlast r else r) = join_path (names q)"
    using finish_squeeze [OF assms(1)] by (cases "squeeze False q") (auto simp: finish_def)
  have l: "length (join_path (names q)) \<le> length q" using finish_length [of False q] finish_squeeze [OF assms(1)] by simp
  show ?thesis
  proof (cases "names q = []")
    case False
    have "[] \<notin> set (names q)" using names_ok by blast
    then have "2 * length (names q) \<le> 256" using cut_path_length [OF False] l assms(2) by linarith
    then show ?thesis using f cut_join [OF False] names_ok by simp
  qed (simp add: f)
qed

theorem NormalizePath_stack_fits_witness:
  "IsPathRelative ''a//b/'' \<and> length (cut_path [] (let (r, l) = squeeze False ''a//b/'' in if l then butlast r else r)) \<le> 128"
proof -
  have "IsPathRelative ''a//b/''" by code_simp
  then show ?thesis using NormalizePath_stack_fits [of "''a//b/''"] by simp
qed

section \<open>What matching guarantees\<close>

lemma MountCmp_iff: "MountCmp path mount \<longleftrightarrow> (\<exists>rest. path = mount @ rest \<and> (rest = [] \<or> hd rest = slash))"
  by (induction path mount rule: MountCmp.induct) auto

lemma PathWalk_iff: "PathWalk path entry = Some r \<longleftrightarrow> path = entry @ slash # r \<or> path = entry \<and> r = []"
  by (induction path entry rule: PathWalk.induct) auto

lemma IsLastPathEntry_iff: "IsLastPathEntry path \<longleftrightarrow> slash \<notin> set path"
  by (induction path) auto

lemma GetFileName_loop_append:
  "GetFileName_loop st (p @ slash # q) = GetFileName_loop q q"
  by (induction p arbitrary: st) auto

lemma GetFileName_loop_plain: "slash \<notin> set q \<Longrightarrow> GetFileName_loop st q = st"
  by (induction q arbitrary: st) auto

lemma GetFileName_last:
  "ds \<noteq> [] \<Longrightarrow> list_all valid_name ds \<Longrightarrow> GetFileName (join_path ds) = last ds"
proof (induction ds)
  case (Cons d ds)
  then show ?case
    by (cases "ds = []")
      (auto simp: GetFileName_def join_path_Cons GetFileName_loop_append GetFileName_loop_plain valid_name_def)
qed simp

lemma append_slash_unique:
  "slash \<notin> set d \<Longrightarrow> slash \<notin> set e \<Longrightarrow> d @ slash # r = e @ slash # r' \<Longrightarrow> d = e \<and> r = r'"
proof (induction d arbitrary: e)
  case Nil
  then show ?case by (cases e) auto
next
  case (Cons c d)
  then show ?case by (cases e) auto
qed

lemma PathWalk_takes_first_name_parts:
  assumes "ds \<noteq> []" and "list_all valid_name ds" and "valid_name e"
  shows "PathWalk (join_path ds) e = (if e = hd ds then Some (join_path (tl ds)) else None)"
    and "IsLastPathEntry (join_path ds) \<longleftrightarrow> tl ds = []"
    and "GetFileName (join_path ds) = last ds"
proof -
  obtain d ds' where ds: "ds = d # ds'" using assms(1) by (cases ds) auto
  have sl: "slash \<notin> set d" "slash \<notin> set e" using assms(2,3) ds by (auto simp: valid_name_def)
  have "PathWalk (join_path ds) e = Some r \<longleftrightarrow> e = d \<and> r = join_path ds'" for r
    using sl ds append_slash_unique [of d e "join_path ds'" r]
    by (cases "ds' = []") (auto simp: PathWalk_iff join_path_Cons)
  then show "PathWalk (join_path ds) e = (if e = hd ds then Some (join_path (tl ds)) else None)"
    using ds by (cases "PathWalk (join_path ds) e") auto
  show "IsLastPathEntry (join_path ds) \<longleftrightarrow> tl ds = []"
    using ds sl by (cases "ds' = []") (auto simp: IsLastPathEntry_iff join_path_Cons)
  show "GetFileName (join_path ds) = last ds" using GetFileName_last assms by blast
qed

text \<open>
  Walking a prepared path. A directory entry matches exactly when it is the first name of the path,
  and the walk then leaves the path of the remaining names; the walk has come to the last name exactly
  when one name is left; \<open>GetFileName\<close> returns the last name.
\<close>

theorem PathWalk_takes_first_name:
  assumes "ds \<noteq> []" and "list_all valid_name ds" and "valid_name e"
    shows "PathWalk (join_path ds) e = (if e = hd ds then Some (join_path (tl ds)) else None) \<and>
    (IsLastPathEntry (join_path ds) \<longleftrightarrow> tl ds = []) \<and>
    GetFileName (join_path ds) = last ds"
  using PathWalk_takes_first_name_parts(1) [OF assms] PathWalk_takes_first_name_parts(2) [OF assms] PathWalk_takes_first_name_parts(3) [OF assms] by blast

theorem PathWalk_takes_first_name_witness:
  "PathWalk ''etc/motd'' ''etc'' = Some ''motd'' \<and> \<not> IsLastPathEntry ''etc/motd'' \<and> GetFileName ''etc/motd'' = ''motd''"
proof -
  have j: "join_path [''etc'', ''motd''] = ''etc/motd''" by code_simp
  have v: "list_all valid_name [''etc'', ''motd'']" "valid_name ''etc''" by code_simp+
  show ?thesis
    using PathWalk_takes_first_name [of "[''etc'', ''motd'']" "''etc''", OF _ v] by (simp add: j slash_def)
qed

text \<open>
  The buffers that \<open>PreparePath\<close> fills are declared with 255 bytes, but the limit of
  \<open>PrepareRelativePath\<close> lets it store the terminator at index 255, one past the end.
\<close>

lemma PrepareRelativePath_overruns:
  "PrepareRelativePath (replicate 4 (CHR ''c'')) (replicate 250 (CHR ''p'')) = Inr q \<Longrightarrow> length q + 1 = 256"
  by (auto simp: PrepareRelativePath_def)

end
