(* ===== verification/Directory.thy ===== *)
theory Directory
  imports Path
begin

text \<open>
  Directories of the virtual file system, \<^verbatim>\<open>fs/Directory.h\<close> and \<^verbatim>\<open>fs/Directory.cpp\<close>: an array of entries with
  its capacity and the number of entries in use. Memory that \<^verbatim>\<open>new\<close> leaves uninitialised holds blank
  entries here; they lie behind the entries in use and are not read. The loops over the array are folds
  over its indices. The array refines the list of the entries in use.
\<close>

section \<open>Data\<close>

record DirectoryEntry =
  ename :: string
  enodeID :: u64

record Directory =
  numEntries :: u64
  capacity :: u64
  entries :: "DirectoryEntry list"

definition blank_entry :: DirectoryEntry where
  "blank_entry = \<lparr> ename = [], enodeID = 0 \<rparr>"

section \<open>Operations\<close>

text \<open>The character at an index of a terminated string.\<close>

definition char_at :: "string \<Rightarrow> nat \<Rightarrow> char" where
  "char_at s i = (if i < length s then s ! i else CHR 0x00)"

text \<open>The file-local \<open>PathWalk\<close> steps through both strings with one index.\<close>

function walk_index :: "string \<Rightarrow> string \<Rightarrow> nat \<Rightarrow> string option" where
  "walk_index path nameCmp index =
     (if index \<ge> length nameCmp then
        if char_at path index = slash then Some (drop (index + 1) path)
        else if index \<ge> length path then Some (drop index path)
        else None
      else if char_at path index \<noteq> char_at nameCmp index then None
      else walk_index path nameCmp (index + 1))"
  by pat_completeness auto
termination by (relation "measure (\<lambda>(path, nameCmp, index). length nameCmp - index)") auto

declare walk_index.simps [simp del]

definition dir_PathWalk :: "string \<Rightarrow> string \<Rightarrow> string option" where
  "dir_PathWalk path nameCmp = walk_index path nameCmp 0"

function FindEntry_loop :: "Directory \<Rightarrow> string \<Rightarrow> nat \<Rightarrow> (nat \<times> string) option" where
  "FindEntry_loop d path i =
     (if i < unat (numEntries d) then
        case dir_PathWalk path (ename (entries d ! i)) of
          Some rest \<Rightarrow> Some (i, rest)
        | None \<Rightarrow> FindEntry_loop d path (i + 1)
      else None)"
  by pat_completeness auto
termination by (relation "measure (\<lambda>(d, path, i). unat (numEntries d) - i)") auto

declare FindEntry_loop.simps [simp del]

definition FindEntry :: "Directory \<Rightarrow> string \<Rightarrow> (nat \<times> string) option" where
  "FindEntry d path = FindEntry_loop d path 0"

definition Directory_Create :: "u64 \<Rightarrow> Directory" where
  "Directory_Create cap = \<lparr> numEntries = 0, capacity = cap, entries = replicate (unat cap) blank_entry \<rparr>"

definition copy_entries :: "nat \<Rightarrow> DirectoryEntry list \<Rightarrow> DirectoryEntry list \<Rightarrow> DirectoryEntry list" where
  "copy_entries n src dst = fold (\<lambda>i es. es[i := src ! i]) [0..<n] dst"

text \<open>The directory and the index of its new entry.\<close>

definition AddEntry :: "Directory \<Rightarrow> Directory \<times> nat" where
  "AddEntry d =
     (if capacity d > numEntries d then
        (d \<lparr> numEntries := numEntries d + 1 \<rparr>, unat (numEntries d))
      else
        let newDir = Directory_Create (capacity d + 16);
            newDir = newDir \<lparr> numEntries := numEntries d + 1,
                              entries := copy_entries (unat (numEntries d)) (entries d) (entries newDir) \<rparr>
        in (newDir, unat (numEntries newDir - 1)))"

definition shift_entries :: "nat \<Rightarrow> nat \<Rightarrow> DirectoryEntry list \<Rightarrow> DirectoryEntry list" where
  "shift_entries a n es = fold (\<lambda>i es. es[i - 1 := es ! i]) [a..<n] es"

definition RemoveEntry :: "Directory \<Rightarrow> nat \<Rightarrow> Directory" where
  "RemoveEntry d index =
     d \<lparr> entries := shift_entries (index + 1) (unat (numEntries d)) (entries d), numEntries := numEntries d - 1 \<rparr>"

definition put_entry :: "Directory \<Rightarrow> nat \<Rightarrow> DirectoryEntry \<Rightarrow> Directory" where
  "put_entry d i e = d \<lparr> entries := (entries d)[i := e] \<rparr>"

definition CopyTo_step :: "Directory \<Rightarrow> nat \<Rightarrow> Directory \<Rightarrow> Directory" where
  "CopyTo_step d i to = (let (to, j) = AddEntry to in put_entry to j (entries d ! i))"

definition CopyTo :: "Directory \<Rightarrow> Directory \<Rightarrow> Directory" where
  "CopyTo d to = fold (CopyTo_step d) [0..<unat (numEntries d)] to"

section \<open>Well-formed directories\<close>

definition dir_ok :: "Directory \<Rightarrow> bool" where
  "dir_ok d \<longleftrightarrow> length (entries d) = unat (capacity d) \<and> unat (numEntries d) \<le> unat (capacity d)"

text \<open>The entries in use, the abstraction of a directory.\<close>

definition dir_list :: "Directory \<Rightarrow> DirectoryEntry list" where
  "dir_list d = take (unat (numEntries d)) (entries d)"

lemma Directory_Create_ok [simp]: "dir_ok (Directory_Create cap)" "dir_list (Directory_Create cap) = []"
  by (simp_all add: dir_ok_def dir_list_def Directory_Create_def)

lemma dir_list_length: "dir_ok d \<Longrightarrow> length (dir_list d) = unat (numEntries d)"
  by (simp add: dir_ok_def dir_list_def)

lemma copy_entries_take:
  "n \<le> length src \<Longrightarrow> n \<le> length dst \<Longrightarrow> copy_entries n src dst = take n src @ drop n dst"
proof (induction n)
  case (Suc n)
  then have "copy_entries (Suc n) src dst = (take n src @ drop n dst)[n := src ! n]"
    by (simp add: copy_entries_def)
  also have "\<dots> = take n src @ (drop n dst)[0 := src ! n]" using Suc.prems by (simp add: list_update_append)
  also have "drop n dst = dst ! n # drop (Suc n) dst" using Suc.prems by (simp add: Cons_nth_drop_Suc)
  finally show ?case using Suc.prems by (simp add: take_Suc_conv_app_nth)
qed (simp add: copy_entries_def)

lemma shift_entries_length [simp]: "length (shift_entries a n es) = length es"
  by (induction n) (simp_all add: shift_entries_def)

lemma shift_entries_nth:
  "1 \<le> a \<Longrightarrow> n \<le> length es \<Longrightarrow> j < length es \<Longrightarrow>
   shift_entries a n es ! j = (if a \<le> j + 1 \<and> j + 1 < n then es ! (j + 1) else es ! j)"
proof (induction n arbitrary: j)
  case (Suc n)
  show ?case
  proof (cases "a \<le> n")
    case True
    then have "shift_entries a (Suc n) es = (shift_entries a n es)[n - 1 := shift_entries a n es ! n]"
      by (simp add: shift_entries_def)
    moreover have "shift_entries a n es ! n = es ! n" using Suc by simp
    ultimately show ?thesis using Suc True by (auto simp: nth_list_update)
  next
    case False
    then show ?thesis by (auto simp: shift_entries_def)
  qed
qed (simp add: shift_entries_def)

lemma unat_add_small: "unat (x :: u64) + k < 2 ^ 64 \<Longrightarrow> k < 2 ^ 64 \<Longrightarrow> unat (x + of_nat k) = unat x + k"
  by (simp add: unat_word_ariths unat_of_nat)

text \<open>Adding an entry and filling it in appends it to the list.\<close>

lemma AddEntry_appends:
  assumes ok: "dir_ok d" and room: "unat (capacity d) + 16 < 2 ^ 64" and a: "AddEntry d = (d', i)"
  shows "i = unat (numEntries d)" and "dir_ok (put_entry d' i e)"
    and "dir_list (put_entry d' i e) = dir_list d @ [e]"
proof -
  have n1: "unat (numEntries d + 1) = unat (numEntries d) + 1"
    using unat_add_small [of "numEntries d" 1] ok room by (simp add: dir_ok_def)
  have c16: "unat (capacity d + 16) = unat (capacity d) + 16" using unat_add_small [of "capacity d" 16] room by simp
  have *: "i = unat (numEntries d) \<and> dir_ok (put_entry d' i e) \<and> dir_list (put_entry d' i e) = dir_list d @ [e]"
  proof (cases "capacity d > numEntries d")
    case True
    then show ?thesis using a ok n1
      by (auto simp: AddEntry_def put_entry_def dir_ok_def dir_list_def word_less_nat_alt take_update_swap
          take_Suc_conv_app_nth list_update_append)
  next
    case False
    then have full: "unat (numEntries d) = unat (capacity d)" using ok by (simp add: dir_ok_def word_less_nat_alt)
    have ce: "copy_entries (unat (capacity d)) (entries d) (replicate (unat (capacity d) + 16) blank_entry) =
      entries d @ replicate 16 blank_entry"
      using ok by (subst copy_entries_take) (simp_all add: dir_ok_def)
    have r: "take (Suc 0) ((replicate 16 blank_entry)[0 := e]) = [e]" by (simp add: numeral_eq_Suc)
    show ?thesis using a ok n1 c16 False full ce r
      by (auto simp: AddEntry_def Directory_Create_def put_entry_def dir_ok_def dir_list_def Let_def list_update_append)
  qed
  show "i = unat (numEntries d)" "dir_ok (put_entry d' i e)" "dir_list (put_entry d' i e) = dir_list d @ [e]"
    using * by blast+
qed

lemma AddEntry_capacity:
  "unat (capacity d) + 16 < 2 ^ 64 \<Longrightarrow> AddEntry d = (d', i) \<Longrightarrow> unat (capacity d') \<le> unat (capacity d) + 16"
  using unat_add_small [of "capacity d" 16] by (auto simp: AddEntry_def Directory_Create_def Let_def split: if_splits)

lemma RemoveEntry_removes:
  assumes ok: "dir_ok d" and i: "i < unat (numEntries d)"
  shows "dir_ok (RemoveEntry d i)"
    and "dir_list (RemoveEntry d i) = take i (dir_list d) @ drop (i + 1) (dir_list d)"
proof -
  have n1: "unat (numEntries d - 1) = unat (numEntries d) - 1"
    using i by (simp add: unat_sub word_le_nat_alt)
  show "dir_ok (RemoveEntry d i)" using ok n1 by (auto simp: dir_ok_def RemoveEntry_def)
  show "dir_list (RemoveEntry d i) = take i (dir_list d) @ drop (i + 1) (dir_list d)"
  proof (rule nth_equalityI)
    show "length (dir_list (RemoveEntry d i)) = length (take i (dir_list d) @ drop (i + 1) (dir_list d))"
      using ok i n1 by (auto simp: dir_list_def RemoveEntry_def dir_ok_def)
    fix j assume "j < length (dir_list (RemoveEntry d i))"
    then show "dir_list (RemoveEntry d i) ! j = (take i (dir_list d) @ drop (i + 1) (dir_list d)) ! j"
      using ok i n1 by (auto simp: dir_list_def RemoveEntry_def dir_ok_def shift_entries_nth nth_append)
  qed
qed

text \<open>Both loops that match a name against a path agree, and \<open>FindEntry\<close> finds the first match.\<close>

lemma walk_index_PathWalk: "index \<le> length path \<Longrightarrow> CHR 0x00 \<notin> set nameCmp \<Longrightarrow>
  walk_index path nameCmp index = PathWalk (drop index path) (drop index nameCmp)"
proof (induction path nameCmp index rule: walk_index.induct)
  case (1 path nameCmp index)
  show ?case
  proof (cases "index \<ge> length nameCmp")
    case True
    then show ?thesis using 1(2) walk_index.simps [of path nameCmp index]
      by (cases "index < length path")
        (auto simp: char_at_def slash_def Cons_nth_drop_Suc [symmetric, of index path])
  next
    case False
    then have n: "drop index nameCmp = nameCmp ! index # drop (Suc index) nameCmp" by (simp add: Cons_nth_drop_Suc)
    have "nameCmp ! index \<noteq> CHR 0x00" using False 1(3) by (metis not_le nth_mem)
    then show ?thesis using 1 False n walk_index.simps [of path nameCmp index]
      by (cases "index < length path")
        (auto simp: char_at_def Cons_nth_drop_Suc [symmetric, of index path])
  qed
qed

lemma FindEntry_loop_first:
  "FindEntry_loop d path i = Some (j, rest) \<longleftrightarrow>
    i \<le> j \<and> j < unat (numEntries d) \<and> dir_PathWalk path (ename (entries d ! j)) = Some rest \<and>
    (\<forall>k. i \<le> k \<and> k < j \<longrightarrow> dir_PathWalk path (ename (entries d ! k)) = None)"
proof (induction d path i rule: FindEntry_loop.induct)
  case (1 d path i)
  then show ?case
    by (cases "i < unat (numEntries d)"; cases "dir_PathWalk path (ename (entries d ! i))")
      (auto simp: FindEntry_loop.simps [of d path i] Suc_le_eq dest: le_neq_implies_less)
qed

lemma CopyTo_prefix:
  "dir_ok d \<Longrightarrow> n \<le> unat (numEntries d) \<Longrightarrow> dir_ok to \<Longrightarrow> unat (capacity to) + 16 * (n + 1) < 2 ^ 64 \<Longrightarrow>
   dir_ok (fold (CopyTo_step d) [0..<n] to) \<and>
   dir_list (fold (CopyTo_step d) [0..<n] to) = dir_list to @ take n (dir_list d) \<and>
   unat (capacity (fold (CopyTo_step d) [0..<n] to)) \<le> unat (capacity to) + 16 * n"
proof (induction n)
  case (Suc n)
  let ?t = "fold (CopyTo_step d) [0..<n] to"
  have ih: "dir_ok ?t" "dir_list ?t = dir_list to @ take n (dir_list d)"
    "unat (capacity ?t) \<le> unat (capacity to) + 16 * n" using Suc by simp_all
  obtain t' j where a: "AddEntry ?t = (t', j)" by fastforce
  have room: "unat (capacity ?t) + 16 < 2 ^ 64" using ih(3) Suc.prems by simp
  note app = AddEntry_appends(2,3) [OF ih(1) room a, of "entries d ! n"]
  have cap: "unat (capacity t') \<le> unat (capacity ?t) + 16" by (rule AddEntry_capacity [OF room a])
  have "take (Suc n) (dir_list d) = take n (dir_list d) @ [entries d ! n]"
    using Suc.prems by (simp add: dir_list_def dir_ok_def take_Suc_conv_app_nth)
  moreover have "fold (CopyTo_step d) [0..<Suc n] to = put_entry t' j (entries d ! n)"
    using a by (simp add: CopyTo_step_def [of d n ?t])
  ultimately show ?case using app ih cap by (simp add: put_entry_def)
qed simp

lemma CopyTo_appends:
  "dir_ok d \<Longrightarrow> dir_ok to \<Longrightarrow> unat (capacity to) + 16 * (unat (numEntries d) + 1) < 2 ^ 64 \<Longrightarrow>
   dir_ok (CopyTo d to) \<and> dir_list (CopyTo d to) = dir_list to @ dir_list d"
  using CopyTo_prefix [of d "unat (numEntries d)" to] by (simp add: CopyTo_def dir_list_length)

text \<open>
  C35: A directory is the list of its entries: adding an entry appends it, also when the array has to
  grow; removing the entry at an index closes the gap; copying appends all entries in order; a lookup
  returns the first entry whose name is the first name of the path, with the rest of the path. All of
  them keep the counts within the array.
\<close>

theorem Directory_refines_list:
  assumes "dir_ok d" and "dir_ok to" and "unat (capacity d) + 16 < 2 ^ 64" and "i < length (dir_list d)"
    and "unat (capacity to) + 16 * (unat (numEntries d) + 1) < 2 ^ 64"
    and "list_all (\<lambda>x. CHR 0x00 \<notin> set (ename x)) (dir_list d)"
  shows "(let (d', j) = AddEntry d in dir_ok (put_entry d' j e) \<and> dir_list (put_entry d' j e) = dir_list d @ [e]) \<and>
    dir_ok (RemoveEntry d i) \<and> dir_list (RemoveEntry d i) = take i (dir_list d) @ drop (i + 1) (dir_list d) \<and>
    dir_ok (CopyTo d to) \<and> dir_list (CopyTo d to) = dir_list to @ dir_list d \<and>
    (FindEntry d path = Some (j, rest) \<longleftrightarrow> j < length (dir_list d) \<and> PathWalk path (ename (dir_list d ! j)) = Some rest \<and>
      (\<forall>k < j. PathWalk path (ename (dir_list d ! k)) = None))"
proof -
  have n: "length (dir_list d) = unat (numEntries d)" using assms(1) by (rule dir_list_length)
  have w: "dir_PathWalk path (ename (entries d ! k)) = PathWalk path (ename (dir_list d ! k))"
    if "k < length (dir_list d)" for k
    using assms(6) that walk_index_PathWalk [of 0 path "ename (entries d ! k)"]
    by (auto simp: dir_PathWalk_def list_all_length n) (auto simp: dir_list_def)
  have "FindEntry d path = Some (j, rest) \<longleftrightarrow> j < length (dir_list d) \<and>
      PathWalk path (ename (dir_list d ! j)) = Some rest \<and> (\<forall>k < j. PathWalk path (ename (dir_list d ! k)) = None)"
    using w by (auto simp: FindEntry_def FindEntry_loop_first n)
  moreover obtain d' j' where "AddEntry d = (d', j')" by fastforce
  ultimately show ?thesis
    using AddEntry_appends [OF assms(1,3)] RemoveEntry_removes [OF assms(1)] CopyTo_appends [OF assms(1,2,5)] assms(4) n
    by simp
qed

definition one_entry :: Directory where
  "one_entry = \<lparr> numEntries = 1, capacity = 1, entries = [\<lparr> ename = ''bin'', enodeID = 7 \<rparr>] \<rparr>"

theorem Directory_refines_list_witness:
  "dir_list (CopyTo one_entry (Directory_Create 0)) = [\<lparr> ename = ''bin'', enodeID = 7 \<rparr>] \<and>
   dir_list (RemoveEntry one_entry 0) = [] \<and>
   FindEntry one_entry ''bin/sh'' = Some (0, ''sh'')"
proof -
  have o: "dir_ok one_entry" "dir_list one_entry = [\<lparr> ename = ''bin'', enodeID = 7 \<rparr>]"
    by (simp_all add: one_entry_def dir_ok_def dir_list_def)
  have p: "PathWalk ''bin/sh'' ''bin'' = Some ''sh''" by (simp add: slash_def)
  show ?thesis
    using Directory_refines_list [OF o(1) Directory_Create_ok(1), of 0 0 blank_entry "''bin/sh''" 0 "''sh''"] p
    by (simp add: o one_entry_def [THEN arg_cong, of capacity] one_entry_def [THEN arg_cong, of numEntries]
        Directory_Create_def [THEN arg_cong, of capacity])
qed

end
