(* ===== verification/Vfs.thy ===== *)
theory Vfs
  imports Directory
begin

text \<open>
  The virtual file system, \<^verbatim>\<open>fs/VFS.cpp\<close>: nodes, mount points and open file descriptors live in three heaps
  (maps from addresses), and every operation of the file is a function on the state. An access through a
  pointer to nothing, a write outside of a fixed buffer and a failed allocation are the result \<open>None\<close>;
  an error code is \<open>Inl\<close>.

  A file system is an object with virtual functions, a driver likewise. They are the record \<open>fs_ops\<close>,
  an argument of every definition: functions on a \<open>world\<close> that holds the state of the file systems, the
  devices and the user memory. \<open>alloc\<close> is the kernel's \<^verbatim>\<open>new\<close>: it is told which addresses are in use.
  Every operation runs as one step, so the locks are not part of the state, and a node that is found in
  the cache is ready. The list of the children of a mount point and its node cache are lists of addresses,
  as theory \<open>AnchorList\<close> justifies.
\<close>

section \<open>Data\<close>

definition PermRead :: u8 where "PermRead = 0x1"
definition PermWrite :: u8 where "PermWrite = 0x2"
definition PermExecute :: u8 where "PermExecute = 0x4"
definition PermSetUID :: u8 where "PermSetUID = 0x1"

record Permissions =
  ownerPermissions :: u8
  groupPermissions :: u8
  otherPermissions :: u8
  specialFlags :: u8

definition mk_perms :: "u8 \<Rightarrow> u8 \<Rightarrow> u8 \<Rightarrow> Permissions" where
  "mk_perms own grp oth = \<lparr> ownerPermissions = own, groupPermissions = grp, otherPermissions = oth, specialFlags = 0 \<rparr>"

datatype NodeType = TYPE_FILE | TYPE_DIRECTORY | TYPE_DEVICE_CHAR | TYPE_DEVICE_BLOCK | TYPE_PIPE
  | TYPE_SYMLINK | TYPE_SOCKET | TYPE_PROXY_IO

text \<open>The union of a node: the member stored last; \<open>InfoZero\<close> is memory that holds zeros.\<close>

datatype NodeInfo =
    InfoZero
  | InfoFolder Directory
  | InfoFile u64
  | InfoDevice u64 u64
  | InfoSymlink string

record Node =
  node_id :: u64
  node_mp :: ptr
  refCount :: u64
  linkCount :: u64
  ready :: bool
  ntype :: NodeType
  info :: NodeInfo
  ownerUID :: u64
  ownerGID :: u64
  permissions :: Permissions
  fsData :: ptr

text \<open>\<open>new Node()\<close> zeroes the structure; the enumeration starts with \<open>TYPE_FILE\<close>.\<close>

definition new_node :: Node where
  "new_node = \<lparr> node_id = 0, node_mp = 0, refCount = 0, linkCount = 0, ready = False, ntype = TYPE_FILE, info = InfoZero,
     ownerUID = 0, ownerGID = 0, permissions = mk_perms 0 0 0, fsData = 0 \<rparr>"

record MountPoint =
  mparent :: ptr
  mpath :: string
  mfs :: ptr
  rootNode :: u64
  childMounts :: "ptr list"
  nodeCache :: "ptr list"
  mrefCount :: u64

definition new_mount :: MountPoint where
  "new_mount = \<lparr> mparent = 0, mpath = [], mfs = 0, rootNode = 0, childMounts = [], nodeCache = [], mrefCount = 0 \<rparr>"

record FileDescriptor =
  drefCount :: u64
  dnode :: ptr
  dpermissions :: u8
  dpos :: u64
  dpath :: string

datatype DriverType = TYPE_CHAR | TYPE_BLOCK

record FSEntry =
  fsID :: string
  needsDev :: bool
  factory :: ptr

record 'w fs_ops =
  alloc :: "'w \<Rightarrow> (ptr \<Rightarrow> bool) \<Rightarrow> ptr option"
  GetSuperBlock :: "ptr \<Rightarrow> 'w \<Rightarrow> (u64 \<times> 'w) option"
  SetMountPoint :: "ptr \<Rightarrow> ptr \<Rightarrow> 'w \<Rightarrow> 'w option"
  PrepareUnmount :: "ptr \<Rightarrow> 'w \<Rightarrow> 'w option"
  fsCreateNode :: "ptr \<Rightarrow> Node \<Rightarrow> 'w \<Rightarrow> (Node \<times> 'w) option"
  DestroyNode :: "ptr \<Rightarrow> Node \<Rightarrow> 'w \<Rightarrow> 'w option"
  ReadNode :: "ptr \<Rightarrow> u64 \<Rightarrow> Node \<Rightarrow> 'w \<Rightarrow> (Node \<times> 'w) option"
  UpdateDir :: "ptr \<Rightarrow> Node \<Rightarrow> 'w \<Rightarrow> (Node \<times> 'w) option"
  ReadNodeData :: "ptr \<Rightarrow> Node \<Rightarrow> u64 \<Rightarrow> ptr \<Rightarrow> u64 \<Rightarrow> 'w \<Rightarrow> (u64 \<times> Node \<times> 'w) option"
  WriteNodeData :: "ptr \<Rightarrow> Node \<Rightarrow> u64 \<Rightarrow> ptr \<Rightarrow> u64 \<Rightarrow> 'w \<Rightarrow> (u64 \<times> Node \<times> 'w) option"
  ClearNodeData :: "ptr \<Rightarrow> Node \<Rightarrow> 'w \<Rightarrow> (Node \<times> 'w) option"
  driverType :: "u64 \<Rightarrow> 'w \<Rightarrow> DriverType option"
  CharRead :: "u64 \<Rightarrow> u64 \<Rightarrow> ptr \<Rightarrow> u64 \<Rightarrow> 'w \<Rightarrow> (u64 \<times> 'w) option"
  CharWrite :: "u64 \<Rightarrow> u64 \<Rightarrow> ptr \<Rightarrow> u64 \<Rightarrow> 'w \<Rightarrow> (u64 \<times> 'w) option"
  GetData :: "u64 \<Rightarrow> u64 \<Rightarrow> u64 \<Rightarrow> ptr \<Rightarrow> u64 \<Rightarrow> 'w \<Rightarrow> (u64 \<times> 'w) option"
  SetData :: "u64 \<Rightarrow> u64 \<Rightarrow> u64 \<Rightarrow> ptr \<Rightarrow> u64 \<Rightarrow> 'w \<Rightarrow> (u64 \<times> 'w) option"
  driverCommand :: "u64 \<Rightarrow> u64 \<Rightarrow> int \<Rightarrow> ptr \<Rightarrow> 'w \<Rightarrow> (int \<times> 'w) option"
  runFactory :: "ptr \<Rightarrow> 'w \<Rightarrow> (ptr \<times> 'w) option"
  runFactoryDev :: "ptr \<Rightarrow> u64 \<Rightarrow> u64 \<Rightarrow> 'w \<Rightarrow> (ptr \<times> 'w) option"
  deleteFS :: "ptr \<Rightarrow> 'w \<Rightarrow> 'w option"
  copy_to_user :: "ptr \<Rightarrow> string \<Rightarrow> 'w \<Rightarrow> bool \<times> 'w"

record 'w vfs =
  nodes :: "ptr \<Rightarrow> Node option"
  mounts :: "ptr \<Rightarrow> MountPoint option"
  descs :: "ptr \<Rightarrow> FileDescriptor option"
  g_RootMount :: ptr
  g_PipeMount :: ptr
  g_FileSystems :: "FSEntry list"
  world :: 'w

text \<open>What an operation uses of the calling thread.\<close>

record caller =
  caller_uid :: u64
  caller_gid :: u64
  caller_cwd :: string

definition put_node :: "ptr \<Rightarrow> Node \<Rightarrow> 'w vfs \<Rightarrow> 'w vfs" where
  "put_node p n s = s \<lparr> nodes := (nodes s)(p \<mapsto> n) \<rparr>"

definition put_mount :: "ptr \<Rightarrow> MountPoint \<Rightarrow> 'w vfs \<Rightarrow> 'w vfs" where
  "put_mount p m s = s \<lparr> mounts := (mounts s)(p \<mapsto> m) \<rparr>"

definition put_desc :: "ptr \<Rightarrow> FileDescriptor \<Rightarrow> 'w vfs \<Rightarrow> 'w vfs" where
  "put_desc p d s = s \<lparr> descs := (descs s)(p \<mapsto> d) \<rparr>"

definition in_use :: "'w vfs \<Rightarrow> ptr \<Rightarrow> bool" where
  "in_use s p \<longleftrightarrow> p = 0 \<or> nodes s p \<noteq> None \<or> mounts s p \<noteq> None \<or> descs s p \<noteq> None"

definition new_addr :: "'w fs_ops \<Rightarrow> 'w vfs \<Rightarrow> ptr option" where
  "new_addr fo s = alloc fo (world s) (in_use s)"

section \<open>Mount points\<close>

definition mount_inc :: "ptr \<Rightarrow> 'w vfs \<Rightarrow> 'w vfs option" where
  "mount_inc p s = do { m \<leftarrow> mounts s p; Some (put_mount p (m \<lparr> mrefCount := mrefCount m + 1 \<rparr>) s) }"

definition mount_dec :: "ptr \<Rightarrow> 'w vfs \<Rightarrow> 'w vfs option" where
  "mount_dec p s = do { m \<leftarrow> mounts s p; Some (put_mount p (m \<lparr> mrefCount := mrefCount m - 1 \<rparr>) s) }"

text \<open>The first child whose path is a prefix of the path (\<open>Some None\<close> if there is none).\<close>

fun find_child :: "'w vfs \<Rightarrow> string \<Rightarrow> ptr list \<Rightarrow> ptr option option" where
  "find_child s path [] = Some None"
| "find_child s path (c # cs) =
     do { m \<leftarrow> mounts s c; if MountCmp path (mpath m) then Some (Some c) else find_child s path cs }"

partial_function (option) FindMountPoint_loop :: "string \<Rightarrow> ptr \<Rightarrow> 'w vfs \<Rightarrow> (ptr \<times> 'w vfs) option" where
  "FindMountPoint_loop path current s =
     do { m \<leftarrow> mounts s current;
          next \<leftarrow> find_child s path (childMounts m);
          (case next of
             None \<Rightarrow> Some (current, s)
           | Some c \<Rightarrow>
               do { s \<leftarrow> mount_inc c s;
                    s \<leftarrow> (if current \<noteq> g_RootMount s then mount_dec current s else Some s);
                    FindMountPoint_loop path c s }) }"

definition FindMountPoint :: "string \<Rightarrow> 'w vfs \<Rightarrow> (ptr \<times> 'w vfs) option" where
  "FindMountPoint path s = FindMountPoint_loop path (g_RootMount s) s"

definition ReleaseMountPoint :: "ptr \<Rightarrow> bool \<Rightarrow> 'w vfs \<Rightarrow> 'w vfs option" where
  "ReleaseMountPoint mp decrement s = (if mp \<noteq> g_RootMount s \<and> decrement then mount_dec mp s else Some s)"

section \<open>Nodes\<close>

fun find_cached :: "'w vfs \<Rightarrow> u64 \<Rightarrow> ptr list \<Rightarrow> ptr option option" where
  "find_cached s i [] = Some None"
| "find_cached s i (p # ps) = do { n \<leftarrow> nodes s p; if node_id n = i then Some (Some p) else find_cached s i ps }"

definition AcquireNode :: "'w fs_ops \<Rightarrow> ptr \<Rightarrow> u64 \<Rightarrow> 'w vfs \<Rightarrow> (ptr \<times> 'w vfs) option" where
  "AcquireNode fo mp nodeID s =
     do { m \<leftarrow> mounts s mp;
          cached \<leftarrow> find_cached s nodeID (nodeCache m);
          (case cached of
             Some p \<Rightarrow> do { n \<leftarrow> nodes s p; Some (p, put_node p (n \<lparr> refCount := refCount n + 1 \<rparr>) s) }
           | None \<Rightarrow>
               do { p \<leftarrow> new_addr fo s;
                    let n = new_node \<lparr> node_id := nodeID, node_mp := mp, refCount := 1, ready := False \<rparr>;
                        s = put_mount mp (m \<lparr> nodeCache := nodeCache m @ [p] \<rparr>) s
                    in do { (n, w) \<leftarrow> ReadNode fo (mfs m) nodeID n (world s);
                            Some (p, put_node p (n \<lparr> ready := True \<rparr>) (s \<lparr> world := w \<rparr>)) } }) }"

definition ReleaseNode :: "'w fs_ops \<Rightarrow> ptr \<Rightarrow> bool \<Rightarrow> 'w vfs \<Rightarrow> 'w vfs option" where
  "ReleaseNode fo p decrement s =
     do { n \<leftarrow> nodes s p;
          m \<leftarrow> mounts s (node_mp n);
          let n = (if decrement then n \<lparr> refCount := refCount n - 1 \<rparr> else n)
          in if refCount n = 0 \<and> linkCount n = 0 then
               if p \<in> set (nodeCache m) then
                 do { w \<leftarrow> DestroyNode fo (mfs m) n (world s);
                      Some (put_mount (node_mp n) (m \<lparr> nodeCache := remove1 p (nodeCache m) \<rparr>)
                              (s \<lparr> nodes := (nodes s)(p := None), world := w \<rparr>)) }
               else None
             else Some (put_node p n s) }"

definition CheckPermissions :: "u64 \<Rightarrow> u64 \<Rightarrow> Node \<Rightarrow> u8 \<Rightarrow> bool" where
  "CheckPermissions uid gid n reqPerms =
     (if uid = 0 then True
      else if uid = ownerUID n then ownerPermissions (permissions n) AND reqPerms = reqPerms
      else if gid = ownerGID n then groupPermissions (permissions n) AND reqPerms = reqPerms
      else otherPermissions (permissions n) AND reqPerms = reqPerms)"

definition GetNodeDir :: "'w fs_ops \<Rightarrow> ptr \<Rightarrow> 'w vfs \<Rightarrow> (Directory \<times> 'w vfs) option" where
  "GetNodeDir fo p s =
     do { n \<leftarrow> nodes s p;
          m \<leftarrow> mounts s (node_mp n);
          (n, w) \<leftarrow> UpdateDir fo (mfs m) n (world s);
          (case info n of
             InfoFolder d \<Rightarrow> Some (d, put_node p n (s \<lparr> world := w \<rparr>))
           | _ \<Rightarrow> None) }"

definition CreateNode :: "'w fs_ops \<Rightarrow> ptr \<Rightarrow> u64 \<Rightarrow> 'w vfs \<Rightarrow> (ptr \<times> 'w vfs) option" where
  "CreateNode fo mp softRefs s =
     do { p \<leftarrow> new_addr fo s;
          m \<leftarrow> mounts s mp;
          (n, w) \<leftarrow> fsCreateNode fo (mfs m) new_node (world s);
          Some (p, put_node p (n \<lparr> refCount := softRefs, node_mp := mp \<rparr>)
                     (put_mount mp (m \<lparr> nodeCache := nodeCache m @ [p] \<rparr>) (s \<lparr> world := w \<rparr>))) }"

section \<open>Path lookup\<close>

text \<open>The loop over the entries of one directory.\<close>

fun match_entry :: "string \<Rightarrow> DirectoryEntry list \<Rightarrow> (u64 \<times> string) option" where
  "match_entry path [] = None"
| "match_entry path (e # es) =
     (case PathWalk path (ename e) of Some rest \<Rightarrow> Some (enodeID e, rest) | None \<Rightarrow> match_entry path es)"

text \<open>The result of \<open>_AcquirePathRec\<close>: a node and its parent (null if the path ends before the first name or
  does not exist), with the path that is left; a symbolic link; an error.\<close>

datatype acquired = Acquired ptr ptr string | FoundSymlink ptr ptr string | AcquireFailed kerror

lemma PathWalk_shorter: "PathWalk path e = Some rest \<Longrightarrow> rest \<noteq> [] \<Longrightarrow> length rest < length path"
  by (auto simp: PathWalk_iff)

lemma match_entry_shorter: "match_entry path es = Some (i, rest) \<Longrightarrow> rest \<noteq> [] \<Longrightarrow> length rest < length path"
  by (induction path es rule: match_entry.induct) (auto split: option.splits dest: PathWalk_shorter)

function AcquirePathRec_loop ::
  "'w fs_ops \<Rightarrow> u64 \<Rightarrow> u64 \<Rightarrow> ptr \<Rightarrow> bool \<Rightarrow> bool \<Rightarrow> string \<Rightarrow> ptr \<Rightarrow> 'w vfs \<Rightarrow> (acquired \<times> 'w vfs) option" where
  "AcquirePathRec_loop fo uid gid mp fileHasToExist deleteMode path current s =
     do { n \<leftarrow> nodes s current;
          if ntype n \<noteq> TYPE_DIRECTORY then
            do { s \<leftarrow> ReleaseNode fo current True s; Some (AcquireFailed ErrorFileNotFound, s) }
          else if \<not> CheckPermissions uid gid n PermExecute then
            do { s \<leftarrow> ReleaseNode fo current True s; Some (AcquireFailed ErrorPermissionDenied, s) }
          else
            do { (d, s) \<leftarrow> GetNodeDir fo current s;
                 (case match_entry path (dir_list d) of
                    Some (i, rest) \<Rightarrow>
                      do { (next, s) \<leftarrow> AcquireNode fo mp i s;
                           x \<leftarrow> nodes s next;
                           if deleteMode \<and> rest = [] then Some (Acquired next current rest, s)
                           else if ntype x = TYPE_SYMLINK then Some (FoundSymlink next current rest, s)
                           else if rest = [] then Some (Acquired next current rest, s)
                           else do { s \<leftarrow> ReleaseNode fo current True s;
                                     AcquirePathRec_loop fo uid gid mp fileHasToExist deleteMode rest next s } }
                  | None \<Rightarrow>
                      if fileHasToExist \<or> \<not> IsLastPathEntry path then
                        do { s \<leftarrow> ReleaseNode fo current True s; Some (AcquireFailed ErrorFileNotFound, s) }
                      else Some (Acquired nullptr current path, s)) } }"
  by pat_completeness auto
termination
  by (relation "measure (\<lambda>(fo, uid, gid, mp, fe, dm, path, cur, s). length path)") (auto dest: match_entry_shorter)

declare AcquirePathRec_loop.simps [simp del]

definition AcquirePathRec ::
  "'w fs_ops \<Rightarrow> u64 \<Rightarrow> u64 \<Rightarrow> ptr \<Rightarrow> string \<Rightarrow> bool \<Rightarrow> bool \<Rightarrow> 'w vfs \<Rightarrow> (acquired \<times> 'w vfs) option" where
  "AcquirePathRec fo uid gid mp path fileHasToExist deleteMode s =
     do { m \<leftarrow> mounts s mp;
          (current, s) \<leftarrow> AcquireNode fo mp (rootNode m) s;
          if path = [] then Some (Acquired current nullptr path, s)
          else AcquirePathRec_loop fo uid gid mp fileHasToExist deleteMode path current s }"

text \<open>What \<open>AcquirePath\<close> stores in its output parameters: the mount point, the buffer as it is afterwards,
  the part of it that is left, the node and its parent.\<close>

record located =
  lMP :: ptr
  lBuffer :: string
  lPath :: string
  lNode :: ptr
  lParent :: ptr

text \<open>The text of the symbolic link followed by the rest of the path.\<close>

definition substitute_link :: "string \<Rightarrow> string \<Rightarrow> string" where
  "substitute_link linkPath restPath = (if restPath \<noteq> [] then linkPath @ slash # restPath else linkPath)"

definition link_of :: "Node \<Rightarrow> string option" where
  "link_of n = (case info n of InfoSymlink l \<Rightarrow> Some l | _ \<Rightarrow> None)"

text \<open>One round: the lookup ends, or it has met a symbolic link and goes on with a new path.\<close>

datatype round = Done "kerror + located" | Retry string

definition AcquirePath_round ::
  "'w fs_ops \<Rightarrow> u64 \<Rightarrow> u64 \<Rightarrow> string \<Rightarrow> bool \<Rightarrow> bool \<Rightarrow> 'w vfs \<Rightarrow> (round \<times> 'w vfs) option" where
  "AcquirePath_round fo uid gid path fileHasToExist deleteMode s =
     do { (mp, s) \<leftarrow> FindMountPoint path s;
          m \<leftarrow> mounts s mp;
          (r, s) \<leftarrow> AcquirePathRec fo uid gid mp (AdvancePath path (mpath m)) fileHasToExist deleteMode s;
          (case r of
             Acquired node parent rest \<Rightarrow>
               Some (Done (Inr \<lparr> lMP = mp, lBuffer = path, lPath = rest, lNode = node, lParent = parent \<rparr>), s)
           | AcquireFailed e \<Rightarrow> do { s \<leftarrow> ReleaseMountPoint mp True s; Some (Done (Inl e), s) }
           | FoundSymlink node parent rest \<Rightarrow>
               do { n \<leftarrow> nodes s node;
                    linkPath \<leftarrow> link_of n;
                    s \<leftarrow> ReleaseNode fo node True s;
                    s \<leftarrow> ReleaseNode fo parent True s;
                    s \<leftarrow> ReleaseMountPoint mp True s;
                    if length linkPath + length rest + 2 > 255 then Some (Done (Inl ErrorPathTooLong), s)
                    else Some (Retry (substitute_link linkPath rest), s) }) }"

text \<open>Links that lead back to themselves make the loop run forever: then it has no result.\<close>

partial_function (option) AcquirePath ::
  "'w fs_ops \<Rightarrow> u64 \<Rightarrow> u64 \<Rightarrow> string \<Rightarrow> bool \<Rightarrow> bool \<Rightarrow> 'w vfs \<Rightarrow> ((kerror + located) \<times> 'w vfs) option" where
  "AcquirePath fo uid gid path fileHasToExist deleteMode s =
     do { (r, s) \<leftarrow> AcquirePath_round fo uid gid path fileHasToExist deleteMode s;
          (case r of
             Done res \<Rightarrow> Some (res, s)
           | Retry path \<Rightarrow> AcquirePath fo uid gid path fileHasToExist deleteMode s) }"

declare FindMountPoint_loop.simps [code] AcquirePath.simps [code] AcquirePathRec_loop.simps [code]

section \<open>Creating files\<close>

definition VFS_Init :: "'w fs_ops \<Rightarrow> ptr \<Rightarrow> ptr \<Rightarrow> 'w vfs \<Rightarrow> 'w vfs option" where
  "VFS_Init fo rootFS pipeFS s =
     do { mp \<leftarrow> new_addr fo s;
          (root, w) \<leftarrow> GetSuperBlock fo rootFS (world s);
          w \<leftarrow> SetMountPoint fo rootFS mp w;
          let s = put_mount mp (new_mount \<lparr> mfs := rootFS, mrefCount := 2, rootNode := root, mpath := [] \<rparr>)
                    (s \<lparr> world := w, g_RootMount := mp \<rparr>)
          in do { pp \<leftarrow> new_addr fo s;
                  Some (put_mount pp (new_mount \<lparr> mfs := pipeFS \<rparr>) (s \<lparr> g_PipeMount := pp \<rparr>)) } }"

text \<open>A name is copied into an array of 50 characters; a longer one overwrites what follows the array.\<close>

definition entry_name :: "string \<Rightarrow> string option" where
  "entry_name tmpPath = (if length tmpPath < 50 then Some tmpPath else None)"

definition AddDirEntry :: "'w fs_ops \<Rightarrow> ptr \<Rightarrow> u64 \<Rightarrow> string \<Rightarrow> 'w vfs \<Rightarrow> 'w vfs option" where
  "AddDirEntry fo parent i tmpPath s =
     do { (dir, s) \<leftarrow> GetNodeDir fo parent s;
          name \<leftarrow> entry_name tmpPath;
          n \<leftarrow> nodes s parent;
          let (dir, e) = AddEntry dir
          in Some (put_node parent (n \<lparr> info := InfoFolder (put_entry dir e \<lparr> ename = name, enodeID = i \<rparr>) \<rparr>) s) }"

text \<open>The common text of the functions that create a node: \<open>init\<close> is what each of them writes into it.\<close>

definition create_at ::
  "'w fs_ops \<Rightarrow> caller \<Rightarrow> string option \<Rightarrow> ('w vfs \<Rightarrow> Node \<Rightarrow> Node option) \<Rightarrow> 'w vfs \<Rightarrow> ((kerror + unit) \<times> 'w vfs) option" where
  "create_at fo c path init s =
     (case PreparePath (caller_cwd c) path of
        Inl e \<Rightarrow> Some (Inl e, s)
      | Inr cleanBuffer \<Rightarrow>
          do { (r, s) \<leftarrow> AcquirePath fo (caller_uid c) (caller_gid c) cleanBuffer False False s;
               (case r of
                  Inl e \<Rightarrow> Some (Inl e, s)
                | Inr l \<Rightarrow>
                    if lParent l = nullptr then
                      do { s \<leftarrow> ReleaseNode fo (lNode l) True s;
                           s \<leftarrow> ReleaseMountPoint (lMP l) True s;
                           Some (Inl ErrorFileExists, s) }
                    else if lNode l \<noteq> nullptr then
                      do { s \<leftarrow> ReleaseNode fo (lParent l) True s;
                           s \<leftarrow> ReleaseNode fo (lNode l) True s;
                           s \<leftarrow> ReleaseMountPoint (lMP l) True s;
                           Some (Inl ErrorFileExists, s) }
                    else
                      do { pn \<leftarrow> nodes s (lParent l);
                           if \<not> CheckPermissions (caller_uid c) (caller_gid c) pn PermWrite then
                             do { s \<leftarrow> ReleaseNode fo (lParent l) True s;
                                  s \<leftarrow> ReleaseMountPoint (lMP l) True s;
                                  Some (Inl ErrorPermissionDenied, s) }
                           else
                             do { (newNode, s) \<leftarrow> CreateNode fo (lMP l) 1 s;
                                  n \<leftarrow> nodes s newNode;
                                  n \<leftarrow> init s n;
                                  let n = n \<lparr> linkCount := 1, ownerGID := caller_gid c, ownerUID := caller_uid c \<rparr>;
                                      s = put_node newNode n s
                                  in do { s \<leftarrow> AddDirEntry fo (lParent l) (node_id n) (lPath l) s;
                                          s \<leftarrow> ReleaseNode fo (lParent l) True s;
                                          s \<leftarrow> ReleaseNode fo newNode True s;
                                          s \<leftarrow> ReleaseMountPoint (lMP l) True s;
                                          Some (Inr (), s) } } }) })"

definition CreateFile :: "'w fs_ops \<Rightarrow> caller \<Rightarrow> string option \<Rightarrow> Permissions \<Rightarrow> 'w vfs \<Rightarrow> ((kerror + unit) \<times> 'w vfs) option" where
  "CreateFile fo c path perms =
     create_at fo c path (\<lambda>_ n. Some (n \<lparr> ntype := TYPE_FILE, info := InfoFile 0, permissions := perms \<rparr>))"

definition CreateFolder :: "'w fs_ops \<Rightarrow> caller \<Rightarrow> string option \<Rightarrow> Permissions \<Rightarrow> 'w vfs \<Rightarrow> ((kerror + unit) \<times> 'w vfs) option" where
  "CreateFolder fo c path perms =
     create_at fo c path
       (\<lambda>_ n. Some (n \<lparr> ntype := TYPE_DIRECTORY, info := InfoFolder (Directory_Create 10), permissions := perms \<rparr>))"

text \<open>An unknown driver is a null pointer, and asking for its type a fault.\<close>

definition CreateDeviceFile ::
  "'w fs_ops \<Rightarrow> caller \<Rightarrow> string option \<Rightarrow> Permissions \<Rightarrow> u64 \<Rightarrow> u64 \<Rightarrow> 'w vfs \<Rightarrow> ((kerror + unit) \<times> 'w vfs) option" where
  "CreateDeviceFile fo c path perms driverID subID =
     create_at fo c path
       (\<lambda>s n. do { t \<leftarrow> driverType fo driverID (world s);
                   Some (n \<lparr> ntype := (if t = TYPE_BLOCK then TYPE_DEVICE_BLOCK else TYPE_DEVICE_CHAR),
                             info := InfoDevice driverID subID, permissions := perms \<rparr>) })"

definition CreateSymLink ::
  "'w fs_ops \<Rightarrow> caller \<Rightarrow> string option \<Rightarrow> Permissions \<Rightarrow> string \<Rightarrow> 'w vfs \<Rightarrow> ((kerror + unit) \<times> 'w vfs) option" where
  "CreateSymLink fo c path perms linkPath =
     create_at fo c path (\<lambda>_ n. Some (n \<lparr> ntype := TYPE_SYMLINK, info := InfoSymlink linkPath, permissions := perms \<rparr>))"

definition CreatePipe :: "'w fs_ops \<Rightarrow> 'w vfs \<Rightarrow> ((ptr \<times> ptr) \<times> 'w vfs) option" where
  "CreatePipe fo s =
     do { (p, s) \<leftarrow> CreateNode fo (g_PipeMount s) 2 s;
          n \<leftarrow> nodes s p;
          let s = put_node p (n \<lparr> ntype := TYPE_PIPE \<rparr>) s
          in do { r \<leftarrow> new_addr fo s;
                  let s = put_desc r \<lparr> drefCount = 1, dnode = p, dpermissions = PermRead, dpos = 0, dpath = [] \<rparr> s
                  in do { w \<leftarrow> new_addr fo s;
                          Some ((r, w), put_desc w \<lparr> drefCount = 1, dnode = p, dpermissions = PermWrite, dpos = 0, dpath = [] \<rparr> s) } } }"

text \<open>A hard link: the target is looked up first, then the place of the new entry.\<close>

definition CreateHardLink :: "'w fs_ops \<Rightarrow> caller \<Rightarrow> string option \<Rightarrow> string option \<Rightarrow> 'w vfs \<Rightarrow> ((kerror + unit) \<times> 'w vfs) option" where
  "CreateHardLink fo c path linkPath s =
     (case PreparePath (caller_cwd c) linkPath of
        Inl e \<Rightarrow> Some (Inl e, s)
      | Inr cleanBuffer \<Rightarrow>
          do { (r, s) \<leftarrow> AcquirePath fo (caller_uid c) (caller_gid c) cleanBuffer True False s;
               (case r of
                  Inl e \<Rightarrow> Some (Inl e, s)
                | Inr k \<Rightarrow>
                    do { s \<leftarrow> (if lParent k \<noteq> nullptr then ReleaseNode fo (lParent k) True s else Some s);
                         kn \<leftarrow> nodes s (lNode k);
                         if ntype kn = TYPE_DIRECTORY then
                           do { s \<leftarrow> ReleaseNode fo (lNode k) True s;
                                s \<leftarrow> ReleaseMountPoint (lMP k) True s;
                                Some (Inl ErrorHardlinkToFolder, s) }
                         else
                           (case PreparePath (caller_cwd c) path of
                              Inl e \<Rightarrow>
                                do { s \<leftarrow> ReleaseNode fo (lNode k) True s;
                                     s \<leftarrow> ReleaseMountPoint (lMP k) True s;
                                     Some (Inl e, s) }
                            | Inr cleanBuffer \<Rightarrow>
                                do { (r, s) \<leftarrow> AcquirePath fo (caller_uid c) (caller_gid c) cleanBuffer False False s;
                                     (case r of
                                        Inl e \<Rightarrow>
                                          do { s \<leftarrow> ReleaseNode fo (lNode k) True s;
                                               s \<leftarrow> ReleaseMountPoint (lMP k) True s;
                                               Some (Inl e, s) }
                                      | Inr l \<Rightarrow>
                                          if lParent l = nullptr then
                                            do { s \<leftarrow> ReleaseNode fo (lNode k) True s;
                                                 s \<leftarrow> ReleaseMountPoint (lMP k) True s;
                                                 s \<leftarrow> ReleaseNode fo (lNode l) True s;
                                                 s \<leftarrow> ReleaseMountPoint (lMP l) True s;
                                                 Some (Inl ErrorFileExists, s) }
                                          else if lNode l \<noteq> nullptr then
                                            do { s \<leftarrow> ReleaseNode fo (lNode k) True s;
                                                 s \<leftarrow> ReleaseMountPoint (lMP k) True s;
                                                 s \<leftarrow> ReleaseNode fo (lParent l) True s;
                                                 s \<leftarrow> ReleaseNode fo (lNode l) True s;
                                                 s \<leftarrow> ReleaseMountPoint (lMP l) True s;
                                                 Some (Inl ErrorFileExists, s) }
                                          else
                                            do { pn \<leftarrow> nodes s (lParent l);
                                                 if \<not> CheckPermissions (caller_uid c) (caller_gid c) pn PermWrite then
                                                   do { s \<leftarrow> ReleaseNode fo (lNode k) True s;
                                                        s \<leftarrow> ReleaseMountPoint (lMP k) True s;
                                                        s \<leftarrow> ReleaseNode fo (lParent l) True s;
                                                        s \<leftarrow> ReleaseMountPoint (lMP l) True s;
                                                        Some (Inl ErrorPermissionDenied, s) }
                                                 else if lMP l \<noteq> lMP k then
                                                   do { s \<leftarrow> ReleaseNode fo (lNode k) True s;
                                                        s \<leftarrow> ReleaseMountPoint (lMP k) True s;
                                                        s \<leftarrow> ReleaseNode fo (lParent l) True s;
                                                        s \<leftarrow> ReleaseMountPoint (lMP l) True s;
                                                        Some (Inl ErrorHardlinkToDifferentFS, s) }
                                                 else
                                                   do { kn \<leftarrow> nodes s (lNode k);
                                                        let s = put_node (lNode k) (kn \<lparr> linkCount := linkCount kn + 1 \<rparr>) s
                                                        in do { s \<leftarrow> AddDirEntry fo (lParent l) (node_id kn) (lPath l) s;
                                                                s \<leftarrow> ReleaseNode fo (lParent l) True s;
                                                                s \<leftarrow> ReleaseMountPoint (lMP l) True s;
                                                                s \<leftarrow> ReleaseNode fo (lNode k) True s;
                                                                s \<leftarrow> ReleaseMountPoint (lMP k) True s;
                                                                Some (Inr (), s) } } }) }) }) })"

section \<open>Removing and changing\<close>

text \<open>The index of the entry with the name.\<close>

fun find_name :: "string \<Rightarrow> DirectoryEntry list \<Rightarrow> nat option" where
  "find_name name [] = None"
| "find_name name (e # es) = (if name = ename e then Some 0 else map_option Suc (find_name name es))"

text \<open>The part of \<open>Delete\<close> behind the checks. If the entry is gone, the references stay taken.\<close>

definition delete_entry :: "'w fs_ops \<Rightarrow> located \<Rightarrow> 'w vfs \<Rightarrow> ((kerror + unit) \<times> 'w vfs) option" where
  "delete_entry fo l s =
     do { (dir, s) \<leftarrow> GetNodeDir fo (lParent l) s;
          (case find_name (GetFileName (lBuffer l)) (dir_list dir) of
             None \<Rightarrow> Some (Inl ErrorFileNotFound, s)
           | Some i \<Rightarrow>
               do { pn \<leftarrow> nodes s (lParent l);
                    let s = put_node (lParent l) (pn \<lparr> info := InfoFolder (RemoveEntry dir i) \<rparr>) s
                    in do { n \<leftarrow> nodes s (lNode l);
                            let s = put_node (lNode l) (n \<lparr> linkCount := linkCount n - 1 \<rparr>) s
                            in do { s \<leftarrow> ReleaseNode fo (lNode l) True s;
                                    s \<leftarrow> ReleaseNode fo (lParent l) True s;
                                    s \<leftarrow> ReleaseMountPoint (lMP l) True s;
                                    Some (Inr (), s) } } }) }"

text \<open>The checks: the located node and its parent are handed on if the entry may be removed.\<close>

definition delete_check :: "'w fs_ops \<Rightarrow> caller \<Rightarrow> string option \<Rightarrow> 'w vfs \<Rightarrow> ((kerror + located) \<times> 'w vfs) option" where
  "delete_check fo c path s =
     (case PreparePath (caller_cwd c) path of
        Inl e \<Rightarrow> Some (Inl e, s)
      | Inr cleanBuffer \<Rightarrow>
          do { (r, s) \<leftarrow> AcquirePath fo (caller_uid c) (caller_gid c) cleanBuffer True True s;
               (case r of
                  Inl e \<Rightarrow> Some (Inl e, s)
                | Inr l \<Rightarrow>
                    if lParent l = nullptr then
                      do { s \<leftarrow> ReleaseNode fo (lNode l) True s;
                           s \<leftarrow> ReleaseMountPoint (lMP l) True s;
                           Some (Inl ErrorDeleteMountPoint, s) }
                    else
                      do { pn \<leftarrow> nodes s (lParent l);
                           if \<not> CheckPermissions (caller_uid c) (caller_gid c) pn PermWrite then
                             do { s \<leftarrow> ReleaseNode fo (lParent l) True s;
                                  s \<leftarrow> ReleaseNode fo (lNode l) True s;
                                  s \<leftarrow> ReleaseMountPoint (lMP l) True s;
                                  Some (Inl ErrorPermissionDenied, s) }
                           else
                             do { n \<leftarrow> nodes s (lNode l);
                                  if ntype n = TYPE_DIRECTORY then
                                    do { (dir, s) \<leftarrow> GetNodeDir fo (lNode l) s;
                                         if numEntries dir \<noteq> 0 then
                                           do { s \<leftarrow> ReleaseNode fo (lNode l) True s;
                                                s \<leftarrow> ReleaseNode fo (lParent l) True s;
                                                s \<leftarrow> ReleaseMountPoint (lMP l) True s;
                                                Some (Inl ErrorFolderNotEmpty, s) }
                                         else Some (Inr l, s) }
                                  else Some (Inr l, s) } }) })"

definition Delete :: "'w fs_ops \<Rightarrow> caller \<Rightarrow> string option \<Rightarrow> 'w vfs \<Rightarrow> ((kerror + unit) \<times> 'w vfs) option" where
  "Delete fo c path s =
     do { (r, s) \<leftarrow> delete_check fo c path s;
          (case r of Inl e \<Rightarrow> Some (Inl e, s) | Inr l \<Rightarrow> delete_entry fo l s) }"

text \<open>The common text of the functions that look a node up and use it: the parent is released at once.\<close>

definition with_node ::
  "'w fs_ops \<Rightarrow> caller \<Rightarrow> string option \<Rightarrow> bool \<Rightarrow> (located \<Rightarrow> Node \<Rightarrow> 'w vfs \<Rightarrow> ((kerror + 'a) \<times> 'w vfs) option) \<Rightarrow>
   'w vfs \<Rightarrow> ((kerror + 'a) \<times> 'w vfs) option" where
  "with_node fo c path deleteMode body s =
     (case PreparePath (caller_cwd c) path of
        Inl e \<Rightarrow> Some (Inl e, s)
      | Inr cleanBuffer \<Rightarrow>
          do { (r, s) \<leftarrow> AcquirePath fo (caller_uid c) (caller_gid c) cleanBuffer True deleteMode s;
               (case r of
                  Inl e \<Rightarrow> Some (Inl e, s)
                | Inr l \<Rightarrow>
                    do { s \<leftarrow> (if lParent l \<noteq> nullptr then ReleaseNode fo (lParent l) True s else Some s);
                         n \<leftarrow> nodes s (lNode l);
                         (r, s) \<leftarrow> body l n s;
                         s \<leftarrow> ReleaseNode fo (lNode l) True s;
                         s \<leftarrow> ReleaseMountPoint (lMP l) True s;
                         Some (r, s) }) })"

definition ChangeOwner :: "'w fs_ops \<Rightarrow> caller \<Rightarrow> string option \<Rightarrow> u64 \<Rightarrow> u64 \<Rightarrow> 'w vfs \<Rightarrow> ((kerror + unit) \<times> 'w vfs) option" where
  "ChangeOwner fo c path newUID newGID =
     with_node fo c path False
       (\<lambda>l n s. if caller_uid c \<noteq> 0 \<and> caller_uid c \<noteq> ownerUID n then Some (Inl ErrorPermissionDenied, s)
                else Some (Inr (), put_node (lNode l) (n \<lparr> ownerUID := newUID, ownerGID := newGID \<rparr>) s))"

definition ChangePermissions :: "'w fs_ops \<Rightarrow> caller \<Rightarrow> string option \<Rightarrow> Permissions \<Rightarrow> 'w vfs \<Rightarrow> ((kerror + unit) \<times> 'w vfs) option" where
  "ChangePermissions fo c path perms =
     with_node fo c path False
       (\<lambda>l n s. if caller_uid c \<noteq> 0 \<and> caller_uid c \<noteq> ownerUID n then Some (Inl ErrorPermissionDenied, s)
                else Some (Inr (), put_node (lNode l) (n \<lparr> permissions := perms \<rparr>) s))"

datatype StatUnion = NoStat | StatSize u64 | StatLink string

record NodeStats =
  st_nodeID :: u64
  st_type :: NodeType
  st_ownerGID :: u64
  st_ownerUID :: u64
  st_permissions :: Permissions
  st_union :: StatUnion

text \<open>The size is the first word of the union; a link path is copied into 255 characters.\<close>

definition stat_union :: "Node \<Rightarrow> StatUnion option" where
  "stat_union n =
     (if ntype n = TYPE_FILE then (case info n of InfoFile z \<Rightarrow> Some (StatSize z) | InfoZero \<Rightarrow> Some (StatSize 0) | _ \<Rightarrow> None)
      else if ntype n = TYPE_SYMLINK then
        (case link_of n of Some l \<Rightarrow> if length l < 255 then Some (StatLink l) else None | None \<Rightarrow> None)
      else Some NoStat)"

definition Stat :: "'w fs_ops \<Rightarrow> caller \<Rightarrow> string option \<Rightarrow> bool \<Rightarrow> 'w vfs \<Rightarrow> ((kerror + NodeStats) \<times> 'w vfs) option" where
  "Stat fo c path followSymlink =
     with_node fo c path (\<not> followSymlink)
       (\<lambda>l n s. do { u \<leftarrow> stat_union n;
                     Some (Inr \<lparr> st_nodeID = node_id n, st_type = ntype n, st_ownerGID = ownerGID n, st_ownerUID = ownerUID n,
                                 st_permissions = permissions n, st_union = u \<rparr>, s) })"

text \<open>The loop that copies the first \<open>rem\<close> names to the user's array of 256-character records.\<close>

fun list_copy :: "'w fs_ops \<Rightarrow> ptr \<Rightarrow> DirectoryEntry list \<Rightarrow> 'w \<Rightarrow> bool \<times> 'w" where
  "list_copy fo dst [] w = (True, w)"
| "list_copy fo dst (e # es) w =
     (let (ok, w) = copy_to_user fo dst (ename e @ [CHR 0x00]) w
      in if ok then list_copy fo (dst + 256) es w else (False, w))"

text \<open>The number of records is a signed 32-bit integer that is compared as an unsigned one.\<close>

definition list_rem :: "int \<Rightarrow> Directory \<Rightarrow> nat" where
  "list_rem numEnt dir = (if (word_of_int numEnt :: u64) > numEntries dir then unat (numEntries dir) else nat numEnt)"

definition List_dir ::
  "'w fs_ops \<Rightarrow> caller \<Rightarrow> string option \<Rightarrow> int \<Rightarrow> ptr \<Rightarrow> 'w vfs \<Rightarrow> ((kerror + int) \<times> 'w vfs) option" where
  "List_dir fo c path numEnt ents =
     with_node fo c path False
       (\<lambda>l n s. if ntype n \<noteq> TYPE_DIRECTORY then Some (Inl ErrorNotAFolder, s)
                else if \<not> CheckPermissions (caller_uid c) (caller_gid c) n PermRead then Some (Inl ErrorPermissionDenied, s)
                else do { (dir, s) \<leftarrow> GetNodeDir fo (lNode l) s;
                          let (ok, w) = list_copy fo ents (take (list_rem numEnt dir) (dir_list dir)) (world s);
                              s = s \<lparr> world := w \<rparr>
                          in if ok then Some (Inr (sint (ucast (numEntries dir) :: 32 word)), s)
                             else Some (Inl ErrorInvalidBuffer, s) })"

section \<open>Mounting\<close>

text \<open>The checks of \<open>Mount\<close>: on success the reference to the mount point is kept.\<close>

definition mount_check :: "'w fs_ops \<Rightarrow> caller \<Rightarrow> string option \<Rightarrow> 'w vfs \<Rightarrow> ((kerror + located) \<times> 'w vfs) option" where
  "mount_check fo c mountPoint s =
     (case PreparePath (caller_cwd c) mountPoint of
        Inl e \<Rightarrow> Some (Inl e, s)
      | Inr cleanBuffer \<Rightarrow>
          do { (r, s) \<leftarrow> AcquirePath fo (caller_uid c) (caller_gid c) cleanBuffer True False s;
               (case r of
                  Inl e \<Rightarrow> Some (Inl e, s)
                | Inr l \<Rightarrow>
                    if lParent l = nullptr then
                      do { s \<leftarrow> ReleaseNode fo (lNode l) True s;
                           s \<leftarrow> ReleaseMountPoint (lMP l) True s;
                           Some (Inl ErrorFolderAlreadyMounted, s) }
                    else
                      do { s \<leftarrow> ReleaseNode fo (lParent l) True s;
                           n \<leftarrow> nodes s (lNode l);
                           if ntype n \<noteq> TYPE_DIRECTORY then
                             do { s \<leftarrow> ReleaseNode fo (lNode l) True s;
                                  s \<leftarrow> ReleaseMountPoint (lMP l) True s;
                                  Some (Inl ErrorNotAFolder, s) }
                           else if \<not> CheckPermissions (caller_uid c) (caller_gid c) n PermWrite then
                             do { s \<leftarrow> ReleaseNode fo (lNode l) True s;
                                  s \<leftarrow> ReleaseMountPoint (lMP l) True s;
                                  Some (Inl ErrorPermissionDenied, s) }
                           else do { s \<leftarrow> ReleaseNode fo (lNode l) True s; Some (Inr l, s) } }) })"

text \<open>The new mount point inherits the reference to the mount point it is in. The file system is told the
  address of the latter.\<close>

definition mount_attach :: "'w fs_ops \<Rightarrow> ptr \<Rightarrow> located \<Rightarrow> 'w vfs \<Rightarrow> ((kerror + unit) \<times> 'w vfs) option" where
  "mount_attach fo fs l s =
     do { newMP \<leftarrow> new_addr fo s;
          (root, w) \<leftarrow> GetSuperBlock fo fs (world s);
          w \<leftarrow> SetMountPoint fo fs (lMP l) w;
          m \<leftarrow> mounts s (lMP l);
          let s = put_mount newMP (new_mount \<lparr> mpath := lBuffer l, mfs := fs, mrefCount := 0, mparent := lMP l, rootNode := root \<rparr>)
                    (put_mount (lMP l) (m \<lparr> childMounts := childMounts m @ [newMP] \<rparr>) (s \<lparr> world := w \<rparr>))
          in do { s \<leftarrow> ReleaseMountPoint (lMP l) False s; Some (Inr (), s) } }"

definition Mount :: "'w fs_ops \<Rightarrow> caller \<Rightarrow> string option \<Rightarrow> ptr \<Rightarrow> 'w vfs \<Rightarrow> ((kerror + unit) \<times> 'w vfs) option" where
  "Mount fo c mountPoint fs s =
     do { (r, s) \<leftarrow> mount_check fo c mountPoint s;
          (case r of Inl e \<Rightarrow> Some (Inl e, s) | Inr l \<Rightarrow> mount_attach fo fs l s) }"

text \<open>The registry of file system types, \<^verbatim>\<open>fs/FileSystem.cpp\<close>.\<close>

definition RegisterFileSystem :: "string \<Rightarrow> bool \<Rightarrow> ptr \<Rightarrow> 'w vfs \<Rightarrow> 'w vfs" where
  "RegisterFileSystem i dev f s = s \<lparr> g_FileSystems := g_FileSystems s @ [\<lparr> fsID = i, needsDev = dev, factory = f \<rparr>] \<rparr>"

fun remove_fs :: "string \<Rightarrow> FSEntry list \<Rightarrow> FSEntry list" where
  "remove_fs i [] = []"
| "remove_fs i (e # es) = (if fsID e = i then es else e # remove_fs i es)"

definition UnregisterFileSystem :: "string \<Rightarrow> 'w vfs \<Rightarrow> 'w vfs" where
  "UnregisterFileSystem i s = s \<lparr> g_FileSystems := remove_fs i (g_FileSystems s) \<rparr>"

definition CreateFileSystem :: "'w fs_ops \<Rightarrow> string \<Rightarrow> 'w vfs \<Rightarrow> (ptr \<times> 'w vfs) option" where
  "CreateFileSystem fo i s =
     (case List.find (\<lambda>e. fsID e = i) (g_FileSystems s) of
        None \<Rightarrow> Some (nullptr, s)
      | Some e \<Rightarrow> if needsDev e then Some (nullptr, s)
                  else do { (f, w) \<leftarrow> runFactory fo (factory e) (world s); Some (f, s \<lparr> world := w \<rparr>) })"

definition CreateFileSystem_dev :: "'w fs_ops \<Rightarrow> string \<Rightarrow> u64 \<Rightarrow> u64 \<Rightarrow> 'w vfs \<Rightarrow> (ptr \<times> 'w vfs) option" where
  "CreateFileSystem_dev fo i driverID devID s =
     (case List.find (\<lambda>e. fsID e = i) (g_FileSystems s) of
        None \<Rightarrow> Some (nullptr, s)
      | Some e \<Rightarrow> if \<not> needsDev e then Some (nullptr, s)
                  else do { (f, w) \<leftarrow> runFactoryDev fo (factory e) driverID devID (world s); Some (f, s \<lparr> world := w \<rparr>) })"

definition mount_created :: "'w fs_ops \<Rightarrow> caller \<Rightarrow> string option \<Rightarrow> ptr \<Rightarrow> 'w vfs \<Rightarrow> ((kerror + unit) \<times> 'w vfs) option" where
  "mount_created fo c mountPoint fs s =
     (if fs = nullptr then Some (Inl ErrorInvalidFileSystem, s)
      else do { (r, s) \<leftarrow> Mount fo c mountPoint fs s;
                (case r of
                   Inl e \<Rightarrow> do { w \<leftarrow> deleteFS fo fs (world s); Some (Inl e, s \<lparr> world := w \<rparr>) }
                 | Inr u \<Rightarrow> Some (Inr (), s)) })"

definition Mount_fsID :: "'w fs_ops \<Rightarrow> caller \<Rightarrow> string option \<Rightarrow> string \<Rightarrow> 'w vfs \<Rightarrow> ((kerror + unit) \<times> 'w vfs) option" where
  "Mount_fsID fo c mountPoint i s = do { (fs, s) \<leftarrow> CreateFileSystem fo i s; mount_created fo c mountPoint fs s }"

definition Mount_driver ::
  "'w fs_ops \<Rightarrow> caller \<Rightarrow> string option \<Rightarrow> string \<Rightarrow> u64 \<Rightarrow> u64 \<Rightarrow> 'w vfs \<Rightarrow> ((kerror + unit) \<times> 'w vfs) option" where
  "Mount_driver fo c mountPoint i driverID devID s =
     do { t \<leftarrow> driverType fo driverID (world s);
          if t \<noteq> TYPE_BLOCK then Some (Inl ErrorNotABlockDevice, s)
          else do { (fs, s) \<leftarrow> CreateFileSystem_dev fo i driverID devID s; mount_created fo c mountPoint fs s } }"

definition Mount_device ::
  "'w fs_ops \<Rightarrow> caller \<Rightarrow> string option \<Rightarrow> string \<Rightarrow> string option \<Rightarrow> 'w vfs \<Rightarrow> ((kerror + unit) \<times> 'w vfs) option" where
  "Mount_device fo c mountPoint i devFile s =
     do { (r, s) \<leftarrow> with_node fo c devFile False
            (\<lambda>l n s. if ntype n \<noteq> TYPE_DEVICE_BLOCK then Some (Inl ErrorNotABlockDevice, s)
                     else if \<not> CheckPermissions (caller_uid c) (caller_gid c) n PermRead then Some (Inl ErrorPermissionDenied, s)
                     else (case info n of InfoDevice d sub \<Rightarrow> Some (Inr (d, sub), s) | _ \<Rightarrow> None)) s;
          (case r of
             Inl e \<Rightarrow> Some (Inl e, s)
           | Inr (d, sub) \<Rightarrow> Mount_driver fo c mountPoint i d sub s) }"

definition Unmount :: "'w fs_ops \<Rightarrow> caller \<Rightarrow> string option \<Rightarrow> 'w vfs \<Rightarrow> ((kerror + unit) \<times> 'w vfs) option" where
  "Unmount fo c mountPoint s =
     (case PreparePath (caller_cwd c) mountPoint of
        Inl e \<Rightarrow> Some (Inl e, s)
      | Inr cleanBuffer \<Rightarrow>
          do { (mp, s) \<leftarrow> FindMountPoint cleanBuffer s;
               m \<leftarrow> mounts s mp;
               if mp = g_RootMount s then
                 do { s \<leftarrow> ReleaseMountPoint mp True s; Some (Inl ErrorUnmountRoot, s) }
               else if AdvancePath cleanBuffer (mpath m) \<noteq> [] then
                 do { s \<leftarrow> ReleaseMountPoint mp True s; Some (Inl ErrorNotAMountPoint, s) }
               else
                 do { pm \<leftarrow> mounts s (mparent m);
                      if mrefCount m = 1 then
                        if mp \<in> set (childMounts pm) then
                          let s = put_mount (mparent m) (pm \<lparr> childMounts := remove1 mp (childMounts pm) \<rparr>) s
                          in do { w \<leftarrow> PrepareUnmount fo (mfs m) (world s);
                                  Some (Inr (), s \<lparr> world := w, mounts := (mounts s)(mp := None) \<rparr>) }
                        else None
                      else do { s \<leftarrow> ReleaseMountPoint mp True s; Some (Inl ErrorMountPointBusy, s) } } })"

section \<open>Open files\<close>

definition OpenMode_Read :: u64 where "OpenMode_Read = 0x1"
definition OpenMode_Write :: u64 where "OpenMode_Write = 0x2"
definition OpenMode_Create :: u64 where "OpenMode_Create = 0x100"
definition OpenMode_Clear :: u64 where "OpenMode_Clear = 0x200"
definition OpenMode_FailIfExist :: u64 where "OpenMode_FailIfExist = 0x400"

definition no_execute :: "Permissions \<Rightarrow> Permissions" where
  "no_execute p = p \<lparr> ownerPermissions := ownerPermissions p AND NOT PermExecute,
                      groupPermissions := groupPermissions p AND NOT PermExecute,
                      otherPermissions := otherPermissions p AND NOT PermExecute, specialFlags := 0 \<rparr>"

text \<open>The first part of \<open>Open\<close>: the node that is opened, created if it does not exist.\<close>

definition open_node :: "'w fs_ops \<Rightarrow> caller \<Rightarrow> u64 \<Rightarrow> located \<Rightarrow> 'w vfs \<Rightarrow> ((kerror + ptr) \<times> 'w vfs) option" where
  "open_node fo c openMode l s =
     (if lNode l = nullptr then
        do { pn \<leftarrow> nodes s (lParent l);
             if \<not> CheckPermissions (caller_uid c) (caller_gid c) pn PermWrite then
               do { s \<leftarrow> ReleaseNode fo (lParent l) True s;
                    s \<leftarrow> ReleaseMountPoint (lMP l) True s;
                    Some (Inl ErrorPermissionDenied, s) }
             else
               do { (p, s) \<leftarrow> CreateNode fo (lMP l) 1 s;
                    n \<leftarrow> nodes s p;
                    pn \<leftarrow> nodes s (lParent l);
                    let n = n \<lparr> linkCount := 1, ntype := TYPE_FILE, info := InfoFile 0, ownerUID := caller_uid c,
                                ownerGID := caller_gid c, permissions := no_execute (permissions pn) \<rparr>;
                        s = put_node p n s
                    in do { s \<leftarrow> AddDirEntry fo (lParent l) (node_id n) (lPath l) s; Some (Inr p, s) } } }
      else if openMode AND OpenMode_FailIfExist \<noteq> 0 then
        do { s \<leftarrow> (if lParent l \<noteq> nullptr then ReleaseNode fo (lParent l) True s else Some s);
             s \<leftarrow> ReleaseNode fo (lNode l) True s;
             s \<leftarrow> ReleaseMountPoint (lMP l) True s;
             Some (Inl ErrorFileExists, s) }
      else Some (Inr (lNode l), s))"

definition clear_data :: "'w fs_ops \<Rightarrow> ptr \<Rightarrow> ptr \<Rightarrow> 'w vfs \<Rightarrow> 'w vfs option" where
  "clear_data fo mp p s =
     do { m \<leftarrow> mounts s mp;
          n \<leftarrow> nodes s p;
          (n, w) \<leftarrow> ClearNodeData fo (mfs m) n (world s);
          Some (put_node p n (s \<lparr> world := w \<rparr>)) }"

text \<open>The second part: the checks on the node.\<close>

definition open_check :: "'w fs_ops \<Rightarrow> caller \<Rightarrow> u64 \<Rightarrow> located \<Rightarrow> ptr \<Rightarrow> 'w vfs \<Rightarrow> ((kerror + unit) \<times> 'w vfs) option" where
  "open_check fo c openMode l fileNode s =
     do { n \<leftarrow> nodes s fileNode;
          if \<not> CheckPermissions (caller_uid c) (caller_gid c) n (ucast (openMode AND (OpenMode_Read OR OpenMode_Write))) then
            do { s \<leftarrow> ReleaseNode fo fileNode True s;
                 s \<leftarrow> ReleaseMountPoint (lMP l) True s;
                 Some (Inl ErrorPermissionDenied, s) }
          else if ntype n = TYPE_DIRECTORY then
            do { s \<leftarrow> ReleaseNode fo fileNode True s;
                 s \<leftarrow> ReleaseMountPoint (lMP l) True s;
                 Some (Inl ErrorOpenFolder, s) }
          else
            do { s \<leftarrow> (if openMode AND OpenMode_Clear \<noteq> 0 \<and> ntype n = TYPE_FILE then clear_data fo (lMP l) fileNode s else Some s);
                 s \<leftarrow> ReleaseNode fo fileNode False s;
                 s \<leftarrow> ReleaseMountPoint (lMP l) False s;
                 Some (Inr (), s) } }"

text \<open>The last part: the new descriptor.\<close>

definition new_desc :: "'w fs_ops \<Rightarrow> u64 \<Rightarrow> string \<Rightarrow> ptr \<Rightarrow> 'w vfs \<Rightarrow> ((kerror + ptr) \<times> 'w vfs) option" where
  "new_desc fo openMode pathBuffer fileNode s =
     do { d \<leftarrow> new_addr fo s;
          Some (Inr d, put_desc d \<lparr> drefCount = 1, dnode = fileNode, dpermissions = ucast (openMode AND 0xFF),
                                    dpos = 0, dpath = take 254 pathBuffer \<rparr> s) }"

text \<open>The part of \<open>Open\<close> in front of the new descriptor: the node that is opened.\<close>

definition open_file :: "'w fs_ops \<Rightarrow> caller \<Rightarrow> string \<Rightarrow> u64 \<Rightarrow> 'w vfs \<Rightarrow> ((kerror + located) \<times> 'w vfs) option" where
  "open_file fo c cleanBuffer openMode s =
     do { (r, s) \<leftarrow> AcquirePath fo (caller_uid c) (caller_gid c) cleanBuffer (openMode AND OpenMode_Create = 0) False s;
          (case r of
             Inl e \<Rightarrow> Some (Inl e, s)
           | Inr l \<Rightarrow>
               do { (r, s) \<leftarrow> open_node fo c openMode l s;
                    (case r of
                       Inl e \<Rightarrow> Some (Inl e, s)
                     | Inr fileNode \<Rightarrow>
                         do { s \<leftarrow> (if lParent l \<noteq> nullptr then ReleaseNode fo (lParent l) True s else Some s);
                              (r, s) \<leftarrow> open_check fo c openMode l fileNode s;
                              (case r of
                                 Inl e \<Rightarrow> Some (Inl e, s)
                               | Inr u \<Rightarrow> Some (Inr (l \<lparr> lNode := fileNode, lParent := nullptr \<rparr>), s)) }) }) }"

definition Open :: "'w fs_ops \<Rightarrow> caller \<Rightarrow> string option \<Rightarrow> u64 \<Rightarrow> 'w vfs \<Rightarrow> ((kerror + ptr) \<times> 'w vfs) option" where
  "Open fo c path openMode s =
     (case PreparePath (caller_cwd c) path of
        Inl e \<Rightarrow> Some (Inl e, s)
      | Inr cleanBuffer \<Rightarrow>
          do { (r, s) \<leftarrow> open_file fo c cleanBuffer openMode s;
               (case r of
                  Inl e \<Rightarrow> Some (Inl e, s)
                | Inr l \<Rightarrow> new_desc fo openMode cleanBuffer (lNode l) s) })"

definition Close :: "'w fs_ops \<Rightarrow> ptr \<Rightarrow> 'w vfs \<Rightarrow> ((kerror + unit) \<times> 'w vfs) option" where
  "Close fo descID s =
     (if descID = nullptr then Some (Inl ErrorInvalidFD, s)
      else do { d \<leftarrow> descs s descID;
                let d = d \<lparr> drefCount := drefCount d - 1 \<rparr>;
                    s = put_desc descID d s
                in if drefCount d = 0 then
                     do { n \<leftarrow> nodes s (dnode d);
                          let mp = node_mp n
                          in do { s \<leftarrow> ReleaseNode fo (dnode d) True s;
                                  s \<leftarrow> ReleaseMountPoint mp True s;
                                  Some (Inr (), s \<lparr> descs := (descs s)(descID := None) \<rparr>) } }
                   else Some (Inr (), s) })"

definition AddRef :: "ptr \<Rightarrow> 'w vfs \<Rightarrow> ((kerror + unit) \<times> 'w vfs) option" where
  "AddRef descID s =
     (if descID = nullptr then Some (Inl ErrorInvalidFD, s)
      else do { d \<leftarrow> descs s descID; Some (Inr (), put_desc descID (d \<lparr> drefCount := drefCount d + 1 \<rparr>) s) })"

text \<open>The first words of the union of a device node.\<close>

definition device_of :: "Node \<Rightarrow> (u64 \<times> u64) option" where
  "device_of n = (case info n of InfoDevice d sub \<Rightarrow> Some (d, sub) | _ \<Rightarrow> None)"

definition Read_node :: "'w fs_ops \<Rightarrow> ptr \<Rightarrow> u64 \<Rightarrow> ptr \<Rightarrow> u64 \<Rightarrow> 'w vfs \<Rightarrow> (u64 \<times> 'w vfs) option" where
  "Read_node fo p pos buffer bufferSize s =
     do { n \<leftarrow> nodes s p;
          if ntype n = TYPE_DEVICE_CHAR then
            do { (driver, sub) \<leftarrow> device_of n;
                 (case driverType fo driver (world s) of
                    None \<Rightarrow> Some (0, s)
                  | Some _ \<Rightarrow> do { (res, w) \<leftarrow> CharRead fo driver sub buffer bufferSize (world s); Some (res, s \<lparr> world := w \<rparr>) }) }
          else if ntype n = TYPE_DEVICE_BLOCK then
            do { (driver, sub) \<leftarrow> device_of n;
                 (case driverType fo driver (world s) of
                    None \<Rightarrow> Some (0, s)
                  | Some _ \<Rightarrow> do { (error, w) \<leftarrow> GetData fo driver sub pos buffer bufferSize (world s);
                                   Some (if error \<noteq> 0 then error else bufferSize, s \<lparr> world := w \<rparr>) }) }
          else
            do { m \<leftarrow> mounts s (node_mp n);
                 (res, n, w) \<leftarrow> ReadNodeData fo (mfs m) n pos buffer bufferSize (world s);
                 Some (res, put_node p n (s \<lparr> world := w \<rparr>)) } }"

definition Write_node :: "'w fs_ops \<Rightarrow> ptr \<Rightarrow> u64 \<Rightarrow> ptr \<Rightarrow> u64 \<Rightarrow> 'w vfs \<Rightarrow> (u64 \<times> 'w vfs) option" where
  "Write_node fo p pos buffer bufferSize s =
     do { n \<leftarrow> nodes s p;
          if ntype n = TYPE_DEVICE_CHAR then
            do { (driver, sub) \<leftarrow> device_of n;
                 (case driverType fo driver (world s) of
                    None \<Rightarrow> Some (0, s)
                  | Some _ \<Rightarrow> do { (res, w) \<leftarrow> CharWrite fo driver sub buffer bufferSize (world s); Some (res, s \<lparr> world := w \<rparr>) }) }
          else if ntype n = TYPE_DEVICE_BLOCK then
            do { (driver, sub) \<leftarrow> device_of n;
                 (case driverType fo driver (world s) of
                    None \<Rightarrow> Some (0, s)
                  | Some _ \<Rightarrow> do { (error, w) \<leftarrow> SetData fo driver sub pos buffer bufferSize (world s);
                                   Some (if error \<noteq> 0 then error else bufferSize, s \<lparr> world := w \<rparr>) }) }
          else
            do { m \<leftarrow> mounts s (node_mp n);
                 (res, n, w) \<leftarrow> WriteNodeData fo (mfs m) n pos buffer bufferSize (world s);
                 Some (res, put_node p n (s \<lparr> world := w \<rparr>)) } }"

text \<open>A result that is negative as a signed integer leaves the position alone.\<close>

definition advance_pos :: "ptr \<Rightarrow> u64 \<Rightarrow> u64 \<Rightarrow> 'w vfs \<Rightarrow> (int \<times> 'w vfs) option" where
  "advance_pos descID pos res s =
     (if sint res \<ge> 0 then do { d \<leftarrow> descs s descID; Some (sint res, put_desc descID (d \<lparr> dpos := pos + res \<rparr>) s) }
      else Some (sint res, s))"

definition Read :: "'w fs_ops \<Rightarrow> ptr \<Rightarrow> ptr \<Rightarrow> u64 \<Rightarrow> 'w vfs \<Rightarrow> (int \<times> 'w vfs) option" where
  "Read fo descID buffer bufferSize s =
     (if descID = nullptr then Some (error_code ErrorInvalidFD, s)
      else do { d \<leftarrow> descs s descID;
                if dpermissions d AND PermRead = 0 then Some (error_code ErrorPermissionDenied, s)
                else do { (res, s) \<leftarrow> Read_node fo (dnode d) (dpos d) buffer bufferSize s;
                          advance_pos descID (dpos d) res s } })"

definition Write :: "'w fs_ops \<Rightarrow> ptr \<Rightarrow> ptr \<Rightarrow> u64 \<Rightarrow> 'w vfs \<Rightarrow> (int \<times> 'w vfs) option" where
  "Write fo descID buffer bufferSize s =
     (if descID = nullptr then Some (error_code ErrorInvalidFD, s)
      else do { d \<leftarrow> descs s descID;
                if dpermissions d AND PermWrite = 0 then Some (error_code ErrorPermissionDenied, s)
                else do { (res, s) \<leftarrow> Write_node fo (dnode d) (dpos d) buffer bufferSize s;
                          advance_pos descID (dpos d) res s } })"

definition DeviceCommand :: "'w fs_ops \<Rightarrow> ptr \<Rightarrow> int \<Rightarrow> ptr \<Rightarrow> 'w vfs \<Rightarrow> (int \<times> 'w vfs) option" where
  "DeviceCommand fo descID command buffer s =
     (if descID = nullptr then Some (error_code ErrorInvalidFD, s)
      else do { d \<leftarrow> descs s descID;
                n \<leftarrow> nodes s (dnode d);
                if ntype n \<noteq> TYPE_DEVICE_BLOCK \<and> ntype n \<noteq> TYPE_DEVICE_CHAR then Some (error_code ErrorNotADevice, s)
                else if dpermissions d AND PermWrite = 0 then Some (error_code ErrorPermissionDenied, s)
                else do { (driver, sub) \<leftarrow> device_of n;
                          (case driverType fo driver (world s) of
                             None \<Rightarrow> Some (error_code ErrorInvalidFD, s)
                           | Some _ \<Rightarrow> do { (r, w) \<leftarrow> driverCommand fo driver sub command buffer (world s);
                                            Some (r, s \<lparr> world := w \<rparr>) }) } })"

datatype SeekMode = SEEK_SET | SEEK_REL | SEEK_END

text \<open>The first word of the union, whatever was stored; a stored pointer has no number here.\<close>

definition file_size :: "Node \<Rightarrow> u64 option" where
  "file_size n = (case info n of InfoFile z \<Rightarrow> Some z | InfoDevice d _ \<Rightarrow> Some d | InfoZero \<Rightarrow> Some 0 | _ \<Rightarrow> None)"

definition Seek :: "ptr \<Rightarrow> SeekMode \<Rightarrow> u64 \<Rightarrow> 'w vfs \<Rightarrow> ((kerror + unit) \<times> 'w vfs) option" where
  "Seek descID mode offs s =
     (if descID = nullptr then Some (Inl ErrorInvalidFD, s)
      else do { d \<leftarrow> descs s descID;
                n \<leftarrow> nodes s (dnode d);
                size \<leftarrow> file_size n;
                let offs = (if mode = SEEK_END then size else offs)
                in if offs > size then Some (Inl ErrorSeekOffsetOOB, s)
                   else Some (Inr (), put_desc descID (d \<lparr> dpos := offs \<rparr>) s) })"

text \<open>The new working directory, for the thread to store. The permissions are read after the node was released.\<close>

definition CD :: "'w fs_ops \<Rightarrow> caller \<Rightarrow> string option \<Rightarrow> 'w vfs \<Rightarrow> ((kerror + string) \<times> 'w vfs) option" where
  "CD fo c path s =
     (case PreparePath (caller_cwd c) path of
        Inl e \<Rightarrow> Some (Inl e, s)
      | Inr pathBuffer \<Rightarrow>
          do { (r, s) \<leftarrow> AcquirePath fo (caller_uid c) (caller_gid c) pathBuffer True False s;
               (case r of
                  Inl e \<Rightarrow> Some (Inl e, s)
                | Inr l \<Rightarrow>
                    do { n \<leftarrow> nodes s (lNode l);
                         let type = ntype n
                         in do { s \<leftarrow> ReleaseNode fo (lNode l) True s;
                                 s \<leftarrow> (if lParent l \<noteq> nullptr then ReleaseNode fo (lParent l) True s else Some s);
                                 s \<leftarrow> ReleaseMountPoint (lMP l) True s;
                                 if type \<noteq> TYPE_DIRECTORY then Some (Inl ErrorNotAFolder, s)
                                 else do { n \<leftarrow> nodes s (lNode l);
                                           if \<not> CheckPermissions (caller_uid c) (caller_gid c) n PermExecute
                                           then Some (Inl ErrorPermissionDenied, s)
                                           else Some (Inr (lBuffer l), s) } } }) })"

end
