(* ===== verification/VfsRefs.thy ===== *)
theory VfsRefs
  imports Vfs
begin

text \<open>
  Reference counting of the virtual file system. Every operation takes references to the nodes and the
  mount point it walks through and gives them back on each of its paths. \<open>moves\<close> states what an operation
  has done to all counts; the operations compose, and what remains is exactly one reference for the node
  and one for the mount point of every descriptor that was opened.
\<close>

section \<open>What is required of a file system\<close>

text \<open>The reference count of a node belongs to the virtual file system; a file system leaves it alone. Clearing a file
  keeps its type, owner and permissions. Memory that is handed out is not in use.\<close>

locale file_system =
  fixes fo :: "'w fs_ops"
  assumes alloc_fresh: "alloc fo w used = Some p \<Longrightarrow> \<not> used p"
    and ReadNode_ref: "ReadNode fo f i n w = Some (n', w') \<Longrightarrow> refCount n' = refCount n"
    and UpdateDir_ref: "UpdateDir fo f n w = Some (n', w') \<Longrightarrow> refCount n' = refCount n"
    and ReadNodeData_ref: "ReadNodeData fo f n pos b z w = Some (r, n', w') \<Longrightarrow> refCount n' = refCount n"
    and WriteNodeData_ref: "WriteNodeData fo f n pos b z w = Some (r, n', w') \<Longrightarrow> refCount n' = refCount n"
    and ClearNodeData_ref: "ClearNodeData fo f n w = Some (n', w') \<Longrightarrow> refCount n' = refCount n"
    and ClearNodeData_keeps: "ClearNodeData fo f n w = Some (n', w') \<Longrightarrow> ntype n' = ntype n \<and> permissions n' = permissions n \<and>
      ownerUID n' = ownerUID n \<and> ownerGID n' = ownerGID n"

section \<open>Counts and their changes\<close>

definition node_refs :: "'w vfs \<Rightarrow> ptr \<Rightarrow> u64" where
  "node_refs s p = (case nodes s p of None \<Rightarrow> 0 | Some n \<Rightarrow> refCount n)"

definition mount_refs :: "'w vfs \<Rightarrow> ptr \<Rightarrow> u64" where
  "mount_refs s p = (case mounts s p of None \<Rightarrow> 0 | Some m \<Rightarrow> mrefCount m)"

text \<open>One reference to \<open>p\<close>; a null pointer is none.\<close>

definition ref1 :: "ptr \<Rightarrow> ptr \<Rightarrow> u64" where
  "ref1 p q = (if p \<noteq> 0 \<and> q = p then 1 else 0)"

text \<open>From \<open>s\<close> to \<open>t\<close> the counts of the nodes change by \<open>\<delta>\<close> and those of the mount points, except the root, whose
  references are not counted, by \<open>\<mu>\<close>; the descriptors stay.\<close>

definition moves :: "'w vfs \<Rightarrow> 'w vfs \<Rightarrow> (ptr \<Rightarrow> u64) \<Rightarrow> (ptr \<Rightarrow> u64) \<Rightarrow> bool" where
  "moves s t \<delta> \<mu> \<longleftrightarrow>
     (nodes s 0 = None \<longrightarrow> nodes t 0 = None) \<and> (mounts s 0 = None \<longrightarrow> mounts t 0 = None) \<and>
     descs t = descs s \<and> g_RootMount t = g_RootMount s \<and>
     (\<forall>q. node_refs t q = node_refs s q + \<delta> q) \<and>
     (\<forall>q. q \<noteq> g_RootMount s \<longrightarrow> mount_refs t q = mount_refs s q + \<mu> q)"

lemma moves_trans:
  "moves s t \<delta> \<mu> \<Longrightarrow> moves t u \<delta>' \<mu>' \<Longrightarrow> moves s u (\<lambda>q. \<delta> q + \<delta>' q) (\<lambda>q. \<mu> q + \<mu>' q)"
  by (simp add: moves_def algebra_simps)

lemma moves_cong:
  "moves s t \<delta> \<mu> \<Longrightarrow> (\<And>q. \<delta> q = \<delta>' q) \<Longrightarrow> (\<And>q. q \<noteq> g_RootMount s \<Longrightarrow> \<mu> q = \<mu>' q) \<Longrightarrow> moves s t \<delta>' \<mu>'"
  by (simp add: moves_def)

lemma moves_refl: "moves s s (\<lambda>_. 0) (\<lambda>_. 0)"
  by (simp add: moves_def)

text \<open>Chains that end where the counts are as at the start.\<close>

lemma moves_trans':
  "moves s t \<delta> \<mu> \<Longrightarrow> moves t u \<delta>' \<mu>' \<Longrightarrow> (\<And>q. \<delta> q + \<delta>' q = \<epsilon> q) \<Longrightarrow>
   (\<And>q. q \<noteq> g_RootMount s \<Longrightarrow> \<mu> q + \<mu>' q = \<nu> q) \<Longrightarrow> moves s u \<epsilon> \<nu>"
  by (rule moves_cong [OF moves_trans])

lemma moves_root: "moves s t \<delta> \<mu> \<Longrightarrow> g_RootMount t = g_RootMount s"
  by (simp add: moves_def)

lemma moves_null: "moves s t \<delta> \<mu> \<Longrightarrow> nodes s 0 = None \<Longrightarrow> nodes t 0 = None"
  by (simp add: moves_def)

lemma node_refs_put [simp]: "node_refs (put_node p n s) q = (if q = p then refCount n else node_refs s q)"
  by (simp add: node_refs_def put_node_def)

lemma mount_refs_put [simp]: "mount_refs (put_mount p m s) q = (if q = p then mrefCount m else mount_refs s q)"
  by (simp add: mount_refs_def put_mount_def)

lemma put_node_sel [simp]: "mounts (put_node p n s) = mounts s" "descs (put_node p n s) = descs s"
  "g_RootMount (put_node p n s) = g_RootMount s" "g_PipeMount (put_node p n s) = g_PipeMount s"
  "world (put_node p n s) = world s" "mount_refs (put_node p n s) = mount_refs s"
  "nodes (put_node p n s) q = (if q = p then Some n else nodes s q)"
  by (simp_all add: put_node_def mount_refs_def fun_eq_iff)

lemma put_mount_sel [simp]: "nodes (put_mount p m s) = nodes s" "descs (put_mount p m s) = descs s"
  "g_RootMount (put_mount p m s) = g_RootMount s" "g_PipeMount (put_mount p m s) = g_PipeMount s"
  "world (put_mount p m s) = world s" "node_refs (put_mount p m s) = node_refs s"
  "mounts (put_mount p m s) q = (if q = p then Some m else mounts s q)"
  by (simp_all add: put_mount_def node_refs_def fun_eq_iff)

lemma put_desc_sel [simp]: "nodes (put_desc p d s) = nodes s" "mounts (put_desc p d s) = mounts s"
  "g_RootMount (put_desc p d s) = g_RootMount s" "g_PipeMount (put_desc p d s) = g_PipeMount s"
  "world (put_desc p d s) = world s"
  "node_refs (put_desc p d s) = node_refs s" "mount_refs (put_desc p d s) = mount_refs s"
  "descs (put_desc p d s) q = (if q = p then Some d else descs s q)"
  by (simp_all add: put_desc_def node_refs_def mount_refs_def fun_eq_iff)

lemma refs_world [simp]: "node_refs (s \<lparr> world := w \<rparr>) = node_refs s" "mount_refs (s \<lparr> world := w \<rparr>) = mount_refs s"
  by (simp_all add: node_refs_def mount_refs_def fun_eq_iff)

lemma node_refs_Some: "nodes s p = Some n \<Longrightarrow> node_refs s p = refCount n"
  by (simp add: node_refs_def)

lemma mount_refs_Some: "mounts s p = Some m \<Longrightarrow> mount_refs s p = mrefCount m"
  by (simp add: mount_refs_def)

section \<open>Mount points\<close>

lemma mount_inc_moves:
  assumes "mount_inc p s = Some t" shows "moves s t (\<lambda>_. 0) (\<lambda>q. if q = p then 1 else 0)"
proof -
  obtain m where "mounts s p = Some m" "t = put_mount p (m \<lparr> mrefCount := mrefCount m + 1 \<rparr>) s"
    using assms by (auto simp: mount_inc_def split: bind_splits)
  then show ?thesis by (auto simp: moves_def mount_refs_Some)
qed

lemma mount_dec_moves:
  assumes "mount_dec p s = Some t" shows "moves s t (\<lambda>_. 0) (\<lambda>q. if q = p then - 1 else 0)"
proof -
  obtain m where "mounts s p = Some m" "t = put_mount p (m \<lparr> mrefCount := mrefCount m - 1 \<rparr>) s"
    using assms by (auto simp: mount_dec_def split: bind_splits)
  then show ?thesis by (auto simp: moves_def mount_refs_Some)
qed

lemma ReleaseMountPoint_moves:
  "ReleaseMountPoint p dec s = Some t \<Longrightarrow> moves s t (\<lambda>_. 0) (\<lambda>q. if dec \<and> q = p then - 1 else 0)"
  by (auto simp: ReleaseMountPoint_def moves_refl intro: moves_cong [OF mount_dec_moves] moves_cong [OF moves_refl]
      split: if_splits)

text \<open>The lookup gives one reference to what it returns and gives back the one it started with.\<close>

lemma FindMountPoint_loop_moves:
  assumes "FindMountPoint_loop path current s = Some r"
  shows "moves s (snd r) (\<lambda>_. 0) (\<lambda>q. (if q = fst r then 1 else 0) - (if q = current then 1 else 0))"
proof (rule FindMountPoint_loop.raw_induct [OF _ assms])
  fix loop path current s r
  assume ih: "\<And>path current s r. loop path current s = Some r \<Longrightarrow>
      moves s (snd r) (\<lambda>_. 0) (\<lambda>q. (if q = fst r then 1 else 0) - (if q = current then 1 else 0))"
    and r: "do { m \<leftarrow> mounts s current; next \<leftarrow> find_child s path (childMounts m);
          (case next of
             None \<Rightarrow> Some (current, s)
           | Some c \<Rightarrow>
               do { s \<leftarrow> mount_inc c s;
                    s \<leftarrow> (if current \<noteq> g_RootMount s then mount_dec current s else Some s);
                    loop path c s }) } = Some r"
  obtain m x where x: "(case x of
             None \<Rightarrow> Some (current, s)
           | Some c \<Rightarrow>
               do { s \<leftarrow> mount_inc c s;
                    s \<leftarrow> (if current \<noteq> g_RootMount s then mount_dec current s else Some s);
                    loop path c s }) = Some r" using r by (auto split: bind_splits)
  show "moves s (snd r) (\<lambda>_. 0) (\<lambda>q. (if q = fst r then 1 else 0) - (if q = current then 1 else 0))"
  proof (cases x)
    case None
    then show ?thesis using x by (auto intro: moves_cong [OF moves_refl])
  next
    case (Some c)
    then obtain s1 s2 where 1: "mount_inc c s = Some s1"
      and 2: "(if current \<noteq> g_RootMount s1 then mount_dec current s1 else Some s1) = Some s2"
      and 3: "loop path c s2 = Some r" using x by (auto split: bind_splits)
    note m1 = mount_inc_moves [OF 1]
    have m2: "moves s1 s2 (\<lambda>_. 0) (\<lambda>q. if q = current then - 1 else 0)"
      using 2 by (auto intro: moves_cong [OF moves_refl] mount_dec_moves split: if_splits)
    show ?thesis by (rule moves_trans' [OF moves_trans [OF m1 m2] ih [OF 3]]) auto
  qed
qed

lemma FindMountPoint_moves:
  assumes "FindMountPoint path s = Some (mp, t)"
  shows "moves s t (\<lambda>_. 0) (\<lambda>q. if q = mp then 1 else 0)"
  using FindMountPoint_loop_moves [of path "g_RootMount s" s "(mp, t)"] assms
  by (auto simp: FindMountPoint_def intro: moves_cong)

section \<open>Nodes\<close>

lemma moves_put_node:
  "nodes s p = Some n \<Longrightarrow> refCount n' = refCount n + k \<Longrightarrow> moves s (put_node p n' s) (\<lambda>q. if q = p then k else 0) (\<lambda>_. 0)"
  by (auto simp: moves_def node_refs_Some)

lemma moves_world: "moves s t \<delta> \<mu> \<Longrightarrow> moves s (t \<lparr> world := w \<rparr>) \<delta> \<mu>"
  by (simp add: moves_def)

lemma moves_world': "moves (s \<lparr> world := w \<rparr>) t \<delta> \<mu> \<Longrightarrow> moves s t \<delta> \<mu>"
  by (simp add: moves_def)

lemma moves_keep: "nodes s p = Some n \<Longrightarrow> refCount n' = refCount n \<Longrightarrow> moves s (put_node p n' (s \<lparr> world := w \<rparr>)) (\<lambda>_. 0) (\<lambda>_. 0)"
  by (auto simp: moves_def node_refs_Some)

lemma find_cached_Some: "find_cached s i ps = Some (Some p) \<Longrightarrow> p \<in> set ps \<and> (\<exists>n. nodes s p = Some n \<and> node_id n = i)"
  by (induction ps) (auto split: bind_splits if_splits)

lemma ReleaseNode_moves:
  assumes r: "ReleaseNode fo p dec s = Some t"
  shows "moves s t (\<lambda>q. if dec \<and> q = p then - 1 else 0) (\<lambda>_. 0)"
proof -
  obtain n m where n: "nodes s p = Some n" and m: "mounts s (node_mp n) = Some m"
    using r by (auto simp: ReleaseNode_def split: bind_splits)
  define n' where "n' = (if dec then n \<lparr> refCount := refCount n - 1 \<rparr> else n)"
  have c: "refCount n' = refCount n + (if dec then - 1 else 0)" "node_mp n' = node_mp n" by (simp_all add: n'_def)
  show ?thesis
  proof (cases "refCount n' = 0 \<and> linkCount n' = 0")
    case True
    then obtain w where "t = put_mount (node_mp n) (m \<lparr> nodeCache := remove1 p (nodeCache m) \<rparr>)
        (s \<lparr> nodes := (nodes s)(p := None), world := w \<rparr>)"
      using r n m c(2) by (auto simp: ReleaseNode_def Let_def n'_def [symmetric] split: bind_splits if_splits)
    then show ?thesis using True c(1) n m by (auto simp: moves_def node_refs_def mount_refs_def)
  next
    case False
    then have "t = put_node p n' s" using r n m by (auto simp: ReleaseNode_def Let_def n'_def split: if_splits)
    then show ?thesis using moves_put_node [OF n c(1)] by (auto intro: moves_cong)
  qed
qed

lemma Release_one:
  assumes "ReleaseNode fo p True s = Some t" and "nodes s 0 = None"
  shows "moves s t (\<lambda>q. - ref1 p q) (\<lambda>_. 0)"
proof -
  have "p \<noteq> 0" using assms by (auto simp: ReleaseNode_def split: bind_splits)
  then show ?thesis using ReleaseNode_moves [OF assms(1)] by (auto simp: ref1_def intro: moves_cong)
qed

lemma Release_null:
  assumes "(if p \<noteq> 0 then ReleaseNode fo p True s else Some s) = Some t"
  shows "moves s t (\<lambda>q. - ref1 p q) (\<lambda>_. 0)"
  using assms ReleaseNode_moves [of fo p True s t] moves_refl [of s]
  by (auto simp: ref1_def intro: moves_cong split: if_splits)

text \<open>The references that a lookup hands over with its result.\<close>

fun handed :: "acquired \<Rightarrow> ptr \<Rightarrow> u64" where
  "handed (Acquired p par rest) q = ref1 p q + ref1 par q"
| "handed (FoundSymlink p par rest) q = ref1 p q + ref1 par q"
| "handed (AcquireFailed e) q = 0"

text \<open>What \<open>AcquirePath\<close> leaves: nothing on failure, otherwise one reference each to the node, its parent and the
  mount point.\<close>

definition held_nodes :: "kerror + located \<Rightarrow> ptr \<Rightarrow> u64" where
  "held_nodes r q = (case r of Inl _ \<Rightarrow> 0 | Inr l \<Rightarrow> ref1 (lNode l) q + ref1 (lParent l) q)"

definition held_mount :: "kerror + located \<Rightarrow> ptr \<Rightarrow> u64" where
  "held_mount r q = (case r of Inl _ \<Rightarrow> 0 | Inr l \<Rightarrow> if q = lMP l then 1 else 0)"

context file_system
begin

lemma new_addr_fresh: "new_addr fo s = Some p \<Longrightarrow> p \<noteq> 0 \<and> nodes s p = None \<and> mounts s p = None \<and> descs s p = None"
  using alloc_fresh [of "world s" "in_use s" p] by (simp add: new_addr_def in_use_def)

lemma AcquireNode_moves:
  assumes a: "AcquireNode fo mp i s = Some (p, t)" and z: "nodes s 0 = None"
  shows "p \<noteq> 0" and "moves s t (ref1 p) (\<lambda>_. 0)"
proof -
  obtain m x where m: "mounts s mp = Some m" and x: "find_cached s i (nodeCache m) = Some x"
    using a by (auto simp: AcquireNode_def split: bind_splits)
  have "p \<noteq> 0 \<and> moves s t (\<lambda>q. if q = p then 1 else 0) (\<lambda>_. 0)"
  proof (cases x)
    case None
    then obtain n w where p: "new_addr fo s = Some p"
      and n: "ReadNode fo (mfs m) i (new_node \<lparr> node_id := i, node_mp := mp, refCount := 1, ready := False \<rparr>) (world s) = Some (n, w)"
      and t: "t = put_node p (n \<lparr> ready := True \<rparr>) ((put_mount mp (m \<lparr> nodeCache := nodeCache m @ [p] \<rparr>) s) \<lparr> world := w \<rparr>)"
      using a m x by (auto simp: AcquireNode_def Let_def split: bind_splits)
    have "refCount n = 1" using ReadNode_ref [OF n] by simp
    then show ?thesis using t new_addr_fresh [OF p] m by (auto simp: moves_def node_refs_def mount_refs_def)
  next
    case (Some p')
    then obtain n where n: "nodes s p' = Some n" "p' = p" "t = put_node p (n \<lparr> refCount := refCount n + 1 \<rparr>) s"
      using a m x by (auto simp: AcquireNode_def split: bind_splits)
    then show ?thesis using moves_put_node [of s p n] z by auto
  qed
  then show "p \<noteq> 0" "moves s t (ref1 p) (\<lambda>_. 0)" by (auto simp: ref1_def intro: moves_cong)
qed

lemma GetNodeDir_moves:
  assumes "GetNodeDir fo p s = Some (d, t)" shows "moves s t (\<lambda>_. 0) (\<lambda>_. 0)"
proof -
  obtain n m n' w where n: "nodes s p = Some n" and "mounts s (node_mp n) = Some m" and u: "UpdateDir fo (mfs m) n (world s) = Some (n', w)"
    and t: "t = put_node p n' (s \<lparr> world := w \<rparr>)"
    using assms by (auto simp: GetNodeDir_def split: bind_splits NodeInfo.splits)
  show ?thesis using moves_keep [OF n UpdateDir_ref [OF u]] t by simp
qed

lemma CreateNode_moves:
  assumes "CreateNode fo mp k s = Some (p, t)"
  shows "p \<noteq> 0" and "moves s t (\<lambda>q. if q = p then k else 0) (\<lambda>_. 0)" and "nodes s p = None"
    and "\<exists>n. nodes t p = Some n \<and> refCount n = k"
proof -
  obtain m n w where p: "new_addr fo s = Some p" and m: "mounts s mp = Some m"
    and t: "t = put_node p (n \<lparr> refCount := k, node_mp := mp \<rparr>)
                     (put_mount mp (m \<lparr> nodeCache := nodeCache m @ [p] \<rparr>) (s \<lparr> world := w \<rparr>))"
    using assms by (auto simp: CreateNode_def split: bind_splits)
  note f = new_addr_fresh [OF p]
  show "p \<noteq> 0" "nodes s p = None" using f by auto
  show "moves s t (\<lambda>q. if q = p then k else 0) (\<lambda>_. 0)"
    using t f m by (auto simp: moves_def node_refs_def mount_refs_def)
  show "\<exists>n. nodes t p = Some n \<and> refCount n = k" using t by simp
qed

lemma AddDirEntry_moves:
  assumes "AddDirEntry fo p i name s = Some t" shows "moves s t (\<lambda>_. 0) (\<lambda>_. 0)"
proof -
  obtain d u n e where g: "GetNodeDir fo p s = Some (d, u)" and n: "nodes u p = Some n"
    and t: "t = put_node p (n \<lparr> info := e \<rparr>) u"
    using assms by (auto simp: AddDirEntry_def Let_def split: bind_splits prod.splits)
  have "moves u t (\<lambda>_. 0) (\<lambda>_. 0)" using moves_put_node [OF n, of "n \<lparr> info := e \<rparr>" 0] t by (auto intro: moves_cong)
  then show ?thesis using moves_trans [OF GetNodeDir_moves [OF g]] by simp
qed

lemma release_fail:
  assumes "do { s \<leftarrow> ReleaseNode fo p True s; Some (AcquireFailed e, s) } = Some (r, t)" and "nodes s 0 = None"
  shows "moves s t (\<lambda>q. handed r q - ref1 p q) (\<lambda>_. 0)"
  using Release_one [of fo p s t] assms by (auto split: bind_splits intro: moves_cong)

lemma AcquirePathRec_loop_moves:
  "AcquirePathRec_loop fo uid gid mp fe dm path current s = Some (r, t) \<Longrightarrow> nodes s 0 = None \<Longrightarrow>
   moves s t (\<lambda>q. handed r q - ref1 current q) (\<lambda>_. 0)"
proof (induction path arbitrary: current s r t rule: measure_induct_rule [of length])
  case (less path)
  note z = less.prems(2)
  note run = less.prems(1) [unfolded AcquirePathRec_loop.simps [of _ _ _ _ _ _ path]]
  obtain n where n: "nodes s current = Some n" using run by (auto split: bind_splits)
  show ?case
  proof (cases "ntype n \<noteq> TYPE_DIRECTORY \<or> \<not> CheckPermissions uid gid n PermExecute")
    case True
    then show ?thesis using run n z release_fail [of current s _ r t] by (auto split: if_splits)
  next
    case False
    then obtain d s1 where g: "GetNodeDir fo current s = Some (d, s1)" using run n by (auto split: bind_splits)
    note m1 = GetNodeDir_moves [OF g]
    note z1 = moves_null [OF m1 z]
    show ?thesis
    proof (cases "match_entry path (dir_list d)")
      case None
      show ?thesis
      proof (cases "fe \<or> \<not> IsLastPathEntry path")
        case True
        then have "do { s \<leftarrow> ReleaseNode fo current True s1; Some (AcquireFailed ErrorFileNotFound, s) } = Some (r, t)"
          using run n False g None by auto
        then show ?thesis using moves_trans [OF m1 release_fail [OF _ z1]] by simp
      next
        case F: False
        then have "r = Acquired 0 current path" "t = s1" using run n False g None by auto
        then show ?thesis using m1 by (auto simp: ref1_def intro: moves_cong)
      qed
    next
      case (Some ir)
      then obtain i rest where ir: "match_entry path (dir_list d) = Some (i, rest)" by (cases ir) auto
      obtain p s2 x where a: "AcquireNode fo mp i s1 = Some (p, s2)" and x: "nodes s2 p = Some x"
        using run n False g ir by (auto split: bind_splits)
      note m2 = moves_trans [OF m1 AcquireNode_moves(2) [OF a z1]]
      show ?thesis
      proof (cases "rest = [] \<or> ntype x = TYPE_SYMLINK")
        case True
        then have "(r = Acquired p current rest \<or> r = FoundSymlink p current rest) \<and> t = s2"
          using run n False g ir a x by (auto split: if_splits)
        then show ?thesis using m2 by (auto intro: moves_cong)
      next
        case go: False
        then obtain s3 where rel: "ReleaseNode fo current True s2 = Some s3"
          and rec: "AcquirePathRec_loop fo uid gid mp fe dm rest p s3 = Some (r, t)"
          using run n False g ir a x by (auto split: bind_splits if_splits)
        note m3 = moves_trans [OF m2 Release_one [OF rel moves_null [OF m2 z]]]
        have "length rest < length path" using match_entry_shorter [OF ir] go by simp
        from less.IH [OF this rec moves_null [OF m3 z]] show ?thesis by (rule moves_trans' [OF m3]) simp_all
      qed
    qed
  qed
qed

lemma AcquirePathRec_moves:
  assumes "AcquirePathRec fo uid gid mp path fe dm s = Some (r, t)" and z: "nodes s 0 = None"
  shows "moves s t (handed r) (\<lambda>_. 0)"
proof -
  obtain m p s1 where a: "AcquireNode fo mp (rootNode m) s = Some (p, s1)" and "mounts s mp = Some m"
    and r: "(if path = [] then Some (Acquired p nullptr path, s1) else AcquirePathRec_loop fo uid gid mp fe dm path p s1) = Some (r, t)"
    using assms(1) by (auto simp: AcquirePathRec_def split: bind_splits)
  note m1 = AcquireNode_moves(2) [OF a z]
  show ?thesis
  proof (cases "path = []")
    case True
    then show ?thesis using r m1 by (auto simp: ref1_def intro: moves_cong)
  next
    case False
    then have "AcquirePathRec_loop fo uid gid mp fe dm path p s1 = Some (r, t)" using r by simp
    from AcquirePathRec_loop_moves [OF this moves_null [OF m1 z]] show ?thesis by (rule moves_trans' [OF m1]) simp_all
  qed
qed

lemma AcquirePath_round_moves:
  assumes "AcquirePath_round fo uid gid path fe dm s = Some (r, t)" and z: "nodes s 0 = None"
  shows "moves s t (case r of Done x \<Rightarrow> held_nodes x | Retry _ \<Rightarrow> \<lambda>_. 0) (case r of Done x \<Rightarrow> held_mount x | Retry _ \<Rightarrow> \<lambda>_. 0)"
proof -
  obtain mp s1 m a s2 where f: "FindMountPoint path s = Some (mp, s1)" and m: "mounts s1 mp = Some m"
    and q: "AcquirePathRec fo uid gid mp (AdvancePath path (mpath m)) fe dm s1 = Some (a, s2)"
    using assms(1) by (auto simp: AcquirePath_round_def split: bind_splits)
  note m1 = FindMountPoint_moves [OF f]
  note m2 = moves_trans [OF m1 AcquirePathRec_moves [OF q moves_null [OF m1 z]]]
  note z2 = moves_null [OF m2 z]
  show ?thesis
  proof (cases a)
    case (Acquired p par rest)
    then show ?thesis using assms(1) f m q m2
      by (auto simp: AcquirePath_round_def held_nodes_def held_mount_def intro: moves_cong)
  next
    case (AcquireFailed e)
    then obtain s3 where rel: "ReleaseMountPoint mp True s2 = Some s3" and "r = Done (Inl e)" "t = s3"
      using assms(1) f m q by (auto simp: AcquirePath_round_def split: bind_splits)
    then show ?thesis using moves_trans [OF m2 ReleaseMountPoint_moves [OF rel]] AcquireFailed
      by (auto simp: held_nodes_def held_mount_def intro: moves_cong)
  next
    case (FoundSymlink p par rest)
    then obtain s3 s4 s5 where r1: "ReleaseNode fo p True s2 = Some s3" and r2: "ReleaseNode fo par True s3 = Some s4"
      and r3: "ReleaseMountPoint mp True s4 = Some s5" and t: "t = s5" and r: "r = Done (Inl ErrorPathTooLong) \<or> (\<exists>x. r = Retry x)"
      using assms(1) f m q by (auto simp: AcquirePath_round_def split: bind_splits if_splits)
    note m3 = moves_trans [OF m2 Release_one [OF r1 z2]]
    note m4 = moves_trans [OF m3 Release_one [OF r2 moves_null [OF m3 z]]]
    have "moves s t (\<lambda>_. 0) (\<lambda>_. 0)" unfolding t
      by (rule moves_trans' [OF m4 ReleaseMountPoint_moves [OF r3]]) (simp_all add: FoundSymlink)
    then show ?thesis using r by (auto simp: held_nodes_def held_mount_def intro: moves_cong)
  qed
qed

lemma AcquirePath_moves:
  assumes "AcquirePath fo uid gid path fe dm s = Some (r, t)" and "nodes s 0 = None"
  shows "moves s t (held_nodes r) (held_mount r)"
proof -
  have "fo = fo \<longrightarrow> nodes s 0 = None \<longrightarrow> moves s (snd (r, t)) (held_nodes (fst (r, t))) (held_mount (fst (r, t)))"
  proof (rule AcquirePath.raw_induct [OF _ assms(1), where P = "\<lambda>fo' uid gid path fe dm s r. fo' = fo \<longrightarrow> nodes s 0 = None \<longrightarrow>
      moves s (snd r) (held_nodes (fst r)) (held_mount (fst r))"], intro impI)
    fix loop fo' uid gid path fe dm s and r :: "(kerror + located) \<times> 'w vfs"
    assume ih: "\<And>fo' uid gid path fe dm s r. loop fo' uid gid path fe dm s = Some r \<Longrightarrow> fo' = fo \<longrightarrow> nodes s 0 = None \<longrightarrow>
        moves s (snd r) (held_nodes (fst r)) (held_mount (fst r))"
      and run: "do { (r, s) \<leftarrow> AcquirePath_round fo' uid gid path fe dm s;
          (case r of Done res \<Rightarrow> Some (res, s) | Retry path \<Rightarrow> loop fo' uid gid path fe dm s) } = Some r"
      and fo: "fo' = fo" and z: "nodes s 0 = None"
    obtain a s1 where a: "AcquirePath_round fo uid gid path fe dm s = Some (a, s1)" using run fo by (auto split: bind_splits)
    note m1 = AcquirePath_round_moves [OF a z]
    show "moves s (snd r) (held_nodes (fst r)) (held_mount (fst r))"
    proof (cases a)
      case (Done x)
      then show ?thesis using run fo a m1 by auto
    next
      case (Retry path')
      then have "loop fo uid gid path' fe dm s1 = Some r" using run fo a by simp
      from ih [OF this] moves_null [OF m1 z] have "moves s1 (snd r) (held_nodes (fst r)) (held_mount (fst r))" by simp
      from moves_trans [OF m1 this] show ?thesis using Retry by simp
    qed
  qed
  then show ?thesis using assms(2) by simp
qed

end

section \<open>Running an operation\<close>

text \<open>From state \<open>s\<close> on, the rest \<open>f\<close> of an operation changes the counts by \<open>\<delta>\<close> and \<open>\<mu>\<close>. The rules below follow the
  text of an operation, statement by statement.\<close>

lemmas counts = held_nodes_def held_mount_def ref1_def node_refs_def

definition leaves :: "('r \<Rightarrow> ptr \<Rightarrow> u64) \<Rightarrow> ('r \<Rightarrow> ptr \<Rightarrow> u64) \<Rightarrow> 'w vfs \<Rightarrow> ('r \<times> 'w vfs) option \<Rightarrow> bool" where
  "leaves \<delta> \<mu> s f \<longleftrightarrow> (nodes s 0 = None \<longrightarrow> (\<forall>r t. f = Some (r, t) \<longrightarrow> moves s t (\<delta> r) (\<mu> r)))"

named_theorems leaves_rules

lemma leaves_moves: "leaves \<delta> \<mu> s f \<Longrightarrow> f = Some (r, t) \<Longrightarrow> nodes s 0 = None \<Longrightarrow> moves s t (\<delta> r) (\<mu> r)"
  by (simp add: leaves_def)

lemma leaves_step:
  assumes m: "moves s t \<delta>' \<mu>'" and l: "leaves \<epsilon> \<nu> t f"
    and e: "\<And>r q. \<delta>' q + \<epsilon> r q = \<delta> r q" "\<And>r q. q \<noteq> g_RootMount s \<Longrightarrow> \<mu>' q + \<nu> r q = \<mu> r q"
  shows "leaves \<delta> \<mu> s f"
  unfolding leaves_def
proof (intro impI allI)
  fix r u assume "nodes s 0 = None" "f = Some (r, u)"
  then show "moves s u (\<delta> r) (\<mu> r)" using moves_trans' [OF m leaves_moves [OF l]] moves_null [OF m] e by blast
qed

lemma leaves_None [leaves_rules]: "leaves \<delta> \<mu> s None"
  by (simp add: leaves_def)

lemma leaves_return [leaves_rules]: "(\<And>q. \<delta> r q = 0) \<Longrightarrow> (\<And>q. q \<noteq> g_RootMount s \<Longrightarrow> \<mu> r q = 0) \<Longrightarrow> leaves \<delta> \<mu> s (Some (r, s))"
  by (auto simp: leaves_def intro: moves_cong [OF moves_refl])

lemma leaves_pure: "(\<And>x. f = Some x \<Longrightarrow> leaves \<delta> \<mu> s (k x)) \<Longrightarrow> leaves \<delta> \<mu> s (f \<bind> k)"
  by (cases f) (auto simp: leaves_def)

lemma leaves_node [leaves_rules]: "(\<And>n. nodes s p = Some n \<Longrightarrow> leaves \<delta> \<mu> s (k n)) \<Longrightarrow> leaves \<delta> \<mu> s (nodes s p \<bind> k)"
  by (rule leaves_pure)

lemma leaves_mount [leaves_rules]: "(\<And>m. mounts s p = Some m \<Longrightarrow> leaves \<delta> \<mu> s (k m)) \<Longrightarrow> leaves \<delta> \<mu> s (mounts s p \<bind> k)"
  by (rule leaves_pure)

lemma leaves_pair [leaves_rules]: "leaves \<delta> \<mu> s (f a b) \<Longrightarrow> leaves \<delta> \<mu> s (case (a, b) of (x, y) \<Rightarrow> f x y)"
  by simp

lemma leaves_if [leaves_rules]: "(b \<Longrightarrow> leaves \<delta> \<mu> s f) \<Longrightarrow> (\<not> b \<Longrightarrow> leaves \<delta> \<mu> s g) \<Longrightarrow> leaves \<delta> \<mu> s (if b then f else g)"
  by simp

lemma leaves_sum [leaves_rules]:
  "(\<And>e. x = Inl e \<Longrightarrow> leaves \<delta> \<mu> s (f e)) \<Longrightarrow> (\<And>y. x = Inr y \<Longrightarrow> leaves \<delta> \<mu> s (g y)) \<Longrightarrow> leaves \<delta> \<mu> s (case x of Inl e \<Rightarrow> f e | Inr y \<Rightarrow> g y)"
  by (cases x) simp_all

lemma leaves_option [leaves_rules]:
  "(x = None \<Longrightarrow> leaves \<delta> \<mu> s f) \<Longrightarrow> (\<And>y. x = Some y \<Longrightarrow> leaves \<delta> \<mu> s (g y)) \<Longrightarrow>
   leaves \<delta> \<mu> s (case x of None \<Rightarrow> f | Some y \<Rightarrow> g y)"
  by (cases x) simp_all

text \<open>A part of an operation whose effect on the counts is known.\<close>

lemma leaves_bind:
  assumes f: "leaves \<delta>' \<mu>' s f"
    and k: "\<And>a t. f = Some (a, t) \<Longrightarrow> leaves (\<lambda>r q. \<delta> r q - \<delta>' a q) (\<lambda>r q. \<mu> r q - \<mu>' a q) t (k (a, t))"
  shows "leaves \<delta> \<mu> s (f \<bind> k)"
  unfolding leaves_def
proof (intro impI allI)
  fix r u assume z: "nodes s 0 = None" and r: "f \<bind> k = Some (r, u)"
  then obtain a t where a: "f = Some (a, t)" and u: "k (a, t) = Some (r, u)" by (cases f) auto
  have m: "moves s t (\<delta>' a) (\<mu>' a)" using f a z by (rule leaves_moves)
  show "moves s u (\<delta> r) (\<mu> r)" by (rule moves_trans' [OF m leaves_moves [OF k [OF a] u moves_null [OF m z]]]) simp_all
qed

lemma leaves_release [leaves_rules]:
  assumes "\<And>t. leaves (\<lambda>r q. \<delta> r q + ref1 p q) \<mu> t (k t)"
  shows "leaves \<delta> \<mu> s (ReleaseNode fo p True s \<bind> k)"
proof (cases "ReleaseNode fo p True s")
  case (Some t)
  show ?thesis
  proof (cases "nodes s 0 = None")
    case True
    then show ?thesis using leaves_step [OF Release_one [OF Some True] assms, where \<delta> = \<delta> and \<mu> = \<mu>] Some by simp
  qed (auto simp: leaves_def)
qed (simp add: leaves_def)

lemma leaves_release_null [leaves_rules]:
  assumes "\<And>t. leaves (\<lambda>r q. \<delta> r q + ref1 p q) \<mu> t (k t)"
  shows "leaves \<delta> \<mu> s ((if p \<noteq> nullptr then ReleaseNode fo p True s else Some s) \<bind> k)"
proof (cases "if p \<noteq> nullptr then ReleaseNode fo p True s else Some s")
  case (Some t)
  then show ?thesis using leaves_step [OF Release_null [OF Some] assms, where \<delta> = \<delta> and \<mu> = \<mu>] by simp
qed (simp add: leaves_def)

lemma leaves_release_keep [leaves_rules]:
  assumes "\<And>t. leaves \<delta> \<mu> t (k t)"
  shows "leaves \<delta> \<mu> s (ReleaseNode fo p False s \<bind> k)"
proof (cases "ReleaseNode fo p False s")
  case (Some t)
  then show ?thesis using leaves_step [OF ReleaseNode_moves [OF Some] assms, where \<delta> = \<delta> and \<mu> = \<mu>] by simp
qed (simp add: leaves_def)

lemma leaves_release_mount [leaves_rules]:
  assumes "\<And>t. leaves \<delta> (\<lambda>r q. \<mu> r q + (if dec \<and> q = p then 1 else 0)) t (k t)"
  shows "leaves \<delta> \<mu> s (ReleaseMountPoint p dec s \<bind> k)"
proof (cases "ReleaseMountPoint p dec s")
  case (Some t)
  then show ?thesis using leaves_step [OF ReleaseMountPoint_moves [OF Some] assms, where \<delta> = \<delta> and \<mu> = \<mu>] by simp
qed (simp add: leaves_def)

lemma leaves_put_node:
  "nodes s p = Some n \<Longrightarrow> refCount n' = refCount n \<Longrightarrow> leaves \<delta> \<mu> (put_node p n' s) f \<Longrightarrow> leaves \<delta> \<mu> s f"
  using moves_put_node [of s p n n' 0] by (auto intro: leaves_step)

lemma leaves_put [leaves_rules]:
  assumes "nodes s p \<noteq> None" and "refCount n = node_refs s p"
  shows "leaves \<delta> \<mu> (put_node p n s) (ReleaseNode fo x dec (put_node p n s) \<bind> k) \<Longrightarrow>
      leaves \<delta> \<mu> s (ReleaseNode fo x dec (put_node p n s) \<bind> k)"
    and "leaves \<delta> \<mu> (put_node p n s) (AddDirEntry fo x i name (put_node p n s) \<bind> j) \<Longrightarrow>
      leaves \<delta> \<mu> s (AddDirEntry fo x i name (put_node p n s) \<bind> j)"
    and "leaves \<delta> \<mu> (put_node p n s) (nodes (put_node p n s) x \<bind> g) \<Longrightarrow>
      leaves \<delta> \<mu> s (nodes (put_node p n s) x \<bind> g)"
    and "leaves \<delta> \<mu> (put_node p n s) (Some (r, put_node p n s)) \<Longrightarrow> leaves \<delta> \<mu> s (Some (r, put_node p n s))"
  using assms by (auto simp: node_refs_def simp del: put_node_sel intro: leaves_put_node)

lemma leaves_world: "leaves \<delta> \<mu> (s \<lparr> world := w \<rparr>) f \<Longrightarrow> leaves \<delta> \<mu> s f"
  by (simp add: leaves_def moves_def)

context file_system
begin

lemma leaves_find_mount [leaves_rules]:
  assumes "\<And>mp t. leaves \<delta> (\<lambda>r q. \<mu> r q - (if q = mp then 1 else 0)) t (k (mp, t))"
  shows "leaves \<delta> \<mu> s (FindMountPoint path s \<bind> k)"
proof (cases "FindMountPoint path s")
  case (Some x)
  then obtain mp t where f: "FindMountPoint path s = Some (mp, t)" by (cases x) auto
  show ?thesis using leaves_step [OF FindMountPoint_moves [OF f] assms, where \<delta> = \<delta> and \<mu> = \<mu>] f by simp
qed (simp add: leaves_def)

lemma leaves_acquire [leaves_rules]:
  assumes "\<And>a t. leaves (\<lambda>r q. \<delta> r q - held_nodes a q) (\<lambda>r q. \<mu> r q - held_mount a q) t (k (a, t))"
  shows "leaves \<delta> \<mu> s (AcquirePath fo uid gid path fe dm s \<bind> k)"
proof (cases "AcquirePath fo uid gid path fe dm s")
  case (Some x)
  then obtain r t where f: "AcquirePath fo uid gid path fe dm s = Some (r, t)" by (cases x) auto
  show ?thesis
  proof (cases "nodes s 0 = None")
    case True
    show ?thesis using leaves_step [OF AcquirePath_moves [OF f True] assms, where \<delta> = \<delta> and \<mu> = \<mu>] f by simp
  qed (auto simp: leaves_def)
qed (simp add: leaves_def)

lemma leaves_dir [leaves_rules]:
  assumes "\<And>d t. leaves \<delta> \<mu> t (k (d, t))"
  shows "leaves \<delta> \<mu> s (GetNodeDir fo p s \<bind> k)"
proof (cases "GetNodeDir fo p s")
  case (Some x)
  then obtain d t where f: "GetNodeDir fo p s = Some (d, t)" by (cases x) auto
  show ?thesis using leaves_step [OF GetNodeDir_moves [OF f] assms, where \<delta> = \<delta> and \<mu> = \<mu>] f by simp
qed (simp add: leaves_def)

lemma leaves_add_entry [leaves_rules]:
  assumes "\<And>t. leaves \<delta> \<mu> t (k t)"
  shows "leaves \<delta> \<mu> s (AddDirEntry fo p i name s \<bind> k)"
proof (cases "AddDirEntry fo p i name s")
  case (Some t)
  show ?thesis using leaves_step [OF AddDirEntry_moves [OF Some] assms, where \<delta> = \<delta> and \<mu> = \<mu>] Some by simp
qed (simp add: leaves_def)

lemma leaves_create [leaves_rules]:
  assumes "\<And>p t. p \<noteq> 0 \<Longrightarrow> leaves (\<lambda>r q. \<delta> r q - ref1 p q) \<mu> t (k (p, t))"
  shows "leaves \<delta> \<mu> s (CreateNode fo mp 1 s \<bind> k)"
proof (cases "CreateNode fo mp 1 s")
  case (Some x)
  then obtain p t where f: "CreateNode fo mp 1 s = Some (p, t)" by (cases x) auto
  note c = CreateNode_moves [OF f]
  show ?thesis
    using leaves_step [OF c(2) assms [OF c(1)], where \<delta> = \<delta> and \<mu> = \<mu>] f c(1) by (auto simp: ref1_def)
qed (simp add: leaves_def)

lemma create_at_leaves:
  assumes "\<And>s n n'. init s n = Some n' \<Longrightarrow> refCount n' = refCount n"
  shows "leaves (\<lambda>_ _. 0) (\<lambda>_ _. 0) s (create_at fo c path init s)"
  unfolding create_at_def Let_def
  apply (intro leaves_rules; (simp add: counts; fail)?)
  apply (rule leaves_pure)
  apply (intro leaves_rules; simp add: counts assms)
  done

lemma with_node_leaves:
  assumes "\<And>l n s. nodes s (lNode l) = Some n \<Longrightarrow> leaves (\<lambda>_ _. 0) (\<lambda>_ _. 0) s (body l n s)"
  shows "leaves (\<lambda>_ _. 0) (\<lambda>_ _. 0) s (with_node fo c path dm body s)"
  unfolding with_node_def Let_def
  apply (intro leaves_rules; (simp add: counts; fail)?)
  apply (rule leaves_bind [OF assms], assumption)
  apply (intro leaves_rules; simp add: counts)
  done

lemma delete_entry_leaves:
  "leaves (\<lambda>r q. if isl r then 0 else - held_nodes (Inr l) q) (\<lambda>r q. if isl r then 0 else - held_mount (Inr l) q) s (delete_entry fo l s)"
  unfolding delete_entry_def Let_def
  by (intro leaves_rules; simp add: counts)

lemma delete_check_leaves:
  "leaves held_nodes held_mount s (delete_check fo c path s)"
  unfolding delete_check_def Let_def
  by (intro leaves_rules; simp add: counts)

lemma CreateHardLink_leaves: "leaves (\<lambda>_ _. 0) (\<lambda>_ _. 0) s (CreateHardLink fo c path lp s)"
  unfolding CreateHardLink_def Let_def
  by (intro leaves_rules; simp add: counts)

lemma create_leaves:
  "leaves (\<lambda>_ _. 0) (\<lambda>_ _. 0) s (CreateFile fo c path pm s)"
  "leaves (\<lambda>_ _. 0) (\<lambda>_ _. 0) s (CreateFolder fo c path pm s)"
  "leaves (\<lambda>_ _. 0) (\<lambda>_ _. 0) s (CreateDeviceFile fo c path pm d sub s)"
  "leaves (\<lambda>_ _. 0) (\<lambda>_ _. 0) s (CreateSymLink fo c path pm link s)"
  unfolding CreateFile_def CreateFolder_def CreateDeviceFile_def CreateSymLink_def
  by (rule create_at_leaves; auto split: bind_splits)+

lemma change_leaves:
  "leaves (\<lambda>_ _. 0) (\<lambda>_ _. 0) s (ChangeOwner fo c path u g s)"
  "leaves (\<lambda>_ _. 0) (\<lambda>_ _. 0) s (ChangePermissions fo c path pm s)"
  unfolding ChangeOwner_def ChangePermissions_def
  by (rule with_node_leaves; intro leaves_rules; simp add: counts)+

lemma Stat_leaves: "leaves (\<lambda>_ _. 0) (\<lambda>_ _. 0) s (Stat fo c path follow s)"
  unfolding Stat_def
  by (rule with_node_leaves, rule leaves_pure, intro leaves_rules) simp_all

lemma leaves_set_world: "leaves \<delta> \<mu> s (Some (r, s)) \<Longrightarrow> leaves \<delta> \<mu> s (Some (r, s \<lparr> world := w \<rparr>))"
  by (simp add: leaves_def moves_def)

lemma List_dir_leaves: "leaves (\<lambda>_ _. 0) (\<lambda>_ _. 0) s (List_dir fo c path k ents s)"
  unfolding List_dir_def Let_def
  by (rule with_node_leaves; intro leaves_rules; auto split: prod.splits intro!: leaves_set_world leaves_rules)

lemma mount_check_leaves:
  "leaves (\<lambda>_ _. 0) held_mount s (mount_check fo c path s)"
  unfolding mount_check_def Let_def
  by (intro leaves_rules; simp add: counts)

lemma mount_attach_leaves: "leaves (\<lambda>_ _. 0) (\<lambda>_ _. 0) s (mount_attach fo f l s)"
  unfolding leaves_def
proof (intro impI allI)
  fix r t assume r: "mount_attach fo f l s = Some (r, t)"
  then obtain p m x y where p: "new_addr fo s = Some p" and m: "mounts s (lMP l) = Some m"
    and t: "t = put_mount p (new_mount \<lparr> mpath := lBuffer l, mfs := f, mrefCount := 0, mparent := lMP l, rootNode := x \<rparr>)
                    (put_mount (lMP l) (m \<lparr> childMounts := childMounts m @ [p] \<rparr>) (s \<lparr> world := y \<rparr>))"
    by (auto simp: mount_attach_def Let_def ReleaseMountPoint_def split: bind_splits)
  note f = new_addr_fresh [OF p]
  then show "moves s t (\<lambda>_. 0) (\<lambda>_. 0)" using t m by (auto simp: moves_def mount_refs_def new_mount_def)
qed

lemma Unmount_leaves: "leaves (\<lambda>_ _. 0) (\<lambda>_ _. 0) s (Unmount fo c path s)"
  unfolding Unmount_def Let_def
  apply (intro leaves_rules; (simp add: counts; fail)?)
  apply (rule leaves_pure)
  apply (auto simp: leaves_def moves_def mount_refs_def node_refs_def)
  done

lemma open_node_leaves:
  "leaves (\<lambda>r q. case r of Inl _ \<Rightarrow> - held_nodes (Inr l) q | Inr p \<Rightarrow> ref1 p q - ref1 (lNode l) q)
     (\<lambda>r q. if isl r then - held_mount (Inr l) q else 0) s (open_node fo c mode l s)"
  unfolding open_node_def Let_def
  by (intro leaves_rules; simp add: counts)

lemma clear_data_moves:
  assumes "clear_data fo mp p s = Some t" shows "moves s t (\<lambda>_. 0) (\<lambda>_. 0)"
proof -
  obtain m n n' w where n: "nodes s p = Some n" and "mounts s mp = Some m"
    and u: "ClearNodeData fo (mfs m) n (world s) = Some (n', w)" and t: "t = put_node p n' (s \<lparr> world := w \<rparr>)"
    using assms by (auto simp: clear_data_def split: bind_splits)
  show ?thesis using moves_keep [OF n ClearNodeData_ref [OF u]] t by simp
qed

lemma leaves_clear [leaves_rules]:
  assumes "\<And>t. leaves \<delta> \<mu> t (k t)"
  shows "leaves \<delta> \<mu> s ((if b then clear_data fo mp p s else Some s) \<bind> k)"
proof (cases "if b then clear_data fo mp p s else Some s")
  case (Some t)
  have "moves s t (\<lambda>_. 0) (\<lambda>_. 0)" using Some by (auto intro: clear_data_moves moves_refl split: if_splits)
  from leaves_step [OF this assms, where \<delta> = \<delta> and \<mu> = \<mu>] show ?thesis using Some by simp
qed (simp add: leaves_def)

lemma open_check_leaves:
  "leaves (\<lambda>r q. if isl r then - ref1 p q else 0) (\<lambda>r q. if isl r then - held_mount (Inr l) q else 0) s
     (open_check fo c mode l p s)"
  unfolding open_check_def Let_def
  by (intro leaves_rules; simp add: counts)

lemma open_file_leaves: "leaves held_nodes held_mount s (open_file fo c buf mode s)"
  unfolding open_file_def
  apply (intro leaves_rules; (simp add: counts; fail)?)
  apply (rule leaves_bind [OF open_node_leaves])
  apply (intro leaves_rules; (simp add: counts; fail)?)
  apply (rule leaves_bind [OF open_check_leaves])
  apply (intro leaves_rules; simp add: counts)
  done

end

end
