(* ===== verification/VfsProps.thy ===== *)
theory VfsProps
  imports VfsRefs
begin

text \<open>
  Runs of the virtual file system: any sequence of operations by any callers after \<open>VFS_Init\<close>. The reference count of
  a node never falls below the number of descriptors that are open on it, so a descriptor never refers to
  a node that has been freed.
\<close>

section \<open>Steps\<close>

inductive vfs_step :: "'w fs_ops \<Rightarrow> 'w vfs \<Rightarrow> 'w vfs \<Rightarrow> bool" for fo where
  CreateFile: "CreateFile fo c path pm s = Some (r, t) \<Longrightarrow> vfs_step fo s t"
| CreateFolder: "CreateFolder fo c path pm s = Some (r, t) \<Longrightarrow> vfs_step fo s t"
| CreateDeviceFile: "CreateDeviceFile fo c path pm drv sub s = Some (r, t) \<Longrightarrow> vfs_step fo s t"
| CreateSymLink: "CreateSymLink fo c path pm link s = Some (r, t) \<Longrightarrow> vfs_step fo s t"
| CreateHardLink: "CreateHardLink fo c path link s = Some (r, t) \<Longrightarrow> vfs_step fo s t"
| CreatePipe: "CreatePipe fo s = Some (rw, t) \<Longrightarrow> vfs_step fo s t"
| Delete: "Delete fo c path s = Some (r, t) \<Longrightarrow> vfs_step fo s t"
| ChangeOwner: "ChangeOwner fo c path u g s = Some (r, t) \<Longrightarrow> vfs_step fo s t"
| ChangePermissions: "ChangePermissions fo c path pm s = Some (r, t) \<Longrightarrow> vfs_step fo s t"
| Stat: "Stat fo c path follow s = Some (st, t) \<Longrightarrow> vfs_step fo s t"
| List_dir: "List_dir fo c path k ents s = Some (ls, t) \<Longrightarrow> vfs_step fo s t"
| Mount: "Mount fo c path f s = Some (r, t) \<Longrightarrow> vfs_step fo s t"
| Unmount: "Unmount fo c path s = Some (r, t) \<Longrightarrow> vfs_step fo s t"
| Open: "Open fo c path mode s = Some (d, t) \<Longrightarrow> vfs_step fo s t"
| Close: "Close fo d s = Some (r, t) \<Longrightarrow> vfs_step fo s t"
| AddRef: "AddRef d s = Some (r, t) \<Longrightarrow> vfs_step fo s t"
| Read: "Read fo d buf z s = Some (i, t) \<Longrightarrow> vfs_step fo s t"
| Write: "Write fo d buf z s = Some (i, t) \<Longrightarrow> vfs_step fo s t"
| DeviceCommand: "DeviceCommand fo d cmd buf s = Some (i, t) \<Longrightarrow> vfs_step fo s t"
| Seek: "Seek d mode offs s = Some (r, t) \<Longrightarrow> vfs_step fo s t"
| CD: "CD fo c path s = Some (cw, t) \<Longrightarrow> vfs_step fo s t"

text \<open>\<open>vfs_run fo k s t\<close>: \<open>k\<close> operations lead from \<open>s\<close> to \<open>t\<close>.\<close>

inductive vfs_run :: "'w fs_ops \<Rightarrow> nat \<Rightarrow> 'w vfs \<Rightarrow> 'w vfs \<Rightarrow> bool" for fo where
  stop: "vfs_run fo 0 s s"
| step: "vfs_run fo k s t \<Longrightarrow> vfs_step fo t u \<Longrightarrow> vfs_run fo (Suc k) s u"

section \<open>Descriptors and counts\<close>

definition users :: "'w vfs \<Rightarrow> ptr \<Rightarrow> ptr set" where
  "users s p = {d. \<exists>D. descs s d = Some D \<and> dnode D = p}"

text \<open>After \<open>k\<close> operations the count of every node is the number of its descriptors and of the references that were
  lost, which are at most two for each operation.\<close>

definition refs_ok :: "nat \<Rightarrow> 'w vfs \<Rightarrow> bool" where
  "refs_ok k s \<longleftrightarrow> nodes s 0 = None \<and> finite (dom (descs s)) \<and>
     (\<exists>lost. \<forall>q. node_refs s q = of_nat (card (users s q) + lost q) \<and> card (users s q) + lost q \<le> 2 * k)"

lemma users_finite: "finite (dom (descs s)) \<Longrightarrow> finite (users s p)"
  by (rule finite_subset [of _ "dom (descs s)"]) (auto simp: users_def)

lemma refs_okI:
  assumes "nodes s 0 = None" and "finite (dom (descs s))"
    and "\<And>q. node_refs s q = of_nat (card (users s q) + lost q)" and "\<And>q. card (users s q) + lost q \<le> 2 * k"
  shows "refs_ok k s"
  using assms unfolding refs_ok_def by blast

text \<open>Operations that leave the descriptors alone and give back what they took, up to two references.\<close>

lemma refs_ok_lost:
  assumes ok: "refs_ok k s" and m: "moves s t (\<lambda>q. of_nat (extra q)) \<mu>" and e: "\<And>q. extra q \<le> 2"
  shows "refs_ok (Suc k) t"
proof -
  obtain lost where l: "\<And>q. node_refs s q = of_nat (card (users s q) + lost q)" "\<And>q. card (users s q) + lost q \<le> 2 * k"
    using ok by (auto simp: refs_ok_def)
  have u: "users t = users s" using m by (simp add: users_def moves_def fun_eq_iff)
  show ?thesis
  proof (rule refs_okI [where lost = "\<lambda>q. lost q + extra q"])
    show "nodes t 0 = None" using ok m by (auto simp: refs_ok_def intro: moves_null)
    show "finite (dom (descs t))" using ok m by (simp add: refs_ok_def moves_def)
    show "node_refs t q = of_nat (card (users t q) + (lost q + extra q))" for q
      using m l(1) [of q] by (simp add: u moves_def add.assoc)
    show "card (users t q) + (lost q + extra q) \<le> 2 * Suc k" for q using l(2) [of q] e [of q] by (simp add: u)
  qed
qed

lemma refs_ok_moves: "refs_ok k s \<Longrightarrow> moves s t (\<lambda>_. 0) \<mu> \<Longrightarrow> refs_ok (Suc k) t"
  using refs_ok_lost [where extra = "\<lambda>_. 0"] by simp

lemma refs_ok_leaves:
  assumes "leaves (\<lambda>_ _. 0) (\<lambda>_ _. 0) s f" and "f = Some (r, t)" and "refs_ok k s"
  shows "refs_ok (Suc k) t"
  using refs_ok_moves [OF assms(3) leaves_moves [OF assms(1,2)]] assms(3) by (simp add: refs_ok_def)

text \<open>Changing a descriptor without changing its node, opening and closing one.\<close>

lemma refs_ok_desc:
  assumes ok: "refs_ok k s" and d: "descs s d = Some D" and n: "dnode D' = dnode D"
  shows "refs_ok k (put_desc d D' s)"
proof -
  have "users (put_desc d D' s) = users s" using d n by (auto simp: users_def fun_eq_iff)
  moreover have "dom (descs (put_desc d D' s)) = insert d (dom (descs s))" by (auto simp: put_desc_def)
  ultimately show ?thesis using ok by (simp add: refs_ok_def)
qed

lemma refs_ok_open:
  assumes ok: "refs_ok k s" and m: "moves s u (ref1 (dnode D)) \<mu>" and d: "descs s d = None" and z: "dnode D \<noteq> 0"
  shows "refs_ok (Suc k) (put_desc d D u)"
proof -
  obtain lost where l: "\<And>q. node_refs s q = of_nat (card (users s q) + lost q)" "\<And>q. card (users s q) + lost q \<le> 2 * k"
    using ok by (auto simp: refs_ok_def)
  have fin: "finite (dom (descs s))" using ok by (simp add: refs_ok_def)
  have "users (put_desc d D u) q = (if q = dnode D then insert d (users s q) else users s q)" for q
    using d m by (auto simp: users_def moves_def)
  then have c: "card (users (put_desc d D u) q) = card (users s q) + (if q = dnode D then 1 else 0)" for q
    using d users_finite [OF fin, of q] by (auto simp: users_def)
  show ?thesis
  proof (rule refs_okI [where lost = lost])
    show "nodes (put_desc d D u) 0 = None" using ok m by (auto simp: refs_ok_def intro: moves_null)
    have "dom (descs (put_desc d D u)) = insert d (dom (descs s))" using m by (auto simp: put_desc_def moves_def)
    then show "finite (dom (descs (put_desc d D u)))" using fin by simp
    show "node_refs (put_desc d D u) q = of_nat (card (users (put_desc d D u) q) + lost q)" for q
      using m l(1) [of q] z by (simp add: c moves_def ref1_def)
    show "card (users (put_desc d D u) q) + lost q \<le> 2 * Suc k" for q using l(2) [of q] by (auto simp: c)
  qed
qed

lemma refs_ok_close:
  assumes ok: "refs_ok k s" and m: "moves s u (\<lambda>q. - ref1 (dnode D) q) \<mu>" and d: "descs s d = Some D" and z: "dnode D \<noteq> 0"
  shows "refs_ok (Suc k) (u \<lparr> descs := (descs u)(d := None) \<rparr>)"
proof -
  let ?t = "u \<lparr> descs := (descs u)(d := None) \<rparr>"
  obtain lost where l: "\<And>q. node_refs s q = of_nat (card (users s q) + lost q)" "\<And>q. card (users s q) + lost q \<le> 2 * k"
    using ok by (auto simp: refs_ok_def)
  have fin: "finite (dom (descs s))" using ok by (simp add: refs_ok_def)
  have "users ?t q = (if q = dnode D then users s q - {d} else users s q)" for q
    using d m by (auto simp: users_def moves_def)
  then have c: "card (users s q) = card (users ?t q) + (if q = dnode D then 1 else 0)" for q
    using d users_finite [OF fin, of q] card_Suc_Diff1 [of "users s q" d] by (auto simp: users_def)
  show ?thesis
  proof (rule refs_okI [where lost = lost])
    show "nodes ?t 0 = None" using ok m by (auto simp: refs_ok_def intro: moves_null)
    show "finite (dom (descs ?t))" using fin m by (simp add: moves_def)
    show "node_refs ?t q = of_nat (card (users ?t q) + lost q)" for q
      using m l(1) [of q] z c [of q] by (simp add: moves_def ref1_def node_refs_def)
    show "card (users ?t q) + lost q \<le> 2 * Suc k" for q using l(2) [of q] c [of q] by simp
  qed
qed

context file_system
begin

lemma Delete_refs:
  assumes "Delete fo c path s = Some (r, t)" and "refs_ok k s"
  shows "refs_ok (Suc k) t"
proof -
  have z: "nodes s 0 = None" using assms(2) by (simp add: refs_ok_def)
  obtain a s1 where a: "delete_check fo c path s = Some (a, s1)"
    using assms(1) by (auto simp: Delete_def split: bind_splits)
  note m1 = leaves_moves [OF delete_check_leaves a z]
  show ?thesis
  proof (cases a)
    case (Inl e)
    then have "moves s t (\<lambda>_. 0) (held_mount a)" using assms(1) a m1 by (auto simp: Delete_def held_nodes_def intro: moves_cong)
    then show ?thesis using assms(2) by (rule refs_ok_moves [rotated])
  next
    case (Inr l)
    then have b: "delete_entry fo l s1 = Some (r, t)" using assms a by (simp add: Delete_def)
    note m2 = moves_trans [OF m1 leaves_moves [OF delete_entry_leaves b moves_null [OF m1 z]]]
    show ?thesis
    proof (cases "isl r")
      case True
      have "moves s t (\<lambda>q. of_nat ((if lNode l \<noteq> 0 \<and> q = lNode l then 1 else 0) + (if lParent l \<noteq> 0 \<and> q = lParent l then 1 else 0)))
          (\<lambda>q. held_mount a q)"
        using m2 True Inr by (auto simp: held_nodes_def ref1_def intro: moves_cong)
      then show ?thesis by (rule refs_ok_lost [OF assms(2)]) auto
    next
      case False
      then show ?thesis using m2 Inr assms(2) by (auto intro: refs_ok_moves moves_cong)
    qed
  qed
qed

lemma Mount_refs:
  assumes "Mount fo c path f s = Some (r, t)" and "refs_ok k s"
  shows "refs_ok (Suc k) t"
proof -
  have z: "nodes s 0 = None" using assms(2) by (simp add: refs_ok_def)
  obtain a s1 where a: "mount_check fo c path s = Some (a, s1)"
    using assms(1) by (auto simp: Mount_def split: bind_splits)
  note m1 = leaves_moves [OF mount_check_leaves a z]
  show ?thesis
  proof (cases a)
    case (Inl e)
    then show ?thesis using assms a m1 by (auto simp: Mount_def intro: refs_ok_moves)
  next
    case (Inr l)
    then have b: "mount_attach fo f l s1 = Some (r, t)" using assms a by (simp add: Mount_def)
    have "moves s t (\<lambda>_. 0) (\<lambda>q. held_mount a q + 0)"
      using moves_trans [OF m1 leaves_moves [OF mount_attach_leaves b moves_null [OF m1 z]]] by simp
    then show ?thesis using assms(2) by (rule refs_ok_moves [rotated])
  qed
qed

lemma open_node_Some:
  assumes "open_node fo c mode l s = Some (Inr p, t)" and "nodes s 0 = None" shows "p \<noteq> 0"
  using assms CreateNode_moves(1) by (fastforce simp: open_node_def Let_def split: bind_splits if_splits)

lemma open_file_node:
  assumes "open_file fo c buf mode s = Some (Inr l, t)" and "nodes s 0 = None"
  shows "lParent l = 0" and "lNode l \<noteq> 0"
proof -
  obtain k s1 p s2 where "AcquirePath fo (caller_uid c) (caller_gid c) buf (mode AND OpenMode_Create = 0) False s = Some (Inr k, s1)"
    and o: "open_node fo c mode k s1 = Some (Inr p, s2)" and l: "l = k \<lparr> lNode := p, lParent := nullptr \<rparr>"
    using assms(1) by (auto simp: open_file_def split: bind_splits sum.splits)
  then have "nodes s1 0 = None" using AcquirePath_moves assms(2) moves_null by blast
  then show "lParent l = 0" "lNode l \<noteq> 0" using open_node_Some [OF o] l by simp_all
qed

lemma Open_refs:
  assumes "Open fo c path mode s = Some (r, t)" and "refs_ok k s"
  shows "refs_ok (Suc k) t"
proof (cases "PreparePath (caller_cwd c) path")
  case (Inl e)
  then show ?thesis using assms refs_ok_moves [OF assms(2) moves_refl] by (simp add: Open_def)
next
  case (Inr buf)
  have z: "nodes s 0 = None" using assms(2) by (simp add: refs_ok_def)
  obtain a s1 where a: "open_file fo c buf mode s = Some (a, s1)"
    using assms(1) Inr by (auto simp: Open_def split: bind_splits)
  note m1 = leaves_moves [OF open_file_leaves a z]
  show ?thesis
  proof (cases a)
    case (Inl e)
    then have "moves s t (\<lambda>_. 0) (held_mount a)"
      using assms(1) a m1 Inr by (auto simp: Open_def held_nodes_def intro: moves_cong)
    then show ?thesis using assms(2) by (rule refs_ok_moves [rotated])
  next
    case l: (Inr l)
    obtain d where d: "new_addr fo s1 = Some d" and t: "t = put_desc d \<lparr> drefCount = 1, dnode = lNode l,
        dpermissions = ucast (mode AND 0xFF), dpos = 0, dpath = take 254 buf \<rparr> s1" (is "_ = put_desc d ?D s1")
      using assms(1) Inr a l by (auto simp: Open_def new_desc_def split: bind_splits)
    have p: "lParent l = 0" "lNode l \<noteq> 0" using open_file_node [OF a [unfolded l]] z by auto
    have "moves s s1 (ref1 (dnode ?D)) (held_mount a)" using m1 l p by (auto simp: held_nodes_def ref1_def intro: moves_cong)
    moreover have "descs s d = None" using new_addr_fresh [OF d] m1 by (simp add: moves_def)
    ultimately show ?thesis using refs_ok_open [OF assms(2), of s1 ?D] p t by simp
  qed
qed

lemma Close_refs:
  assumes "Close fo d s = Some (r, t)" and "refs_ok k s"
  shows "refs_ok (Suc k) t"
proof (cases "d = 0")
  case True
  then show ?thesis using assms refs_ok_moves [OF assms(2) moves_refl] by (simp add: Close_def)
next
  case False
  then obtain D where D: "descs s d = Some D" using assms(1) by (auto simp: Close_def split: bind_splits)
  let ?D = "D \<lparr> drefCount := drefCount D - 1 \<rparr>"
  let ?s = "put_desc d ?D s"
  have ok: "refs_ok k ?s" using refs_ok_desc [OF assms(2) D] by simp
  have z: "nodes ?s 0 = None" using ok by (simp add: refs_ok_def)
  show ?thesis
  proof (cases "drefCount ?D = 0")
    case True
    then obtain n s1 s2 where r1: "ReleaseNode fo (dnode D) True ?s = Some s1" and r2: "ReleaseMountPoint (node_mp n) True s1 = Some s2"
      and n: "nodes ?s (dnode D) = Some n" and t: "t = s2 \<lparr> descs := (descs s2)(d := None) \<rparr>"
      using assms(1) False D by (auto simp: Close_def Let_def split: bind_splits)
    have m: "moves ?s s2 (\<lambda>q. - ref1 (dnode ?D) q) (\<lambda>q. 0 + (if True \<and> q = node_mp n then - 1 else 0))"
      using moves_trans [OF Release_one [OF r1 z] ReleaseMountPoint_moves [OF r2]] by simp
    have "dnode ?D \<noteq> 0" using n z by auto
    then show ?thesis using refs_ok_close [OF ok m, of d] t by simp
  next
    case b: False
    then have "t = ?s" using assms(1) False D by (simp add: Close_def Let_def)
    then show ?thesis using refs_ok_moves [OF ok moves_refl] by simp
  qed
qed

lemma CreatePipe_refs:
  assumes "CreatePipe fo s = Some (r, t)" and ok: "refs_ok k s"
  shows "refs_ok (Suc k) t"
proof -
  obtain p s1 n a b A B where c: "CreateNode fo (g_PipeMount s) 2 s = Some (p, s1)" and n: "nodes s1 p = Some n"
    and a: "new_addr fo (put_node p (n \<lparr> ntype := TYPE_PIPE \<rparr>) s1) = Some a"
    and b: "new_addr fo (put_desc a A (put_node p (n \<lparr> ntype := TYPE_PIPE \<rparr>) s1)) = Some b"
    and t: "t = put_desc b B (put_desc a A (put_node p (n \<lparr> ntype := TYPE_PIPE \<rparr>) s1))" (is "_ = put_desc b B (put_desc a A ?u)")
    and AB: "dnode A = p" "dnode B = p"
    using assms(1) by (auto simp: CreatePipe_def Let_def split: bind_splits)
  have m: "moves s ?u (\<lambda>q. if q = p then 2 else 0) (\<lambda>_. 0)"
    using moves_trans [OF CreateNode_moves(2) [OF c] moves_put_node [OF n, of "n \<lparr> ntype := TYPE_PIPE \<rparr>" 0]]
    by (auto intro: moves_cong)
  have da: "descs s a = None" "descs s b = None" "b \<noteq> a"
    using new_addr_fresh [OF a] new_addr_fresh [OF b] m by (auto simp: moves_def split: if_splits)
  obtain lost where l: "\<And>q. node_refs s q = of_nat (card (users s q) + lost q)" "\<And>q. card (users s q) + lost q \<le> 2 * k"
    using ok by (auto simp: refs_ok_def)
  have fin: "finite (dom (descs s))" using ok by (simp add: refs_ok_def)
  have ds: "descs t = (descs s)(a \<mapsto> A, b \<mapsto> B)" using t m by (simp add: put_desc_def moves_def)
  have "users t q = (if q = p then insert a (insert b (users s q)) else users s q)" for q
    using da AB by (auto simp: users_def ds)
  then have card: "card (users t q) = card (users s q) + (if q = p then 2 else 0)" for q
    using da users_finite [OF fin, of q] by (auto simp: users_def)
  show ?thesis
  proof (rule refs_okI [where lost = lost])
    show "nodes t 0 = None" using ok moves_null [OF m] t by (simp add: refs_ok_def)
    show "finite (dom (descs t))" using fin ds by simp
    show "node_refs t q = of_nat (card (users t q) + lost q)" for q using m l(1) [of q] t card [of q] by (simp add: moves_def)
    show "card (users t q) + lost q \<le> 2 * Suc k" for q using l(2) [of q] card [of q] by auto
  qed
qed

lemma CD_leaves: "leaves (\<lambda>_ _. 0) (\<lambda>_ _. 0) s (CD fo c path s)"
  unfolding CD_def Let_def
  by (intro leaves_rules; simp add: counts)

text \<open>Reading and writing keep the counts and change one descriptor's position.\<close>

lemma moves_set_world: "moves s (s \<lparr> world := w \<rparr>) (\<lambda>_. 0) (\<lambda>_. 0)"
  by (simp add: moves_def)

lemma Read_node_moves:
  assumes "Read_node fo p pos buf z s = Some (res, t)" shows "moves s t (\<lambda>_. 0) (\<lambda>_. 0)"
  using assms
  by (auto simp: Read_node_def moves_set_world moves_refl split: bind_splits if_splits option.splits
      intro!: moves_keep ReadNodeData_ref)

lemma Write_node_moves:
  assumes "Write_node fo p pos buf z s = Some (res, t)" shows "moves s t (\<lambda>_. 0) (\<lambda>_. 0)"
  using assms
  by (auto simp: Write_node_def moves_set_world moves_refl split: bind_splits if_splits option.splits
      intro!: moves_keep WriteNodeData_ref)

lemma advance_refs:
  assumes "advance_pos d pos res s = Some (i, t)" and "refs_ok k s" shows "refs_ok k t"
  using assms refs_ok_desc [OF assms(2)] by (auto simp: advance_pos_def split: bind_splits if_splits)

lemma read_write_refs:
  "Read fo d buf z s = Some (i, t) \<Longrightarrow> refs_ok k s \<Longrightarrow> refs_ok (Suc k) t"
  "Write fo d buf z s = Some (i, t) \<Longrightarrow> refs_ok k s \<Longrightarrow> refs_ok (Suc k) t"
  using refs_ok_moves [OF _ moves_refl]
  by (auto simp: Read_def Write_def split: bind_splits if_splits
      intro: advance_refs refs_ok_moves [OF _ Read_node_moves] refs_ok_moves [OF _ Write_node_moves])

lemma DeviceCommand_refs:
  "DeviceCommand fo d cmd buf s = Some (i, t) \<Longrightarrow> refs_ok k s \<Longrightarrow> refs_ok (Suc k) t"
  using refs_ok_moves [OF _ moves_refl] refs_ok_moves [OF _ moves_set_world]
  by (auto simp: DeviceCommand_def split: bind_splits if_splits option.splits)

lemma AddRef_Seek_refs:
  "AddRef d s = Some (r, t) \<Longrightarrow> refs_ok k s \<Longrightarrow> refs_ok (Suc k) t"
  "Seek d mode offs s = Some (r, t) \<Longrightarrow> refs_ok k s \<Longrightarrow> refs_ok (Suc k) t"
  using refs_ok_moves [OF _ moves_refl]
  by (auto simp: AddRef_def Seek_def Let_def split: bind_splits if_splits intro: refs_ok_moves [OF refs_ok_desc moves_refl])

lemmas step_refs = Delete_refs Mount_refs Open_refs Close_refs CreatePipe_refs read_write_refs DeviceCommand_refs
  AddRef_Seek_refs

lemmas step_leaves = create_leaves CreateHardLink_leaves change_leaves Stat_leaves List_dir_leaves Unmount_leaves CD_leaves

lemma vfs_step_refs: "vfs_step fo s t \<Longrightarrow> refs_ok k s \<Longrightarrow> refs_ok (Suc k) t"
  by (induction rule: vfs_step.induct) (erule (1) step_refs | erule step_leaves [THEN refs_ok_leaves], assumption)+

lemma vfs_run_refs: "vfs_run fo k s t \<Longrightarrow> refs_ok 0 s \<Longrightarrow> refs_ok k t"
  by (induction rule: vfs_run.induct) (auto intro: vfs_step_refs)

lemma refs_ok_alive:
  assumes ok: "refs_ok k s" and k: "k < 2 ^ 62" and d: "descs s d = Some D"
  shows "\<exists>n. nodes s (dnode D) = Some n \<and> 0 < card (users s (dnode D)) \<and> card (users s (dnode D)) \<le> unat (refCount n)"
proof -
  let ?p = "dnode D"
  obtain lost where l: "node_refs s ?p = of_nat (card (users s ?p) + lost ?p)" "card (users s ?p) + lost ?p \<le> 2 * k"
    using ok by (auto simp: refs_ok_def)
  have "d \<in> users s ?p" using d by (auto simp: users_def)
  moreover have "finite (users s ?p)" using ok users_finite [of s ?p] by (simp add: refs_ok_def)
  ultimately have pos: "0 < card (users s ?p)" by (auto simp: card_gt_0_iff)
  have u: "unat (node_refs s ?p) = card (users s ?p) + lost ?p"
    unfolding l(1) using l(2) k by (simp add: unat_of_nat del: of_nat_add)
  then have "node_refs s ?p \<noteq> 0" using pos by (metis add_is_0 less_irrefl unat_0)
  then obtain n where "nodes s ?p = Some n" by (cases "nodes s ?p") (auto simp: node_refs_def)
  then show ?thesis using pos u by (simp add: node_refs_def)
qed

lemma VFS_Init_refs:
  assumes "VFS_Init fo r p s0 = Some s" and "nodes s0 = Map.empty" and "descs s0 = Map.empty"
  shows "refs_ok 0 s"
proof -
  have "nodes s = Map.empty" "descs s = Map.empty"
    using assms by (auto simp: VFS_Init_def Let_def fun_eq_iff split: bind_splits)
  then show ?thesis by (intro refs_okI [where lost = "\<lambda>_. 0"]) (simp_all add: users_def node_refs_def)
qed

text \<open>Opening: the rights that were asked for had been granted.\<close>

lemma ReleaseNode_keep_node:
  assumes "ReleaseNode fo p False s = Some t" and "nodes s p = Some n" and "refCount n \<noteq> 0" shows "nodes t p = Some n"
  using assms by (auto simp: ReleaseNode_def Let_def split: bind_splits if_splits)

lemma open_check_granted:
  assumes r: "open_check fo c mode l p s = Some (Inr u, t)"
  shows "\<exists>n. nodes s p = Some n \<and> ntype n \<noteq> TYPE_DIRECTORY \<and>
    CheckPermissions (caller_uid c) (caller_gid c) n (ucast (mode AND (OpenMode_Read OR OpenMode_Write))) \<and>
    (refCount n \<noteq> 0 \<longrightarrow> (\<exists>n'. nodes t p = Some n' \<and> ntype n' = ntype n \<and> permissions n' = permissions n \<and>
      ownerUID n' = ownerUID n \<and> ownerGID n' = ownerGID n))"
proof -
  obtain n where n: "nodes s p = Some n" and g: "ntype n \<noteq> TYPE_DIRECTORY"
    "CheckPermissions (caller_uid c) (caller_gid c) n (ucast (mode AND (OpenMode_Read OR OpenMode_Write)))"
    using r by (auto simp: open_check_def split: bind_splits if_splits)
  then obtain s1 s2 where c: "(if mode AND OpenMode_Clear \<noteq> 0 \<and> ntype n = TYPE_FILE then clear_data fo (lMP l) p s else Some s) = Some s1"
    and rel: "ReleaseNode fo p False s1 = Some s2" and t: "t = s2"
    using r by (auto simp: open_check_def ReleaseMountPoint_def split: bind_splits)
  obtain n1 where n1: "nodes s1 p = Some n1" "refCount n1 = refCount n" "ntype n1 = ntype n" "permissions n1 = permissions n"
    "ownerUID n1 = ownerUID n" "ownerGID n1 = ownerGID n"
    using c n ClearNodeData_ref ClearNodeData_keeps
    by (fastforce simp: clear_data_def split: bind_splits if_splits)
  then show ?thesis using n g ReleaseNode_keep_node [OF rel n1(1)] t by auto
qed

lemma Open_Inr:
  assumes o: "Open fo c path mode s = Some (Inr d, t)" and ok: "refs_ok k s" and k: "k < 2 ^ 62"
  shows "\<exists>D n. descs s d = None \<and> descs t = (descs s)(d \<mapsto> D) \<and> dpermissions D = ucast (mode AND 0xFF) \<and> dpos D = 0 \<and> drefCount D = 1 \<and>
    nodes t (dnode D) = Some n \<and> ntype n \<noteq> TYPE_DIRECTORY \<and>
    CheckPermissions (caller_uid c) (caller_gid c) n (ucast (mode AND (OpenMode_Read OR OpenMode_Write)))"
proof -
  have z: "nodes s 0 = None" using ok by (simp add: refs_ok_def)
  obtain buf l s1 where f: "open_file fo c buf mode s = Some (Inr l, s1)"
    and n: "new_desc fo mode buf (lNode l) s1 = Some (Inr d, t)"
    using o by (auto simp: Open_def split: bind_splits sum.splits)
  note m = leaves_moves [OF open_file_leaves f z]
  note l = open_file_node [OF f z]
  obtain k1 sa p sb sc where a: "AcquirePath fo (caller_uid c) (caller_gid c) buf (mode AND OpenMode_Create = 0) False s = Some (Inr k1, sa)"
    and b: "open_node fo c mode k1 sa = Some (Inr p, sb)"
    and r: "(if lParent k1 \<noteq> nullptr then ReleaseNode fo (lParent k1) True sb else Some sb) = Some sc"
    and ch: "open_check fo c mode k1 p sc = Some (Inr (), s1)" and p: "lNode l = p"
    using f by (auto simp: open_file_def split: bind_splits sum.splits)
  have za: "nodes sa 0 = None" by (rule moves_null [OF AcquirePath_moves [OF a z] z])
  have zb: "nodes sb 0 = None" by (rule moves_null [OF leaves_moves [OF open_node_leaves b za] za])
  have zc: "nodes sc 0 = None" by (rule moves_null [OF Release_null [OF r] zb])
  have same: "node_refs s1 p = node_refs sc p" using leaves_moves [OF open_check_leaves ch zc] by (simp add: moves_def)
  obtain x where x: "node_refs s p = of_nat x" "x \<le> 2 * k" using ok unfolding refs_ok_def by blast
  have "node_refs s1 p = of_nat (Suc x)" using m l p x(1) by (simp add: moves_def held_nodes_def ref1_def)
  then have "node_refs s1 p \<noteq> 0" using x(2) k by (simp add: word_of_nat_eq_0_iff del: of_nat_Suc) (auto dest: dvd_imp_le)
  then obtain g where g: "nodes s1 p = Some g" "ntype g \<noteq> TYPE_DIRECTORY"
    "CheckPermissions (caller_uid c) (caller_gid c) g (ucast (mode AND (OpenMode_Read OR OpenMode_Write)))"
    using open_check_granted [OF ch] same by (auto simp: node_refs_def CheckPermissions_def)
  obtain "t = put_desc d \<lparr> drefCount = 1, dnode = p, dpermissions = ucast (mode AND 0xFF), dpos = 0, dpath = take 254 buf \<rparr> s1"
    and d: "new_addr fo s1 = Some d"
    using n p by (auto simp: new_desc_def split: bind_splits)
  then show ?thesis using g new_addr_fresh [OF d] m by (auto simp: put_desc_def moves_def)
qed

end

section \<open>Symbolic links\<close>

text \<open>A lookup that keeps meeting links of the same path never ends.\<close>

lemma AcquirePath_retry_forever:
  assumes "S s" and r: "\<And>s. S s \<Longrightarrow> \<exists>t. S t \<and> AcquirePath_round fo uid gid path fe dm s = Some (Retry path, t)"
  shows "AcquirePath fo uid gid path fe dm s = None"
proof (rule ccontr)
  assume "AcquirePath fo uid gid path fe dm s \<noteq> None"
  then obtain x where x: "AcquirePath fo uid gid path fe dm s = Some x" by blast
  have "\<not> (fo = fo \<and> uid = uid \<and> gid = gid \<and> path = path \<and> fe = fe \<and> dm = dm \<and> S s)"
  proof (rule AcquirePath.raw_induct [OF _ x, where P = "\<lambda>fo' uid' gid' path' fe' dm' s r.
      \<not> (fo' = fo \<and> uid' = uid \<and> gid' = gid \<and> path' = path \<and> fe' = fe \<and> dm' = dm \<and> S s)"], rule notI)
    fix loop fo' uid' gid' path' fe' dm' s and r' :: "(kerror + located) \<times> 'a vfs"
    assume ih: "\<And>fo' uid' gid' path' fe' dm' s r. loop fo' uid' gid' path' fe' dm' s = Some r \<Longrightarrow>
        \<not> (fo' = fo \<and> uid' = uid \<and> gid' = gid \<and> path' = path \<and> fe' = fe \<and> dm' = dm \<and> S s)"
      and run: "do { (r, s) \<leftarrow> AcquirePath_round fo' uid' gid' path' fe' dm' s;
          (case r of Done res \<Rightarrow> Some (res, s) | Retry path \<Rightarrow> loop fo' uid' gid' path fe' dm' s) } = Some r'"
      and eq: "fo' = fo \<and> uid' = uid \<and> gid' = gid \<and> path' = path \<and> fe' = fe \<and> dm' = dm \<and> S s"
    obtain t where t: "S t" "AcquirePath_round fo uid gid path fe dm s = Some (Retry path, t)" using r eq by blast
    then have "loop fo uid gid path fe dm t = Some r'" using run eq by auto
    then show False using ih t(1) by blast
  qed
  then show False using assms(1) by simp
qed

text \<open>The text of a link is not prepared as a path: behind a leading slash no entry matches.\<close>

lemma absolute_link_not_found:
  "list_all (\<lambda>e. ename e \<noteq> [] \<and> slash \<notin> set (ename e)) es \<Longrightarrow> match_entry (slash # path) es = None"
proof (induction es)
  case (Cons e es)
  then have "PathWalk (slash # path) (ename e) = None" by (cases "ename e") auto
  then show ?case using Cons by simp
qed simp

end
