(* ===== verification/UserMem.thy ===== *)
theory UserMem
  imports KErrno
begin

text \<open>
  User memory as the kernel sees it: bytes at addresses, with holes where nothing is mapped, and the copies
  that stop at a hole instead of faulting (\<open>kmemcpy_usersafe\<close> of \<^verbatim>\<open>klib/memory.cpp\<close> and \<^verbatim>\<open>klib/memory.asm\<close>). A
  failing copy has written or read everything in front of the hole. The file systems and the block
  device cache copy through these functions.
\<close>

type_synonym umem = "u64 \<Rightarrow> u8 option"

section \<open>Copies\<close>

text \<open>To user memory and from user memory. The second gives the bytes it could read.\<close>

fun put_bytes :: "umem \<Rightarrow> u64 \<Rightarrow> u8 list \<Rightarrow> bool \<times> umem" where
  "put_bytes m a [] = (True, m)"
| "put_bytes m a (b # bs) = (if m a = None then (False, m) else put_bytes (m(a \<mapsto> b)) (a + 1) bs)"

fun get_bytes :: "umem \<Rightarrow> u64 \<Rightarrow> nat \<Rightarrow> bool \<times> u8 list" where
  "get_bytes m a 0 = (True, [])"
| "get_bytes m a (Suc n) =
     (case m a of
        None \<Rightarrow> (False, [])
      | Some b \<Rightarrow> let (ok, bs) = get_bytes m (a + 1) n in (ok, b # bs))"

text \<open>A copy into an array of the kernel at an offset.\<close>

definition overwrite :: "'a list \<Rightarrow> nat \<Rightarrow> 'a list \<Rightarrow> 'a list" where
  "overwrite xs i bs = take i xs @ bs @ drop (i + length bs) xs"

text \<open>The error code as the unsigned result of a transfer.\<close>

definition invalid_buffer :: u64 where
  "invalid_buffer = word_of_int (error_code ErrorInvalidBuffer)"

section \<open>Facts\<close>

definition user_mapped :: "umem \<Rightarrow> u64 \<Rightarrow> nat \<Rightarrow> bool" where
  "user_mapped m a n \<longleftrightarrow> (\<forall>i < n. m (a + of_nat i) \<noteq> None)"

lemma user_mapped_Suc: "user_mapped m a (Suc n) \<longleftrightarrow> m a \<noteq> None \<and> user_mapped m (a + 1) n"
proof
  assume l: "user_mapped m a (Suc n)"
  have "m (a + 1 + of_nat i) \<noteq> None" if "i < n" for i
    using l that unfolding user_mapped_def by (metis Suc_less_eq add.assoc add.commute of_nat_Suc)
  then show "m a \<noteq> None \<and> user_mapped m (a + 1) n" using l unfolding user_mapped_def by force
next
  assume r: "m a \<noteq> None \<and> user_mapped m (a + 1) n"
  show "user_mapped m a (Suc n)" unfolding user_mapped_def
  proof (intro allI impI)
    fix i assume "i < Suc n"
    then show "m (a + of_nat i) \<noteq> None" using r by (cases i) (auto simp: user_mapped_def add.assoc)
  qed
qed

lemma get_bytes_Suc:
  "m a = Some b \<Longrightarrow> get_bytes m a (Suc n) = (fst (get_bytes m (a + 1) n), b # snd (get_bytes m (a + 1) n))"
  by (simp add: case_prod_beta)

lemma get_bytes_mapped: "fst (get_bytes m a n) \<longleftrightarrow> user_mapped m a n"
proof (induction n arbitrary: a)
  case (Suc n)
  then show ?case by (cases "m a") (simp_all add: user_mapped_Suc case_prod_beta)
qed (simp add: user_mapped_def)

lemma get_bytes_length: "fst (get_bytes m a n) \<Longrightarrow> length (snd (get_bytes m a n)) = n"
proof (induction n arbitrary: a)
  case (Suc n)
  then show ?case by (cases "m a") (simp_all add: case_prod_beta)
qed simp

lemma get_bytes_le: "length (snd (get_bytes m a n)) \<le> n"
proof (induction n arbitrary: a)
  case (Suc n)
  then show ?case by (cases "m a") (simp_all add: case_prod_beta)
qed simp

lemma put_bytes_dom: "snd (put_bytes m a bs) x = None \<longleftrightarrow> m x = None"
  by (induction bs arbitrary: m a) auto

lemma put_bytes_mapped: "fst (put_bytes m a bs) \<longleftrightarrow> user_mapped m a (length bs)"
proof (induction bs arbitrary: m a)
  case (Cons b bs)
  have "user_mapped (m(a \<mapsto> b)) (a + 1) (length bs) \<longleftrightarrow> user_mapped m (a + 1) (length bs)" if "m a \<noteq> None"
  proof -
    have upd: "(m(a \<mapsto> b)) x \<noteq> None \<longleftrightarrow> m x \<noteq> None" for x using that by simp
    show ?thesis unfolding user_mapped_def upd by (rule refl)
  qed
  then show ?case by (simp add: user_mapped_Suc Cons.IH [of "m(a \<mapsto> b)" "a + 1"] del: fun_upd_apply)
qed (simp add: user_mapped_def)

text \<open>Below the address space limit a copy writes exactly its range.\<close>

definition within :: "u64 \<Rightarrow> nat \<Rightarrow> u64 \<Rightarrow> bool" where
  "within a n x \<longleftrightarrow> (\<exists>i < n. x = a + of_nat i)"

lemma within_Suc: "within a (Suc n) x \<longleftrightarrow> x = a \<or> within (a + 1) n x"
proof -
  have "within a (Suc n) x \<longleftrightarrow> x = a + of_nat 0 \<or> (\<exists>i < n. x = a + of_nat (Suc i))"
    unfolding within_def by (auto simp: less_Suc_eq_0_disj)
  then show ?thesis by (simp add: within_def add.assoc)
qed

lemma put_bytes_outside: "\<not> within a (length bs) x \<Longrightarrow> snd (put_bytes m a bs) x = m x"
  by (induction bs arbitrary: m a) (auto simp: within_Suc)

lemma get_put_bytes:
  "length bs < 2 ^ 64 \<Longrightarrow> fst (put_bytes m a bs) \<Longrightarrow> get_bytes (snd (put_bytes m a bs)) a (length bs) = (True, bs)"
proof (induction bs arbitrary: m a)
  case (Cons b bs)
  have out: "\<not> within (a + 1) (length bs) a"
  proof
    assume "within (a + 1) (length bs) a"
    then obtain i where i: "i < length bs" "a = a + 1 + of_nat i" by (auto simp: within_def)
    then have "of_nat (Suc i) = (0 :: u64)" by (metis add.assoc add_cancel_right_right of_nat_Suc)
    then have "(2 :: nat) ^ 64 dvd Suc i" by (simp add: word_of_nat_eq_0_iff del: of_nat_Suc)
    then show False using i(1) Cons.prems(1) by (auto dest: dvd_imp_le)
  qed
  have ok: "m a \<noteq> None" "fst (put_bytes (m(a \<mapsto> b)) (a + 1) bs)" using Cons.prems(2) by (auto split: if_splits)
  have h: "snd (put_bytes (m(a \<mapsto> b)) (a + 1) bs) a = Some b" using put_bytes_outside [OF out, of "m(a \<mapsto> b)"] by simp
  have t: "get_bytes (snd (put_bytes (m(a \<mapsto> b)) (a + 1) bs)) (a + 1) (length bs) = (True, bs)"
    by (rule Cons.IH) (use Cons.prems(1) ok(2) in \<open>simp_all del: fun_upd_apply\<close>)
  show ?case using ok(1) h t by (simp del: fun_upd_apply)
qed simp

lemma overwrite_length: "i + length bs \<le> length xs \<Longrightarrow> length (overwrite xs i bs) = length xs"
  by (simp add: overwrite_def)

lemma overwrite_read: "i + length bs \<le> length xs \<Longrightarrow> take (length bs) (drop i (overwrite xs i bs)) = bs"
  by (simp add: overwrite_def)

lemma put_bytes_append:
  "put_bytes m a (xs @ ys) =
    (if fst (put_bytes m a xs) then put_bytes (snd (put_bytes m a xs)) (a + of_nat (length xs)) ys else put_bytes m a xs)"
proof (induction xs arbitrary: m a)
  case (Cons x xs)
  show ?case
  proof (cases "m a = None")
    case False
    then show ?thesis using Cons.IH [of "m(a \<mapsto> x)" "a + 1"] by (auto simp: add.assoc simp del: fun_upd_apply)
  qed simp
qed simp

lemma get_bytes_append:
  "get_bytes m a (i + j) =
    (if fst (get_bytes m a i)
     then (fst (get_bytes m (a + of_nat i) j), snd (get_bytes m a i) @ snd (get_bytes m (a + of_nat i) j))
     else get_bytes m a i)"
proof (induction i arbitrary: a)
  case (Suc i)
  show ?case
  proof (cases "m a")
    case (Some b)
    then show ?thesis using Suc.IH [of "a + 1"] by (simp add: add.assoc case_prod_beta)
  qed simp
qed simp

end
