(* ===== verification/TempFS.thy ===== *)
theory TempFS
  imports VfsProps UserMem
begin

text \<open>
  The memory file system, \<^verbatim>\<open>fs/tempfs/TempFS.cpp\<close>: every file is a structure whose address is the number of
  its node, with the contents in an array. The world of the virtual file system holds these structures,
  the file system objects and the user memory. With \<open>temp_ops\<close> the virtual file system runs on it, which
  satisfies the contract \<open>file_system\<close>. An access outside of an array is the result \<open>None\<close>; bytes that
  \<^verbatim>\<open>new\<close> leaves uninitialised are 0 here.
\<close>

section \<open>Data\<close>

record TestNode =
  t_type :: NodeType
  t_dir :: "Directory option"
  linkRefCount :: u64
  t_uid :: u64
  t_gid :: u64
  t_perms :: Permissions
  fileSize :: u64
  fileData :: "u8 list"

record TempFS_obj =
  m_RootNodeID :: u64
  m_MP :: ptr

record temp_world =
  tnodes :: "u64 \<Rightarrow> TestNode option"
  tempfs :: "ptr \<Rightarrow> TempFS_obj option"
  user_memory :: umem

definition new_test_node :: TestNode where
  "new_test_node = \<lparr> t_type = TYPE_FILE, t_dir = None, linkRefCount = 0, t_uid = 0, t_gid = 0, t_perms = mk_perms 0 0 0,
     fileSize = 0, fileData = [] \<rparr>"

section \<open>Operations\<close>

text \<open>The constructor; \<open>p\<close> is the address of the root structure and \<open>f\<close> that of the object.\<close>

definition TempFS_new :: "ptr \<Rightarrow> u64 \<Rightarrow> temp_world \<Rightarrow> temp_world" where
  "TempFS_new f p w =
     w \<lparr> tnodes := (tnodes w)(p \<mapsto> new_test_node \<lparr> t_type := TYPE_DIRECTORY, t_dir := Some (Directory_Create 10), linkRefCount := 1,
           t_perms := mk_perms (PermRead OR PermWrite OR PermExecute) (PermRead OR PermExecute) (PermRead OR PermExecute) \<rparr>),
         tempfs := (tempfs w)(f \<mapsto> \<lparr> m_RootNodeID = p, m_MP = 0 \<rparr>) \<rparr>"

definition TempFS_GetSuperBlock :: "ptr \<Rightarrow> temp_world \<Rightarrow> (u64 \<times> temp_world) option" where
  "TempFS_GetSuperBlock f w = do { t \<leftarrow> tempfs w f; Some (m_RootNodeID t, w) }"

definition TempFS_SetMountPoint :: "ptr \<Rightarrow> ptr \<Rightarrow> temp_world \<Rightarrow> temp_world option" where
  "TempFS_SetMountPoint f mp w = do { t \<leftarrow> tempfs w f; Some (w \<lparr> tempfs := (tempfs w)(f \<mapsto> t \<lparr> m_MP := mp \<rparr>) \<rparr>) }"

definition TempFS_PrepareUnmount :: "ptr \<Rightarrow> temp_world \<Rightarrow> temp_world option" where
  "TempFS_PrepareUnmount f w = Some w"

definition TempFS_CreateNode :: "u64 option \<Rightarrow> ptr \<Rightarrow> Node \<Rightarrow> temp_world \<Rightarrow> (Node \<times> temp_world) option" where
  "TempFS_CreateNode addr f n w =
     do { p \<leftarrow> addr;
          Some (n \<lparr> node_id := p, linkCount := 0, ready := True \<rparr>, w \<lparr> tnodes := (tnodes w)(p \<mapsto> new_test_node) \<rparr>) }"

definition TempFS_DestroyNode :: "ptr \<Rightarrow> Node \<Rightarrow> temp_world \<Rightarrow> temp_world option" where
  "TempFS_DestroyNode f n w =
     do { t \<leftarrow> tnodes w (node_id n); Some (w \<lparr> tnodes := (tnodes w)(node_id n := None) \<rparr>) }"

text \<open>The union gets the stored pointer to the directory; a null pointer reads as zeros.\<close>

definition TempFS_ReadNode :: "ptr \<Rightarrow> u64 \<Rightarrow> Node \<Rightarrow> temp_world \<Rightarrow> (Node \<times> temp_world) option" where
  "TempFS_ReadNode f i n w =
     do { t \<leftarrow> tnodes w i;
          o' \<leftarrow> tempfs w f;
          Some (n \<lparr> info := (case t_dir t of Some d \<Rightarrow> InfoFolder d | None \<Rightarrow> InfoZero), node_mp := m_MP o', node_id := i,
                    linkCount := linkRefCount t, ntype := t_type t, ownerGID := t_gid t, ownerUID := t_uid t,
                    permissions := t_perms t, ready := True \<rparr>, w) }"

definition TempFS_WriteNode :: "ptr \<Rightarrow> Node \<Rightarrow> temp_world \<Rightarrow> temp_world option" where
  "TempFS_WriteNode f n w =
     do { t \<leftarrow> tnodes w (node_id n);
          Some (w \<lparr> tnodes := (tnodes w)(node_id n \<mapsto>
            t \<lparr> t_dir := (case info n of InfoFolder d \<Rightarrow> Some d | _ \<Rightarrow> None), t_type := ntype n, linkRefCount := linkCount n,
                t_gid := ownerGID n, t_uid := ownerUID n, t_perms := permissions n \<rparr>) \<rparr>) }"

definition TempFS_UpdateDir :: "ptr \<Rightarrow> Node \<Rightarrow> temp_world \<Rightarrow> (Node \<times> temp_world) option" where
  "TempFS_UpdateDir f n w = Some (n, w)"

definition TempFS_ReadNodeData :: "ptr \<Rightarrow> Node \<Rightarrow> u64 \<Rightarrow> ptr \<Rightarrow> u64 \<Rightarrow> temp_world \<Rightarrow> (u64 \<times> Node \<times> temp_world) option" where
  "TempFS_ReadNodeData f n pos buffer bufferSize w =
     do { t \<leftarrow> tnodes w (node_id n);
          let rem = fileSize t - pos
          in if rem = 0 then Some (0, n, w)
             else
               let rem = (if rem > bufferSize then bufferSize else rem)
               in if unat pos + unat rem > length (fileData t) then None
                  else
                    let (ok, m) = put_bytes (user_memory w) buffer (take (unat rem) (drop (unat pos) (fileData t)))
                    in Some (if ok then rem else invalid_buffer, n, w \<lparr> user_memory := m \<rparr>) }"

definition TempFS_WriteNodeData :: "ptr \<Rightarrow> Node \<Rightarrow> u64 \<Rightarrow> ptr \<Rightarrow> u64 \<Rightarrow> temp_world \<Rightarrow> (u64 \<times> Node \<times> temp_world) option" where
  "TempFS_WriteNodeData f n pos buffer bufferSize w =
     do { t \<leftarrow> tnodes w (node_id n);
          let cap = fileSize t - pos;
              (t, n) = (if cap < bufferSize then
                          (t \<lparr> fileData := fileData t @ replicate (unat (pos + bufferSize) - unat (fileSize t)) 0,
                               fileSize := pos + bufferSize \<rparr>,
                           n \<lparr> info := InfoFile (pos + bufferSize) \<rparr>)
                        else (t, n));
              (ok, bs) = get_bytes (user_memory w) buffer (unat bufferSize)
          in if cap < bufferSize \<and> unat (pos + bufferSize) < unat (pos + cap) then None
             else if unat pos + unat bufferSize > length (fileData t) then None
             else Some (if ok then bufferSize else invalid_buffer, n,
                        w \<lparr> tnodes := (tnodes w)(node_id n \<mapsto> t \<lparr> fileData := overwrite (fileData t) (unat pos) bs \<rparr>) \<rparr>) }"

text \<open>Clearing resets the stored size but not the size in the node.\<close>

definition TempFS_ClearNodeData :: "ptr \<Rightarrow> Node \<Rightarrow> temp_world \<Rightarrow> (Node \<times> temp_world) option" where
  "TempFS_ClearNodeData f n w =
     do { t \<leftarrow> tnodes w (node_id n);
          Some (n, w \<lparr> tnodes := (tnodes w)(node_id n \<mapsto> t \<lparr> fileSize := 0, fileData := [] \<rparr>) \<rparr>) }"

section \<open>The virtual file system on the memory file system\<close>

text \<open>The first address of a list that is not in use stands for the kernel's allocator. There are no devices.\<close>

definition first_free :: "u64 list \<Rightarrow> (u64 \<Rightarrow> bool) \<Rightarrow> u64 option" where
  "first_free addrs used = List.find (\<lambda>p. \<not> used p) addrs"

definition temp_ops :: "u64 list \<Rightarrow> temp_world fs_ops" where
  "temp_ops addrs = \<lparr>
     alloc = (\<lambda>w used. first_free addrs used),
     GetSuperBlock = TempFS_GetSuperBlock,
     SetMountPoint = TempFS_SetMountPoint,
     PrepareUnmount = TempFS_PrepareUnmount,
     fsCreateNode = (\<lambda>f n w. TempFS_CreateNode (first_free addrs (\<lambda>p. tnodes w p \<noteq> None)) f n w),
     DestroyNode = TempFS_DestroyNode,
     ReadNode = TempFS_ReadNode,
     UpdateDir = TempFS_UpdateDir,
     ReadNodeData = TempFS_ReadNodeData,
     WriteNodeData = TempFS_WriteNodeData,
     ClearNodeData = TempFS_ClearNodeData,
     driverType = (\<lambda>_ _. None),
     CharRead = (\<lambda>_ _ _ _ _. None),
     CharWrite = (\<lambda>_ _ _ _ _. None),
     GetData = (\<lambda>_ _ _ _ _ _. None),
     SetData = (\<lambda>_ _ _ _ _ _. None),
     driverCommand = (\<lambda>_ _ _ _ _. None),
     runFactory = (\<lambda>_ _. None),
     runFactoryDev = (\<lambda>_ _ _ _. None),
     deleteFS = (\<lambda>f w. Some (w \<lparr> tempfs := (tempfs w)(f := None) \<rparr>)),
     copy_to_user = (\<lambda>dst s w. let (ok, m) = put_bytes (user_memory w) dst (map (\<lambda>c. of_nat (of_char c)) s)
                               in (ok, w \<lparr> user_memory := m \<rparr>)) \<rparr>"

interpretation tfs: file_system "temp_ops addrs" for addrs
proof
  fix w used p assume "alloc (temp_ops addrs) w used = Some p"
  then show "\<not> used p" by (auto simp: temp_ops_def first_free_def dest: find_SomeD)
next
  fix f i n w n' w' assume "ReadNode (temp_ops addrs) f i n w = Some (n', w')"
  then show "refCount n' = refCount n" by (auto simp: temp_ops_def TempFS_ReadNode_def split: bind_splits)
next
  fix f n w n' w' assume "UpdateDir (temp_ops addrs) f n w = Some (n', w')"
  then show "refCount n' = refCount n" by (auto simp: temp_ops_def TempFS_UpdateDir_def)
next
  fix f n pos b z w r n' w' assume "ReadNodeData (temp_ops addrs) f n pos b z w = Some (r, n', w')"
  then show "refCount n' = refCount n"
    by (auto simp: temp_ops_def TempFS_ReadNodeData_def Let_def split: bind_splits if_splits prod.splits)
next
  fix f n pos b z w r n' w' assume "WriteNodeData (temp_ops addrs) f n pos b z w = Some (r, n', w')"
  then show "refCount n' = refCount n"
    by (auto simp: temp_ops_def TempFS_WriteNodeData_def Let_def split: bind_splits if_splits prod.splits)
next
  fix f n w n' w' assume "ClearNodeData (temp_ops addrs) f n w = Some (n', w')"
  then show "refCount n' = refCount n"
    and "ntype n' = ntype n \<and> permissions n' = permissions n \<and> ownerUID n' = ownerUID n \<and> ownerGID n' = ownerGID n"
    by (auto simp: temp_ops_def TempFS_ClearNodeData_def split: bind_splits)
qed

section \<open>File contents\<close>

definition temp_ok :: "TestNode \<Rightarrow> bool" where
  "temp_ok t \<longleftrightarrow> length (fileData t) = unat (fileSize t)"

lemma write_contents:
  assumes t: "tnodes w (node_id n) = Some t" and ok: "temp_ok t" and pos: "unat pos \<le> unat (fileSize t)"
    and small: "unat pos + unat z < 2 ^ 64" and g: "get_bytes (user_memory w) buf (unat z) = (True, bs)"
  shows "\<exists>n' t' w'. TempFS_WriteNodeData f n pos buf z w = Some (z, n', w') \<and> node_id n' = node_id n \<and>
    tnodes w' (node_id n) = Some t' \<and> temp_ok t' \<and> user_memory w' = user_memory w \<and>
    fileData t' = take (unat pos) (fileData t) @ bs @ drop (unat pos + unat z) (fileData t)"
proof -
  have len: "length bs = unat z" using get_bytes_length [of "user_memory w" buf "unat z"] g by simp
  have pz: "unat (pos + z) = unat pos + unat z" using small by (simp add: unat_add_lem [THEN iffD1])
  have "pos \<le> fileSize t" using pos by (simp add: word_le_nat_alt)
  then have cap: "unat (fileSize t - pos) = unat (fileSize t) - unat pos" by (simp add: unat_sub)
  show ?thesis
  proof (cases "fileSize t - pos < z")
    case True
    then have lt: "unat (fileSize t) < unat pos + unat z" using cap pos by (simp add: word_less_nat_alt)
    then show ?thesis
      using True t ok pos g len pz
      by (auto simp: TempFS_WriteNodeData_def temp_ok_def overwrite_def Let_def)
  next
    case False
    then have "unat pos + unat z \<le> unat (fileSize t)" using cap pos by (simp add: word_less_nat_alt)
    then show ?thesis using False t ok g len
      by (auto simp: TempFS_WriteNodeData_def temp_ok_def overwrite_def Let_def)
  qed
qed

lemma read_contents:
  assumes t: "tnodes w (node_id n) = Some t" and ok: "temp_ok t" and pos: "unat pos + unat z \<le> unat (fileSize t)"
    and z: "0 < unat z" and m: "user_mapped (user_memory w) buf (unat z)"
  shows "\<exists>w'. TempFS_ReadNodeData f n pos buf z w = Some (z, n, w') \<and>
    get_bytes (user_memory w') buf (unat z) = (True, take (unat z) (drop (unat pos) (fileData t)))"
proof -
  have "pos \<le> fileSize t" using pos by (simp add: word_le_nat_alt)
  then have cap: "unat (fileSize t - pos) = unat (fileSize t) - unat pos" by (simp add: unat_sub)
  then have "unat (fileSize t - pos) \<noteq> 0" using pos z by linarith
  then have "fileSize t - pos \<noteq> 0" by (metis unat_0)
  moreover have "(if fileSize t - pos > z then z else fileSize t - pos) = z"
    using cap pos by (auto simp: word_less_nat_alt word_unat_eq_iff)
  moreover let ?bs = "take (unat z) (drop (unat pos) (fileData t))"
  have len: "length ?bs = unat z" using ok pos by (simp add: temp_ok_def)
  have "fst (put_bytes (user_memory w) buf ?bs)" using m len by (simp add: put_bytes_mapped)
  moreover from get_put_bytes [OF _ this] have "get_bytes (snd (put_bytes (user_memory w) buf ?bs)) buf (unat z) = (True, ?bs)"
    using len unat_lt_64 [of z] by simp
  ultimately show ?thesis using t ok pos
    by (auto simp: TempFS_ReadNodeData_def temp_ok_def Let_def case_prod_beta)
qed

text \<open>
  C24: What is written to a file of the memory file system is read back. A write at a position inside the
  file or at its end stores the caller's bytes there, extends the file if needed and leaves all other
  bytes; a read of the same range then puts exactly these bytes into the given buffer.
\<close>

theorem TempFS_write_read:
  assumes "tnodes w (node_id n) = Some t" and "temp_ok t" and "unat pos \<le> unat (fileSize t)" and "unat pos + unat z < 2 ^ 64"
    and "0 < unat z" and "get_bytes (user_memory w) src (unat z) = (True, bs)" and "user_mapped (user_memory w) dst (unat z)"
  shows "\<exists>n' w' w'' t'. TempFS_WriteNodeData f n pos src z w = Some (z, n', w') \<and> tnodes w' (node_id n) = Some t' \<and> temp_ok t' \<and>
    fileData t' = take (unat pos) (fileData t) @ bs @ drop (unat pos + unat z) (fileData t) \<and>
    TempFS_ReadNodeData f n' pos dst z w' = Some (z, n', w'') \<and> get_bytes (user_memory w'') dst (unat z) = (True, bs)"
proof -
  obtain n' t' w' where w: "TempFS_WriteNodeData f n pos src z w = Some (z, n', w')" "node_id n' = node_id n"
    "tnodes w' (node_id n) = Some t'" "temp_ok t'" "user_memory w' = user_memory w"
    "fileData t' = take (unat pos) (fileData t) @ bs @ drop (unat pos + unat z) (fileData t)"
    using write_contents [OF assms(1-4,6), of f] by blast
  have len: "length bs = unat z" using get_bytes_length [of "user_memory w" src "unat z"] assms(6) by simp
  have sz: "unat pos + unat z \<le> unat (fileSize t')" using w(4,6) assms(2,3) len by (simp add: temp_ok_def)
  have "tnodes w' (node_id n') = Some t'" using w(2,3) by simp
  from read_contents [OF this w(4) sz assms(5), of dst f] obtain w'' where
    "TempFS_ReadNodeData f n' pos dst z w' = Some (z, n', w'')"
    "get_bytes (user_memory w'') dst (unat z) = (True, take (unat z) (drop (unat pos) (fileData t')))"
    using assms(7) w(5) by auto
  moreover have "take (unat z) (drop (unat pos) (fileData t')) = bs" using w(6) assms(2,3) len by (simp add: temp_ok_def)
  ultimately show ?thesis using w by auto
qed

section \<open>Descriptors of running systems\<close>


definition demo_ops :: "temp_world fs_ops" where
  "demo_ops = temp_ops [0x1000, 0x2000, 0x3000, 0x4000, 0x5000, 0x6000, 0x7000, 0x8000]"

definition demo_world :: temp_world where
  "demo_world = TempFS_new 0x100 0x200
     \<lparr> tnodes = Map.empty, tempfs = Map.empty, user_memory = (\<lambda>a. if a < 64 then Some (ucast a) else None) \<rparr>"

definition demo_start :: "temp_world vfs" where
  "demo_start = \<lparr> nodes = Map.empty, mounts = Map.empty, descs = Map.empty, g_RootMount = 0, g_PipeMount = 0,
     g_FileSystems = [], world = demo_world \<rparr>"

definition demo_boot :: "temp_world vfs" where
  "demo_boot = the (VFS_Init demo_ops 0x100 0x300 demo_start)"

definition demo_caller :: caller where
  "demo_caller = \<lparr> caller_uid = 0, caller_gid = 0, caller_cwd = [] \<rparr>"

definition demo_open :: "temp_world vfs" where
  "demo_open = snd (the (Open demo_ops demo_caller (Some ''/motd'') 0x103 demo_boot))"

lemma demo_boot_Some: "VFS_Init demo_ops 0x100 0x300 demo_start = Some demo_boot"
proof -
  have "VFS_Init demo_ops 0x100 0x300 demo_start \<noteq> None" by code_simp
  then show ?thesis by (auto simp: demo_boot_def)
qed

lemma demo_open_Some: "Open demo_ops demo_caller (Some ''/motd'') 0x103 demo_boot = Some (Inr 0x5000, demo_open)"
proof -
  have "map_option fst (Open demo_ops demo_caller (Some ''/motd'') 0x103 demo_boot) = Some (Inr 0x5000)" by code_simp
  then show ?thesis by (auto simp: demo_open_def)
qed

lemma demo_empty: "nodes demo_start = Map.empty" "descs demo_start = Map.empty"
  by (simp_all add: demo_start_def)


lemma demo_fs: "file_system demo_ops"
  unfolding demo_ops_def by (rule tfs.file_system_axioms)


text \<open>
  C10: Access control. When \<open>Open\<close> succeeds in a running system, it returns a new descriptor for a node
  that is not a directory and whose permissions grant the caller the reading and writing that was asked
  for; the descriptor carries these rights, and \<open>Read\<close> and \<open>Write\<close> through a descriptor that lacks the right
  are refused without any effect.
\<close>

theorem Open_grants_permitted:
  assumes "file_system fo" and "VFS_Init fo rootFS pipeFS s0 = Some s1" and "nodes s0 = Map.empty" and "descs s0 = Map.empty"
    and "vfs_run fo k s1 s" and "k < 2 ^ 62" and "Open fo c path mode s = Some (Inr d, t)"
  shows "\<exists>D n. descs s d = None \<and> descs t = (descs s)(d \<mapsto> D) \<and> dpermissions D = ucast (mode AND 0xFF) \<and>
    nodes t (dnode D) = Some n \<and> ntype n \<noteq> TYPE_DIRECTORY \<and>
    CheckPermissions (caller_uid c) (caller_gid c) n (ucast (mode AND (OpenMode_Read OR OpenMode_Write))) \<and>
    (d \<noteq> 0 \<longrightarrow> dpermissions D AND PermRead = 0 \<longrightarrow> Read fo d buf z t = Some (error_code ErrorPermissionDenied, t)) \<and>
    (d \<noteq> 0 \<longrightarrow> dpermissions D AND PermWrite = 0 \<longrightarrow> Write fo d buf z t = Some (error_code ErrorPermissionDenied, t))"
proof -
  have "refs_ok 0 s1" by (rule file_system.VFS_Init_refs [OF assms(1-4)])
  with assms(1,5) have ok: "refs_ok k s" by (rule file_system.vfs_run_refs)
  show ?thesis using file_system.Open_Inr [OF assms(1,7) ok assms(6)] by (auto simp: Read_def Write_def)
qed

theorem Open_grants_permitted_witness:
  "\<exists>D n. descs demo_open 0x5000 = Some D \<and> dpermissions D = 3 \<and> nodes demo_open (dnode D) = Some n \<and> ntype n \<noteq> TYPE_DIRECTORY"
  using Open_grants_permitted [OF demo_fs demo_boot_Some demo_empty vfs_run.stop _ demo_open_Some, of 0 0] by auto

definition demo_node :: Node where
  "demo_node = new_node \<lparr> node_id := 0x200 \<rparr>"

lemma demo_bytes: "get_bytes (user_memory demo_world) 8 3 = (True, [8, 9, 10])"
  by code_simp

theorem TempFS_write_read_witness:
  "\<exists>n' w' w''. TempFS_WriteNodeData 0x100 demo_node 0 8 3 demo_world = Some (3, n', w') \<and>
    TempFS_ReadNodeData 0x100 n' 0 32 3 w' = Some (3, n', w'') \<and> get_bytes (user_memory w'') 32 3 = (True, [8, 9, 10])"
proof -
  have t: "\<exists>t. tnodes demo_world (node_id demo_node) = Some t \<and> temp_ok t \<and> fileSize t = 0"
    by (simp add: demo_world_def demo_node_def TempFS_new_def new_test_node_def temp_ok_def)
  have m: "user_mapped (user_memory demo_world) 32 3"
    unfolding get_bytes_mapped [symmetric] by code_simp
  from t obtain t where "tnodes demo_world (node_id demo_node) = Some t" "temp_ok t" by blast
  then show ?thesis
    using TempFS_write_read [where f = "0x100" and w = demo_world and n = demo_node and t = t and pos = 0 and z = 3 and src = 8
        and bs = "[8, 9, 10]" and dst = 32] m demo_bytes by auto
qed

section \<open>Mounted file systems\<close>

text \<open>\<open>Mount\<close> tells the file system the mount point it lies in instead of its own, so the nodes that are read
  afterwards name the wrong mount point.\<close>

lemma Mount_tells_parent:
  assumes "mount_attach (temp_ops addrs) f l s = Some (r, t)"
  shows "\<exists>p M T. mounts t p = Some M \<and> mfs M = f \<and> mparent M = lMP l \<and> p \<noteq> lMP l \<and> tempfs (world t) f = Some T \<and> m_MP T = lMP l"
proof -
  obtain p m where p: "new_addr (temp_ops addrs) s = Some p" and m: "mounts s (lMP l) = Some m"
    using assms by (auto simp: mount_attach_def split: bind_splits)
  have "p \<noteq> lMP l" using tfs.new_addr_fresh [OF p] m by auto
  then show ?thesis using assms p m
    by (auto simp: mount_attach_def Let_def ReleaseMountPoint_def temp_ops_def TempFS_SetMountPoint_def TempFS_GetSuperBlock_def
        split: bind_splits)
qed

lemma ReadNode_names_told_mount:
  "TempFS_ReadNode f i n w = Some (n', w') \<Longrightarrow> tempfs w f = Some T \<Longrightarrow> node_mp n' = m_MP T"
  by (auto simp: TempFS_ReadNode_def split: bind_splits)

end
