(* ===== verification/PipeFS.thy ===== *)
theory PipeFS
  imports UserMem
begin

text \<open>
  Unnamed pipes, \<^verbatim>\<open>fs/pipefs/PipeFS.h\<close> and \<^verbatim>\<open>fs/pipefs/PipeFS.cpp\<close>: ring buffers of 4096 bytes in a vector, one
  position for reading and one for writing. A transfer runs in rounds, each under the pipe's lock; between two
  rounds the thread yields and other threads work on the pipes. A pipe refines a queue of at most 4095
  bytes.
\<close>

section \<open>Pipes\<close>

record Pipe =
  pipe_id :: u64
  free :: bool
  readPos :: u64
  writePos :: u64
  pipeBuffer :: "u8 list"

definition new_pipe :: "u64 \<Rightarrow> Pipe" where
  "new_pipe i = \<lparr> pipe_id = i, free = False, readPos = 0, writePos = 0, pipeBuffer = replicate 4096 0 \<rparr>"

text \<open>The search for a free pipe; a new one is appended if there is none. The result is the node number.\<close>

fun reuse_pipe :: "Pipe list \<Rightarrow> (u64 \<times> Pipe list) option" where
  "reuse_pipe [] = None"
| "reuse_pipe (p # ps) =
     (if free p then Some (pipe_id p, p \<lparr> free := False, readPos := 0, writePos := 0 \<rparr> # ps)
      else map_option (\<lambda>(i, ps). (i, p # ps)) (reuse_pipe ps))"

definition PipeFS_CreateNode :: "Pipe list \<Rightarrow> u64 \<times> Pipe list" where
  "PipeFS_CreateNode ps =
     (case reuse_pipe ps of
        Some r \<Rightarrow> r
      | None \<Rightarrow> (of_nat (length ps), ps @ [new_pipe (of_nat (length ps))]))"

definition PipeFS_DestroyNode :: "u64 \<Rightarrow> Pipe list \<Rightarrow> Pipe list option" where
  "PipeFS_DestroyNode i ps =
     (if unat i < length ps then Some (ps[unat i := (ps ! unat i) \<lparr> free := True \<rparr>]) else None)"

section \<open>Transfers\<close>

text \<open>The two parts of a transfer around the end of the buffer, cut to the size that is asked for.\<close>

definition split_size :: "u64 \<Rightarrow> u64 \<Rightarrow> u64 \<Rightarrow> u64 \<times> u64" where
  "split_size remA remB bufferSize =
     (if remA > bufferSize then (bufferSize, 0)
      else if remA + remB > bufferSize then (remA, bufferSize - remA)
      else (remA, remB))"

definition slice :: "u64 \<Rightarrow> u64 \<Rightarrow> 'a list \<Rightarrow> 'a list" where
  "slice pos n xs = take (unat n) (drop (unat pos) xs)"

definition pipe_Read :: "Pipe \<Rightarrow> umem \<Rightarrow> u64 \<Rightarrow> u64 \<Rightarrow> u64 \<times> Pipe \<times> umem" where
  "pipe_Read p m buffer bufferSize =
     (if readPos p = writePos p then (0, p, m)
      else if readPos p < writePos p then
        let rem = writePos p - readPos p;
            rem = (if rem > bufferSize then bufferSize else rem);
            (ok, m) = put_bytes m buffer (slice (readPos p) rem (pipeBuffer p))
        in if \<not> ok then (invalid_buffer, p, m)
           else (rem, p \<lparr> readPos := readPos p + rem \<rparr>, m)
      else
        let (remA, remB) = split_size (4096 - readPos p) (writePos p) bufferSize;
            (ok, m) = put_bytes m buffer (slice (readPos p) remA (pipeBuffer p))
        in if \<not> ok then (invalid_buffer, p, m)
           else
             let (ok, m) = put_bytes m (buffer + remA) (slice 0 remB (pipeBuffer p))
             in if \<not> ok then (invalid_buffer, p, m)
                else (remA + remB, p \<lparr> readPos := (readPos p + (remA + remB)) mod 4096 \<rparr>, m))"

text \<open>A copy into the buffer of the pipe; a failing one has stored the bytes in front of the hole.\<close>

definition fill :: "Pipe \<Rightarrow> umem \<Rightarrow> u64 \<Rightarrow> u64 \<Rightarrow> u64 \<Rightarrow> bool \<times> Pipe" where
  "fill p m pos buffer n =
     (let (ok, bs) = get_bytes m buffer (unat n)
      in (ok, p \<lparr> pipeBuffer := overwrite (pipeBuffer p) (unat pos) bs \<rparr>))"

definition pipe_Write :: "Pipe \<Rightarrow> umem \<Rightarrow> u64 \<Rightarrow> u64 \<Rightarrow> u64 \<times> Pipe" where
  "pipe_Write p m buffer bufferSize =
     (if writePos p < readPos p then
        let rem = readPos p - writePos p - 1;
            rem = (if rem > bufferSize then bufferSize else rem);
            (ok, p) = fill p m (writePos p) buffer rem
        in if \<not> ok then (invalid_buffer, p) else (rem, p \<lparr> writePos := writePos p + rem \<rparr>)
      else if readPos p > 0 then
        let (remA, remB) = split_size (4096 - writePos p) (readPos p - 1) bufferSize;
            (ok, p) = fill p m (writePos p) buffer remA
        in if \<not> ok then (invalid_buffer, p)
           else
             let (ok, p) = fill p m 0 (buffer + remA) remB
             in if \<not> ok then (invalid_buffer, p)
                else (remA + remB, p \<lparr> writePos := (writePos p + (remA + remB)) mod 4096 \<rparr>)
      else
        let rem = 4096 - writePos p - 1;
            rem = (if rem > bufferSize then bufferSize else rem);
            (ok, p) = fill p m (writePos p) buffer rem
        in if \<not> ok then (invalid_buffer, p) else (rem, p \<lparr> writePos := writePos p + rem \<rparr>))"

text \<open>The rounds. \<open>others j\<close> is what the other threads do to the pipes and the memory while the thread yields
  for the \<open>j\<close>th time. A loop that never ends has the result \<open>None\<close>, as has an index outside of the vector.\<close>

type_synonym pipe_world = "Pipe list \<times> umem"

partial_function (option) PipeFS_ReadNodeData ::
  "(nat \<Rightarrow> pipe_world \<Rightarrow> pipe_world) \<Rightarrow> nat \<Rightarrow> u64 \<Rightarrow> u64 \<Rightarrow> u64 \<Rightarrow> pipe_world \<Rightarrow> (u64 \<times> pipe_world) option" where
  "PipeFS_ReadNodeData others j i buffer bufferSize w =
     (if unat i < length (fst w) then
        case pipe_Read (fst w ! unat i) (snd w) buffer bufferSize of
          (res, p, m) \<Rightarrow>
            let w = ((fst w)[unat i := p], m)
            in if res \<noteq> 0 then Some (res, w)
               else PipeFS_ReadNodeData others (Suc j) i buffer bufferSize (others j w)
      else None)"

partial_function (option) PipeFS_WriteNodeData ::
  "(nat \<Rightarrow> pipe_world \<Rightarrow> pipe_world) \<Rightarrow> nat \<Rightarrow> u64 \<Rightarrow> u64 \<Rightarrow> u64 \<Rightarrow> u64 \<Rightarrow> pipe_world \<Rightarrow> (u64 \<times> pipe_world) option" where
  "PipeFS_WriteNodeData others j i buffer bufferSize res w =
     (if unat i < length (fst w) then
        case pipe_Write (fst w ! unat i) (snd w) (buffer + res) (bufferSize - res) of
          (count, p) \<Rightarrow>
            let w = ((fst w)[unat i := p], snd w)
            in if count = invalid_buffer then Some (invalid_buffer, w)
               else if res + count = bufferSize then Some (bufferSize, w)
               else PipeFS_WriteNodeData others (Suc j) i buffer bufferSize (res + count) (others j w)
      else None)"

declare PipeFS_ReadNodeData.simps [code] PipeFS_WriteNodeData.simps [code]

section \<open>A pipe is a queue\<close>

definition pipe_ok :: "Pipe \<Rightarrow> bool" where
  "pipe_ok p \<longleftrightarrow> length (pipeBuffer p) = 4096 \<and> unat (readPos p) < 4096 \<and> unat (writePos p) < 4096"

text \<open>The bytes in a pipe, oldest first.\<close>

definition contents :: "Pipe \<Rightarrow> u8 list" where
  "contents p =
     (let r = unat (readPos p); w = unat (writePos p); b = pipeBuffer p
      in if r \<le> w then take (w - r) (drop r b) else drop r b @ take w b)"

lemma contents_length:
  "pipe_ok p \<Longrightarrow> length (contents p) =
    (if unat (readPos p) \<le> unat (writePos p) then unat (writePos p) - unat (readPos p)
     else 4096 - unat (readPos p) + unat (writePos p))"
  by (auto simp: pipe_ok_def contents_def Let_def)

lemma contents_bound: "pipe_ok p \<Longrightarrow> length (contents p) < 4096"
  by (auto simp: contents_length) (auto simp: pipe_ok_def)

lemma unat_minus: "(y :: u64) \<le> x \<Longrightarrow> unat (x - y) = unat x - unat y"
  by (rule unat_sub)

lemma unat_clip: "unat (if (r :: u64) > z then z else r) = min (unat r) (unat z)"
  by (auto simp: word_less_nat_alt min_def)

lemma split_size_unat:
  assumes "unat a \<le> 4096" and "unat b < 4096" and "split_size a b z = (x, y)"
  shows "unat x = min (unat a) (unat z)" and "unat x + unat y = min (unat a + unat b) (unat z)"
    and "unat (x + y) = unat x + unat y"
proof -
  have ab: "unat (a + b) = unat a + unat b" using assms(1,2) by (simp add: unat_word_ariths)
  have *: "unat x = min (unat a) (unat z) \<and> unat x + unat y = min (unat a + unat b) (unat z)"
    using assms ab by (auto simp: split_size_def word_less_nat_alt word_le_nat_alt unat_sub split: if_splits)
  then have "unat x + unat y \<le> 8192"
    using assms(1,2) min.cobounded1 [of "unat a + unat b" "unat z"] by linarith
  then have "unat (x + y) = unat x + unat y" by (simp add: unat_word_ariths)
  with * show "unat x = min (unat a) (unat z)" "unat x + unat y = min (unat a + unat b) (unat z)"
    "unat (x + y) = unat x + unat y" by blast+
qed

lemma unat_4096_minus: "unat (x :: u64) < 4096 \<Longrightarrow> unat (4096 - x) = 4096 - unat x"
  by (simp add: unat_sub word_le_nat_alt)

lemma unat_advance: "unat (x :: u64) < 4096 \<Longrightarrow> unat n \<le> 8192 \<Longrightarrow> unat ((x + n) mod 4096) = (unat x + unat n) mod 4096"
  by (simp add: unat_mod unat_word_ariths)

lemma pipe_Read_dequeues:
  assumes ok: "pipe_ok p" and n: "n = min (unat z) (length (contents p))" and m: "user_mapped m buf n"
  shows "\<exists>p'. pipe_Read p m buf z = (of_nat n, p', snd (put_bytes m buf (take n (contents p)))) \<and> pipe_ok p' \<and>
    contents p' = drop n (contents p) \<and> free p' = free p"
proof -
  let ?r = "unat (readPos p)" and ?w = "unat (writePos p)" and ?b = "pipeBuffer p"
  have b: "length ?b = 4096" "?r < 4096" "?w < 4096" using ok by (simp_all add: pipe_ok_def)
  have nb: "n < 4096" using n contents_bound [OF ok] by simp
  have put: "fst (put_bytes m buf (take n (contents p)))" using m n by (simp add: put_bytes_mapped)
  consider "?r = ?w" | "?r < ?w" | "?w < ?r" by linarith
  then show ?thesis
  proof cases
    case 1
    then have "readPos p = writePos p" by (simp add: word_unat_eq_iff)
    moreover have "contents p = []" using 1 by (simp add: contents_def)
    ultimately show ?thesis using ok n by (simp add: pipe_Read_def)
  next
    case 2
    then have lt: "readPos p < writePos p" by (simp add: word_less_nat_alt)
    define rem where "rem = (if writePos p - readPos p > z then z else writePos p - readPos p)"
    have "readPos p \<le> writePos p" using lt by simp
    then have rem: "unat rem = n"
      unfolding rem_def unat_clip using 2 n b by (simp add: unat_sub contents_length [OF ok] min.commute)
    have c: "contents p = take (?w - ?r) (drop ?r ?b)" using 2 by (simp add: contents_def Let_def)
    have nw: "n \<le> ?w - ?r" using n c b by simp
    then have s: "slice (readPos p) rem ?b = take n (contents p)" using c rem by (simp add: slice_def min_def)
    have adv: "unat (readPos p + rem) = ?r + n" using rem nb b by (simp add: unat_word_ariths)
    let ?p = "p \<lparr> readPos := readPos p + rem \<rparr>"
    have "pipe_Read p m buf z = (rem, ?p, snd (put_bytes m buf (take n (contents p))))"
      using lt put s by (auto simp: pipe_Read_def Let_def rem_def [symmetric] case_prod_beta)
    moreover have "rem = of_nat n" unfolding rem [symmetric] by simp
    moreover have "pipe_ok ?p" "contents ?p = drop n (contents p)"
      using adv b nw 2 c by (auto simp: pipe_ok_def contents_def Let_def drop_take add.commute)
    ultimately show ?thesis by auto
  next
    case 3
    then have nlt: "readPos p \<noteq> writePos p" "\<not> readPos p < writePos p" by (auto simp: word_less_nat_alt)
    obtain x y where xy: "split_size (4096 - readPos p) (writePos p) z = (x, y)" by fastforce
    have A: "unat (4096 - readPos p) = 4096 - ?r" using b(2) by (rule unat_4096_minus)
    note sp = split_size_unat [OF _ b(3) xy, unfolded A]
    have len: "length (contents p) = 4096 - ?r + ?w" using 3 by (simp add: contents_length [OF ok])
    have sum: "unat x + unat y = n" using sp(2) n len by (simp add: min.commute)
    have x: "unat x = min (4096 - ?r) (unat z)" using sp(1) by simp
    have c: "contents p = drop ?r ?b @ take ?w ?b" using 3 by (simp add: contents_def Let_def)
    have t: "take n (contents p) = slice (readPos p) x ?b @ slice 0 y ?b"
    proof (cases "unat z < 4096 - ?r")
      case True
      then have "unat x = n" "unat y = 0" using sum x n len by simp_all
      then show ?thesis using c b True x by (simp add: slice_def)
    next
      case False
      then have e: "unat x = 4096 - ?r" using x by simp
      then have "unat y \<le> ?w" using sum n len by simp
      then show ?thesis using c b sum e by (simp add: slice_def min_def flip: sum)
    qed
    have "length (slice (readPos p) x ?b) = unat x" using x b by (simp add: slice_def)
    then have lx: "of_nat (length (slice (readPos p) x ?b)) = x" by simp
    have a: "fst (put_bytes m buf (slice (readPos p) x ?b))" using put t put_bytes_append [of m buf] by (metis fst_conv)
    then have e: "put_bytes m buf (take n (contents p)) =
        put_bytes (snd (put_bytes m buf (slice (readPos p) x ?b))) (buf + x) (slice 0 y ?b)"
      using t lx put_bytes_append [of m buf "slice (readPos p) x ?b" "slice 0 y ?b"] by simp
    have s: "unat (x + y) = n" using sp(3) sum by simp
    let ?p = "p \<lparr> readPos := (readPos p + (x + y)) mod 4096 \<rparr>"
    have adv: "unat (readPos ?p) = (?r + n) mod 4096" using unat_advance [OF b(2), of "x + y"] s nb by simp
    have "pipe_Read p m buf z = (x + y, ?p, snd (put_bytes m buf (take n (contents p))))"
      using nlt xy a e put by (simp add: pipe_Read_def Let_def case_prod_beta)
    moreover have "x + y = of_nat n" unfolding s [symmetric] by simp
    moreover have "pipe_ok ?p" using adv b by (simp add: pipe_ok_def)
    moreover have "contents ?p = drop n (contents p)"
    proof (cases "?r + n < 4096")
      case True
      then show ?thesis using adv c 3 b by (auto simp: contents_def [of ?p] Let_def add.commute)
    next
      case False
      then have "(?r + n) mod 4096 = ?r + n - 4096" using b nb by (simp add: mod_if)
      moreover have "?r + n - 4096 \<le> ?w" using n len b by linarith
      ultimately show ?thesis using adv c b False
        by (auto simp: contents_def [of ?p] Let_def drop_take diff_diff_eq add.commute)
    qed
    ultimately show ?thesis by auto
  qed
qed

text \<open>A copy into the buffer of exactly the bytes that were read.\<close>

lemma fill_ok:
  "get_bytes m buf (unat n) = (True, bs) \<Longrightarrow> fill p m pos buf n = (True, p \<lparr> pipeBuffer := overwrite (pipeBuffer p) (unat pos) bs \<rparr>)"
  by (simp add: fill_def)

lemma pipe_Write_enqueues:
  assumes ok: "pipe_ok p" and n: "n = min (unat z) (4095 - length (contents p))" and g: "get_bytes m buf n = (True, bs)"
  shows "\<exists>p'. pipe_Write p m buf z = (of_nat n, p') \<and> pipe_ok p' \<and> contents p' = contents p @ bs \<and> free p' = free p"
proof -
  let ?r = "unat (readPos p)" and ?w = "unat (writePos p)" and ?b = "pipeBuffer p"
  have b: "length ?b = 4096" "?r < 4096" "?w < 4096" using ok by (simp_all add: pipe_ok_def)
  have lb: "length bs = n" using get_bytes_length [of m buf n] g by simp
  consider "?w < ?r" | "?r \<le> ?w" "?r = 0" | "?r \<le> ?w" "0 < ?r" by linarith
  then show ?thesis
  proof cases
    case 1
    then have lt: "writePos p < readPos p" by (simp add: word_less_nat_alt)
    define rem where "rem = (if readPos p - writePos p - 1 > z then z else readPos p - writePos p - 1)"
    have "unat (readPos p - writePos p) = ?r - ?w" using 1 by (simp add: unat_sub word_le_nat_alt)
    then have "unat (readPos p - writePos p - 1) = ?r - ?w - 1" using 1 by (simp add: unat_sub word_le_nat_alt)
    then have rem: "unat rem = n"
      unfolding rem_def unat_clip using 1 n b by (simp add: contents_length [OF ok] min.commute)
    have nw: "n \<le> ?r - ?w - 1" using 1 n b by (simp add: contents_length [OF ok])
    have adv: "unat (writePos p + rem) = ?w + n" using rem nw b by (simp add: unat_word_ariths)
    let ?p = "p \<lparr> pipeBuffer := overwrite ?b ?w bs, writePos := writePos p + rem \<rparr>"
    have "pipe_Write p m buf z = (rem, ?p)"
      using lt fill_ok [of m buf rem bs p "writePos p"] g rem by (simp add: pipe_Write_def Let_def rem_def [symmetric])
    moreover have "rem = of_nat n" unfolding rem [symmetric] by simp
    moreover have "pipe_ok ?p" using adv b nw 1 lb by (simp add: pipe_ok_def overwrite_def)
    moreover have "contents ?p = contents p @ bs"
      using adv b nw 1 lb by (auto simp: contents_def Let_def overwrite_def)
    ultimately show ?thesis by auto
  next
    case 2
    then have nlt: "\<not> writePos p < readPos p" "\<not> 0 < readPos p" by (auto simp: word_less_nat_alt)
    define rem where "rem = (if 4096 - writePos p - 1 > z then z else 4096 - writePos p - 1)"
    have "unat (4096 - writePos p - 1) = 4096 - ?w - 1"
      using unat_4096_minus [OF b(3)] b(3) by (simp add: unat_sub word_le_nat_alt)
    then have rem: "unat rem = n"
      unfolding rem_def unat_clip using 2 n b by (simp add: contents_length [OF ok] min.commute)
    have nw: "n \<le> 4095 - ?w" using 2 n b by (simp add: contents_length [OF ok])
    have adv: "unat (writePos p + rem) = ?w + n" using rem nw b by (simp add: unat_word_ariths)
    let ?p = "p \<lparr> pipeBuffer := overwrite ?b ?w bs, writePos := writePos p + rem \<rparr>"
    have "pipe_Write p m buf z = (let (ok, p) = fill p m (writePos p) buf rem
        in if \<not> ok then (invalid_buffer, p) else (rem, p \<lparr> writePos := writePos p + rem \<rparr>))"
      unfolding pipe_Write_def Let_def rem_def [symmetric] by (simp only: nlt if_False)
    then have "pipe_Write p m buf z = (rem, ?p)"
      using fill_ok [of m buf rem bs p "writePos p"] g rem by simp
    moreover have "rem = of_nat n" unfolding rem [symmetric] by simp
    moreover have "pipe_ok ?p" using adv b nw 2 lb by (simp add: pipe_ok_def overwrite_def)
    moreover have "contents ?p = contents p @ bs"
      using adv b nw 2 lb by (auto simp: contents_def Let_def overwrite_def)
    ultimately show ?thesis by auto
  next
    case 3
    then have nlt: "\<not> writePos p < readPos p" "0 < readPos p" by (auto simp: word_less_nat_alt)
    obtain x y where xy: "split_size (4096 - writePos p) (readPos p - 1) z = (x, y)" by fastforce
    have A: "unat (4096 - writePos p) = 4096 - ?w" using b(3) by (rule unat_4096_minus)
    have B: "unat (readPos p - 1) = ?r - 1" using 3 by (simp add: unat_sub word_le_nat_alt)
    have B': "unat (readPos p - 1) < 4096" using B b by simp
    note sp = split_size_unat [OF _ B' xy, unfolded A B]
    have len: "length (contents p) = ?w - ?r" using 3 by (simp add: contents_length [OF ok])
    have sum: "unat x + unat y = n" using sp(2) n len 3 b by (simp add: min.commute)
    have x: "unat x = min (4096 - ?w) (unat z)" using sp(1) by simp
    have s: "unat (x + y) = n" using sp(3) sum by simp
    define bA where "bA = snd (get_bytes m buf (unat x))"
    define bB where "bB = snd (get_bytes m (buf + x) (unat y))"
    have ga: "get_bytes m buf (unat x) = (True, bA)" and gb: "get_bytes m (buf + x) (unat y) = (True, bB)" and bs: "bs = bA @ bB"
      using g get_bytes_append [of m buf "unat x" "unat y"] sum
      by (auto simp: bA_def bB_def prod_eq_iff split: if_splits)
    have la: "length bA = unat x" "length bB = unat y"
      using get_bytes_length [of m buf "unat x"] get_bytes_length [of m "buf + x" "unat y"] ga gb by simp_all
    let ?b' = "overwrite (overwrite ?b ?w bA) 0 bB"
    let ?p = "p \<lparr> pipeBuffer := ?b', writePos := (writePos p + (x + y)) mod 4096 \<rparr>"
    have "pipe_Write p m buf z = (x + y, ?p)"
      using nlt xy fill_ok [OF ga, of p "writePos p"]
        fill_ok [OF gb, of "p \<lparr> pipeBuffer := overwrite ?b ?w bA \<rparr>" 0] by (simp add: pipe_Write_def)
    moreover have "x + y = of_nat n" unfolding s [symmetric] by simp
    moreover have nb: "n < 4096" using n by simp
    have adv: "unat (writePos ?p) = (?w + n) mod 4096" using unat_advance [OF b(3), of "x + y"] s nb by simp
    have xw: "?w + unat x \<le> 4096" using x b by simp
    have yr: "unat y < ?r" using sum x sp(2) 3 by (auto simp: min_def split: if_splits)
    moreover have "pipe_ok ?p" using adv b la xw yr by (simp add: pipe_ok_def overwrite_def)
    moreover have "contents ?p = contents p @ bs"
    proof (cases "?w + n < 4096")
      case True
      then have "n = unat z" using n len 3 by linarith
      then have "unat x = n" using True x by simp
      moreover from this have "unat y = 0" using sum by simp
      ultimately show ?thesis using adv True b 3 la bs by (auto simp: contents_def Let_def overwrite_def drop_take)
    next
      case False
      have "n \<le> unat z" using n by simp
      then have e1: "unat x = 4096 - ?w" using False x by simp
      then have "?w + n = unat y + 4096" using sum b by simp
      then have "(?w + n) mod 4096 = unat y" using yr b by simp
      note e = e1 this
      define X where "X = take ?w ?b @ bA"
      have X: "overwrite ?b ?w bA = X" using e(1) b la by (simp add: overwrite_def X_def)
      have "drop ?r (overwrite X 0 bB) = drop ?r X" using yr la by (simp add: overwrite_def)
      moreover have "drop ?r X = contents p @ bA" using 3 b by (simp add: X_def contents_def Let_def drop_take)
      moreover have "take (unat y) (overwrite X 0 bB) = bB" using la by (simp add: overwrite_def)
      ultimately show ?thesis using adv e(2) yr bs unfolding X by (subst contents_def) (simp add: Let_def)
    qed
    ultimately show ?thesis by auto
  qed
qed

text \<open>
  C15: A pipe is a bounded queue of bytes. A round of writing appends as many of the caller's bytes as
  there is room for, up to 4095 bytes in the pipe; a round of reading hands out the oldest bytes, as many as
  are asked for and present, and removes exactly these. Both return the number of bytes and keep the
  positions inside the buffer, however the contents wrap around its end.
\<close>

theorem Pipe_refines_queue:
  assumes "pipe_ok p"
    and "n = min (unat z) (4095 - length (contents p))" and "get_bytes m src n = (True, bs)"
    and "k = min (unat y) (length (contents p))" and "user_mapped m dst k"
  shows "(\<exists>p'. pipe_Write p m src z = (of_nat n, p') \<and> pipe_ok p' \<and> contents p' = contents p @ bs) \<and>
    (\<exists>p'. pipe_Read p m dst y = (of_nat k, p', snd (put_bytes m dst (take k (contents p)))) \<and> pipe_ok p' \<and>
      contents p' = drop k (contents p))"
  using pipe_Write_enqueues [OF assms(1-3)] pipe_Read_dequeues [OF assms(1,4,5)] by blast

definition wrapped_pipe :: Pipe where
  "wrapped_pipe = \<lparr> pipe_id = 0, free = False, readPos = 4094, writePos = 1, pipeBuffer = replicate 4094 9 @ [1, 2] \<rparr>"

definition small_memory :: umem where
  "small_memory a = (if a < 8 then Some (ucast a) else None)"

lemma wrapped_contents: "pipe_ok wrapped_pipe" "contents wrapped_pipe = [1, 2, 9]"
proof -
  show "pipe_ok wrapped_pipe" by (simp add: wrapped_pipe_def pipe_ok_def)
  have "take (Suc 0) (replicate 4094 (9 :: u8) @ [1, 2]) = [9]" using take_replicate [of "Suc 0" 4094 "9 :: u8"] by simp
  then show "contents wrapped_pipe = [1, 2, 9]" by (simp add: wrapped_pipe_def contents_def)
qed

theorem Pipe_refines_queue_witness:
  "(\<exists>p'. pipe_Write wrapped_pipe small_memory 4 2 = (2, p') \<and> contents p' = [1, 2, 9, 4, 5]) \<and>
   (\<exists>p' m'. pipe_Read wrapped_pipe small_memory 0 2 = (2, p', m') \<and> contents p' = [9])"
proof -
  have g: "get_bytes small_memory 4 2 = (True, [4, 5])" by code_simp
  have m: "user_mapped small_memory 0 2" unfolding get_bytes_mapped [symmetric] by code_simp
  have len: "length (contents wrapped_pipe) = 3" by (simp add: wrapped_contents(2))
  have n: "2 = min (unat (2 :: u64)) (4095 - length (contents wrapped_pipe))" unfolding len by simp
  have k: "2 = min (unat (2 :: u64)) (length (contents wrapped_pipe))" unfolding len by simp
  have "contents wrapped_pipe @ [4, 5] = [1, 2, 9, 4, 5]" "drop 2 (contents wrapped_pipe) = [9]"
    unfolding wrapped_contents(2) by code_simp+
  then show ?thesis using Pipe_refines_queue [OF wrapped_contents(1) n g k m] by (metis of_nat_numeral)
qed

section \<open>Rounds\<close>

text \<open>Reading returns in the round that finds bytes; a read of zero bytes, and a read from a pipe nobody writes to, never
  returns.\<close>

lemma PipeFS_ReadNodeData_step:
  "unat i < length (fst w) \<Longrightarrow> pipe_Read (fst w ! unat i) (snd w) buf z = (res, p, m) \<Longrightarrow>
   PipeFS_ReadNodeData others j i buf z w =
     (if res \<noteq> 0 then Some (res, (fst w)[unat i := p], m)
      else PipeFS_ReadNodeData others (Suc j) i buf z (others j ((fst w)[unat i := p], m)))"
  by (subst PipeFS_ReadNodeData.simps) (simp add: Let_def)

lemma pipe_Read_zero: "pipe_ok p \<Longrightarrow> \<exists>p' m'. pipe_Read p m buf 0 = (0, p', m') \<and> pipe_ok p'"
  using pipe_Read_dequeues [of p 0 0 m buf] by (auto simp: user_mapped_def)

lemma PipeFS_Read_zero_hangs:
  assumes keep: "\<And>j w. list_all pipe_ok (fst w) \<Longrightarrow> list_all pipe_ok (fst (others j w))" and ok: "list_all pipe_ok (fst w)"
  shows "PipeFS_ReadNodeData others j i buf 0 w = None"
proof (rule ccontr)
  assume "PipeFS_ReadNodeData others j i buf 0 w \<noteq> None"
  then obtain x where x: "PipeFS_ReadNodeData others j i buf 0 w = Some x" by blast
  have "others = others \<longrightarrow> list_all pipe_ok (fst w) \<longrightarrow> (0 :: u64) \<noteq> 0"
  proof (rule PipeFS_ReadNodeData.raw_induct [OF _ x, where P = "\<lambda>oth j i buf z w r. oth = others \<longrightarrow> list_all pipe_ok (fst w) \<longrightarrow> z \<noteq> 0"],
      intro impI notI)
    fix loop oth j i buf and z :: u64 and w r
    assume ih: "\<And>oth j i buf z w r. loop oth j i buf z w = Some r \<Longrightarrow> oth = others \<longrightarrow> list_all pipe_ok (fst w) \<longrightarrow> z \<noteq> 0"
      and run: "(if unat i < length (fst w) then
        case pipe_Read (fst w ! unat i) (snd w) buf z of
          (res, p, m) \<Rightarrow>
            let w = ((fst w)[unat i := p], m)
            in if res \<noteq> 0 then Some (res, w) else loop oth (Suc j) i buf z (oth j w)
      else None) = Some r"
      and oth: "oth = others" and w: "list_all pipe_ok (fst w)" and z: "z = 0"
    have i: "unat i < length (fst w)" using run by (auto split: if_splits)
    then have "pipe_ok (fst w ! unat i)" using w by (simp add: list_all_length)
    then obtain p m where p: "pipe_Read (fst w ! unat i) (snd w) buf 0 = (0, p, m)" "pipe_ok p" using pipe_Read_zero by blast
    have "loop others (Suc j) i buf 0 (others j ((fst w)[unat i := p], m)) = Some r" using run i p oth z by simp
    moreover have "list_all pipe_ok ((fst w)[unat i := p])" using w p(2) set_update_subset_insert [of "fst w" "unat i" p] by (auto simp: list_all_iff)
    ultimately show False using ih keep [of "((fst w)[unat i := p], m)" j] by fastforce
  qed
  then show False using ok by simp
qed

text \<open>A write that fits returns in the first round with the bytes in the pipe.\<close>

lemma PipeFS_Write_fits:
  assumes "unat i < length ps" and "pipe_ok (ps ! unat i)" and "unat z \<le> 4095 - length (contents (ps ! unat i))"
    and "get_bytes m buf (unat z) = (True, bs)"
  shows "\<exists>p'. PipeFS_WriteNodeData others 0 i buf z 0 (ps, m) = Some (z, ps[unat i := p'], m) \<and> pipe_ok p' \<and>
    contents p' = contents (ps ! unat i) @ bs"
proof -
  obtain p' where p: "pipe_Write (ps ! unat i) m buf z = (z, p')" "pipe_ok p'" "contents p' = contents (ps ! unat i) @ bs"
    using pipe_Write_enqueues [OF assms(2), of "unat z" z m buf bs] assms(3,4) by (auto simp: min_def)
  have "z \<noteq> invalid_buffer"
  proof
    assume "z = invalid_buffer"
    then have "unat z = unat (word_of_int (- 7) :: u64)" by (simp add: invalid_buffer_def)
    then have "unat z > 4095" by simp
    then show False using assms(3) by simp
  qed
  then show ?thesis using p assms(1) by (subst PipeFS_WriteNodeData.simps) auto
qed

end
