(* ===== verification/Paging.thy ===== *)
theory Paging
  imports FreeList KErrno
begin

text \<open>
  Physical pages and page tables, \<^verbatim>\<open>memory/MemoryManager.cpp\<close>. The state holds the free list of pages, the base of the
  kernel's window onto physical memory, the tables of the running core and memory as 64-bit words at the kernel's
  addresses. The nodes that the free list keeps inside free pages are in the state of the free list. The caches
  of address translation, the registers that switch the tables and the lock are left out: an operation is one
  step. An operation has the result \<open>None\<close> if a loop over a list does not end.

  The walk over three levels of tables is the translation of user addresses; the list of pages that it can reach
  is what an address space owns. Mapping, unmapping and freeing are described by their effect on both.
\<close>

section \<open>Entries\<close>

definition PML_GET_ADDR :: "u64 \<Rightarrow> u64" where
  "PML_GET_ADDR entry = entry AND 0x000FFFFFFFFFF000"

definition PML_GET_P :: "u64 \<Rightarrow> u64" where
  "PML_GET_P entry = entry AND 1"

definition PML_SET_P :: u64 where
  "PML_SET_P = 1"

definition PML_SET_RW :: u64 where
  "PML_SET_RW = 2"

definition PML_SET_US :: u64 where
  "PML_SET_US = 4"

definition PML_SET_PCD :: u64 where
  "PML_SET_PCD = 0x10"

text \<open>The index of an address in a table of level \<open>n + 1\<close>.\<close>

definition GET_PML_INDEX :: "nat \<Rightarrow> u64 \<Rightarrow> u64" where
  "GET_PML_INDEX n addr = drop_bit (12 + n * 9) addr AND 0x1FF"

section \<open>Pages\<close>

record mm =
  mm_FreeList :: freelist
  g_HighMemBase :: u64
  g_KernelPages :: ptr
  g_KernelVPages :: ptr
  g_CorePageTables :: ptr
  qwords :: "ptr \<Rightarrow> u64"

definition PhysToKernelPtr :: "mm \<Rightarrow> u64 \<Rightarrow> ptr" where
  "PhysToKernelPtr mm p = p + g_HighMemBase mm"

definition KernelToPhysPtr :: "mm \<Rightarrow> ptr \<Rightarrow> u64" where
  "KernelToPhysPtr mm p = p - g_HighMemBase mm"

definition allocate_pages :: "u64 \<Rightarrow> mm \<Rightarrow> (u64 \<times> mm) option" where
  "allocate_pages numPages mm =
     do {
       p \<leftarrow> FindFree (mm_FreeList mm) (numPages * 4096);
       if p = nullptr then Some (0, mm)
       else do {
         fl \<leftarrow> MarkUsed (mm_FreeList mm) p (numPages * 4096);
         Some (KernelToPhysPtr mm p, mm \<lparr> mm_FreeList := fl \<rparr>)
       }
     }"

definition free_pages :: "u64 \<Rightarrow> u64 \<Rightarrow> mm \<Rightarrow> mm option" where
  "free_pages pages numPages mm =
     do {
       fl \<leftarrow> MarkFree (mm_FreeList mm) (PhysToKernelPtr mm pages) (numPages * 4096);
       Some (mm \<lparr> mm_FreeList := fl \<rparr>)
     }"

definition EarlyAllocatePages :: "u64 \<Rightarrow> mm \<Rightarrow> (u64 \<times> mm) option" where
  "EarlyAllocatePages numPages mm = allocate_pages numPages mm"

definition EarlyFreePages :: "u64 \<Rightarrow> u64 \<Rightarrow> mm \<Rightarrow> mm option" where
  "EarlyFreePages pages numPages mm = free_pages pages numPages mm"

definition AllocatePages :: "u64 \<Rightarrow> mm \<Rightarrow> (u64 \<times> mm) option" where
  "AllocatePages numPages mm = allocate_pages numPages mm"

definition FreePages :: "u64 \<Rightarrow> u64 \<Rightarrow> mm \<Rightarrow> mm option" where
  "FreePages pages numPages mm = free_pages pages numPages mm"

section \<open>Tables\<close>

definition read_entry :: "mm \<Rightarrow> ptr \<Rightarrow> u64 \<Rightarrow> u64" where
  "read_entry mm pml i = qwords mm (pml + 8 * i)"

definition write_entry :: "ptr \<Rightarrow> u64 \<Rightarrow> u64 \<Rightarrow> mm \<Rightarrow> mm" where
  "write_entry pml i e mm = mm \<lparr> qwords := (qwords mm)(pml + 8 * i := e) \<rparr>"

definition clear_table :: "ptr \<Rightarrow> mm \<Rightarrow> mm" where
  "clear_table pml mm = fold (\<lambda>i. write_entry pml (of_nat i) 0) [0..<512] mm"

text \<open>The step from a table to the one below it: a table that is missing is allocated, cleared and entered. The result
  of the allocation is not checked.\<close>

definition next_table :: "u64 \<Rightarrow> ptr \<Rightarrow> u64 \<Rightarrow> mm \<Rightarrow> (ptr \<times> mm) option" where
  "next_table flags pml i mm =
     (let e = read_entry mm pml i
      in if PML_GET_P e = 0 then
           do {
             (p, mm) \<leftarrow> AllocatePages 1 mm;
             let below = PhysToKernelPtr mm p;
             let mm = clear_table below mm;
             Some (below, write_entry pml i (KernelToPhysPtr mm below OR flags) mm)
           }
         else Some (PhysToKernelPtr mm (PML_GET_ADDR e), mm))"

definition user_flags :: u64 where
  "user_flags = PML_SET_P OR PML_SET_RW OR PML_SET_US"

definition kernel_flags :: u64 where
  "kernel_flags = PML_SET_P OR PML_SET_RW"

definition MM_Init :: "(ptr \<times> u64) list \<Rightarrow> u64 \<Rightarrow> u64 \<Rightarrow> mm \<Rightarrow> mm option" where
  "MM_Init physMap highMemoryBase pageBuffer511 mm =
     (let mm = mm \<lparr> mm_FreeList := Init (mm_FreeList mm) physMap, g_HighMemBase := highMemoryBase \<rparr>;
          mm = mm \<lparr> g_KernelPages := PhysToKernelPtr mm (PML_GET_ADDR pageBuffer511) \<rparr>
      in do {
        (p, mm) \<leftarrow> EarlyAllocatePages 1 mm;
        let heapPML3 = PhysToKernelPtr mm p;
        Some (clear_table heapPML3 mm \<lparr> g_KernelVPages := heapPML3 \<rparr>)
      })"

definition InitCore :: "mm \<Rightarrow> mm option" where
  "InitCore mm =
     do {
       (p, mm) \<leftarrow> EarlyAllocatePages 1 mm;
       let pml4 = PhysToKernelPtr mm p;
       let mm = clear_table pml4 mm \<lparr> g_CorePageTables := pml4 \<rparr>;
       let mm = write_entry pml4 511 (KernelToPhysPtr mm (g_KernelPages mm) OR kernel_flags) mm;
       Some (write_entry pml4 510 (KernelToPhysPtr mm (g_KernelVPages mm) OR kernel_flags) mm)
     }"

section \<open>Address spaces\<close>

definition CreateProcessMap :: "mm \<Rightarrow> (u64 \<times> mm) option" where
  "CreateProcessMap mm =
     do {
       (p, mm) \<leftarrow> AllocatePages 1 mm;
       let pml3 = PhysToKernelPtr mm p;
       let mm = clear_table pml3 mm;
       Some (KernelToPhysPtr mm pml3 OR user_flags, mm)
     }"

text \<open>The loops over the present entries of a table.\<close>

fun each_entry :: "(nat \<Rightarrow> u64 \<Rightarrow> mm \<Rightarrow> mm option) \<Rightarrow> ptr \<Rightarrow> nat list \<Rightarrow> mm \<Rightarrow> mm option" where
  "each_entry f pml [] mm = Some mm"
| "each_entry f pml (i # is) mm =
     (let e = read_entry mm pml (of_nat i)
      in do {
        mm \<leftarrow> (if PML_GET_P e \<noteq> 0 then f i e mm else Some mm);
        each_entry f pml is mm
      })"

definition FreeProcessPML1 :: "ptr \<Rightarrow> mm \<Rightarrow> mm option" where
  "FreeProcessPML1 pml1 mm =
     do {
       mm \<leftarrow> each_entry (\<lambda>i e. FreePages (PML_GET_ADDR e) 1) pml1 [0..<512] mm;
       FreePages (KernelToPhysPtr mm pml1) 1 mm
     }"

definition FreeProcessPML2 :: "ptr \<Rightarrow> mm \<Rightarrow> mm option" where
  "FreeProcessPML2 pml2 mm =
     do {
       mm \<leftarrow> each_entry (\<lambda>i e mm. FreeProcessPML1 (PhysToKernelPtr mm (PML_GET_ADDR e)) mm) pml2 [0..<512] mm;
       FreePages (KernelToPhysPtr mm pml2) 1 mm
     }"

definition FreeProcessPML3 :: "ptr \<Rightarrow> mm \<Rightarrow> mm option" where
  "FreeProcessPML3 pml3 mm =
     do {
       mm \<leftarrow> each_entry (\<lambda>i e mm. FreeProcessPML2 (PhysToKernelPtr mm (PML_GET_ADDR e)) mm) pml3 [0..<512] mm;
       FreePages (KernelToPhysPtr mm pml3) 1 mm
     }"

definition FreeProcessMap :: "u64 \<Rightarrow> mm \<Rightarrow> mm option" where
  "FreeProcessMap pml4Entry mm = FreeProcessPML3 (PhysToKernelPtr mm (PML_GET_ADDR pml4Entry)) mm"

definition SwitchProcessMap :: "u64 \<Rightarrow> mm \<Rightarrow> mm" where
  "SwitchProcessMap pml4Entry mm = write_entry (g_CorePageTables mm) 0 pml4Entry mm"

definition MapKernelPage :: "u64 \<Rightarrow> u64 \<Rightarrow> mm \<Rightarrow> mm option" where
  "MapKernelPage phys virt mm =
     (let pml3 = PhysToKernelPtr mm (PML_GET_ADDR (read_entry mm (g_CorePageTables mm) (GET_PML_INDEX 3 virt)))
      in do {
        (pml2, mm) \<leftarrow> next_table kernel_flags pml3 (GET_PML_INDEX 2 virt) mm;
        (pml1, mm) \<leftarrow> next_table kernel_flags pml2 (GET_PML_INDEX 1 virt) mm;
        Some (write_entry pml1 (GET_PML_INDEX 0 virt) (phys OR kernel_flags) mm)
      })"

text \<open>Large pages end at the second level.\<close>

definition change_large_page :: "u64 \<Rightarrow> u64 \<Rightarrow> mm \<Rightarrow> mm" where
  "change_large_page flag virt mm =
     (let pml3 = PhysToKernelPtr mm (PML_GET_ADDR (read_entry mm (g_CorePageTables mm) (GET_PML_INDEX 3 virt)));
          pml2 = PhysToKernelPtr mm (PML_GET_ADDR (read_entry mm pml3 (GET_PML_INDEX 2 virt)));
          pml2Index = GET_PML_INDEX 1 virt
      in write_entry pml2 pml2Index (read_entry mm pml2 pml2Index OR flag) mm)"

definition DisableChacheOnLargePage :: "u64 \<Rightarrow> mm \<Rightarrow> mm" where
  "DisableChacheOnLargePage virt mm = change_large_page PML_SET_PCD virt mm"

definition EnableWriteCombineOnLargePage :: "u64 \<Rightarrow> mm \<Rightarrow> mm" where
  "EnableWriteCombineOnLargePage virt mm = change_large_page (push_bit 12 1) virt mm"

text \<open>Mapping a given page, and mapping any page.\<close>

definition MapProcessPage_phys :: "u64 \<Rightarrow> u64 \<Rightarrow> u64 \<Rightarrow> mm \<Rightarrow> mm option" where
  "MapProcessPage_phys pml4Entry phys virt mm =
     (let pml3 = PhysToKernelPtr mm (PML_GET_ADDR pml4Entry)
      in do {
        (pml2, mm) \<leftarrow> next_table user_flags pml3 (GET_PML_INDEX 2 virt) mm;
        (pml1, mm) \<leftarrow> next_table user_flags pml2 (GET_PML_INDEX 1 virt) mm;
        Some (write_entry pml1 (GET_PML_INDEX 0 virt) (phys OR user_flags) mm)
      })"

text \<open>Forking copies every mapped page. Copying a page moves 512 words.\<close>

definition copy_page :: "ptr \<Rightarrow> ptr \<Rightarrow> mm \<Rightarrow> mm" where
  "copy_page dest src mm = fold (\<lambda>i mm. write_entry dest (of_nat i) (read_entry mm src (of_nat i)) mm) [0..<512] mm"

definition fork_page :: "u64 \<Rightarrow> u64 \<Rightarrow> nat \<Rightarrow> nat \<Rightarrow> nat \<Rightarrow> mm \<Rightarrow> mm option" where
  "fork_page newPML4Entry pml1Entry i j k mm =
     (let virt = push_bit 12 (of_nat k) OR push_bit 21 (of_nat j) OR push_bit 30 (of_nat i)
      in do {
        (p, mm) \<leftarrow> AllocatePages 1 mm;
        let dest = PhysToKernelPtr mm p;
        let src = PhysToKernelPtr mm (PML_GET_ADDR pml1Entry);
        let mm = copy_page dest src mm;
        MapProcessPage_phys newPML4Entry (KernelToPhysPtr mm dest) virt mm
      })"

definition ForkProcessMap :: "mm \<Rightarrow> (u64 \<times> mm) option" where
  "ForkProcessMap mm =
     do {
       (newPML4Entry, mm) \<leftarrow> CreateProcessMap mm;
       let pml3 = PhysToKernelPtr mm (PML_GET_ADDR (read_entry mm (g_CorePageTables mm) 0));
       mm \<leftarrow> each_entry (\<lambda>i pml3Entry mm.
         each_entry (\<lambda>j pml2Entry mm.
           each_entry (\<lambda>k pml1Entry mm. fork_page newPML4Entry pml1Entry i j k mm)
             (PhysToKernelPtr mm (PML_GET_ADDR pml2Entry)) [0..<512] mm)
           (PhysToKernelPtr mm (PML_GET_ADDR pml3Entry)) [0..<512] mm)
         pml3 [0..<512] mm;
       Some (newPML4Entry, mm)
     }"

definition MapProcessPage_new :: "u64 \<Rightarrow> u64 \<Rightarrow> mm \<Rightarrow> (ptr \<times> mm) option" where
  "MapProcessPage_new pml4Entry virt mm =
     (let pml3 = PhysToKernelPtr mm (PML_GET_ADDR pml4Entry);
          pml1Index = GET_PML_INDEX 0 virt
      in do {
        (pml2, mm) \<leftarrow> next_table user_flags pml3 (GET_PML_INDEX 2 virt) mm;
        (pml1, mm) \<leftarrow> next_table user_flags pml2 (GET_PML_INDEX 1 virt) mm;
        let pml1Entry = read_entry mm pml1 pml1Index;
        if PML_GET_P pml1Entry \<noteq> 0 then Some (PhysToKernelPtr mm (PML_GET_ADDR pml1Entry), mm)
        else do {
          (phys, mm) \<leftarrow> AllocatePages 1 mm;
          Some (PhysToKernelPtr mm phys, write_entry pml1 pml1Index (phys OR user_flags) mm)
        }
      })"

definition MapProcessPage :: "u64 \<Rightarrow> mm \<Rightarrow> mm option" where
  "MapProcessPage virt mm = map_option snd (MapProcessPage_new (read_entry mm (g_CorePageTables mm) 0) virt mm)"

definition UnmapProcessPage_in :: "u64 \<Rightarrow> u64 \<Rightarrow> mm \<Rightarrow> mm" where
  "UnmapProcessPage_in pml4Entry virt mm =
     (let pml3 = PhysToKernelPtr mm (PML_GET_ADDR pml4Entry);
          pml2 = PhysToKernelPtr mm (PML_GET_ADDR (read_entry mm pml3 (GET_PML_INDEX 2 virt)));
          pml1 = PhysToKernelPtr mm (PML_GET_ADDR (read_entry mm pml2 (GET_PML_INDEX 1 virt)))
      in write_entry pml1 (GET_PML_INDEX 0 virt) 0 mm)"

definition UnmapProcessPage :: "u64 \<Rightarrow> mm \<Rightarrow> mm" where
  "UnmapProcessPage virt mm = UnmapProcessPage_in (read_entry mm (g_CorePageTables mm) 0) virt mm"

definition IsUserPtr :: "u64 \<Rightarrow> bool" where
  "IsUserPtr p \<longleftrightarrow> GET_PML_INDEX 3 p = 0"

text \<open>The system calls. The comparison in the alignment test binds tighter than the mask, so the test looks at the lowest
  bit. An address outside of user space ends the thread.\<close>

datatype mm_result = Returns int mm | Exits mm

definition aligned_test :: "u64 \<Rightarrow> bool" where
  "aligned_test base \<longleftrightarrow> base AND (if 0xFFF \<noteq> (0 :: u64) then 1 else 0) \<noteq> 0"

fun alloc_loop :: "nat \<Rightarrow> u64 \<Rightarrow> mm \<Rightarrow> mm_result option" where
  "alloc_loop 0 p mm = Some (Returns 0 mm)"
| "alloc_loop (Suc n) p mm =
     (if \<not> IsUserPtr p then Some (Exits mm)
      else do { mm \<leftarrow> MapProcessPage p mm; alloc_loop n (p + 4096) mm })"

fun free_loop :: "nat \<Rightarrow> u64 \<Rightarrow> mm \<Rightarrow> mm_result" where
  "free_loop 0 p mm = Returns 0 mm"
| "free_loop (Suc n) p mm = (if \<not> IsUserPtr p then Exits mm else free_loop n (p + 4096) (UnmapProcessPage p mm))"

definition syscall_alloc :: "u64 \<Rightarrow> u64 \<Rightarrow> mm \<Rightarrow> mm_result option" where
  "syscall_alloc base numPages mm =
     (if aligned_test base then Some (Returns (error_code ErrorAddressNotPageAligned) mm)
      else alloc_loop (unat numPages) base mm)"

definition syscall_free :: "u64 \<Rightarrow> u64 \<Rightarrow> mm \<Rightarrow> mm_result" where
  "syscall_free base numPages mm =
     (if aligned_test base then Returns (error_code ErrorAddressNotPageAligned) mm
      else free_loop (unat numPages) base mm)"

text \<open>The walk that the processor does, for addresses of the user and for questions of the kernel.\<close>

definition MmQueryMemory :: "u64 \<Rightarrow> mm \<Rightarrow> bool" where
  "MmQueryMemory virt mm =
     (if GET_PML_INDEX 3 virt = 0 then False
      else
        let pml3 = PhysToKernelPtr mm (PML_GET_ADDR (read_entry mm (g_CorePageTables mm) 0));
            pml2 = PhysToKernelPtr mm (PML_GET_ADDR (read_entry mm pml3 (GET_PML_INDEX 2 virt)));
            pml1 = PhysToKernelPtr mm (PML_GET_ADDR (read_entry mm pml2 (GET_PML_INDEX 1 virt)))
        in read_entry mm pml1 (GET_PML_INDEX 0 virt) \<noteq> 0)"

definition UserToKernelPtr :: "u64 \<Rightarrow> mm \<Rightarrow> ptr" where
  "UserToKernelPtr virt mm =
     (let offs = virt AND 0xFFF;
          pml3 = PhysToKernelPtr mm (PML_GET_ADDR (read_entry mm (g_CorePageTables mm) 0));
          pml3Entry = read_entry mm pml3 (GET_PML_INDEX 2 virt)
      in if PML_GET_P pml3Entry = 0 then nullptr
         else
           let pml2 = PhysToKernelPtr mm (PML_GET_ADDR pml3Entry);
               pml2Entry = read_entry mm pml2 (GET_PML_INDEX 1 virt)
           in if PML_GET_P pml2Entry = 0 then nullptr
              else
                let pml1 = PhysToKernelPtr mm (PML_GET_ADDR pml2Entry);
                    pml1Entry = read_entry mm pml1 (GET_PML_INDEX 0 virt)
                in PhysToKernelPtr mm (PML_GET_ADDR pml1Entry OR offs))"

definition UserOrKernelToPhysPtr :: "u64 \<Rightarrow> mm \<Rightarrow> u64" where
  "UserOrKernelToPhysPtr addr mm =
     (let res = (if addr < g_HighMemBase mm \<and> IsUserPtr addr then UserToKernelPtr addr mm else addr)
      in KernelToPhysPtr mm res)"

end
