(* ===== verification/PagingProps.thy ===== *)
theory PagingProps
  imports Paging "HOL-Library.Multiset"
begin

text \<open>
  What the page tables mean. \<open>walk\<close> is the translation of an address, \<open>pages\<close> lists the tables and the
  mapped pages of an address space. An address space is well formed if no page occurs twice and none is free. Mapping,
  unmapping, forking and freeing are proved to keep this, and to do to the translation what they are
  named after.
\<close>

section \<open>Addresses of entries\<close>

definition aligned :: "u64 \<Rightarrow> bool" where
  "aligned t \<longleftrightarrow> take_bit 12 t = 0"

definition page_no :: "u64 \<Rightarrow> u64" where
  "page_no a = drop_bit 12 a"

lemma unat_take_bit: "unat (take_bit n (x :: u64)) = unat x mod 2 ^ n"
  unfolding unsigned_take_bit_eq by (rule take_bit_eq_mod)

lemma aligned_iff: "aligned t \<longleftrightarrow> 4096 dvd unat t"
proof -
  have "aligned t \<longleftrightarrow> unat (take_bit 12 t) = 0" by (simp add: aligned_def unat_eq_0)
  also have "\<dots> \<longleftrightarrow> unat t mod 2 ^ 12 = 0" by (simp only: unat_take_bit)
  finally show ?thesis by (simp add: dvd_eq_mod_eq_0)
qed

lemma aligned_sum: "4096 dvd unat (s + t :: u64) \<longleftrightarrow> 4096 dvd unat s + unat t"
proof -
  have "(4096 :: nat) dvd 2 ^ 64" by simp
  moreover have "unat (s + t) = (unat s + unat t) mod 2 ^ 64" by (simp add: unat_word_ariths)
  ultimately show ?thesis by (metis dvd_mod_iff)
qed

lemma aligned_add: "aligned s \<Longrightarrow> aligned t \<Longrightarrow> aligned (s + t)"
  by (simp add: aligned_iff aligned_sum)

lemma aligned_diff: "aligned s \<Longrightarrow> aligned t \<Longrightarrow> aligned (s - t)"
  using aligned_sum [of "s - t" t] by (simp add: aligned_iff dvd_add_left_iff)

lemma aligned_inj: "aligned s \<Longrightarrow> aligned t \<Longrightarrow> page_no s = page_no t \<Longrightarrow> s = t"
  unfolding aligned_def page_no_def by (metis bits_ident)

lemma entry_word: "i < 512 \<Longrightarrow> unat (8 * of_nat i :: u64) = 8 * i"
  by (simp add: unat_word_ariths unat_of_nat)

lemma bit_low:
  assumes "drop_bit 12 (x :: u64) = 0" and "bit x n"
  shows "n < 12"
proof (rule ccontr)
  assume "\<not> n < 12"
  then have "bit x n = bit (drop_bit 12 x) (n - 12)" by (simp add: bit_drop_bit_eq)
  then show False using assms by simp
qed

lemma page_no_entry:
  assumes t: "aligned t" and i: "i < 512"
  shows "page_no (t + 8 * of_nat i) = page_no t"
proof -
  have x: "drop_bit 12 (8 * of_nat i :: u64) = 0"
    using entry_word [OF i] i by (simp add: word_unat_eq_iff drop_bit_eq_div unat_div)
  then have hi: "\<not> bit (8 * of_nat i :: u64) n" if "12 \<le> n" for n using bit_low that by fastforce
  have lo: "\<not> bit t n" if "n < 12" for n using t that bit_take_bit_iff [of 12 t n] by (simp add: aligned_def)
  have "t + 8 * of_nat i = t OR (8 * of_nat i)" using hi lo by (intro disjunctive_add) (meson linorder_not_le)
  then show ?thesis using x by (simp add: page_no_def drop_bit_or)
qed

lemma entry_inj: "i < 512 \<Longrightarrow> j < 512 \<Longrightarrow> t + 8 * of_nat i = t + (8 * of_nat j :: u64) \<Longrightarrow> i = j"
  using entry_word [of i] entry_word [of j] by (metis add_left_cancel mult_cancel1 zero_neq_numeral)

lemma entry_other_page:
  assumes "aligned s" "aligned t" "s \<noteq> t" "i < 512" "j < 512"
  shows "s + 8 * of_nat i \<noteq> t + 8 * of_nat j"
  using assms page_no_entry aligned_inj by metis

lemma index_nat: "\<exists>i < 512. GET_PML_INDEX n v = of_nat i"
proof -
  have "GET_PML_INDEX n v = take_bit 9 (drop_bit (12 + n * 9) v)"
    by (simp add: GET_PML_INDEX_def take_bit_eq_mask mask_numeral)
  then have "unat (GET_PML_INDEX n v) = unat (drop_bit (12 + n * 9) v) mod 2 ^ 9"
    by (simp only: unat_take_bit)
  then have "unat (GET_PML_INDEX n v) < 512" by simp
  then show ?thesis by (intro exI [of _ "unat (GET_PML_INDEX n v)"]) simp
qed

lemma index_word_inj: "i < 512 \<Longrightarrow> j < 512 \<Longrightarrow> (of_nat i :: u64) = of_nat j \<longleftrightarrow> i = j"
  using entry_inj by (auto simp: word_unat_eq_iff unat_of_nat)

section \<open>Reading and writing entries\<close>

lemma mm_frame [simp]:
  "mm_FreeList (write_entry t i e mm) = mm_FreeList mm" "g_HighMemBase (write_entry t i e mm) = g_HighMemBase mm"
  "g_CorePageTables (write_entry t i e mm) = g_CorePageTables mm" "g_KernelPages (write_entry t i e mm) = g_KernelPages mm"
  "g_KernelVPages (write_entry t i e mm) = g_KernelVPages mm"
  by (simp_all add: write_entry_def)

text \<open>The two states differ in the words of the pages \<open>S\<close> only, and in the free list.\<close>

definition changes :: "ptr set \<Rightarrow> mm \<Rightarrow> mm \<Rightarrow> bool" where
  "changes S mm mm' \<longleftrightarrow> g_HighMemBase mm' = g_HighMemBase mm \<and> g_CorePageTables mm' = g_CorePageTables mm \<and>
     g_KernelPages mm' = g_KernelPages mm \<and> g_KernelVPages mm' = g_KernelVPages mm \<and>
     (\<forall>t i. aligned t \<longrightarrow> t \<notin> S \<longrightarrow> i < 512 \<longrightarrow> read_entry mm' t (of_nat i) = read_entry mm t (of_nat i))"

lemma changes_refl [simp]: "changes S mm mm"
  by (simp add: changes_def)

lemma changes_trans: "changes S a b \<Longrightarrow> changes T b c \<Longrightarrow> changes (S \<union> T) a c"
  by (simp add: changes_def)

lemma changes_mono: "changes S a b \<Longrightarrow> S \<subseteq> T \<Longrightarrow> changes T a b"
  by (auto simp: changes_def)

lemma changes_high: "changes S a b \<Longrightarrow> g_HighMemBase b = g_HighMemBase a"
  by (simp add: changes_def)

lemma changes_read: "changes S a b \<Longrightarrow> aligned t \<Longrightarrow> t \<notin> S \<Longrightarrow> i < 512 \<Longrightarrow> read_entry b t (of_nat i) = read_entry a t (of_nat i)"
  by (simp add: changes_def)

lemma changes_free [simp]: "changes S mm (mm \<lparr> mm_FreeList := fl \<rparr>)"
  by (simp add: changes_def read_entry_def)

lemma read_write_entry:
  "aligned t \<Longrightarrow> i < 512 \<Longrightarrow> j < 512 \<Longrightarrow>
   read_entry (write_entry t (of_nat i) e mm) t (of_nat j) = (if j = i then e else read_entry mm t (of_nat j))"
  using entry_inj [of j i t] by (auto simp: read_entry_def write_entry_def)

lemma changes_write: "aligned t \<Longrightarrow> i < 512 \<Longrightarrow> changes {t} mm (write_entry t (of_nat i) e mm)"
  unfolding changes_def using entry_other_page by (auto simp: read_entry_def write_entry_def)

lemma clear_prefix:
  assumes t: "aligned t" and "n \<le> 512" and "fold (\<lambda>i. write_entry t (of_nat i) 0) [0..<n] mm = mm'"
  shows "changes {t} mm mm' \<and> mm_FreeList mm' = mm_FreeList mm \<and> (\<forall>i < n. read_entry mm' t (of_nat i) = 0)"
  using assms(2,3)
proof (induction n arbitrary: mm')
  case (Suc n)
  define a where "a = fold (\<lambda>i. write_entry t (of_nat i) 0) [0..<n] mm"
  have e: "mm' = write_entry t (of_nat n) 0 a" using Suc.prems(2) by (simp add: a_def)
  have ih: "changes {t} mm a" "mm_FreeList a = mm_FreeList mm" "\<forall>i < n. read_entry a t (of_nat i) = 0"
    using Suc.IH [of a] Suc.prems(1) by (simp_all add: a_def)
  have "changes {t} mm mm'" using changes_trans [OF ih(1) changes_write [OF t, of n a 0]] Suc.prems(1) by (simp add: e)
  then show ?case using ih Suc.prems(1) by (auto simp: e read_write_entry [OF t] less_Suc_eq)
qed simp

lemma clear_table_spec:
  assumes "aligned t"
  shows "changes {t} mm (clear_table t mm)" and "mm_FreeList (clear_table t mm) = mm_FreeList mm"
    and "i < 512 \<Longrightarrow> read_entry (clear_table t mm) t (of_nat i) = 0"
  using clear_prefix [OF assms _ clear_table_def [symmetric]] by auto

section \<open>Translation and ownership\<close>

definition child :: "mm \<Rightarrow> ptr \<Rightarrow> nat \<Rightarrow> ptr option" where
  "child mm t i =
     (let e = read_entry mm t (of_nat i)
      in if PML_GET_P e = 0 then None else Some (PhysToKernelPtr mm (PML_GET_ADDR e)))"

text \<open>The page of an address below a table of level \<open>l\<close>, and the pages that can be reached from the table.\<close>

fun walk :: "mm \<Rightarrow> nat \<Rightarrow> ptr \<Rightarrow> u64 \<Rightarrow> ptr option" where
  "walk mm 0 t v = Some t"
| "walk mm (Suc l) t v = Option.bind (child mm t (unat (GET_PML_INDEX l v))) (\<lambda>c. walk mm l c v)"

fun pages :: "mm \<Rightarrow> nat \<Rightarrow> ptr \<Rightarrow> ptr list"
and branch :: "mm \<Rightarrow> nat \<Rightarrow> ptr option \<Rightarrow> ptr list" where
  "pages mm 0 t = [t]"
| "pages mm (Suc l) t = t # concat (map (\<lambda>i. branch mm l (child mm t i)) [0..<512])"
| "branch mm l None = []"
| "branch mm l (Some c) = pages mm l c"

lemma pml_index_less: "unat (GET_PML_INDEX n v) < 512"
proof -
  obtain i where "i < 512" "GET_PML_INDEX n v = of_nat i" using index_nat by blast
  then show ?thesis by (simp add: unat_of_nat)
qed

lemma index_of_nat [simp]: "of_nat (unat (GET_PML_INDEX n v)) = GET_PML_INDEX n v"
  by simp

lemma pages_root: "t \<in> set (pages mm l t)"
  by (cases l) simp_all

lemma pages_child: "i < 512 \<Longrightarrow> child mm t i = Some c \<Longrightarrow> set (pages mm l c) \<subseteq> set (pages mm (Suc l) t)"
  by force

lemma changes_child:
  "changes S mm mm' \<Longrightarrow> aligned t \<Longrightarrow> t \<notin> S \<Longrightarrow> i < 512 \<Longrightarrow> child mm' t i = child mm t i"
  using changes_high [of S mm mm'] by (simp add: child_def changes_read PhysToKernelPtr_def Let_def)

text \<open>A change outside of the pages of a table is invisible from it.\<close>

lemma pages_frame:
  assumes "changes S mm mm'" and "\<forall>p \<in> set (pages mm l t). aligned p \<and> p \<notin> S"
  shows "pages mm' l t = pages mm l t \<and> walk mm' l t = walk mm l t"
  using assms(2)
proof (induction l arbitrary: t)
  case (Suc l)
  have t: "aligned t" "t \<notin> S" using Suc.prems by simp_all
  have c: "child mm' t i = child mm t i" if "i < 512" for i using changes_child [OF assms(1) t that] .
  have sub: "pages mm' l c = pages mm l c \<and> walk mm' l c = walk mm l c" if "i < 512" "child mm t i = Some c" for i c
    using Suc.IH [of c] Suc.prems pages_child [OF that, of l] by blast
  have "branch mm' l (child mm' t i) = branch mm l (child mm t i)" if "i < 512" for i
    using sub [OF that] c [OF that] by (cases "child mm t i") auto
  then have "map (\<lambda>i. branch mm' l (child mm' t i)) [0..<512] = map (\<lambda>i. branch mm l (child mm t i)) [0..<512]" by simp
  then have "pages mm' (Suc l) t = pages mm (Suc l) t" by (simp only: pages.simps)
  moreover have "walk mm' (Suc l) t v = walk mm (Suc l) t v" for v
    using sub [OF pml_index_less] c [OF pml_index_less] by (cases "child mm t (unat (GET_PML_INDEX l v))") auto
  ultimately show ?case by blast
qed auto

lemma mset_concat_change:
  assumes "distinct xs" and "i \<in> set xs" and "\<And>j. j \<in> set xs \<Longrightarrow> j \<noteq> i \<Longrightarrow> g j = f j"
  shows "mset (concat (map g xs)) + mset (f i) = mset (concat (map f xs)) + mset (g i)"
proof -
  obtain as bs where xs: "xs = as @ i # bs" using assms(2) by (metis split_list)
  then have "i \<notin> set as" "i \<notin> set bs" using assms(1) by auto
  then have "map g as = map f as" "map g bs = map f bs" using assms(3) xs by auto
  then show ?thesis unfolding xs map_append list.map concat_append concat.simps by (simp del: map_eq_conv)
qed

text \<open>One entry of a table changes, together with what is below it.\<close>

lemma lift_change:
  assumes ch: "changes S mm mm'" and i: "i < 512"
    and others: "\<forall>j < 512. j \<noteq> i \<longrightarrow> child mm' t j = child mm t j"
    and outside: "\<forall>j < 512. j \<noteq> i \<longrightarrow> (\<forall>d. child mm t j = Some d \<longrightarrow> (\<forall>p \<in> set (pages mm l d). aligned p \<and> p \<notin> S))"
  shows "mset (pages mm' (Suc l) t) + mset (branch mm l (child mm t i)) = mset (pages mm (Suc l) t) + mset (branch mm' l (child mm' t i))"
    and "walk mm' (Suc l) t v =
      (if unat (GET_PML_INDEX l v) = i then Option.bind (child mm' t i) (\<lambda>c. walk mm' l c v) else walk mm (Suc l) t v)"
proof -
  have cj: "child mm' t j = child mm t j" if "j < 512" "j \<noteq> i" for j using others that by blast
  have out: "\<forall>p \<in> set (pages mm l d). aligned p \<and> p \<notin> S" if "j < 512" "j \<noteq> i" "child mm t j = Some d" for j d
    using outside that by blast
  have fr: "pages mm' l d = pages mm l d \<and> walk mm' l d = walk mm l d" if "j < 512" "j \<noteq> i" "child mm t j = Some d" for j d
    using pages_frame [OF ch] out [OF that] by blast
  have "branch mm' l (child mm' t j) = branch mm l (child mm t j)" if "j < 512" "j \<noteq> i" for j
    using fr [OF that] cj [OF that] by (cases "child mm t j") auto
  from mset_concat_change [of "[0..<512]" i "\<lambda>j. branch mm' l (child mm' t j)" "\<lambda>j. branch mm l (child mm t j)", OF _ _ this]
  show "mset (pages mm' (Suc l) t) + mset (branch mm l (child mm t i)) = mset (pages mm (Suc l) t) + mset (branch mm' l (child mm' t i))"
    using i by simp
  show "walk mm' (Suc l) t v =
      (if unat (GET_PML_INDEX l v) = i then Option.bind (child mm' t i) (\<lambda>c. walk mm' l c v) else walk mm (Suc l) t v)"
    using cj [OF pml_index_less, of l v] fr [OF pml_index_less, of l v]
    by (cases "child mm t (unat (GET_PML_INDEX l v))") auto
qed

section \<open>Free pages\<close>

abbreviation free_bytes :: "mm \<Rightarrow> nat set" where
  "free_bytes mm \<equiv> fl_avail (mm_FreeList mm)"

abbreviation is_free :: "mm \<Rightarrow> ptr \<Rightarrow> bool" where
  "is_free mm p \<equiv> unat p \<in> free_bytes mm"

text \<open>A set of bytes that consists of whole pages.\<close>

definition granular :: "nat set \<Rightarrow> bool" where
  "granular A \<longleftrightarrow> (\<forall>x y. x div 4096 = y div 4096 \<longrightarrow> x \<in> A \<longrightarrow> y \<in> A)"

definition page_ok :: "mm \<Rightarrow> ptr \<Rightarrow> bool" where
  "page_ok mm p \<longleftrightarrow> p \<noteq> 0 \<and> aligned p \<and> unat (p - g_HighMemBase mm) < 2 ^ 52"

definition alloc_inv :: "mm \<Rightarrow> bool" where
  "alloc_inv mm \<longleftrightarrow> fl_inv (mm_FreeList mm) \<and> granular (free_bytes mm) \<and> aligned (g_HighMemBase mm) \<and>
     (\<forall>p. aligned p \<longrightarrow> is_free mm p \<longrightarrow> page_ok mm p)"

lemma seg_page:
  assumes "aligned p"
  shows "x \<in> seg p 4096 \<longleftrightarrow> x div 4096 = unat p div 4096"
proof -
  obtain k where k: "unat p = 4096 * k" using assms by (auto simp: aligned_iff)
  have "x \<in> seg p 4096 \<longleftrightarrow> 4096 * k \<le> x \<and> x < 4096 * k + 4096" by (auto simp: seg_def k)
  also have "\<dots> \<longleftrightarrow> x div 4096 = k" by auto
  finally show ?thesis by (simp add: k)
qed

lemma page_div_inj: "aligned p \<Longrightarrow> aligned q \<Longrightarrow> unat p div 4096 = unat q div 4096 \<Longrightarrow> p = q"
  by (metis aligned_iff dvd_div_mult_self word_unat_eq_iff)

lemma granular_diff: "granular A \<Longrightarrow> aligned p \<Longrightarrow> granular (A - seg p 4096)"
  unfolding granular_def by (metis DiffE DiffI seg_page)

lemma granular_union: "granular A \<Longrightarrow> aligned p \<Longrightarrow> granular (A \<union> seg p 4096)"
  unfolding granular_def by (metis UnE UnI1 UnI2 seg_page)

lemma granularD: "granular A \<Longrightarrow> x \<in> A \<Longrightarrow> x div 4096 = y div 4096 \<Longrightarrow> y \<in> A"
  unfolding granular_def by blast

lemma granular_seg: "granular A \<Longrightarrow> aligned p \<Longrightarrow> unat p \<in> A \<Longrightarrow> seg p 4096 \<subseteq> A"
  by (metis granularD seg_page subsetI)

lemma granular_disjoint: "granular A \<Longrightarrow> aligned p \<Longrightarrow> unat p \<notin> A \<Longrightarrow> seg p 4096 \<inter> A = {}"
  by (metis disjoint_iff granularD seg_page)

lemma div_pred: "\<not> k dvd n \<Longrightarrow> n div k = (n - 1) div (k :: nat)"
  by (cases n) (auto simp: div_Suc dvd_eq_mod_eq_0)

lemma in_seg_iff: "aligned p \<Longrightarrow> aligned q \<Longrightarrow> unat q \<in> seg p 4096 \<longleftrightarrow> q = p"
  using seg_page page_div_inj by metis

lemma avail_bytes:
  assumes "fl_inv l"
  shows "fl_avail l \<subseteq> {0<..<2 ^ 64}" and "finite (fl_avail l)"
proof -
  obtain xs where xs: "fl_rep l xs" "fl_avail l = covers xs (fsize l)" using assms by (auto elim: fl_invE)
  show r: "fl_avail l \<subseteq> {0<..<2 ^ 64}"
  proof
    fix x assume "x \<in> fl_avail l"
    then obtain y where y: "y \<in> set xs" "x \<in> seg y (fsize l y)" using xs(2) by (auto simp: covers_def)
    then have "seg_ok y (fsize l y)" using xs(1) by (simp add: fl_rep_def)
    moreover from this have "unat y \<noteq> 0" by (simp add: seg_ok_def unat_eq_0)
    ultimately show "x \<in> {0<..<2 ^ 64}" using y(2) by (auto simp: seg_ok_def seg_def)
  qed
  show "finite (fl_avail l)" by (rule finite_subset [OF r]) simp
qed

text \<open>When the free bytes consist of whole units, the search finds the start of a unit.\<close>

lemma FindFree_multiple:
  assumes inv: "fl_inv l" and units: "\<forall>x y. x div k = y div k \<longrightarrow> x \<in> fl_avail l \<longrightarrow> y \<in> fl_avail l"
    and f: "FindFree l n = Some p" "p \<noteq> nullptr"
  shows "k dvd unat p"
proof (rule ccontr)
  assume na: "\<not> k dvd unat p"
  obtain xs where xs: "fl_rep l xs" "coalesced xs (fsize l)" "fl_avail l = covers xs (fsize l)" using inv by (rule fl_invE)
  have p: "p \<in> set xs" using FindFree_fits [OF xs(1) f] by simp
  have ok: "seg_ok x (fsize l x)" if "x \<in> set xs" for x using xs(1) that by (simp add: fl_rep_def)
  have "unat p \<in> fl_avail l" using unat_in_seg [OF ok [OF p]] p xs(3) by (auto simp: covers_def)
  moreover have "unat p div k = (unat p - 1) div k" using na by (rule div_pred)
  ultimately have "unat p - 1 \<in> fl_avail l" using units by blast
  then obtain y where y: "y \<in> set xs" "unat p - 1 \<in> seg y (fsize l y)" using xs(3) by (auto simp: covers_def)
  have p0: "unat p \<noteq> 0" using f(2) by (simp add: unat_eq_0)
  then have "y \<noteq> p" using y(2) by (auto simp: seg_def)
  then have "unat p \<notin> seg y (fsize l y)"
    using xs(1) y(1) p unat_in_seg [OF ok [OF p]] by (auto simp: fl_rep_def seg_disj_def)
  then have "unat p = unat y + unat (fsize l y)" using y(2) p0 by (auto simp: seg_def)
  then have "p = y + fsize l y" using seg_end_nat [OF ok [OF y(1)] f(2)] by simp
  then show False using xs(2) y(1) p by (auto simp: coalesced_def)
qed

lemma FindFree_aligned:
  "fl_inv l \<Longrightarrow> granular (fl_avail l) \<Longrightarrow> FindFree l n = Some p \<Longrightarrow> p \<noteq> nullptr \<Longrightarrow> aligned p"
  unfolding granular_def aligned_iff by (rule FindFree_multiple)

text \<open>An allocation takes one whole page, if there is any.\<close>

lemma allocate_one:
  assumes inv: "alloc_inv mm" and some: "free_bytes mm \<noteq> {}"
  shows "\<exists>p fl. allocate_pages 1 mm = Some (KernelToPhysPtr mm p, mm \<lparr> mm_FreeList := fl \<rparr>) \<and> page_ok mm p \<and> is_free mm p \<and>
    alloc_inv (mm \<lparr> mm_FreeList := fl \<rparr>) \<and> fl_avail fl = free_bytes mm - seg p 4096"
proof -
  have fl: "fl_inv (mm_FreeList mm)" "granular (free_bytes mm)" and pg: "\<And>p. aligned p \<Longrightarrow> is_free mm p \<Longrightarrow> page_ok mm p"
    using inv by (simp_all add: alloc_inv_def)
  obtain x where x: "x \<in> free_bytes mm" using some by blast
  define q :: u64 where "q = of_nat (x div 4096 * 4096)"
  have xb: "x < 2 ^ 64" using x avail_bytes(1) [OF fl(1)] by auto
  then have uq: "unat q = x div 4096 * 4096" unfolding q_def by (subst unat_of_nat) auto
  have aq: "aligned q" by (simp add: aligned_iff uq)
  have sq: "seg q 4096 \<subseteq> free_bytes mm" using granularD [OF fl(2) x] seg_page [OF aq] uq by auto
  moreover have "unat q \<in> seg q 4096" "unat q + 4095 \<in> seg q 4096" by (simp_all add: seg_def)
  ultimately have "0 < unat q" "unat q + 4095 < 2 ^ 64" using avail_bytes(1) [OF fl(1)] by auto
  then have "seg_ok q 4096" by (auto simp: seg_ok_def)
  then obtain p where p: "FindFree (mm_FreeList mm) 4096 = Some p" "p \<noteq> nullptr"
    using kfl.find_iff [OF fl(1), of 4096] sq by auto
  have ap: "aligned p" by (rule FindFree_aligned [OF fl p])
  have "seg p 4096 \<subseteq> free_bytes mm" using kfl.find_fits [OF fl(1) _ p] by simp
  then have fp: "is_free mm p" by (auto simp: seg_def)
  obtain l where l: "MarkUsed (mm_FreeList mm) p 4096 = Some l" "fl_inv l" "fl_avail l = free_bytes mm - seg p 4096"
    using kfl.used_law [OF fl(1) _ p] by auto
  have "alloc_inv (mm \<lparr> mm_FreeList := l \<rparr>)"
    using l inv granular_diff [OF fl(2) ap] by (auto simp: alloc_inv_def page_ok_def)
  then show ?thesis using p l fp pg [OF ap fp] by (auto simp: allocate_pages_def)
qed

lemma card_free:
  assumes "alloc_inv mm" and "is_free mm p" and "aligned p"
  shows "card (free_bytes mm - seg p 4096) = card (free_bytes mm) - 4096"
proof -
  have "seg p 4096 \<subseteq> free_bytes mm" using granular_seg assms by (simp add: alloc_inv_def)
  moreover have "finite (seg p 4096)" "card (seg p 4096) = 4096" by (simp_all add: seg_def)
  ultimately show ?thesis by (simp add: card_Diff_subset)
qed

text \<open>An entry leads to the page that was entered.\<close>

definition flags_ok :: "u64 \<Rightarrow> bool" where
  "flags_ok flags \<longleftrightarrow> drop_bit 12 flags = 0 \<and> bit flags 0"

lemma flags_okI: "flags_ok user_flags" "flags_ok kernel_flags"
  by (simp_all add: flags_ok_def user_flags_def kernel_flags_def PML_SET_P_def PML_SET_RW_def PML_SET_US_def)

lemma entry_addr:
  assumes p: "page_ok mm p" and h: "aligned (g_HighMemBase mm)" and f: "flags_ok flags"
  shows "PhysToKernelPtr mm (PML_GET_ADDR (KernelToPhysPtr mm p OR flags)) = p"
    and "PML_GET_P (KernelToPhysPtr mm p OR flags) \<noteq> 0"
proof -
  define x where "x = p - g_HighMemBase mm"
  have x: "take_bit 12 x = 0" using aligned_diff p h unfolding x_def page_ok_def aligned_def by blast
  have "take_bit 52 x = x" using p by (simp add: word_unat_eq_iff unat_take_bit page_ok_def x_def)
  then have hi: "bit x n \<Longrightarrow> n < 52" for n by (metis bit_take_bit_iff)
  have lo: "bit x n \<Longrightarrow> 12 \<le> n" for n using x bit_take_bit_iff [of 12 x n] by fastforce
  have fl: "bit flags n \<Longrightarrow> n < 12" for n
    using f bit_low [of flags n] by (simp add: flags_ok_def)
  have m: "(0x000FFFFFFFFFF000 :: u64) = push_bit 12 (mask 40)" by (simp add: mask_numeral push_bit_eq_mult)
  have "(x OR flags) AND 0x000FFFFFFFFFF000 = x"
    unfolding m
  proof (rule bit_word_eqI)
    fix n assume "n < LENGTH(64)"
    then show "bit ((x OR flags) AND push_bit 12 (mask 40)) n = bit x n"
      using hi [of n] lo [of n] fl [of n] by (auto simp: bit_and_iff bit_or_iff bit_push_bit_iff bit_mask_iff)
  qed
  then show "PhysToKernelPtr mm (PML_GET_ADDR (KernelToPhysPtr mm p OR flags)) = p"
    by (simp add: PhysToKernelPtr_def PML_GET_ADDR_def KernelToPhysPtr_def x_def)
  have "bit (x OR flags) 0" using f by (simp add: flags_ok_def bit_or_iff)
  then have "bit ((x OR flags) AND 1) 0" by (simp add: bit_and_iff)
  then show "PML_GET_P (KernelToPhysPtr mm p OR flags) \<noteq> 0"
    unfolding PML_GET_P_def KernelToPhysPtr_def x_def [symmetric] by auto
qed

section \<open>Trees of tables\<close>

text \<open>The tables among the pages.\<close>

fun tables :: "mm \<Rightarrow> nat \<Rightarrow> ptr \<Rightarrow> ptr set" where
  "tables mm 0 t = {}"
| "tables mm (Suc l) t = insert t (\<Union>i < 512. case child mm t i of None \<Rightarrow> {} | Some c \<Rightarrow> tables mm l c)"

lemma tables_pages: "tables mm l t \<subseteq> set (pages mm l t)"
proof (induction l arbitrary: t)
  case (Suc l)
  have "(case child mm t i of None \<Rightarrow> {} | Some c \<Rightarrow> tables mm l c) \<subseteq> set (pages mm (Suc l) t)" if "i < 512" for i
    using Suc.IH pages_child [OF that, of mm t _ l] by (cases "child mm t i") auto
  then show ?case by auto
qed simp

lemma tables_child: "i < 512 \<Longrightarrow> child mm t i = Some c \<Longrightarrow> tables mm l c \<subseteq> tables mm (Suc l) t"
  by (force split: option.splits)

lemma distinct_blocks:
  "distinct (concat (map f xs)) \<Longrightarrow> i \<in> set xs \<Longrightarrow> distinct (f i)"
  "distinct (concat (map f xs)) \<Longrightarrow> distinct xs \<Longrightarrow> i \<in> set xs \<Longrightarrow> j \<in> set xs \<Longrightarrow> i \<noteq> j \<Longrightarrow> set (f i) \<inter> set (f j) = {}"
  by (induction xs) auto

lemma distinct_child:
  assumes "distinct (pages mm (Suc l) t)" and i: "i < 512" "child mm t i = Some c"
  shows "distinct (pages mm l c)" and "t \<notin> set (pages mm l c)"
    and "j < 512 \<Longrightarrow> j \<noteq> i \<Longrightarrow> child mm t j = Some d \<Longrightarrow> set (pages mm l c) \<inter> set (pages mm l d) = {}"
proof -
  have d: "distinct (concat (map (\<lambda>i. branch mm l (child mm t i)) [0..<512]))"
    "t \<notin> set (concat (map (\<lambda>i. branch mm l (child mm t i)) [0..<512]))" using assms(1) by simp_all
  show "distinct (pages mm l c)" using distinct_blocks(1) [OF d(1), of i] i by simp
  show "t \<notin> set (pages mm l c)" using d(2) i by force
  show "set (pages mm l c) \<inter> set (pages mm l d) = {}" if "j < 512" "j \<noteq> i" "child mm t j = Some d"
    using distinct_blocks(2) [OF d(1), of i j] i that by simp
qed

text \<open>No page occurs twice, and none is free.\<close>

definition tree_ok :: "mm \<Rightarrow> nat \<Rightarrow> ptr \<Rightarrow> bool" where
  "tree_ok mm l t \<longleftrightarrow> distinct (pages mm l t) \<and> (\<forall>p \<in> set (pages mm l t). page_ok mm p \<and> \<not> is_free mm p)"

lemma tree_ok_child:
  "tree_ok mm (Suc l) t \<Longrightarrow> i < 512 \<Longrightarrow> child mm t i = Some c \<Longrightarrow> tree_ok mm l c"
  unfolding tree_ok_def using distinct_child(1) pages_child by blast

lemma tree_ok_aligned: "tree_ok mm l t \<Longrightarrow> p \<in> set (pages mm l t) \<Longrightarrow> aligned p"
  by (simp add: tree_ok_def page_ok_def)

lemma empty_table:
  assumes "\<forall>i < 512. child mm c i = None"
  shows "pages mm (Suc l) c = [c]" and "walk mm (Suc l) c v = None" and "tables mm (Suc l) c = {c}"
  using assms pml_index_less [of l v] by auto

lemma set_entry:
  assumes t: "aligned t" and i: "i < 512" and c: "page_ok mm c" and h: "aligned (g_HighMemBase mm)" and f: "flags_ok flags"
    and mm': "mm' = write_entry t (of_nat i) (KernelToPhysPtr mm c OR flags) mm"
  shows "child mm' t i = Some c" and "j < 512 \<Longrightarrow> j \<noteq> i \<Longrightarrow> child mm' t j = child mm t j" and "changes {t} mm mm'"
proof -
  have r: "read_entry mm' t (of_nat j) = (if j = i then KernelToPhysPtr mm c OR flags else read_entry mm t (of_nat j))" if "j < 512" for j
    unfolding mm' by (rule read_write_entry [OF t i that])
  have h': "PhysToKernelPtr mm' x = PhysToKernelPtr mm x" for x by (simp add: mm' PhysToKernelPtr_def)
  show "child mm' t i = Some c" using r [OF i] entry_addr [OF c h f] by (simp add: child_def h')
  show "child mm' t j = child mm t j" if "j < 512" "j \<noteq> i" using r [OF that(1)] that(2) by (simp add: child_def h' Let_def)
  show "changes {t} mm mm'" unfolding mm' by (rule changes_write [OF t i])
qed

lemma page_ok_changes: "changes S mm mm' \<Longrightarrow> page_ok mm' = page_ok mm"
  by (auto simp: page_ok_def changes_def)

lemma alloc_inv_changes: "alloc_inv mm \<Longrightarrow> changes S mm mm' \<Longrightarrow> mm_FreeList mm' = mm_FreeList mm \<Longrightarrow> alloc_inv mm'"
  using page_ok_changes [of S mm mm'] changes_high [of S mm mm'] by (simp add: alloc_inv_def)

text \<open>A missing table is created empty in a free page.\<close>

lemma next_table_new:
  assumes inv: "alloc_inv mm" and some: "free_bytes mm \<noteq> {}" and t: "aligned t" "\<not> is_free mm t" and i: "i < 512"
    and none: "child mm t i = None" and f: "flags_ok flags"
  shows "\<exists>c mm1. next_table flags t (of_nat i) mm = Some (c, mm1) \<and> page_ok mm c \<and> is_free mm c \<and> alloc_inv mm1 \<and>
    free_bytes mm1 = free_bytes mm - seg c 4096 \<and> changes {t, c} mm mm1 \<and> child mm1 t i = Some c \<and>
    (\<forall>j < 512. j \<noteq> i \<longrightarrow> child mm1 t j = child mm t j) \<and> (\<forall>j < 512. child mm1 c j = None)"
proof -
  obtain c fl where c: "allocate_pages 1 mm = Some (KernelToPhysPtr mm c, mm \<lparr> mm_FreeList := fl \<rparr>)" "page_ok mm c" "is_free mm c"
    "alloc_inv (mm \<lparr> mm_FreeList := fl \<rparr>)" "fl_avail fl = free_bytes mm - seg c 4096"
    using allocate_one [OF inv some] by blast
  define a where "a = mm \<lparr> mm_FreeList := fl \<rparr>"
  define b where "b = clear_table c a"
  define d where "d = write_entry t (of_nat i) (KernelToPhysPtr b c OR flags) b"
  have ac: "aligned c" using c(2) by (simp add: page_ok_def)
  note cl = clear_table_spec [OF ac, where mm = a, folded b_def]
  have tc: "t \<noteq> c" using t(2) c(3) by auto
  have ch: "changes {c} mm b" using changes_trans [OF changes_free [of "{c}" mm fl] cl(1) [unfolded a_def]] by (simp add: b_def a_def)
  have inv': "alloc_inv b" using alloc_inv_changes [OF _ cl(1,2)] c(4) by (simp add: a_def)
  have pb: "page_ok b c" "aligned (g_HighMemBase b)" using page_ok_changes [OF ch] c(2) inv' by (simp_all add: alloc_inv_def)
  note se = set_entry [OF t(1) i pb f d_def]
  have "next_table flags t (of_nat i) mm = Some (c, d)"
    using none c(1) by (simp add: next_table_def child_def Let_def AllocatePages_def b_def d_def a_def PhysToKernelPtr_def KernelToPhysPtr_def
        split: if_splits)
  moreover have "alloc_inv d" using alloc_inv_changes [OF inv' se(3)] by (simp add: d_def)
  moreover have "free_bytes d = free_bytes mm - seg c 4096" using c(5) cl(2) by (simp add: d_def a_def)
  moreover have "changes {t, c} mm d" using changes_trans [OF ch se(3)] by (simp add: insert_commute)
  moreover have "\<forall>j < 512. j \<noteq> i \<longrightarrow> child d t j = child mm t j"
    using se(2) changes_child [OF ch t(1)] tc by auto
  moreover have "child d c j = None" if "j < 512" for j
    using changes_child [OF se(3) ac _ that] cl(3) [OF that] tc by (simp add: child_def PML_GET_P_def)
  ultimately show ?thesis using c(2,3) se(1) by blast
qed

lemma next_table_old: "i < 512 \<Longrightarrow> child mm t i = Some c \<Longrightarrow> next_table flags t (of_nat i) mm = Some (c, mm)"
  by (auto simp: child_def next_table_def Let_def split: if_splits)

section \<open>Mapping a page\<close>

text \<open>The functions that map a page, on the last \<open>l\<close> levels of the tables: \<open>k\<close> is what they do at the last one.\<close>

fun descend :: "u64 \<Rightarrow> nat \<Rightarrow> ptr \<Rightarrow> u64 \<Rightarrow> (ptr \<Rightarrow> mm \<Rightarrow> (ptr \<times> mm) option) \<Rightarrow> mm \<Rightarrow> (ptr \<times> mm) option" where
  "descend flags 0 t v k mm = k t mm"
| "descend flags (Suc l) t v k mm =
     Option.bind (next_table flags t (GET_PML_INDEX (Suc l) v) mm) (\<lambda>(c, mm). descend flags l c v k mm)"

definition put_page :: "u64 \<Rightarrow> u64 \<Rightarrow> u64 \<Rightarrow> ptr \<Rightarrow> mm \<Rightarrow> (ptr \<times> mm) option" where
  "put_page flags v phys t mm = Some (PhysToKernelPtr mm phys, write_entry t (GET_PML_INDEX 0 v) (phys OR flags) mm)"

definition new_page :: "u64 \<Rightarrow> ptr \<Rightarrow> mm \<Rightarrow> (ptr \<times> mm) option" where
  "new_page v t mm =
     (let e = read_entry mm t (GET_PML_INDEX 0 v)
      in if PML_GET_P e \<noteq> 0 then Some (PhysToKernelPtr mm (PML_GET_ADDR e), mm)
         else Option.bind (AllocatePages 1 mm) (\<lambda>(phys, mm). put_page user_flags v phys t mm))"

lemma MapProcessPage_phys_levels:
  "MapProcessPage_phys e phys v mm =
     map_option snd (descend user_flags 2 (PhysToKernelPtr mm (PML_GET_ADDR e)) v (put_page user_flags v phys) mm)"
  by (simp add: MapProcessPage_phys_def numeral_2_eq_2 Let_def split_def put_page_def map_option_bind comp_def)

lemma MapKernelPage_levels:
  "MapKernelPage phys v mm = map_option snd (descend kernel_flags 2
     (PhysToKernelPtr mm (PML_GET_ADDR (read_entry mm (g_CorePageTables mm) (GET_PML_INDEX 3 v)))) v (put_page kernel_flags v phys) mm)"
  by (simp add: MapKernelPage_def numeral_2_eq_2 Let_def split_def put_page_def map_option_bind comp_def)

lemma MapProcessPage_new_levels:
  "MapProcessPage_new e v mm = descend user_flags 2 (PhysToKernelPtr mm (PML_GET_ADDR e)) v (new_page v) mm"
  by (simp add: MapProcessPage_new_def numeral_2_eq_2 Let_def split_def new_page_def put_page_def cong: if_cong)

text \<open>The two addresses lie on the same page, as far as \<open>l\<close> levels tell.\<close>

definition same_page :: "nat \<Rightarrow> u64 \<Rightarrow> u64 \<Rightarrow> bool" where
  "same_page l v w \<longleftrightarrow> (\<forall>k < l. GET_PML_INDEX k w = GET_PML_INDEX k v)"

lemma same_page_Suc: "same_page (Suc l) v w \<longleftrightarrow> GET_PML_INDEX l w = GET_PML_INDEX l v \<and> same_page l v w"
  by (auto simp: same_page_def less_Suc_eq)

text \<open>What mapping \<open>v\<close> to the page \<open>f\<close> does: the pages \<open>new\<close> become tables. The pages \<open>fs\<close> are allocated with them, \<open>f\<close> or
  none.\<close>

definition maps :: "mm \<Rightarrow> mm \<Rightarrow> nat \<Rightarrow> ptr \<Rightarrow> u64 \<Rightarrow> ptr \<Rightarrow> ptr list \<Rightarrow> ptr list \<Rightarrow> bool" where
  "maps mm mm' l t v f new fs \<longleftrightarrow>
     alloc_inv mm' \<and> free_bytes mm' = free_bytes mm - (\<Union>p \<in> set (new @ fs). seg p 4096) \<and>
     (\<forall>p \<in> set (new @ fs). page_ok mm p \<and> is_free mm p) \<and> distinct (new @ fs) \<and> length new < l \<and>
     mset (pages mm' l t) = mset (pages mm l t) + mset new + {#f#} \<and>
     changes (tables mm l t \<union> set new) mm mm' \<and>
     (\<forall>w. walk mm' l t w = (if same_page l v w then Some f else walk mm l t w))"

lemma map_leaf:
  assumes ok: "tree_ok mm 1 t" and inv: "alloc_inv mm" and none: "walk mm 1 t v = None" and f: "page_ok mm f" and fl: "flags_ok flags"
  shows "maps mm (write_entry t (GET_PML_INDEX 0 v) (KernelToPhysPtr mm f OR flags) mm) 1 t v f [] []"
proof -
  define i where "i = unat (GET_PML_INDEX 0 v)"
  have i: "i < 512" "of_nat i = GET_PML_INDEX 0 v" by (simp_all add: i_def pml_index_less)
  define mm' where "mm' = write_entry t (of_nat i) (KernelToPhysPtr mm f OR flags) mm"
  have t: "aligned t" using tree_ok_aligned [OF ok pages_root] .
  have h: "aligned (g_HighMemBase mm)" using inv by (simp add: alloc_inv_def)
  note se = set_entry [OF t i(1) f h fl mm'_def]
  have c: "child mm t i = None" using none by (cases "child mm t i") (auto simp: i_def)
  have out: "aligned p \<and> p \<notin> {t}" if "j < 512" "child mm t j = Some d" "p \<in> set (pages mm 0 d)" for j d p
    using distinct_child(2) [of mm 0 t, OF _ that(1,2)] tree_ok_aligned [OF ok] pages_child [OF that(1,2), of 0] that(3) ok
    by (auto simp: tree_ok_def)
  have cj: "\<forall>j < 512. j \<noteq> i \<longrightarrow> child mm' t j = child mm t j" using se(2) by blast
  note lc = lift_change [where l = 0, OF se(3) i(1) cj]
  have o: "\<forall>j < 512. j \<noteq> i \<longrightarrow> (\<forall>d. child mm t j = Some d \<longrightarrow> (\<forall>p \<in> set (pages mm 0 d). aligned p \<and> p \<notin> {t}))" using out by blast
  have "alloc_inv mm'" using alloc_inv_changes [OF inv se(3)] by (simp add: mm'_def)
  moreover have "mset (pages mm' 1 t) = mset (pages mm 1 t) + {#f#}" using lc(1) [OF o] c se(1) by simp
  moreover have "walk mm' 1 t w = (if same_page 1 v w then Some f else walk mm 1 t w)" for w
    using lc(2) [OF o, of w] se(1) by (simp add: same_page_def i_def word_unat_eq_iff)
  moreover have "changes (tables mm 1 t) mm mm'" by (rule changes_mono [OF se(3)]) simp
  ultimately show ?thesis unfolding maps_def i(2) [symmetric] mm'_def [symmetric] by (simp add: mm'_def)
qed

text \<open>A change below one of the tables.\<close>

lemma below_change:
  assumes ok: "tree_ok mm (Suc l) t" and i: "i < 512" and c: "child mm t i = Some c" and ch: "changes S mm mm'"
    and S: "\<And>p. p \<in> set (pages mm (Suc l) t) \<Longrightarrow> p \<notin> set (pages mm l c) \<Longrightarrow> p \<notin> S"
  shows "mset (pages mm' (Suc l) t) + mset (pages mm l c) = mset (pages mm (Suc l) t) + mset (pages mm' l c)"
    and "walk mm' (Suc l) t w = (if unat (GET_PML_INDEX l w) = i then walk mm' l c w else walk mm (Suc l) t w)"
proof -
  note dc = distinct_child [OF conjunct1 [OF ok [unfolded tree_ok_def]] i c]
  have t: "aligned t" "t \<notin> S" using tree_ok_aligned [OF ok pages_root] S [OF pages_root dc(2)] by simp_all
  have cj: "child mm' t j = child mm t j" if "j < 512" for j by (rule changes_child [OF ch t that])
  have "aligned p \<and> p \<notin> S" if "j < 512" "j \<noteq> i" "child mm t j = Some e" "p \<in> set (pages mm l e)" for j e p
  proof -
    have p: "p \<in> set (pages mm (Suc l) t)" using pages_child [OF that(1,3), of l] that(4) by blast
    moreover have "p \<notin> set (pages mm l c)" using dc(3) [OF that(1-3)] that(4) by blast
    ultimately show ?thesis using S tree_ok_aligned [OF ok p] by blast
  qed
  then have o: "\<forall>j < 512. j \<noteq> i \<longrightarrow> child mm' t j = child mm t j"
    "\<forall>j < 512. j \<noteq> i \<longrightarrow> (\<forall>d. child mm t j = Some d \<longrightarrow> (\<forall>p \<in> set (pages mm l d). aligned p \<and> p \<notin> S))" using cj by blast+
  note lc = lift_change [where l = l, OF ch i o]
  show "mset (pages mm' (Suc l) t) + mset (pages mm l c) = mset (pages mm (Suc l) t) + mset (pages mm' l c)"
    using lc(1) cj [OF i] c by simp
  show "walk mm' (Suc l) t w = (if unat (GET_PML_INDEX l w) = i then walk mm' l c w else walk mm (Suc l) t w)"
    using lc(2) [of w] cj [OF i] c by simp
qed

text \<open>The table below is there.\<close>

lemma map_below:
  assumes ok: "tree_ok mm (Suc l) t" and i: "i = unat (GET_PML_INDEX l v)" and c: "child mm t i = Some c"
    and m: "maps mm mm' l c v f new fs"
  shows "maps mm mm' (Suc l) t v f new fs"
proof -
  have i5: "i < 512" by (simp add: i pml_index_less)
  have m': "changes (tables mm l c \<union> set new) mm mm'" "\<And>p. p \<in> set new \<Longrightarrow> is_free mm p"
    "mset (pages mm' l c) = mset (pages mm l c) + mset new + {#f#}"
    "\<And>w. walk mm' l c w = (if same_page l v w then Some f else walk mm l c w)" using m by (simp_all add: maps_def)
  have S: "p \<notin> tables mm l c \<union> set new" if "p \<in> set (pages mm (Suc l) t)" "p \<notin> set (pages mm l c)" for p
    using that ok m'(2) tables_pages [of mm l c] unfolding tree_ok_def by blast
  note bc = below_change [OF ok i5 c m'(1) S]
  have "mset (pages mm' (Suc l) t) = mset (pages mm (Suc l) t) + mset new + {#f#}" using bc(1) m'(3) by simp
  moreover have "walk mm' (Suc l) t w = (if same_page (Suc l) v w then Some f else walk mm (Suc l) t w)" for w
    using bc(2) [of w] m'(4) c by (auto simp: same_page_Suc i word_unat_eq_iff)
  moreover have "changes (tables mm (Suc l) t \<union> set new) mm mm'"
    using changes_mono [OF m'(1)] tables_child [OF i5 c, of l] by blast
  ultimately show ?thesis using m unfolding maps_def by simp
qed

text \<open>The table below is made.\<close>

lemma map_new:
  assumes ok: "tree_ok mm (Suc l) t" and l: "0 < l" and i: "i = unat (GET_PML_INDEX l v)" and none: "child mm t i = None"
    and c: "page_ok mm c" "is_free mm c" and mm1: "free_bytes mm1 = free_bytes mm - seg c 4096" "changes {t, c} mm mm1"
    and t1: "child mm1 t i = Some c" "\<forall>j < 512. j \<noteq> i \<longrightarrow> child mm1 t j = child mm t j" and c1: "\<forall>j < 512. child mm1 c j = None"
    and m: "maps mm1 mm' l c v f new fs"
  shows "maps mm mm' (Suc l) t v f (c # new) fs"
proof -
  have i5: "i < 512" by (simp add: i pml_index_less)
  have d: "distinct (pages mm (Suc l) t)" and pg: "\<And>p. p \<in> set (pages mm (Suc l) t) \<Longrightarrow> page_ok mm p \<and> \<not> is_free mm p"
    using ok unfolding tree_ok_def by blast+
  obtain k where k: "l = Suc k" using l by (cases l) auto
  note et = empty_table [OF c1, of k, folded k]
  have m': "changes ({c} \<union> set new) mm1 mm'" "\<And>p. p \<in> set (new @ fs) \<Longrightarrow> page_ok mm1 p \<and> is_free mm1 p" "distinct (new @ fs)" "length new < l"
    "mset (pages mm' l c) = {#c#} + mset new + {#f#}" "alloc_inv mm'" "free_bytes mm' = free_bytes mm1 - (\<Union>p \<in> set (new @ fs). seg p 4096)"
    "\<And>w. walk mm' l c w = (if same_page l v w then Some f else None)"
    using m unfolding maps_def et by simp_all
  have cs: "unat c \<in> seg c 4096" using seg_page c(1) by (simp add: page_ok_def)
  have new: "page_ok mm p \<and> is_free mm p \<and> p \<noteq> c" if "p \<in> set (new @ fs)" for p
    using m'(2) [OF that] mm1(1) cs page_ok_changes [OF mm1(2)] by auto
  have old: "p \<notin> {c} \<union> set new" if "p \<in> set (pages mm (Suc l) t)" for p using pg [OF that] new c(2) by auto
  have t: "aligned t" "t \<notin> {c} \<union> set new" using tree_ok_aligned [OF ok pages_root] old [OF pages_root] by simp_all
  have ch: "changes (insert t (insert c (set new))) mm mm'"
    by (rule changes_mono [OF changes_trans [OF mm1(2) m'(1)]]) auto
  have cj: "child mm' t j = child mm1 t j" if "j < 512" for j by (rule changes_child [OF m'(1) t that])
  have o: "\<forall>j < 512. j \<noteq> i \<longrightarrow> child mm' t j = child mm t j" using cj t1(2) by simp
  have ci: "child mm' t i = Some c" using cj [OF i5] t1(1) by simp
  have "aligned p \<and> p \<notin> insert t (insert c (set new))" if "j < 512" "child mm t j = Some e" "p \<in> set (pages mm l e)" for j e p
  proof -
    have p: "p \<in> set (pages mm (Suc l) t)" using pages_child [OF that(1,2), of l] that(3) by blast
    moreover have "p \<noteq> t" using distinct_child(2) [OF d that(1,2)] that(3) by blast
    ultimately show ?thesis using old tree_ok_aligned [OF ok p] by blast
  qed
  then have out: "\<forall>j < 512. j \<noteq> i \<longrightarrow>
      (\<forall>e. child mm t j = Some e \<longrightarrow> (\<forall>p \<in> set (pages mm l e). aligned p \<and> p \<notin> insert t (insert c (set new))))" by blast
  note lc = lift_change [where l = l, OF ch i5 o out]
  have "mset (pages mm' (Suc l) t) = mset (pages mm (Suc l) t) + mset (c # new) + {#f#}"
    using lc(1) none m'(5) ci by simp
  moreover have "walk mm' (Suc l) t w = (if same_page (Suc l) v w then Some f else walk mm (Suc l) t w)" for w
    using lc(2) [of w] m'(8) none ci by (auto simp: same_page_Suc i word_unat_eq_iff)
  moreover have "changes (tables mm (Suc l) t \<union> set (c # new)) mm mm'" by (rule changes_mono [OF ch]) auto
  moreover have "free_bytes mm' = free_bytes mm - (\<Union>p \<in> set ((c # new) @ fs). seg p 4096)" using m'(7) mm1(1) by auto
  moreover have "distinct ((c # new) @ fs)" "\<forall>p \<in> set ((c # new) @ fs). page_ok mm p \<and> is_free mm p" using new c m'(3) by auto
  ultimately show ?thesis using m'(4,6) unfolding maps_def by simp
qed

text \<open>The way down, from the effect of the last step.\<close>

lemma descend_maps:
  assumes fl: "flags_ok flags"
    and leaf: "\<And>mm t. g_HighMemBase mm = H \<Longrightarrow> alloc_inv mm \<Longrightarrow> tree_ok mm 1 t \<Longrightarrow> walk mm 1 t v = None \<Longrightarrow> n \<le> card (free_bytes mm) \<Longrightarrow>
      \<exists>f mm' fs. k t mm = Some (f, mm') \<and> L f fs \<and> maps mm mm' 1 t v f [] fs"
    and "g_HighMemBase mm = H" and "alloc_inv mm" and "tree_ok mm (Suc l) t" and "walk mm (Suc l) t v = None"
    and "l * 4096 + n \<le> card (free_bytes mm)"
  shows "\<exists>f mm' new fs. descend flags l t v k mm = Some (f, mm') \<and> L f fs \<and> maps mm mm' (Suc l) t v f new fs"
  using assms(3-)
proof (induction l arbitrary: t mm)
  case 0
  then show ?case using leaf [of mm t] by auto
next
  case (Suc l)
  define i where "i = unat (GET_PML_INDEX (Suc l) v)"
  have i: "i < 512" "of_nat i = GET_PML_INDEX (Suc l) v" by (simp_all add: i_def pml_index_less)
  show ?case
  proof (cases "child mm t i")
    case (Some c)
    have "walk mm (Suc l) c v = None" using Suc.prems(4) Some by (simp add: i_def)
    then obtain f mm' new fs where m: "descend flags l c v k mm = Some (f, mm')" "L f fs" "maps mm mm' (Suc l) c v f new fs"
      using Suc.IH [OF Suc.prems(1,2) tree_ok_child [OF Suc.prems(3) i(1) Some]] Suc.prems(5) by auto
    have "descend flags (Suc l) t v k mm = Some (f, mm')"
      using next_table_old [OF i(1) Some, of flags] m(1) i(2) by simp
    then show ?thesis using map_below [OF Suc.prems(3) i_def Some m(3)] m(2) by blast
  next
    case None
    have t: "aligned t" "\<not> is_free mm t" using Suc.prems(3) pages_root [of t mm "Suc (Suc l)"] unfolding tree_ok_def page_ok_def by blast+
    have some: "free_bytes mm \<noteq> {}" using Suc.prems(5) by auto
    obtain c mm1 where c: "next_table flags t (of_nat i) mm = Some (c, mm1)" "page_ok mm c" "is_free mm c" "alloc_inv mm1"
      "free_bytes mm1 = free_bytes mm - seg c 4096" "changes {t, c} mm mm1" "child mm1 t i = Some c"
      "\<forall>j < 512. j \<noteq> i \<longrightarrow> child mm1 t j = child mm t j" "\<forall>j < 512. child mm1 c j = None"
      using next_table_new [OF Suc.prems(2) some t i(1) None fl] by blast
    note et = empty_table [OF c(9), of l]
    have ac: "aligned c" using c(2) by (simp add: page_ok_def)
    have ok: "tree_ok mm1 (Suc l) c" unfolding tree_ok_def et
      using c(2,5) page_ok_changes [OF c(6)] seg_page [OF ac] by simp
    have "l * 4096 + n \<le> card (free_bytes mm1)" unfolding c(5) card_free [OF Suc.prems(2) c(3) ac] using Suc.prems(5) by simp
    then obtain f mm' new fs where m: "descend flags l c v k mm1 = Some (f, mm')" "L f fs" "maps mm1 mm' (Suc l) c v f new fs"
      using Suc.IH [OF _ c(4) ok et(2)] Suc.prems(1) changes_high [OF c(6)] by metis
    have "descend flags (Suc l) t v k mm = Some (f, mm')" using c(1) m(1) i(2) by simp
    then show ?thesis using map_new [OF Suc.prems(3) _ i_def None c(2,3,5-9) m(3)] m(2) by blast
  qed
qed

text \<open>Both ways to fill the last entry.\<close>

lemma put_page_maps:
  assumes "alloc_inv mm" and "tree_ok mm 1 t" and "walk mm 1 t v = None" and "page_ok mm f" and "flags_ok flags"
  shows "\<exists>mm'. put_page flags v (KernelToPhysPtr mm f) t mm = Some (f, mm') \<and> maps mm mm' 1 t v f [] []"
  using map_leaf [OF assms(2,1,3,4,5)] by (simp add: put_page_def PhysToKernelPtr_def KernelToPhysPtr_def)

lemma tree_ok_smaller:
  assumes "tree_ok mm l t" and "fl_avail fl \<subseteq> free_bytes mm"
  shows "tree_ok (mm \<lparr> mm_FreeList := fl \<rparr>) l t" and "walk (mm \<lparr> mm_FreeList := fl \<rparr>) l t = walk mm l t"
    and "pages (mm \<lparr> mm_FreeList := fl \<rparr>) l t = pages mm l t"
proof -
  have "\<forall>p \<in> set (pages mm l t). aligned p \<and> p \<notin> {}" using tree_ok_aligned [OF assms(1)] by blast
  from pages_frame [OF changes_free this, of fl]
  show "walk (mm \<lparr> mm_FreeList := fl \<rparr>) l t = walk mm l t" and p: "pages (mm \<lparr> mm_FreeList := fl \<rparr>) l t = pages mm l t" by blast+
  show "tree_ok (mm \<lparr> mm_FreeList := fl \<rparr>) l t" unfolding tree_ok_def p using assms by (auto simp: tree_ok_def page_ok_def)
qed

lemma new_page_maps:
  assumes inv: "alloc_inv mm" and ok: "tree_ok mm 1 t" and none: "walk mm 1 t v = None" and some: "4096 \<le> card (free_bytes mm)"
  shows "\<exists>f mm'. new_page v t mm = Some (f, mm') \<and> maps mm mm' 1 t v f [] [f]"
proof -
  have "free_bytes mm \<noteq> {}" using some by auto
  then obtain f fl where f: "allocate_pages 1 mm = Some (KernelToPhysPtr mm f, mm \<lparr> mm_FreeList := fl \<rparr>)" "page_ok mm f" "is_free mm f"
    "alloc_inv (mm \<lparr> mm_FreeList := fl \<rparr>)" "fl_avail fl = free_bytes mm - seg f 4096"
    using allocate_one [OF inv] by blast
  define a where "a = mm \<lparr> mm_FreeList := fl \<rparr>"
  have sub: "fl_avail fl \<subseteq> free_bytes mm" using f(5) by blast
  note ts = tree_ok_smaller [OF ok sub, folded a_def]
  have h: "KernelToPhysPtr a f = KernelToPhysPtr mm f" "page_ok a f" using f(2) by (simp_all add: a_def KernelToPhysPtr_def page_ok_def)
  obtain mm' where m: "put_page user_flags v (KernelToPhysPtr mm f) t a = Some (f, mm')" "maps a mm' 1 t v f [] []"
    using put_page_maps [OF f(4) [folded a_def] ts(1) _ h(2) flags_okI(1)] ts(2) none h(1) by metis
  have "child mm t (unat (GET_PML_INDEX 0 v)) = None" using none by (cases "child mm t (unat (GET_PML_INDEX 0 v))") auto
  then have "PML_GET_P (read_entry mm t (GET_PML_INDEX 0 v)) = 0" by (simp add: child_def Let_def split: if_splits)
  then have "new_page v t mm = Some (f, mm')" using f(1) m(1) by (simp add: new_page_def AllocatePages_def a_def)
  moreover have "maps mm mm' 1 t v f [] [f]"
  proof -
    have ta: "tables a 1 t = tables mm 1 t" by (auto split: option.splits)
    have "changes (tables mm 1 t) mm mm'"
      using changes_trans [OF changes_free [of "tables mm 1 t" mm fl], of "tables mm 1 t" mm'] m(2) ta by (simp add: maps_def a_def)
    then show ?thesis using m(2) f(2,3,5) ts(2,3) unfolding maps_def by (simp add: a_def)
  qed
  ultimately show ?thesis by blast
qed

text \<open>An address that is mapped: the way down changes nothing.\<close>

lemma descend_mapped:
  assumes "walk mm (Suc l) t v = Some f"
  shows "\<exists>t1. child mm t1 (unat (GET_PML_INDEX 0 v)) = Some f \<and> descend flags l t v k mm = k t1 mm \<and> (tree_ok mm (Suc l) t \<longrightarrow> tree_ok mm 1 t1)"
  using assms
proof (induction l arbitrary: t)
  case 0
  then show ?case by (cases "child mm t (unat (GET_PML_INDEX 0 v))") auto
next
  case (Suc l)
  then obtain c where c: "child mm t (unat (GET_PML_INDEX (Suc l) v)) = Some c" "walk mm (Suc l) c v = Some f"
    by (cases "child mm t (unat (GET_PML_INDEX (Suc l) v))") auto
  have "next_table flags t (GET_PML_INDEX (Suc l) v) mm = Some (c, mm)" using next_table_old [OF pml_index_less c(1), of flags] by simp
  then show ?case using Suc.IH [OF c(2)] tree_ok_child [OF _ pml_index_less c(1)] by fastforce
qed

lemma new_page_mapped: "child mm t (unat (GET_PML_INDEX 0 v)) = Some f \<Longrightarrow> new_page v t mm = Some (f, mm)"
  by (auto simp: child_def new_page_def Let_def split: if_splits)

section \<open>All address spaces\<close>

text \<open>The kernel's own pages \<open>ks\<close> and those of the address spaces with the roots \<open>rs\<close>.\<close>

definition owned :: "mm \<Rightarrow> ptr list \<Rightarrow> ptr list \<Rightarrow> ptr list" where
  "owned mm ks rs = ks @ concat (map (pages mm 3) rs)"

definition mm_ok :: "mm \<Rightarrow> ptr list \<Rightarrow> ptr list \<Rightarrow> bool" where
  "mm_ok mm ks rs \<longleftrightarrow> alloc_inv mm \<and> distinct rs \<and> distinct (owned mm ks rs) \<and> (\<forall>p \<in> set (owned mm ks rs). page_ok mm p \<and> \<not> is_free mm p)"

definition root_of :: "mm \<Rightarrow> u64 \<Rightarrow> ptr" where
  "root_of mm pml4Entry = PhysToKernelPtr mm (PML_GET_ADDR pml4Entry)"

lemma mm_ok_root:
  assumes "mm_ok mm ks rs" and r: "r \<in> set rs"
  shows "alloc_inv mm" and "tree_ok mm 3 r" and "set (pages mm 3 r) \<subseteq> set (owned mm ks rs)"
    and "s \<in> set rs \<Longrightarrow> s \<noteq> r \<Longrightarrow> set (pages mm 3 r) \<inter> set (pages mm 3 s) = {}"
    and "set ks \<inter> set (pages mm 3 r) = {}"
proof -
  have d: "distinct (concat (map (pages mm 3) rs))" "distinct rs" using assms by (auto simp: mm_ok_def owned_def)
  show "alloc_inv mm" using assms by (simp add: mm_ok_def)
  show sub: "set (pages mm 3 r) \<subseteq> set (owned mm ks rs)" using r by (auto simp: owned_def)
  then show "tree_ok mm 3 r" using assms distinct_blocks(1) [OF d(1) r] unfolding mm_ok_def tree_ok_def by blast
  show "s \<in> set rs \<Longrightarrow> s \<noteq> r \<Longrightarrow> set (pages mm 3 r) \<inter> set (pages mm 3 s) = {}" using distinct_blocks(2) [OF d r, of s] by blast
  show "set ks \<inter> set (pages mm 3 r) = {}" using assms(1) r by (auto simp: mm_ok_def owned_def)
qed

lemma mm_ok_maps:
  assumes ok: "mm_ok mm ks rs" and r: "r \<in> set rs" and m: "maps mm mm' 3 r v f new fs"
    and f: "fs = [f] \<or> fs = [] \<and> page_ok mm f \<and> \<not> is_free mm f \<and> f \<notin> set (owned mm ks rs)"
  shows "mm_ok mm' ks rs" and "\<forall>s \<in> set rs. s \<noteq> r \<longrightarrow> walk mm' 3 s = walk mm 3 s"
    and "mset (owned mm' ks rs) = mset (owned mm ks rs) + mset new + {#f#}"
proof -
  note R = mm_ok_root [OF ok r]
  have m': "changes (tables mm 3 r \<union> set new) mm mm'" "alloc_inv mm'" "distinct (new @ fs)"
    "mset (pages mm' 3 r) = mset (pages mm 3 r) + mset new + {#f#}"
    "free_bytes mm' = free_bytes mm - (\<Union>p \<in> set (new @ fs). seg p 4096)" "\<And>p. p \<in> set (new @ fs) \<Longrightarrow> page_ok mm p \<and> is_free mm p"
    using m by (simp_all add: maps_def)
  have old: "page_ok mm p \<and> \<not> is_free mm p" if "p \<in> set (owned mm ks rs)" for p using ok that by (simp add: mm_ok_def)
  have d: "distinct rs" "distinct (owned mm ks rs)" using ok by (simp_all add: mm_ok_def)
  have fr: "pages mm' 3 s = pages mm 3 s \<and> walk mm' 3 s = walk mm 3 s" if s: "s \<in> set rs" "s \<noteq> r" for s
  proof (rule pages_frame [OF m'(1)], intro ballI)
    fix p assume p: "p \<in> set (pages mm 3 s)"
    then have "p \<in> set (owned mm ks rs)" using mm_ok_root(3) [OF ok s(1)] by blast
    moreover have "p \<notin> tables mm 3 r" using R(4) [OF s] p tables_pages [of mm 3 r] by blast
    ultimately show "aligned p \<and> p \<notin> tables mm 3 r \<union> set new" using old m'(6) by (auto simp: page_ok_def)
  qed
  then show "\<forall>s \<in> set rs. s \<noteq> r \<longrightarrow> walk mm' 3 s = walk mm 3 s" by blast
  have "mset (concat (map (pages mm' 3) rs)) + mset (pages mm 3 r) = mset (concat (map (pages mm 3) rs)) + mset (pages mm' 3 r)"
    using mset_concat_change [OF d(1) r, of "pages mm' 3" "pages mm 3"] fr by blast
  then show ow: "mset (owned mm' ks rs) = mset (owned mm ks rs) + mset new + {#f#}" unfolding owned_def m'(4) by simp
  have "f \<notin> set (owned mm ks rs)" using f m'(6) [of f] old [of f] by auto
  moreover have "p \<notin> set (owned mm ks rs)" if "p \<in> set new" for p using m'(6) [of p] old [of p] that by auto
  ultimately have "set (new @ [f]) \<inter> set (owned mm ks rs) = {}" by auto
  moreover have "distinct (new @ [f])" using f m'(3) m'(6) [of f] m'(6) by auto
  ultimately have "distinct (owned mm ks rs @ new @ [f])" using d(2) by auto
  moreover have "mset (owned mm' ks rs) = mset (owned mm ks rs @ new @ [f])" using ow by simp
  ultimately have dist: "distinct (owned mm' ks rs)" and st: "set (owned mm' ks rs) = set (owned mm ks rs @ new @ [f])"
    using mset_eq_imp_distinct_iff mset_eq_setD by blast+
  have "page_ok mm p \<and> \<not> is_free mm' p" if "p \<in> set (owned mm' ks rs)" for p
  proof -
    have "p \<in> set (owned mm ks rs) \<or> p \<in> set (new @ fs) \<or> fs = [] \<and> p = f" using that f st by auto
    then show ?thesis
    proof (elim disjE)
      assume p: "p \<in> set (new @ fs)"
      then have "unat p \<in> seg p 4096" using m'(6) seg_page by (simp add: page_ok_def)
      then show ?thesis using p m'(5,6) by blast
    qed (use old f m'(5) in auto)
  qed
  then show "mm_ok mm' ks rs" unfolding mm_ok_def using m'(2) d(1) dist page_ok_changes [OF m'(1)] by simp
qed

lemma MapProcessPage_new_maps:
  assumes ok: "mm_ok mm ks rs" and r: "root_of mm e \<in> set rs" and none: "walk mm 3 (root_of mm e) v = None" and some: "3 * 4096 \<le> card (free_bytes mm)"
  shows "\<exists>f mm' new. MapProcessPage_new e v mm = Some (f, mm') \<and> maps mm mm' 3 (root_of mm e) v f new [f]"
proof -
  note R = mm_ok_root [OF ok r]
  have "\<exists>f mm' new fs. descend user_flags 2 (root_of mm e) v (new_page v) mm = Some (f, mm') \<and> fs = [f] \<and>
    maps mm mm' (Suc 2) (root_of mm e) v f new fs"
  proof (rule descend_maps [where n = 4096 and L = "\<lambda>f fs. fs = [f]", OF flags_okI(1) _ refl R(1)])
    show "\<exists>f mm' fs. new_page v t m = Some (f, mm') \<and> fs = [f] \<and> maps m mm' 1 t v f [] fs"
      if "alloc_inv m" "tree_ok m 1 t" "walk m 1 t v = None" "4096 \<le> card (free_bytes m)" for m t
      using new_page_maps [OF that] by blast
  qed (use R(2) none some in \<open>simp_all add: numeral_3_eq_3 numeral_2_eq_2\<close>)
  then show ?thesis unfolding MapProcessPage_new_levels root_of_def by (auto simp: numeral_3_eq_3 numeral_2_eq_2)
qed

lemma MapProcessPage_new_mapped:
  assumes "walk mm 3 (root_of mm e) v = Some g"
  shows "MapProcessPage_new e v mm = Some (g, mm)"
proof -
  obtain t where t: "child mm t (unat (GET_PML_INDEX 0 v)) = Some g" "descend user_flags 2 (root_of mm e) v (new_page v) mm = new_page v t mm"
    using descend_mapped [of mm 2 "root_of mm e" v g user_flags "new_page v"] assms by (auto simp: numeral_3_eq_3 numeral_2_eq_2)
  show ?thesis unfolding MapProcessPage_new_levels root_of_def [symmetric] t(2) by (rule new_page_mapped [OF t(1)])
qed

lemma MapProcessPage_phys_maps:
  assumes ok: "mm_ok mm ks rs" and r: "root_of mm e \<in> set rs" and none: "walk mm 3 (root_of mm e) v = None" and f: "page_ok mm f"
    and some: "2 * 4096 \<le> card (free_bytes mm)"
  shows "\<exists>mm' new. MapProcessPage_phys e (KernelToPhysPtr mm f) v mm = Some mm' \<and> maps mm mm' 3 (root_of mm e) v f new []"
proof -
  note R = mm_ok_root [OF ok r]
  have "\<exists>g mm' new fs. descend user_flags 2 (root_of mm e) v (put_page user_flags v (KernelToPhysPtr mm f)) mm = Some (g, mm') \<and>
    (g = f \<and> fs = []) \<and> maps mm mm' (Suc 2) (root_of mm e) v g new fs"
  proof (rule descend_maps [where n = 0 and L = "\<lambda>g fs. g = f \<and> fs = []", OF flags_okI(1) _ refl R(1)])
    show "\<exists>g mm' fs. put_page user_flags v (KernelToPhysPtr mm f) t m = Some (g, mm') \<and> (g = f \<and> fs = []) \<and> maps m mm' 1 t v g [] fs"
      if "g_HighMemBase m = g_HighMemBase mm" "alloc_inv m" "tree_ok m 1 t" "walk m 1 t v = None" for m t
      using put_page_maps [OF that(2-4) _ flags_okI(1), of f] f that(1) by (auto simp: KernelToPhysPtr_def page_ok_def)
  qed (use R(2) none some in \<open>simp_all add: numeral_3_eq_3 numeral_2_eq_2\<close>)
  then show ?thesis unfolding MapProcessPage_phys_levels root_of_def by (auto simp: numeral_3_eq_3 numeral_2_eq_2)
qed

text \<open>
  C4: Mapping a user page returns the page that the address translates to afterwards: the one it was mapped to before,
  with no change at all, or else a page that was free. No other page of the address space and no
  other address space changes its translation, and all pages in use stay distinct and apart from
  the free ones, as long as three pages are free.
\<close>

theorem MapProcessPage_translates:
  assumes "mm_ok mm ks rs" and "root_of mm e \<in> set rs" and "3 * 4096 \<le> card (free_bytes mm)"
  shows "\<exists>f mm'. MapProcessPage_new e v mm = Some (f, mm') \<and> mm_ok mm' ks rs \<and>
    (case walk mm 3 (root_of mm e) v of Some g \<Rightarrow> f = g \<and> mm' = mm | None \<Rightarrow> is_free mm f \<and> \<not> is_free mm' f) \<and>
    (\<forall>s \<in> set rs. \<forall>w. walk mm' 3 s w = (if s = root_of mm e \<and> same_page 3 v w then Some f else walk mm 3 s w))"
proof (cases "walk mm 3 (root_of mm e) v")
  case (Some g)
  have "MapProcessPage_new e v mm = Some (g, mm)" by (rule MapProcessPage_new_mapped [OF Some])
  moreover have "walk mm 3 (root_of mm e) w = Some g" if "same_page 3 v w" for w
    using Some that by (simp add: numeral_3_eq_3 same_page_Suc)
  ultimately show ?thesis using Some assms(1) by auto
next
  case None
  obtain f mm' new where f: "MapProcessPage_new e v mm = Some (f, mm')" "maps mm mm' 3 (root_of mm e) v f new [f]"
    using MapProcessPage_new_maps [OF assms(1,2) None assms(3)] by blast
  note M = mm_ok_maps [OF assms(1,2) f(2)]
  have "f \<in> set (owned mm' ks rs)" using M(3) by (metis Un_iff mset_eq_setD set_mset_mset add_mset_add_single union_single_eq_member set_mset_union)
  then have "\<not> is_free mm' f" using M(1) by (simp add: mm_ok_def)
  moreover have "is_free mm f" using f(2) by (simp add: maps_def)
  moreover have "\<forall>w. walk mm' 3 (root_of mm e) w = (if same_page 3 v w then Some f else walk mm 3 (root_of mm e) w)"
    using f(2) by (simp add: maps_def)
  ultimately show ?thesis using f(1) M(1,2) None by auto
qed

section \<open>A small machine\<close>

text \<open>One address space with one mapped page, at address 0, and sixteen free pages.\<close>

definition demo_words :: "ptr \<Rightarrow> u64" where
  "demo_words a =
     (if a = 0x104000 then 0x5007 else if a = 0x105000 then 0x6007 else if a = 0x106000 then 0x7007 else if a = 0x107000 then 0x8007 else 0)"

definition demo_mm :: mm where
  "demo_mm = \<lparr> mm_FreeList = Init FreeList_new [(0x110000, 16)], g_HighMemBase = 0x100000, g_KernelPages = 0, g_KernelVPages = 0,
     g_CorePageTables = 0x104000, qwords = demo_words \<rparr>"

lemma demo_free: "fl_inv (mm_FreeList demo_mm)" "free_bytes demo_mm = seg 0x110000 0x10000"
  using Init_inv [of "[(0x110000, 16)]"] by (simp_all add: demo_mm_def map_ok_def map_bytes_def seg_ok_def)

lemma demo_entry:
  assumes t: "aligned t" and j: "j < 512"
  shows "read_entry demo_mm t (of_nat j) = (if j = 0 then demo_words t else 0)"
proof (cases "j = 0")
  case False
  have "t + 8 * of_nat j \<noteq> s" if "aligned s" for s
  proof
    assume "t + 8 * of_nat j = s"
    then have "t + 8 * of_nat j = s + 8 * of_nat 0" by simp
    then show False using entry_other_page [OF t that _ j, of 0] entry_inj [OF j, of 0 t] False by fastforce
  qed
  moreover have "aligned 0x104000" "aligned 0x105000" "aligned 0x106000" "aligned 0x107000" by (simp_all add: aligned_def)
  ultimately have "demo_words (t + 8 * of_nat j) = 0" unfolding demo_words_def by presburger
  then show ?thesis using False by (simp add: read_entry_def demo_mm_def)
qed (simp add: read_entry_def demo_mm_def)

lemma demo_child:
  assumes "aligned t" and "j < 512"
  shows "child demo_mm t j = (if j = 0 \<and> demo_words t \<noteq> 0 then Some (PML_GET_ADDR (demo_words t) + 0x100000) else None)"
proof -
  have "PML_GET_P (demo_words t) = 0 \<longleftrightarrow> demo_words t = 0" by (simp add: demo_words_def PML_GET_P_def)
  moreover have "PhysToKernelPtr demo_mm x = x + 0x100000" for x by (simp add: PhysToKernelPtr_def demo_mm_def)
  moreover have "PML_GET_P 0 = 0" by (simp add: PML_GET_P_def)
  ultimately show ?thesis unfolding child_def Let_def demo_entry [OF assms] by simp
qed

lemma single_child:
  assumes "\<forall>j < 512. child mm t j = (if j = 0 then Some c else None)"
  shows "pages mm (Suc l) t = t # pages mm l c"
proof -
  have "branch mm l (child mm t j) = (if j = 0 then pages mm l c else [])" if "j < 512" for j using assms that by simp
  then have "map (\<lambda>j. branch mm l (child mm t j)) [0..<512] = map (\<lambda>j. if j = 0 then pages mm l c else []) [0..<512]" by simp
  also have "concat \<dots> = pages mm l c"
  proof -
    have "[0..<512] = 0 # [Suc 0..<512]" by (rule upt_conv_Cons) simp
    moreover have "concat (map (\<lambda>j. if j = 0 then pages mm l c else []) [Suc 0..<512]) = []" by auto
    ultimately show ?thesis by simp
  qed
  finally show ?thesis by simp
qed

lemma demo_walk:
  "child demo_mm 0x105000 0 = Some 0x106000" "child demo_mm 0x106000 0 = Some 0x107000" "child demo_mm 0x107000 0 = Some 0x108000"
  by (simp_all add: demo_child aligned_def demo_words_def PML_GET_ADDR_def)

lemma demo_pages: "pages demo_mm 3 0x105000 = [0x105000, 0x106000, 0x107000, 0x108000]"
proof -
  have "pages demo_mm (Suc (Suc (Suc 0))) 0x105000 = 0x105000 # pages demo_mm (Suc (Suc 0)) 0x106000"
    "pages demo_mm (Suc (Suc 0)) 0x106000 = 0x106000 # pages demo_mm (Suc 0) 0x107000"
    "pages demo_mm (Suc 0) 0x107000 = 0x107000 # pages demo_mm 0 0x108000"
    by (rule single_child, simp add: demo_child aligned_def demo_words_def PML_GET_ADDR_def)+
  then show ?thesis by (simp add: numeral_3_eq_3)
qed

lemma demo_root: "root_of demo_mm 0x5007 = 0x105000"
  by (simp add: root_of_def PhysToKernelPtr_def PML_GET_ADDR_def demo_mm_def)

lemma demo_ok: "mm_ok demo_mm [0x104000] [0x105000]"
proof -
  have h: "g_HighMemBase demo_mm = 0x100000" by (simp add: demo_mm_def)
  have in_seg: "x \<in> seg 0x110000 0x10000 \<longleftrightarrow> x div 4096 \<in> {0x110..<0x120}" for x by (auto simp: seg_def)
  have g: "granular (free_bytes demo_mm)" unfolding granular_def demo_free(2) in_seg by metis
  have "page_ok demo_mm p" if "aligned p" "is_free demo_mm p" for p
  proof -
    have p: "0x110000 \<le> unat p" "unat p < 0x120000" using that(2) by (auto simp: demo_free(2) seg_def)
    then have "unat (p - 0x100000) = unat p - 0x100000" by (simp add: unat_sub word_le_nat_alt)
    then show ?thesis using p that(1) by (auto simp: page_ok_def h)
  qed
  then have inv: "alloc_inv demo_mm" using demo_free(1) g by (simp add: alloc_inv_def h aligned_def)
  have ow: "owned demo_mm [0x104000] [0x105000] = [0x104000, 0x105000, 0x106000, 0x107000, 0x108000]" by (simp add: owned_def demo_pages)
  have "\<forall>p \<in> set (owned demo_mm [0x104000] [0x105000]). page_ok demo_mm p \<and> \<not> is_free demo_mm p"
    unfolding ow demo_free(2) by (simp add: page_ok_def h aligned_def seg_def)
  then show ?thesis using inv unfolding mm_ok_def ow by simp
qed

lemma demo_card: "card (free_bytes demo_mm) = 65536"
  unfolding demo_free(2) by (simp add: seg_def)

lemma demo_translate: "walk demo_mm 3 0x105000 0 = Some 0x108000" "walk demo_mm 3 0x105000 0x1000 = None"
proof -
  have i: "GET_PML_INDEX k 0 = 0" "GET_PML_INDEX 2 0x1000 = 0" "GET_PML_INDEX 1 0x1000 = 0" "GET_PML_INDEX 0 0x1000 = 1" for k
    by (simp_all add: GET_PML_INDEX_def)
  show "walk demo_mm 3 0x105000 0 = Some 0x108000" by (simp add: numeral_3_eq_3 i demo_walk)
  have "child demo_mm 0x107000 1 = None" by (simp add: demo_child aligned_def)
  then show "walk demo_mm 3 0x105000 0x1000 = None" using i(2-4) by (simp add: numeral_3_eq_3 numeral_2_eq_2 demo_walk)
qed

theorem MapProcessPage_translates_witness:
  "\<exists>f mm'. MapProcessPage_new 0x5007 0x1000 demo_mm = Some (f, mm') \<and> is_free demo_mm f \<and> walk mm' 3 0x105000 0 = Some 0x108000 \<and>
    walk mm' 3 0x105000 0x1000 = Some f"
proof -
  have "\<not> same_page 3 0x1000 0" by (auto simp: same_page_def GET_PML_INDEX_def intro!: exI [of _ 0])
  moreover have "same_page 3 0x1000 0x1000" by (simp add: same_page_def)
  moreover have "root_of demo_mm 0x5007 \<in> set [0x105000]" "3 * 4096 \<le> card (free_bytes demo_mm)" by (simp_all add: demo_root demo_card)
  ultimately show ?thesis
    using MapProcessPage_translates [OF demo_ok, of "0x5007" "0x1000"] demo_translate unfolding demo_root by auto
qed

end
