(* ===== verification/PagingSpaces.thy ===== *)
theory PagingSpaces
  imports PagingProps
begin

text \<open>
  Whole address spaces: translation by the kernel, unmapping, creation, release and forking, over the meaning of the
  tables in \<^verbatim>\<open>PagingProps\<close>.
\<close>

section \<open>Translation by the kernel\<close>

lemma child_SomeD: "child mm t i = Some c \<Longrightarrow> PML_GET_P (read_entry mm t (of_nat i)) \<noteq> 0 \<and> c = PhysToKernelPtr mm (PML_GET_ADDR (read_entry mm t (of_nat i)))"
  by (auto simp: child_def Let_def split: if_splits)

lemma child_index_SomeD:
  "child mm t (unat (GET_PML_INDEX n v)) = Some c \<Longrightarrow>
   PML_GET_P (read_entry mm t (GET_PML_INDEX n v)) \<noteq> 0 \<and> PhysToKernelPtr mm (PML_GET_ADDR (read_entry mm t (GET_PML_INDEX n v))) = c"
  using child_SomeD [of mm t "unat (GET_PML_INDEX n v)" c] by simp

lemma walk3_SomeE:
  assumes "walk mm 3 t v = Some f"
  obtains c d where "child mm t (unat (GET_PML_INDEX 2 v)) = Some c" "child mm c (unat (GET_PML_INDEX 1 v)) = Some d"
    "child mm d (unat (GET_PML_INDEX 0 v)) = Some f"
  using assms by (auto simp: numeral_3_eq_3 numeral_2_eq_2 bind_eq_Some_conv)

lemma addr_or_offset: "PML_GET_ADDR e OR (v AND 0xFFF) = PML_GET_ADDR e + (v AND 0xFFF)"
proof -
  have m: "(0x000FFFFFFFFFF000 :: u64) = push_bit 12 (mask 40)" "(0xFFF :: u64) = mask 12" by (simp_all add: mask_numeral push_bit_eq_mult)
  have "\<not> bit (PML_GET_ADDR e) n \<or> \<not> bit (v AND 0xFFF) n" for n
    unfolding PML_GET_ADDR_def m by (auto simp: bit_and_iff bit_push_bit_iff bit_mask_iff)
  then show ?thesis by (intro disjunctive_add [symmetric]) blast
qed

text \<open>
  C27: For a mapped user address the kernel computes the address of the same byte in its own window: the page that the address
  translates to, and the offset inside the page.
\<close>

theorem UserToKernelPtr_translates:
  assumes "walk mm 3 (root_of mm (read_entry mm (g_CorePageTables mm) 0)) v = Some f"
  shows "UserToKernelPtr v mm = f + (v AND 0xFFF)"
proof -
  obtain c d where w: "child mm (root_of mm (read_entry mm (g_CorePageTables mm) 0)) (unat (GET_PML_INDEX 2 v)) = Some c"
    "child mm c (unat (GET_PML_INDEX 1 v)) = Some d" "child mm d (unat (GET_PML_INDEX 0 v)) = Some f"
    using assms by (rule walk3_SomeE)
  note e = w [THEN child_index_SomeD]
  have "UserToKernelPtr v mm = PhysToKernelPtr mm (PML_GET_ADDR (read_entry mm d (GET_PML_INDEX 0 v)) OR (v AND 0xFFF))"
    using e(1,2) unfolding UserToKernelPtr_def root_of_def by (simp add: Let_def)
  also have "\<dots> = PhysToKernelPtr mm (PML_GET_ADDR (read_entry mm d (GET_PML_INDEX 0 v))) + (v AND 0xFFF)"
    unfolding addr_or_offset by (simp add: PhysToKernelPtr_def)
  finally show ?thesis using e(3) by simp
qed

text \<open>An address whose last table exists but whose page does not still gets a pointer, into the first page of memory.\<close>

lemma UserToKernelPtr_unmapped:
  assumes "child mm (root_of mm (read_entry mm (g_CorePageTables mm) 0)) (unat (GET_PML_INDEX 2 v)) = Some c"
    and "child mm c (unat (GET_PML_INDEX 1 v)) = Some d" and "read_entry mm d (GET_PML_INDEX 0 v) = 0"
  shows "walk mm 3 (root_of mm (read_entry mm (g_CorePageTables mm) 0)) v = None"
    and "UserToKernelPtr v mm = g_HighMemBase mm + (v AND 0xFFF)"
proof -
  have "child mm d (unat (GET_PML_INDEX 0 v)) = None" using assms(3) by (simp add: child_def PML_GET_P_def)
  then show "walk mm 3 (root_of mm (read_entry mm (g_CorePageTables mm) 0)) v = None"
    using assms(1,2) by (simp add: numeral_3_eq_3 numeral_2_eq_2)
  note e = assms(1,2) [THEN child_index_SomeD]
  show "UserToKernelPtr v mm = g_HighMemBase mm + (v AND 0xFFF)"
    using e assms(3) unfolding UserToKernelPtr_def root_of_def by (simp add: Let_def PML_GET_ADDR_def PhysToKernelPtr_def)
qed

section \<open>Unmapping\<close>






lemma frames_not_tables:
  assumes "tree_ok mm l t" and "walk mm l t v = Some f"
  shows "f \<in> set (pages mm l t) \<and> f \<notin> tables mm l t"
  using assms
proof (induction l arbitrary: t)
  case (Suc l)
  obtain c where c: "child mm t (unat (GET_PML_INDEX l v)) = Some c" "walk mm l c v = Some f"
    using Suc.prems(2) by (cases "child mm t (unat (GET_PML_INDEX l v))") auto
  have ih: "f \<in> set (pages mm l c)" "f \<notin> tables mm l c" using Suc.IH [OF tree_ok_child [OF Suc.prems(1) pml_index_less c(1)] c(2)] by blast+
  note dc = distinct_child [OF conjunct1 [OF Suc.prems(1) [unfolded tree_ok_def]] pml_index_less c(1)]
  have "f \<notin> tables mm l d" if "j < 512" "child mm t j = Some d" for j d
    using dc(3) [OF that(1) _ that(2)] ih c(1) that(2) tables_pages [of mm l d] by (cases "j = unat (GET_PML_INDEX l v)") auto
  moreover have "f \<noteq> t" using dc(2) ih(1) by blast
  ultimately have "f \<notin> tables mm (Suc l) t" by (auto split: option.splits)
  then show ?case using ih(1) pages_child [OF pml_index_less c(1), of l] by blast
qed simp


section \<open>Releasing an address space\<close>

text \<open>The pages \<open>ps\<close> become free and nothing else happens.\<close>

definition frees :: "mm \<Rightarrow> mm \<Rightarrow> ptr set \<Rightarrow> bool" where
  "frees mm mm' ps \<longleftrightarrow> alloc_inv mm' \<and> free_bytes mm' = free_bytes mm \<union> (\<Union>p \<in> ps. seg p 4096) \<and> changes {} mm mm'"

lemma frees_trans: "frees a b ps \<Longrightarrow> frees b c qs \<Longrightarrow> frees a c (ps \<union> qs)"
  unfolding frees_def using changes_trans [of "{}" a b "{}" c] by auto

lemma FreePages_frees:
  assumes inv: "alloc_inv mm" and p: "page_ok mm p" "\<not> is_free mm p"
  shows "\<exists>mm'. FreePages (KernelToPhysPtr mm p) 1 mm = Some mm' \<and> frees mm mm' {p}"
proof -
  have al: "aligned p" and fl: "fl_inv (mm_FreeList mm)" "granular (free_bytes mm)" using inv p by (simp_all add: alloc_inv_def page_ok_def)
  have "unat p + 4096 \<le> 2 ^ 64"
  proof -
    obtain k where k: "unat p = 4096 * k" using al by (auto simp: aligned_iff)
    then show ?thesis using unat_lt_64 [of p] by simp
  qed
  then have so: "seg_ok p 4096" using p(1) by (simp add: seg_ok_def page_ok_def)
  obtain l where l: "MarkFree (mm_FreeList mm) p 4096 = Some l" "fl_inv l" "fl_avail l = free_bytes mm \<union> seg p 4096"
    using kfl.free_law [OF fl(1) so granular_disjoint [OF fl(2) al p(2)]] by blast
  have "page_ok mm q" if "aligned q" "unat q \<in> fl_avail l" for q
    using that l(3) in_seg_iff [OF al that(1)] inv p(1) by (auto simp: alloc_inv_def)
  then have "alloc_inv (mm \<lparr> mm_FreeList := l \<rparr>)"
    using l inv granular_union [OF fl(2) al] by (auto simp: alloc_inv_def page_ok_def)
  then show ?thesis using l by (auto simp: FreePages_def free_pages_def frees_def PhysToKernelPtr_def KernelToPhysPtr_def)
qed

text \<open>A function that frees the trees of one level.\<close>

definition frees_trees :: "nat \<Rightarrow> (ptr \<Rightarrow> mm \<Rightarrow> mm option) \<Rightarrow> bool" where
  "frees_trees l F \<longleftrightarrow> (\<forall>mm t. alloc_inv mm \<longrightarrow> tree_ok mm l t \<longrightarrow> (\<exists>mm'. F t mm = Some mm' \<and> frees mm mm' (set (pages mm l t))))"

lemma frees_tree_ok:
  assumes f: "frees mm mm' ps" and ok: "tree_ok mm l t" and al: "\<forall>p \<in> ps. aligned p" and dj: "ps \<inter> set (pages mm l t) = {}"
  shows "tree_ok mm' l t" and "pages mm' l t = pages mm l t"
proof -
  have ch: "changes {} mm mm'" and fb: "free_bytes mm' = free_bytes mm \<union> (\<Union>p \<in> ps. seg p 4096)" using f by (simp_all add: frees_def)
  show p: "pages mm' l t = pages mm l t" using pages_frame [OF ch] tree_ok_aligned [OF ok] by blast
  have "\<not> is_free mm' q" if q: "q \<in> set (pages mm l t)" for q
    using q ok fb in_seg_iff [OF _ tree_ok_aligned [OF ok q]] al dj by (auto simp: tree_ok_def)
  then show "tree_ok mm' l t" unfolding tree_ok_def p using ok page_ok_changes [OF ch] by (simp add: tree_ok_def)
qed

lemma each_entry_append: "each_entry f t (xs @ ys) mm = Option.bind (each_entry f t xs mm) (each_entry f t ys)"
proof (induction xs arbitrary: mm)
  case (Cons x xs)
  then have "each_entry f t (xs @ ys) = (\<lambda>mm. Option.bind (each_entry f t xs mm) (each_entry f t ys))" by blast
  then show ?case by (simp add: Let_def)
qed simp

lemma each_entry_child:
  "each_entry (\<lambda>i e mm. F i (PhysToKernelPtr mm (PML_GET_ADDR e)) mm) t [i] mm = (case child mm t i of None \<Rightarrow> Some mm | Some c \<Rightarrow> F i c mm)"
proof -
  have "each_entry f t [] = Some" for f by (intro ext) simp
  then show ?thesis by (simp add: child_def Let_def)
qed

lemma each_entry_frees:
  assumes F: "frees_trees l F" and inv: "alloc_inv mm" and ok: "tree_ok mm (Suc l) t" and js: "distinct js" "set js \<subseteq> {..<512}"
  shows "\<exists>mm'. each_entry (\<lambda>i e mm. F (PhysToKernelPtr mm (PML_GET_ADDR e)) mm) t js mm = Some mm' \<and>
    frees mm mm' (\<Union>i \<in> set js. set (branch mm l (child mm t i)))"
  using js
proof (induction js rule: rev_induct)
  case Nil
  then show ?case using inv by (simp add: frees_def)
next
  case (snoc i js)
  let ?E = "each_entry (\<lambda>i e mm. F (PhysToKernelPtr mm (PML_GET_ADDR e)) mm) t"
  let ?P = "\<Union>j \<in> set js. set (branch mm l (child mm t j))"
  obtain a where a: "?E js mm = Some a" "frees mm a ?P" using snoc by auto
  have i: "i < 512" "i \<notin> set js" "set js \<subseteq> {..<512}" using snoc.prems by auto
  have t: "aligned t" using tree_ok_aligned [OF ok pages_root] .
  have ci: "child a t i = child mm t i" by (rule changes_child [OF _ t _ i(1), of "{}"]) (use a(2) in \<open>simp_all add: frees_def\<close>)
  show ?case
  proof (cases "child mm t i")
    case None
    then have "?E [i] a = Some a" using each_entry_child [of "\<lambda>_. F" t i a] ci by simp
    then show ?thesis using a None unfolding each_entry_append by (intro exI [of _ a]) simp
  next
    case (Some c)
    note dc = distinct_child [OF conjunct1 [OF ok [unfolded tree_ok_def]] i(1) Some]
    have "set (branch mm l (child mm t j)) \<inter> set (pages mm l c) = {}" if "j \<in> set js" for j
      using dc(3) [of j] that i by (cases "child mm t j") auto
    then have dj: "?P \<inter> set (pages mm l c) = {}" by blast
    have al: "\<forall>p \<in> ?P. aligned p"
    proof
      fix p assume "p \<in> ?P"
      then have "p \<in> set (pages mm (Suc l) t)" using i(3) by auto
      then show "aligned p" by (rule tree_ok_aligned [OF ok])
    qed
    note ft = frees_tree_ok [OF a(2) tree_ok_child [OF ok i(1) Some] al dj]
    have "alloc_inv a" using a(2) by (simp add: frees_def)
    then obtain b where b: "F c a = Some b" "frees a b (set (pages mm l c))" using F ft unfolding frees_trees_def by metis
    have "?E (js @ [i]) mm = Some b" using each_entry_child [of "\<lambda>_. F" t i a] ci Some a(1) b(1) by (simp only: each_entry_append bind.simps option.case)
    then show ?thesis using frees_trans [OF a(2) b(2)] Some by (intro exI [of _ b]) (simp add: Un_commute)
  qed
qed

lemma frees_trees_Suc:
  assumes F: "frees_trees l F"
  shows "frees_trees (Suc l) (\<lambda>t mm. Option.bind (each_entry (\<lambda>i e mm. F (PhysToKernelPtr mm (PML_GET_ADDR e)) mm) t [0..<512] mm)
    (\<lambda>mm. FreePages (KernelToPhysPtr mm t) 1 mm))"
  unfolding frees_trees_def
proof (intro allI impI)
  fix mm t assume inv: "alloc_inv mm" and ok: "tree_ok mm (Suc l) t"
  let ?P = "\<Union>i \<in> set [0..<512]. set (branch mm l (child mm t i))"
  obtain a where a: "each_entry (\<lambda>i e mm. F (PhysToKernelPtr mm (PML_GET_ADDR e)) mm) t [0..<512] mm = Some a" "frees mm a ?P"
    using each_entry_frees [OF F inv ok, of "[0..<512]"] by fastforce
  have t: "page_ok mm t" "\<not> is_free mm t" "t \<notin> ?P" using ok by (auto simp: tree_ok_def)
  have al: "aligned p" if "p \<in> ?P" for p using that tree_ok_aligned [OF ok, of p] by auto
  have "\<not> is_free a t" using a(2) t al in_seg_iff [OF al, of _ t] by (auto simp: frees_def page_ok_def)
  moreover have "alloc_inv a" "page_ok a t" using a(2) t(1) page_ok_changes by (auto simp: frees_def)
  ultimately obtain b where b: "FreePages (KernelToPhysPtr a t) 1 a = Some b" "frees a b {t}" using FreePages_frees by blast
  have "frees mm b (set (pages mm (Suc l) t))" using frees_trans [OF a(2) b(2)] by (simp add: Un_commute)
  then show "\<exists>mm'. Option.bind (each_entry (\<lambda>i e mm. F (PhysToKernelPtr mm (PML_GET_ADDR e)) mm) t [0..<512] mm)
      (\<lambda>mm. FreePages (KernelToPhysPtr mm t) 1 mm) = Some mm' \<and> frees mm mm' (set (pages mm (Suc l) t))" using a(1) b(1) by simp
qed

lemma frees_trees_0: "frees_trees 0 (\<lambda>t mm. FreePages (KernelToPhysPtr mm t) 1 mm)"
  unfolding frees_trees_def using FreePages_frees by (auto simp: tree_ok_def)

lemma FreeProcessPML_trees: "frees_trees 1 FreeProcessPML1" "frees_trees 2 FreeProcessPML2" "frees_trees 3 FreeProcessPML3"
proof -
  have k: "(\<lambda>i e mm. FreePages (KernelToPhysPtr mm (PhysToKernelPtr mm (PML_GET_ADDR e))) 1 mm) = (\<lambda>i e. FreePages (PML_GET_ADDR e) 1)"
    by (intro ext) (simp add: KernelToPhysPtr_def PhysToKernelPtr_def)
  show 1: "frees_trees 1 FreeProcessPML1" using frees_trees_Suc [OF frees_trees_0] unfolding k FreeProcessPML1_def [abs_def] by simp
  show 2: "frees_trees 2 FreeProcessPML2" using frees_trees_Suc [OF 1] unfolding FreeProcessPML2_def [abs_def] by (simp add: numeral_2_eq_2)
  show "frees_trees 3 FreeProcessPML3" using frees_trees_Suc [OF 2] unfolding FreeProcessPML3_def [abs_def] by (simp add: numeral_3_eq_3 numeral_2_eq_2)
qed

text \<open>
  C5: Releasing an address space gives back exactly its pages, tables and mapped pages alike, each once: nothing leaks and nothing
  is freed twice. The other address spaces keep their pages and translate as before.
\<close>

theorem FreeProcessMap_frees:
  assumes "mm_ok mm ks rs" and "root_of mm e \<in> set rs"
  shows "\<exists>mm'. FreeProcessMap e mm = Some mm' \<and> mm_ok mm' ks (remove1 (root_of mm e) rs) \<and>
    free_bytes mm' = free_bytes mm \<union> (\<Union>p \<in> set (pages mm 3 (root_of mm e)). seg p 4096) \<and>
    (\<forall>s \<in> set rs. s \<noteq> root_of mm e \<longrightarrow> pages mm' 3 s = pages mm 3 s \<and> walk mm' 3 s = walk mm 3 s)"
proof -
  note R = mm_ok_root [OF assms]
  define r where "r = root_of mm e"
  obtain mm' where m: "FreeProcessMap e mm = Some mm'" "frees mm mm' (set (pages mm 3 r))"
    using FreeProcessPML_trees(3) R(1,2) unfolding frees_trees_def FreeProcessMap_def r_def root_of_def by blast
  have ch: "changes {} mm mm'" "alloc_inv mm'" "free_bytes mm' = free_bytes mm \<union> (\<Union>p \<in> set (pages mm 3 r). seg p 4096)"
    using m(2) by (simp_all add: frees_def)
  have d: "distinct rs" "distinct (owned mm ks rs)" and old: "\<And>p. p \<in> set (owned mm ks rs) \<Longrightarrow> page_ok mm p \<and> \<not> is_free mm p"
    using assms(1) by (simp_all add: mm_ok_def)
  have fr: "pages mm' 3 s = pages mm 3 s \<and> walk mm' 3 s = walk mm 3 s" if s: "s \<in> set rs" for s
    using pages_frame [OF ch(1)] tree_ok_aligned [OF mm_ok_root(2) [OF assms(1) s]] by blast
  have eq: "map (pages mm' 3) (remove1 r rs) = map (pages mm 3) (remove1 r rs)" using fr set_remove1_subset [of r rs] by auto
  obtain as bs where rs: "rs = as @ r # bs" "r \<notin> set as" using split_list_first [OF assms(2)] unfolding r_def by blast
  have ow: "owned mm' ks (remove1 r rs) = ks @ concat (map (pages mm 3) (as @ bs))" unfolding owned_def eq using rs by simp
  then have sub: "set (owned mm' ks (remove1 r rs)) \<subseteq> set (owned mm ks rs)" and dist: "distinct (owned mm' ks (remove1 r rs))"
    and dj: "set (owned mm' ks (remove1 r rs)) \<inter> set (pages mm 3 r) = {}"
    using d(2) unfolding owned_def rs(1) by auto
  have "page_ok mm p \<and> \<not> is_free mm' p" if p: "p \<in> set (owned mm' ks (remove1 r rs))" for p
  proof -
    have q: "page_ok mm p" "\<not> is_free mm p" "p \<notin> set (pages mm 3 r)" using old [of p] p sub dj by blast+
    then have "unat p \<notin> seg x 4096" if "x \<in> set (pages mm 3 r)" for x
      using that in_seg_iff [OF tree_ok_aligned [OF R(2) [folded r_def] that], of p] by (auto simp: page_ok_def)
    then show ?thesis using q ch(3) by auto
  qed
  then have "mm_ok mm' ks (remove1 r rs)" unfolding mm_ok_def using ch(2) d(1) dist page_ok_changes [OF ch(1)] by simp
  then show ?thesis using m(1) ch(3) fr unfolding r_def by blast
qed

section \<open>Creating an address space\<close>

lemma new_root:
  assumes ok: "mm_ok mm ks rs" and some: "free_bytes mm \<noteq> {}"
  shows "\<exists>e mm'. CreateProcessMap mm = Some (e, mm') \<and> mm_ok mm' ks (root_of mm' e # rs) \<and> is_free mm (root_of mm' e) \<and>
    free_bytes mm' = free_bytes mm - seg (root_of mm' e) 4096 \<and> changes {root_of mm' e} mm mm' \<and>
    (\<forall>w. walk mm' 3 (root_of mm' e) w = None) \<and> (\<forall>s \<in> set rs. pages mm' 3 s = pages mm 3 s \<and> walk mm' 3 s = walk mm 3 s)"
proof -
  have inv: "alloc_inv mm" and d: "distinct rs" "distinct (owned mm ks rs)" and old: "\<And>p. p \<in> set (owned mm ks rs) \<Longrightarrow> page_ok mm p \<and> \<not> is_free mm p"
    using ok by (simp_all add: mm_ok_def)
  obtain p fl where p: "allocate_pages 1 mm = Some (KernelToPhysPtr mm p, mm \<lparr> mm_FreeList := fl \<rparr>)" "page_ok mm p" "is_free mm p"
    "alloc_inv (mm \<lparr> mm_FreeList := fl \<rparr>)" "fl_avail fl = free_bytes mm - seg p 4096"
    using allocate_one [OF inv some] by blast
  define a where "a = mm \<lparr> mm_FreeList := fl \<rparr>"
  define b where "b = clear_table p a"
  define e where "e = KernelToPhysPtr b p OR user_flags"
  have ap: "aligned p" using p(2) by (simp add: page_ok_def)
  note cl = clear_table_spec [OF ap, where mm = a, folded b_def]
  have ch: "changes {p} mm b" using changes_trans [OF changes_free [of "{p}" mm fl] cl(1) [unfolded a_def]] by (simp add: b_def a_def)
  have inv': "alloc_inv b" using alloc_inv_changes [OF _ cl(1,2)] p(4) by (simp add: a_def)
  have fb: "free_bytes b = free_bytes mm - seg p 4096" using cl(2) p(5) by (simp add: a_def)
  have "root_of b e = p"
    unfolding root_of_def e_def using entry_addr(1) [OF _ _ flags_okI(1), of b p] inv' p(2) page_ok_changes [OF ch] by (simp add: alloc_inv_def)
  moreover have "CreateProcessMap mm = Some (e, b)"
    using p(1) by (simp add: CreateProcessMap_def AllocatePages_def a_def b_def e_def PhysToKernelPtr_def KernelToPhysPtr_def Let_def)
  moreover have empty: "\<forall>j < 512. child b p j = None" using cl(3) by (simp add: child_def PML_GET_P_def)
  have pp: "pages b 3 p = [p]" "\<And>w. walk b 3 p w = None" using empty_table [OF empty, of 2] by (simp_all add: numeral_3_eq_3 numeral_2_eq_2)
  have fr: "pages b 3 s = pages mm 3 s \<and> walk b 3 s = walk mm 3 s" if s: "s \<in> set rs" for s
    using pages_frame [OF ch, of 3 s] mm_ok_root(3) [OF ok s] old p(3) by (auto simp: page_ok_def)
  have eq: "map (pages b 3) rs = map (pages mm 3) rs" using fr by simp
  have ow: "mset (owned b ks (p # rs)) = mset (p # owned mm ks rs)" unfolding owned_def by (simp add: eq pp(1))
  have np: "p \<notin> set (owned mm ks rs)" using old p(3) by blast
  have "distinct (owned b ks (p # rs))" using mset_eq_imp_distinct_iff [OF ow] d(2) np by simp
  moreover have "page_ok b q \<and> \<not> is_free b q" if "q \<in> set (owned b ks (p # rs))" for q
    using that mset_eq_setD [OF ow] old p(2) fb page_ok_changes [OF ch] seg_page [OF ap, of "unat p"] by auto
  moreover have "p \<notin> set rs" using np by (auto simp: owned_def intro: pages_root)
  ultimately have "mm_ok b ks (p # rs)" unfolding mm_ok_def using inv' d(1) by simp
  then show ?thesis using \<open>root_of b e = p\<close> \<open>CreateProcessMap mm = Some (e, b)\<close> pp fb fr ch p(3) by blast
qed

section \<open>Witnesses\<close>

theorem UserToKernelPtr_translates_witness: "UserToKernelPtr 0x123 demo_mm = 0x108123"
proof -
  have i: "GET_PML_INDEX k 0x123 = 0" if "k < 3" for k using that by (auto simp: GET_PML_INDEX_def numeral_3_eq_3 less_Suc_eq)
  have r: "root_of demo_mm (read_entry demo_mm (g_CorePageTables demo_mm) 0) = 0x105000"
    using demo_root by (simp add: demo_mm_def read_entry_def demo_words_def)
  have "walk demo_mm 3 0x105000 0x123 = Some 0x108000" by (simp add: numeral_3_eq_3 i demo_walk)
  from UserToKernelPtr_translates [of demo_mm "0x123", unfolded r, OF this] show ?thesis by simp
qed


theorem FreeProcessMap_frees_witness:
  "\<exists>mm'. FreeProcessMap 0x5007 demo_mm = Some mm' \<and> mm_ok mm' [0x104000] [] \<and> is_free mm' 0x108000 \<and> is_free mm' 0x105000"
proof -
  have "root_of demo_mm 0x5007 \<in> set [0x105000]" by (simp add: demo_root)
  then obtain mm' where m: "FreeProcessMap 0x5007 demo_mm = Some mm'" "mm_ok mm' [0x104000] []"
    "free_bytes mm' = free_bytes demo_mm \<union> (\<Union>p \<in> set (pages demo_mm 3 0x105000). seg p 4096)"
    using FreeProcessMap_frees [OF demo_ok, of "0x5007"] unfolding demo_root by auto
  then show ?thesis unfolding demo_pages by (auto simp: seg_def)
qed

end
