(* ===== verification/PagingFork.thy ===== *)
theory PagingFork
  imports PagingSpaces
begin

text \<open>
  Forking: the address space of the running process is copied page by page. The loops are followed level by level; what they
  have done so far is described by the contents of the new address space.
\<close>

section \<open>Contents\<close>

definition page_words :: "mm \<Rightarrow> ptr \<Rightarrow> u64 list" where
  "page_words mm p = map (\<lambda>i. read_entry mm p (of_nat i)) [0..<512]"

text \<open>The words of the page that an address translates to.\<close>

definition contents_at :: "mm \<Rightarrow> ptr \<Rightarrow> u64 \<Rightarrow> u64 list option" where
  "contents_at mm r w = map_option (page_words mm) (walk mm 3 r w)"

lemma page_words_frame: "changes S mm mm' \<Longrightarrow> aligned p \<Longrightarrow> p \<notin> S \<Longrightarrow> page_words mm' p = page_words mm p"
  by (simp add: page_words_def changes_read)

lemma copy_prefix:
  assumes d: "aligned dest" and s: "aligned src" "src \<noteq> dest" and "n \<le> 512"
    and "fold (\<lambda>i mm. write_entry dest (of_nat i) (read_entry mm src (of_nat i)) mm) [0..<n] mm = mm'"
  shows "changes {dest} mm mm' \<and> mm_FreeList mm' = mm_FreeList mm \<and> (\<forall>i < n. read_entry mm' dest (of_nat i) = read_entry mm src (of_nat i))"
  using assms(4,5)
proof (induction n arbitrary: mm')
  case (Suc n)
  define a where "a = fold (\<lambda>i mm. write_entry dest (of_nat i) (read_entry mm src (of_nat i)) mm) [0..<n] mm"
  have e: "mm' = write_entry dest (of_nat n) (read_entry a src (of_nat n)) a" using Suc.prems(2) by (simp add: a_def)
  have ih: "changes {dest} mm a" "mm_FreeList a = mm_FreeList mm" "\<forall>i < n. read_entry a dest (of_nat i) = read_entry mm src (of_nat i)"
    using Suc.IH [of a] Suc.prems(1) by (simp_all add: a_def)
  have src: "read_entry a src (of_nat n) = read_entry mm src (of_nat n)"
    by (rule changes_read [OF ih(1) s(1)]) (use s(2) Suc.prems(1) in simp_all)
  have "changes {dest} mm mm'" using changes_trans [OF ih(1) changes_write [OF d, of n a "read_entry a src (of_nat n)"]] Suc.prems(1) by (simp add: e)
  then show ?case using ih Suc.prems(1) src by (auto simp: e read_write_entry [OF d] less_Suc_eq)
qed simp

lemma copy_page_spec:
  assumes "aligned dest" and "aligned src" and "src \<noteq> dest"
  shows "changes {dest} mm (copy_page dest src mm)" and "mm_FreeList (copy_page dest src mm) = mm_FreeList mm"
    and "page_words (copy_page dest src mm) dest = page_words mm src"
  using copy_prefix [OF assms _ copy_page_def [symmetric], of mm] by (auto simp: page_words_def)

section \<open>The address of a copied page\<close>

lemma bit_index: "i < 512 \<Longrightarrow> bit (of_nat i :: u64) n \<Longrightarrow> n < 9"
proof -
  assume i: "i < 512" and b: "bit (of_nat i :: u64) n"
  have "unat (of_nat i :: u64) = i" using i by (simp add: unat_of_nat)
  then have "take_bit 9 (of_nat i :: u64) = of_nat i" using i by (simp add: word_unat_eq_iff unat_take_bit)
  then show "n < 9" using b by (metis bit_take_bit_iff)
qed

definition fork_address :: "nat \<Rightarrow> nat \<Rightarrow> nat \<Rightarrow> u64" where
  "fork_address i j k = push_bit 12 (of_nat k) OR push_bit 21 (of_nat j) OR push_bit 30 (of_nat i)"

lemma fork_address_index:
  assumes "i < 512" "j < 512" "k < 512"
  shows "GET_PML_INDEX 0 (fork_address i j k) = of_nat k" "GET_PML_INDEX 1 (fork_address i j k) = of_nat j"
    "GET_PML_INDEX 2 (fork_address i j k) = of_nat i"
proof -
  have m: "(0x1FF :: u64) = mask 9" by (simp add: mask_numeral)
  note b = bit_index [OF assms(1)] bit_index [OF assms(2)] bit_index [OF assms(3)]
  show "GET_PML_INDEX 0 (fork_address i j k) = of_nat k"
    unfolding GET_PML_INDEX_def fork_address_def m
    by (rule bit_word_eqI) (auto simp: bit_and_iff bit_or_iff bit_push_bit_iff bit_mask_iff bit_drop_bit_eq dest: b)
  show "GET_PML_INDEX 1 (fork_address i j k) = of_nat j"
    unfolding GET_PML_INDEX_def fork_address_def m
    by (rule bit_word_eqI) (auto simp: bit_and_iff bit_or_iff bit_push_bit_iff bit_mask_iff bit_drop_bit_eq dest: b)
  show "GET_PML_INDEX 2 (fork_address i j k) = of_nat i"
    unfolding GET_PML_INDEX_def fork_address_def m
    by (rule bit_word_eqI) (auto simp: bit_and_iff bit_or_iff bit_push_bit_iff bit_mask_iff bit_drop_bit_eq dest: b)
qed

lemma same_page_3:
  "same_page 3 v w \<longleftrightarrow> GET_PML_INDEX 2 w = GET_PML_INDEX 2 v \<and> GET_PML_INDEX 1 w = GET_PML_INDEX 1 v \<and> GET_PML_INDEX 0 w = GET_PML_INDEX 0 v"
  unfolding numeral_3_eq_3 same_page_Suc by (simp add: same_page_def numeral_2_eq_2)

lemma same_page_fork:
  assumes "i < 512" "j < 512" "k < 512"
  shows "same_page 3 (fork_address i j k) w \<longleftrightarrow>
    unat (GET_PML_INDEX 2 w) = i \<and> unat (GET_PML_INDEX 1 w) = j \<and> unat (GET_PML_INDEX 0 w) = k"
proof -
  have u: "unat (of_nat n :: u64) = n" if "n < 512" for n using that by (simp add: unat_of_nat)
  have e: "unat (GET_PML_INDEX 2 (fork_address i j k)) = i" "unat (GET_PML_INDEX 1 (fork_address i j k)) = j"
    "unat (GET_PML_INDEX 0 (fork_address i j k)) = k" using fork_address_index [OF assms] u assms by simp_all
  show ?thesis by (simp only: same_page_3 e word_unat_eq_iff)
qed

section \<open>Copying one page\<close>

lemma card_take:
  "finite A \<Longrightarrow> card A \<le> card (A - (\<Union>p \<in> set ps. seg p 4096)) + length ps * 4096"
proof (induction ps arbitrary: A)
  case (Cons p ps)
  have "card A \<le> card (A - seg p 4096) + card (seg p 4096)" using diff_card_le_card_Diff [of "seg p 4096" A] by (simp add: seg_def)
  also have "card (seg p 4096) = 4096" by (simp add: seg_def)
  also have "card (A - seg p 4096) \<le> card (A - seg p 4096 - (\<Union>p \<in> set ps. seg p 4096)) + length ps * 4096" using Cons by simp
  also have "A - seg p 4096 - (\<Union>p \<in> set ps. seg p 4096) = A - (\<Union>p \<in> set (p # ps). seg p 4096)" by auto
  finally show ?case by simp
qed simp

text \<open>A free page is taken and filled.\<close>

lemma mm_ok_take:
  assumes ok: "mm_ok mm ks rs" and ch: "changes {p} mm mm'" and p: "p \<notin> set (owned mm ks rs)"
    and inv: "alloc_inv mm'" and fb: "free_bytes mm' \<subseteq> free_bytes mm"
  shows "mm_ok mm' ks rs" and "owned mm' ks rs = owned mm ks rs" and "\<forall>s \<in> set rs. pages mm' 3 s = pages mm 3 s \<and> walk mm' 3 s = walk mm 3 s"
proof -
  have old: "page_ok mm q \<and> \<not> is_free mm q" if "q \<in> set (owned mm ks rs)" for q using ok that by (simp add: mm_ok_def)
  have fr: "pages mm' 3 s = pages mm 3 s \<and> walk mm' 3 s = walk mm 3 s" if s: "s \<in> set rs" for s
    using pages_frame [OF ch, of 3 s] mm_ok_root(3) [OF ok s] old p by (auto simp: page_ok_def)
  then show "\<forall>s \<in> set rs. pages mm' 3 s = pages mm 3 s \<and> walk mm' 3 s = walk mm 3 s" by blast
  have "map (pages mm' 3) rs = map (pages mm 3) rs" using fr by simp
  then show ow: "owned mm' ks rs = owned mm ks rs" by (simp only: owned_def)
  show "mm_ok mm' ks rs" using ok inv fb page_ok_changes [OF ch] unfolding mm_ok_def ow by auto
qed

text \<open>The state while \<open>r\<close> is filled: the pages that were in use before keep their words.\<close>

definition forking :: "mm \<Rightarrow> ptr list \<Rightarrow> ptr list \<Rightarrow> ptr \<Rightarrow> mm \<Rightarrow> bool" where
  "forking mm ks rs r m \<longleftrightarrow> mm_ok m ks (r # rs) \<and> changes (- set (owned mm ks rs)) mm m"

definition fork_copy :: "u64 \<Rightarrow> nat \<Rightarrow> nat \<Rightarrow> nat \<Rightarrow> ptr \<Rightarrow> mm \<Rightarrow> mm option" where
  "fork_copy e i j k src mm =
     Option.bind (AllocatePages 1 mm) (\<lambda>(p, mm).
       let mm' = copy_page (PhysToKernelPtr mm p) src mm
       in MapProcessPage_phys e (KernelToPhysPtr mm' (PhysToKernelPtr mm p)) (fork_address i j k) mm')"

lemma allocate_high: "allocate_pages n mm = Some (p, mm') \<Longrightarrow> g_HighMemBase mm' = g_HighMemBase mm"
  by (auto simp: allocate_pages_def bind_eq_Some_conv split: if_splits)

lemma fork_page_copy: "fork_page e e1 i j k mm = fork_copy e i j k (PhysToKernelPtr mm (PML_GET_ADDR e1)) mm"
proof (cases "allocate_pages 1 mm")
  case (Some x)
  then show ?thesis using allocate_high [of 1 mm "fst x" "snd x"]
    by (cases x) (simp add: fork_page_def fork_copy_def AllocatePages_def PhysToKernelPtr_def fork_address_def Let_def)
qed (simp add: fork_page_def fork_copy_def AllocatePages_def)

lemma fork_copy_copies:
  assumes J: "forking mm ks rs r m" and e: "root_of m e = r" and f: "f \<in> set (owned mm ks rs)" "aligned f"
    and ow: "owned m ks rs = owned mm ks rs"
    and none: "walk m 3 r (fork_address i j k) = None" and some: "3 * 4096 \<le> card (free_bytes m)"
  shows "\<exists>m'. fork_copy e i j k f m = Some m' \<and> forking mm ks rs r m' \<and> card (free_bytes m) \<le> card (free_bytes m') + 3 * 4096 \<and>
    (\<forall>w. contents_at m' r w = (if same_page 3 (fork_address i j k) w then Some (page_words mm f) else contents_at m r w))"
proof -
  have ok: "mm_ok m ks (r # rs)" and ch0: "changes (- set (owned mm ks rs)) mm m" using J by (simp_all add: forking_def)
  have inv: "alloc_inv m" and old: "\<And>p. p \<in> set (owned m ks (r # rs)) \<Longrightarrow> page_ok m p \<and> \<not> is_free m p" using ok by (simp_all add: mm_ok_def)
  have K: "set (owned mm ks rs) \<subseteq> set (owned m ks (r # rs))" unfolding ow [symmetric] by (auto simp: owned_def)
  obtain p fl where p: "allocate_pages 1 m = Some (KernelToPhysPtr m p, m \<lparr> mm_FreeList := fl \<rparr>)" "page_ok m p" "is_free m p"
    "alloc_inv (m \<lparr> mm_FreeList := fl \<rparr>)" "fl_avail fl = free_bytes m - seg p 4096"
    using allocate_one [OF inv] some by fastforce
  define a where "a = m \<lparr> mm_FreeList := fl \<rparr>"
  define b where "b = copy_page p f a"
  have ap: "aligned p" using p(2) by (simp add: page_ok_def)
  have np: "p \<notin> set (owned m ks (r # rs))" using old p(3) by blast
  then have fp: "f \<noteq> p" using f(1) K by blast
  note cp = copy_page_spec [OF ap f(2) fp, where mm = a, folded b_def]
  have ch: "changes {p} m b" using changes_trans [OF changes_free [of "{p}" m fl] cp(1) [unfolded a_def]] by (simp add: b_def a_def)
  have fb: "free_bytes b = free_bytes m - seg p 4096" using cp(2) p(5) by (simp add: a_def)
  have ib: "alloc_inv b" using alloc_inv_changes [OF _ cp(1,2)] p(4) by (simp add: a_def)
  note T = mm_ok_take [OF ok ch np ib]
  have okb: "mm_ok b ks (r # rs)" and owb: "owned b ks (r # rs) = owned m ks (r # rs)" and wb: "walk b 3 r = walk m 3 r" "pages b 3 r = pages m 3 r"
    using T fb by auto
  have eb: "root_of b e = r" using e changes_high [OF ch] by (simp add: root_of_def PhysToKernelPtr_def)
  have pb: "page_ok b p" "\<not> is_free b p" "p \<notin> set (owned b ks (r # rs))"
    using p(2) page_ok_changes [OF ch] fb seg_page [OF ap, of "unat p"] np owb by simp_all
  have "2 * 4096 \<le> card (free_bytes b)" unfolding fb card_free [OF inv p(3) ap] using some by simp
  then obtain m' new where m': "MapProcessPage_phys e (KernelToPhysPtr b p) (fork_address i j k) b = Some m'"
    "maps b m' 3 r (fork_address i j k) p new []"
    using MapProcessPage_phys_maps [OF okb _ _ pb(1), of e "fork_address i j k"] none eb wb(1) by auto
  have M: "mm_ok m' ks (r # rs)" using mm_ok_maps(1) [OF okb _ m'(2)] pb by simp
  have mm': "changes (tables b 3 r \<union> set new) b m'" "\<And>q. q \<in> set new \<Longrightarrow> is_free b q" "length new < 3"
    "free_bytes m' = free_bytes b - (\<Union>q \<in> set new. seg q 4096)"
    "\<And>w. walk m' 3 r w = (if same_page 3 (fork_address i j k) w then Some p else walk b 3 r w)" using m'(2) by (simp_all add: maps_def)
  have out: "q \<notin> tables b 3 r \<union> set new" if "q \<in> set (owned mm ks rs)" for q
  proof -
    have q: "q \<in> set (owned b ks rs)" using that ow owb by (auto simp: owned_def wb(2))
    then have "q \<notin> set (pages b 3 r)" using okb by (auto simp: mm_ok_def owned_def)
    moreover have "\<not> is_free b q" using q okb by (auto simp: mm_ok_def owned_def)
    ultimately show ?thesis using tables_pages [of b 3 r] mm'(2) by blast
  qed
  have "changes (- set (owned mm ks rs)) b m'" by (rule changes_mono [OF mm'(1)]) (use out in blast)
  moreover have "changes (- set (owned mm ks rs)) m b" by (rule changes_mono [OF ch]) (use np K in blast)
  ultimately have "changes (- set (owned mm ks rs)) mm m'" using ch0 changes_trans by (metis Un_absorb)
  then have J': "forking mm ks rs r m'" using M by (simp add: forking_def)
  have run: "fork_copy e i j k f m = Some m'"
    using p(1) m'(1) by (simp add: fork_copy_def AllocatePages_def a_def b_def PhysToKernelPtr_def KernelToPhysPtr_def Let_def)
  have "card (free_bytes m) \<le> card (free_bytes b) + 4096" using card_free [OF inv p(3) ap] fb by simp
  moreover have "card (free_bytes b) \<le> card (free_bytes m') + length new * 4096"
    unfolding mm'(4) by (rule card_take) (use ib avail_bytes in \<open>simp add: alloc_inv_def\<close>)
  ultimately have cd: "card (free_bytes m) \<le> card (free_bytes m') + 3 * 4096" using mm'(3) by linarith
  have pw: "page_words m' p = page_words mm f"
  proof -
    have "p \<notin> tables b 3 r \<union> set new" using pb mm_ok_root(3) [OF okb, of r] tables_pages [of b 3 r] mm'(2) by auto
    then have "page_words m' p = page_words b p" by (rule page_words_frame [OF mm'(1) ap])
    also have "\<dots> = page_words a f" by (rule cp(3))
    also have "\<dots> = page_words m f" by (rule page_words_frame [OF _ f(2), of "{}"]) (simp_all add: a_def)
    also have "\<dots> = page_words mm f" by (rule page_words_frame [OF ch0 f(2)]) (use f(1) in simp)
    finally show ?thesis .
  qed
  have "contents_at m' r w = contents_at m r w" if "\<not> same_page 3 (fork_address i j k) w" for w
  proof (cases "walk m 3 r w")
    case None
    then show ?thesis using mm'(5) that wb(1) by (simp add: contents_at_def)
  next
    case (Some g)
    have tb: "tree_ok b 3 r" using mm_ok_root(2) [OF okb] by simp
    have g: "g \<in> set (pages b 3 r)" "g \<notin> tables b 3 r" using frames_not_tables [OF tb] Some wb(1) by simp_all
    have ag: "aligned g" using tree_ok_aligned [OF tb g(1)] .
    have "g \<notin> set new" using tb g(1) mm'(2) by (auto simp: tree_ok_def)
    then have "page_words m' g = page_words b g" using page_words_frame [OF mm'(1) ag] g(2) by simp
    also have "\<dots> = page_words m g" by (rule page_words_frame [OF ch ag]) (use g(1) wb(2) np in \<open>auto simp: owned_def\<close>)
    finally show ?thesis using Some mm'(5) that wb(1) by (simp add: contents_at_def)
  qed
  then have "\<forall>w. contents_at m' r w = (if same_page 3 (fork_address i j k) w then Some (page_words mm f) else contents_at m r w)"
    using mm'(5) pw by (auto simp: contents_at_def)
  then show ?thesis using run J' cd by blast
qed

section \<open>The loops\<close>

fun leaves :: "mm \<Rightarrow> nat \<Rightarrow> ptr \<Rightarrow> nat" where
  "leaves mm 0 t = 1"
| "leaves mm (Suc l) t = (\<Sum>i < 512. case child mm t i of None \<Rightarrow> 0 | Some c \<Rightarrow> leaves mm l c)"

lemma forking_same:
  assumes ok: "mm_ok mm ks (r # rs)" and J: "forking mm ks rs r m"
  shows "owned m ks rs = owned mm ks rs" and "s \<in> set rs \<Longrightarrow> pages m 3 s = pages mm 3 s \<and> walk m 3 s = walk mm 3 s"
proof -
  have ch: "changes (- set (owned mm ks rs)) mm m" using J by (simp add: forking_def)
  have fr: "pages m 3 s = pages mm 3 s \<and> walk m 3 s = walk mm 3 s" if s: "s \<in> set rs" for s
  proof (rule pages_frame [OF ch], intro ballI)
    fix p assume p: "p \<in> set (pages mm 3 s)"
    then have "p \<in> set (owned mm ks rs)" using s by (auto simp: owned_def)
    moreover have "aligned p" using tree_ok_aligned [OF mm_ok_root(2) [OF ok, of s] p] s by simp
    ultimately show "aligned p \<and> p \<notin> - set (owned mm ks rs)" by simp
  qed
  then show "s \<in> set rs \<Longrightarrow> pages m 3 s = pages mm 3 s \<and> walk m 3 s = walk mm 3 s" by blast
  have "map (pages m 3) rs = map (pages mm 3) rs" using fr by simp
  then show "owned m ks rs = owned mm ks rs" by (simp only: owned_def)
qed

text \<open>A function that copies what lies below a table of level \<open>l\<close> of the old address space to the addresses \<open>D\<close> of the
  new one.\<close>

definition copies :: "mm \<Rightarrow> ptr list \<Rightarrow> ptr list \<Rightarrow> ptr \<Rightarrow> nat \<Rightarrow> (u64 \<Rightarrow> bool) \<Rightarrow> (ptr \<Rightarrow> mm \<Rightarrow> mm option) \<Rightarrow> bool" where
  "copies mm ks rs r l D G \<longleftrightarrow>
     (\<forall>m t. forking mm ks rs r m \<longrightarrow> (\<forall>p \<in> set (pages mm l t). aligned p \<and> p \<in> set (owned mm ks rs)) \<longrightarrow>
       (\<forall>w. D w \<longrightarrow> contents_at m r w = None) \<longrightarrow> 3 * 4096 * leaves mm l t \<le> card (free_bytes m) \<longrightarrow>
       (\<exists>m'. G t m = Some m' \<and> forking mm ks rs r m' \<and> card (free_bytes m) \<le> card (free_bytes m') + 3 * 4096 * leaves mm l t \<and>
         (\<forall>w. contents_at m' r w = (if D w then map_option (page_words mm) (walk mm l t w) else contents_at m r w))))"

lemma contents_None: "contents_at m r w = None \<longleftrightarrow> walk m 3 r w = None"
  by (simp add: contents_at_def)

lemma each_entry_copies:
  assumes G: "\<forall>i < 512. copies mm ks rs r l (\<lambda>w. D w \<and> unat (GET_PML_INDEX l w) = i) (G i)"
    and J: "forking mm ks rs r m" and pg: "\<forall>p \<in> set (pages mm (Suc l) t). aligned p \<and> p \<in> set (owned mm ks rs)"
    and none: "\<forall>w. D w \<longrightarrow> contents_at m r w = None"
    and js: "distinct js" "set js \<subseteq> {..<512}"
    and cost: "3 * 4096 * (\<Sum>i \<leftarrow> js. case child mm t i of None \<Rightarrow> 0 | Some c \<Rightarrow> leaves mm l c) \<le> card (free_bytes m)"
  shows "\<exists>m'. each_entry (\<lambda>i e mm. G i (PhysToKernelPtr mm (PML_GET_ADDR e)) mm) t js m = Some m' \<and> forking mm ks rs r m' \<and>
    card (free_bytes m) \<le> card (free_bytes m') + 3 * 4096 * (\<Sum>i \<leftarrow> js. case child mm t i of None \<Rightarrow> 0 | Some c \<Rightarrow> leaves mm l c) \<and>
    (\<forall>w. contents_at m' r w =
      (if D w \<and> unat (GET_PML_INDEX l w) \<in> set js then map_option (page_words mm) (walk mm (Suc l) t w) else contents_at m r w))"
  using js cost
proof (induction js rule: rev_induct)
  case Nil
  then show ?case using J by simp
next
  case (snoc i js)
  let ?E = "each_entry (\<lambda>i e mm. G i (PhysToKernelPtr mm (PML_GET_ADDR e)) mm) t"
  let ?c = "\<lambda>i. case child mm t i of None \<Rightarrow> 0 | Some c \<Rightarrow> leaves mm l c"
  have i: "i < 512" "i \<notin> set js" using snoc.prems by auto
  have t: "aligned t" "t \<in> set (owned mm ks rs)" using pg pages_root by blast+
  obtain a where a: "?E js m = Some a" "forking mm ks rs r a" "card (free_bytes m) \<le> card (free_bytes a) + 3 * 4096 * (\<Sum>i \<leftarrow> js. ?c i)"
    "\<forall>w. contents_at a r w =
      (if D w \<and> unat (GET_PML_INDEX l w) \<in> set js then map_option (page_words mm) (walk mm (Suc l) t w) else contents_at m r w)"
    using snoc by auto
  have ci: "child a t i = child mm t i"
    by (rule changes_child [OF _ t(1) _ i(1)]) (use a(2) t(2) in \<open>auto simp: forking_def\<close>)
  show ?case
  proof (cases "child mm t i")
    case None
    then have "?E (js @ [i]) m = Some a" using each_entry_child [of G t i a] ci a(1) by (simp only: each_entry_append bind.simps option.case)
    moreover have "walk mm (Suc l) t w = None" if "unat (GET_PML_INDEX l w) = i" for w using None that by simp
    ultimately show ?thesis using a None none by (intro exI [of _ a]) auto
  next
    case (Some c)
    have D: "\<forall>w. D w \<and> unat (GET_PML_INDEX l w) = i \<longrightarrow> contents_at a r w = None" using a(4) none i(2) by auto
    have "3 * 4096 * leaves mm l c \<le> card (free_bytes a)" using snoc.prems(3) a(3) Some by simp
    moreover have "\<forall>p \<in> set (pages mm l c). aligned p \<and> p \<in> set (owned mm ks rs)" using pg pages_child [OF i(1) Some, of l] by blast
    ultimately obtain b where b: "G i c a = Some b" "forking mm ks rs r b" "card (free_bytes a) \<le> card (free_bytes b) + 3 * 4096 * leaves mm l c"
      "\<forall>w. contents_at b r w = (if D w \<and> unat (GET_PML_INDEX l w) = i then map_option (page_words mm) (walk mm l c w) else contents_at a r w)"
      using G [rule_format, OF i(1), unfolded copies_def, rule_format, OF a(2)] D by metis
    have "?E (js @ [i]) m = Some b" using each_entry_child [of G t i a] ci Some a(1) b(1) by (simp only: each_entry_append bind.simps option.case)
    moreover have "walk mm (Suc l) t w = walk mm l c w" if "unat (GET_PML_INDEX l w) = i" for w using Some that by simp
    ultimately show ?thesis using a(3,4) b(2-4) Some by (intro exI [of _ b]) auto
  qed
qed

lemma copies_Suc:
  assumes "\<forall>i < 512. copies mm ks rs r l (\<lambda>w. D w \<and> unat (GET_PML_INDEX l w) = i) (G i)"
  shows "copies mm ks rs r (Suc l) D (\<lambda>t m. each_entry (\<lambda>i e mm. G i (PhysToKernelPtr mm (PML_GET_ADDR e)) mm) t [0..<512] m)"
  unfolding copies_def
proof (intro allI impI, goal_cases)
  case (1 m t)
  have s: "(\<Sum>i \<leftarrow> [0..<512]. case child mm t i of None \<Rightarrow> 0 | Some c \<Rightarrow> leaves mm l c) = leaves mm (Suc l) t"
    by (simp add: interv_sum_list_conv_sum_set_nat atLeast0LessThan)
  have u: "unat (GET_PML_INDEX l w) \<in> set [0..<512]" for w using pml_index_less by simp
  have js: "distinct [0..<512]" "set [0..<512] \<subseteq> {..<512 :: nat}" by auto
  show ?case using each_entry_copies [OF assms 1(1-3) js, unfolded s, OF 1(4)] by (simp only: u simp_thms)
qed

lemma copies_0:
  assumes ok: "mm_ok mm ks (r # rs)" and e: "root_of mm e = r" and ijk: "i < 512" "j < 512" "k < 512"
  shows "copies mm ks rs r 0 (\<lambda>w. ((True \<and> unat (GET_PML_INDEX 2 w) = i) \<and> unat (GET_PML_INDEX 1 w) = j) \<and> unat (GET_PML_INDEX 0 w) = k)
    (fork_copy e i j k)"
  unfolding copies_def
proof (intro allI impI, goal_cases)
  case (1 m f)
  have D: "((True \<and> unat (GET_PML_INDEX 2 w) = i) \<and> unat (GET_PML_INDEX 1 w) = j) \<and> unat (GET_PML_INDEX 0 w) = k \<longleftrightarrow>
      same_page 3 (fork_address i j k) w" for w using same_page_fork [OF ijk] by blast
  have em: "root_of m e = r" using e 1(1) changes_high [of _ mm m] by (auto simp: forking_def root_of_def PhysToKernelPtr_def)
  have "contents_at m r (fork_address i j k) = None" using 1(3) unfolding D by (simp add: same_page_def)
  then have none: "walk m 3 r (fork_address i j k) = None" by (simp add: contents_at_def)
  have "3 * 4096 \<le> card (free_bytes m)" using 1(4) by simp
  from fork_copy_copies [OF 1(1) em _ _ forking_same(1) [OF ok 1(1)] none this, of f]
  show ?case unfolding D leaves.simps walk.simps option.map mult_1_right using 1(2) by auto
qed

lemma leaves_frame:
  assumes "changes S mm mm'" and "\<forall>p \<in> set (pages mm l t). aligned p \<and> p \<notin> S"
  shows "leaves mm' l t = leaves mm l t"
  using assms(2)
proof (induction l arbitrary: t)
  case (Suc l)
  have t: "aligned t" "t \<notin> S" using Suc.prems by simp_all
  have "leaves mm' l c = leaves mm l c" if "i < 512" "child mm t i = Some c" for i c
    using Suc.IH [of c] Suc.prems pages_child [OF that, of l] by blast
  moreover have "child mm' t i = child mm t i" if "i < 512" for i by (rule changes_child [OF assms(1) t that])
  ultimately have "(case child mm' t i of None \<Rightarrow> 0 | Some c \<Rightarrow> leaves mm' l c) = (case child mm t i of None \<Rightarrow> 0 | Some c \<Rightarrow> leaves mm l c)"
    if "i < 512" for i using that by (auto split: option.split)
  then show ?case by simp
qed simp

text \<open>The three loops fill an empty address space with the pages of another one.\<close>

lemma fork_loops:
  assumes ok: "mm_ok a ks (n # rs)" and n: "root_of a e = n" and none: "\<forall>w. walk a 3 n w = None"
    and pg: "\<forall>p \<in> set (pages a 3 old). aligned p \<and> p \<in> set (owned a ks rs)"
    and cost: "3 * 4096 * leaves a 3 old \<le> card (free_bytes a)"
  shows "\<exists>b. each_entry (\<lambda>i e3 m. each_entry (\<lambda>j e2 m.
      each_entry (\<lambda>k e1 m. fork_copy e i j k (PhysToKernelPtr m (PML_GET_ADDR e1)) m) (PhysToKernelPtr m (PML_GET_ADDR e2)) [0..<512] m)
      (PhysToKernelPtr m (PML_GET_ADDR e3)) [0..<512] m) old [0..<512] a = Some b \<and>
    forking a ks rs n b \<and> (\<forall>w. contents_at b n w = map_option (page_words a) (walk a 3 old w))"
proof -
  have c0: "copies a ks rs n 0 (\<lambda>w. ((True \<and> unat (GET_PML_INDEX 2 w) = i) \<and> unat (GET_PML_INDEX 1 w) = j) \<and> unat (GET_PML_INDEX 0 w) = k)
      (fork_copy e i j k)" if "i < 512" "j < 512" "k < 512" for i j k
    by (rule copies_0 [OF ok n that])
  let ?G = "\<lambda>t m. each_entry (\<lambda>i e3 m. each_entry (\<lambda>j e2 m.
      each_entry (\<lambda>k e1 m. fork_copy e i j k (PhysToKernelPtr m (PML_GET_ADDR e1)) m) (PhysToKernelPtr m (PML_GET_ADDR e2)) [0..<512] m)
      (PhysToKernelPtr m (PML_GET_ADDR e3)) [0..<512] m) t [0..<512] m"
  have "copies a ks rs n (Suc (Suc (Suc 0))) (\<lambda>w. True) ?G"
    by (intro copies_Suc allI impI) (use c0 in \<open>simp add: numeral_2_eq_2\<close>)
  then have C: "copies a ks rs n 3 (\<lambda>w. True) ?G" by (simp only: numeral_3_eq_3)
  have J: "forking a ks rs n a" using ok by (simp add: forking_def)
  have "\<forall>w. True \<longrightarrow> contents_at a n w = None" using none by (simp add: contents_at_def)
  then show ?thesis using C [unfolded copies_def, rule_format, OF J, of old] pg cost by auto
qed

text \<open>
  C3: Forking copies the address space of the running process: in the new one every address has the contents it has
  in the old one, or is unmapped like there, and the two share no page. All address spaces, the copied one included,
  keep their contents. One page for the new root and three for each mapped page are enough memory.
\<close>

theorem ForkProcessMap_copies:
  assumes ok: "mm_ok mm ks rs" and core: "g_CorePageTables mm \<in> set ks" and r: "root_of mm (read_entry mm (g_CorePageTables mm) 0) \<in> set rs"
    and some: "4096 + 3 * 4096 * leaves mm 3 (root_of mm (read_entry mm (g_CorePageTables mm) 0)) \<le> card (free_bytes mm)"
  shows "\<exists>e mm'. ForkProcessMap mm = Some (e, mm') \<and> mm_ok mm' ks (root_of mm' e # rs) \<and>
    (\<forall>w. contents_at mm' (root_of mm' e) w = contents_at mm (root_of mm (read_entry mm (g_CorePageTables mm) 0)) w) \<and>
    (\<forall>s \<in> set rs. \<forall>w. contents_at mm' s w = contents_at mm s w)"
proof -
  define old where "old = root_of mm (read_entry mm (g_CorePageTables mm) 0)"
  have ow: "page_ok mm p \<and> \<not> is_free mm p" if "p \<in> set (owned mm ks rs)" for p using ok that by (simp add: mm_ok_def)
  have "free_bytes mm \<noteq> {}" using some by auto
  then obtain e a where a: "CreateProcessMap mm = Some (e, a)" "mm_ok a ks (root_of a e # rs)" "is_free mm (root_of a e)"
    "free_bytes a = free_bytes mm - seg (root_of a e) 4096" "changes {root_of a e} mm a" "\<forall>w. walk a 3 (root_of a e) w = None"
    "\<forall>s \<in> set rs. pages a 3 s = pages mm 3 s \<and> walk a 3 s = walk mm 3 s"
    using new_root [OF ok] by blast
  define n where "n = root_of a e"
  have kept: "page_words a p = page_words mm p \<and> p \<noteq> n" if "p \<in> set (owned mm ks rs)" for p
    using page_words_frame [OF a(5)] ow [OF that] a(3) by (auto simp: page_ok_def n_def)
  have "map (pages a 3) rs = map (pages mm 3) rs" using a(7) by simp
  then have oa: "owned a ks rs = owned mm ks rs" by (simp only: owned_def)
  have core': "g_CorePageTables mm \<in> set (owned mm ks rs)" using core by (simp add: owned_def)
  have "read_entry a (g_CorePageTables mm) (of_nat 0) = read_entry mm (g_CorePageTables mm) (of_nat 0)"
    by (rule changes_read [OF a(5)]) (use ow [OF core'] kept [OF core'] in \<open>simp_all add: page_ok_def n_def\<close>)
  moreover have cg: "g_CorePageTables a = g_CorePageTables mm" "g_HighMemBase a = g_HighMemBase mm" using a(5) by (simp_all add: changes_def)
  ultimately have ra: "PhysToKernelPtr a (PML_GET_ADDR (read_entry a (g_CorePageTables a) 0)) = old"
    by (simp add: old_def root_of_def PhysToKernelPtr_def)
  have po: "set (pages mm 3 old) \<subseteq> set (owned mm ks rs)" using mm_ok_root(3) [OF ok r] by (simp add: old_def)
  then have pg: "\<forall>p \<in> set (pages a 3 old). aligned p \<and> p \<in> set (owned a ks rs)" using a(7) r ow oa by (auto simp: old_def page_ok_def)
  have lv: "leaves a 3 old = leaves mm 3 old"
    by (rule leaves_frame [OF a(5)]) (use po ow kept in \<open>auto simp: page_ok_def n_def\<close>)
  have "card (free_bytes a) = card (free_bytes mm) - 4096" unfolding a(4)
    by (rule card_free) (use ok a(2,3) in \<open>auto simp: mm_ok_def owned_def page_ok_def alloc_inv_def numeral_3_eq_3\<close>)
  then have cost: "3 * 4096 * leaves a 3 old \<le> card (free_bytes a)" using some lv by (simp add: old_def)
  obtain b where b: "each_entry (\<lambda>i e3 m. each_entry (\<lambda>j e2 m.
      each_entry (\<lambda>k e1 m. fork_copy e i j k (PhysToKernelPtr m (PML_GET_ADDR e1)) m) (PhysToKernelPtr m (PML_GET_ADDR e2)) [0..<512] m)
      (PhysToKernelPtr m (PML_GET_ADDR e3)) [0..<512] m) old [0..<512] a = Some b"
    "forking a ks rs n b" "\<forall>w. contents_at b n w = map_option (page_words a) (walk a 3 old w)"
    using fork_loops [OF a(2) [folded n_def] n_def [symmetric] a(6) [folded n_def] pg cost] by blast
  have run: "ForkProcessMap mm = Some (e, b)" unfolding ForkProcessMap_def fork_page_copy using a(1) b(1) by (simp add: ra)
  have chb: "changes (- set (owned a ks rs)) a b" and okb: "mm_ok b ks (n # rs)" using b(2) by (simp_all add: forking_def)
  have rb: "root_of b e = n" using changes_high [OF chb] by (simp add: n_def root_of_def PhysToKernelPtr_def)
  have wa: "page_words a f = page_words mm f \<and> page_words b f = page_words mm f" if "s \<in> set rs" "walk mm 3 s w = Some f" for s w f
  proof -
    have "f \<in> set (owned mm ks rs)" using frames_not_tables [OF mm_ok_root(2) [OF ok that(1)] that(2)] mm_ok_root(3) [OF ok that(1)] by blast
    then show ?thesis using kept page_words_frame [OF chb, of f] ow oa by (simp add: page_ok_def)
  qed
  have "contents_at b n w = contents_at mm old w" for w
    using b(3) a(7) r wa [of old w] by (cases "walk mm 3 old w") (auto simp: contents_at_def old_def)
  moreover have "contents_at b s w = contents_at mm s w" if s: "s \<in> set rs" for s w
    using forking_same(2) [OF a(2) [folded n_def] b(2) s] a(7) s wa [OF s, of w] by (cases "walk mm 3 s w") (auto simp: contents_at_def)
  ultimately show ?thesis using run okb rb unfolding old_def by blast
qed

lemma single_leaf:
  assumes "\<forall>j < 512. child mm t j = (if j = 0 then Some c else None)"
  shows "leaves mm (Suc l) t = leaves mm l c"
proof -
  have "(\<Sum>i < 512. case child mm t i of None \<Rightarrow> 0 | Some c \<Rightarrow> leaves mm l c) = (\<Sum>i < (512 :: nat). if i = 0 then leaves mm l c else 0)"
    using assms by (intro sum.cong) auto
  then show ?thesis by simp
qed

lemma demo_leaves: "leaves demo_mm 3 0x105000 = 1"
proof -
  have "leaves demo_mm (Suc (Suc (Suc 0))) 0x105000 = leaves demo_mm (Suc (Suc 0)) 0x106000"
    "leaves demo_mm (Suc (Suc 0)) 0x106000 = leaves demo_mm (Suc 0) 0x107000"
    "leaves demo_mm (Suc 0) 0x107000 = leaves demo_mm 0 0x108000"
    by (rule single_leaf, simp add: demo_child aligned_def demo_words_def PML_GET_ADDR_def)+
  then show ?thesis by (simp add: numeral_3_eq_3)
qed

theorem ForkProcessMap_copies_witness:
  "\<exists>e mm'. ForkProcessMap demo_mm = Some (e, mm') \<and> mm_ok mm' [0x104000] [root_of mm' e, 0x105000] \<and>
    (\<forall>w. contents_at mm' (root_of mm' e) w = contents_at demo_mm 0x105000 w)"
proof -
  have r: "root_of demo_mm (read_entry demo_mm (g_CorePageTables demo_mm) 0) = 0x105000"
    using demo_root by (simp add: demo_mm_def read_entry_def demo_words_def)
  have c: "g_CorePageTables demo_mm \<in> set [0x104000]" by (simp add: demo_mm_def)
  have "4096 + 3 * 4096 * leaves demo_mm 3 0x105000 \<le> card (free_bytes demo_mm)" by (simp add: demo_leaves demo_card)
  from ForkProcessMap_copies [OF demo_ok c, unfolded r, OF _ this] show ?thesis by auto
qed

end
