(* ===== verification/KernelHeap.thy ===== *)
theory KernelHeap
  imports PagingFork
begin

text \<open>
  The kernel's heap, \<^verbatim>\<open>memory/KernelHeap.cpp\<close>, \<^verbatim>\<open>memory/KernelHeap.h\<close>, \<^verbatim>\<open>memory/kmalloc.cpp\<close> and \<^verbatim>\<open>klib/new.cpp\<close>. The heap grows upwards
  from \<open>HeapBase\<close>: it takes physical pages from the memory manager, maps them behind its end and hands out
  segments in multiples of 64 bytes, each with its size in front. The headers are read and written through the page tables of
  the running core, as the processor does; an access to an address that is not mapped is the result \<open>None\<close>. The list nodes
  inside free segments are in the state of the free list. The lock is left out: an operation is one step.
\<close>

section \<open>Kernel memory\<close>

text \<open>Words at multiples of 8, bytes, and the copies of \<^verbatim>\<open>klib/memory.cpp\<close> on them.\<close>

definition kword :: "mm \<Rightarrow> ptr \<Rightarrow> ptr option" where
  "kword mm v = map_option (\<lambda>p. p + (v AND 0xFFF)) (walk mm 4 (g_CorePageTables mm) v)"

definition kload :: "mm \<Rightarrow> ptr \<Rightarrow> u64 option" where
  "kload mm v = map_option (qwords mm) (kword mm v)"

definition kstore :: "mm \<Rightarrow> ptr \<Rightarrow> u64 \<Rightarrow> mm option" where
  "kstore mm v x = map_option (\<lambda>a. mm \<lparr> qwords := (qwords mm)(a := x) \<rparr>) (kword mm v)"

definition kload8 :: "mm \<Rightarrow> ptr \<Rightarrow> u8 option" where
  "kload8 mm v = map_option (\<lambda>w. ucast (drop_bit (8 * unat (v AND 7)) w)) (kload mm (v AND NOT 7))"

definition kstore8 :: "mm \<Rightarrow> ptr \<Rightarrow> u8 \<Rightarrow> mm option" where
  "kstore8 mm v b =
     (let s = 8 * unat (v AND 7)
      in do {
        w \<leftarrow> kload mm (v AND NOT 7);
        kstore mm (v AND NOT 7) ((w AND NOT (push_bit s 0xFF)) OR push_bit s (ucast b))
      })"

fun kmemset :: "nat \<Rightarrow> ptr \<Rightarrow> u8 \<Rightarrow> mm \<Rightarrow> mm option" where
  "kmemset 0 dest b mm = Some mm"
| "kmemset (Suc n) dest b mm = do { mm \<leftarrow> kstore8 mm dest b; kmemset n (dest + 1) b mm }"

fun kmemcpyb :: "nat \<Rightarrow> ptr \<Rightarrow> ptr \<Rightarrow> mm \<Rightarrow> mm option" where
  "kmemcpyb 0 dest src mm = Some mm"
| "kmemcpyb (Suc n) dest src mm = do { b \<leftarrow> kload8 mm src; mm \<leftarrow> kstore8 mm dest b; kmemcpyb n (dest + 1) (src + 1) mm }"

fun kmemcpyq :: "nat \<Rightarrow> ptr \<Rightarrow> ptr \<Rightarrow> mm \<Rightarrow> mm option" where
  "kmemcpyq 0 dest src mm = Some mm"
| "kmemcpyq (Suc n) dest src mm = do { w \<leftarrow> kload mm src; mm \<leftarrow> kstore mm dest w; kmemcpyq n (dest + 8) (src + 8) mm }"

definition kmemcpy :: "ptr \<Rightarrow> ptr \<Rightarrow> u64 \<Rightarrow> mm \<Rightarrow> mm option" where
  "kmemcpy dest src sz mm =
     (let numq = drop_bit 3 sz; rem = sz AND 0x7
      in do {
        mm \<leftarrow> kmemcpyq (unat numq) dest src mm;
        kmemcpyb (unat rem) (dest + push_bit 3 numq) (src + push_bit 3 numq) mm
      })"

section \<open>The code\<close>

record kheap =
  kh_FreeList :: freelist
  kh_HeapPos :: u64
  kh_mm :: mm

definition HeapBase :: u64 where
  "HeapBase = push_bit 39 510 OR 0xFFFF000000000000"

text \<open>The product of the page size and the loop counter is a 32-bit \<^verbatim>\<open>int\<close>.\<close>

definition page_offset :: "nat \<Rightarrow> u64" where
  "page_offset i = scast (4096 * of_nat i :: 32 word)"

fun map_loop :: "u64 \<Rightarrow> u64 \<Rightarrow> nat list \<Rightarrow> mm \<Rightarrow> mm option" where
  "map_loop g pos [] mm = Some mm"
| "map_loop g pos (i # is) mm =
     do { mm \<leftarrow> MapKernelPage (g + page_offset i) (pos + page_offset i) mm; map_loop g pos is mm }"

definition kernel_ReserveNew :: "u64 \<Rightarrow> kheap \<Rightarrow> kheap option" where
  "kernel_ReserveNew sz0 h =
     (let sz = (sz0 + 4095) div 4096
      in do {
        (g, mm) \<leftarrow> AllocatePages sz (kh_mm h);
        mm \<leftarrow> map_loop g (kh_HeapPos h) [0..<unat sz] mm;
        fl \<leftarrow> MarkFree (kh_FreeList h) (kh_HeapPos h) (sz * 4096);
        Some \<lparr> kh_FreeList = fl, kh_HeapPos = kh_HeapPos h + sz * 4096, kh_mm = mm \<rparr>
      })"

definition kernel_block_size :: "u64 \<Rightarrow> u64" where
  "kernel_block_size sz = (sz + 63) div 64 * 64 + 64"

text \<open>When the reserved pages do not help, the code follows \<^verbatim>\<open>nullptr\<close>.\<close>

definition kernel_Allocate :: "u64 \<Rightarrow> kheap \<Rightarrow> (ptr \<times> kheap) option" where
  "kernel_Allocate sz0 h =
     (let sz = kernel_block_size sz0
      in do {
        g \<leftarrow> FindFree (kh_FreeList h) sz;
        (g, h) \<leftarrow>
          (if g = nullptr
           then do { h \<leftarrow> kernel_ReserveNew sz h; g \<leftarrow> FindFree (kh_FreeList h) sz; Some (g, h) }
           else Some (g, h));
        if g = nullptr then None
        else do {
          fl \<leftarrow> MarkUsed (kh_FreeList h) g sz;
          mm \<leftarrow> kstore (kh_mm h) g sz;
          Some (g + 64, h \<lparr> kh_FreeList := fl, kh_mm := mm \<rparr>)
        }
      })"

definition kernel_Free :: "ptr \<Rightarrow> kheap \<Rightarrow> kheap option" where
  "kernel_Free block h =
     (if block = nullptr then Some h
      else do {
        sz \<leftarrow> kload (kh_mm h) (block - 64);
        fl \<leftarrow> MarkFree (kh_FreeList h) (block - 64) sz;
        Some (h \<lparr> kh_FreeList := fl \<rparr>)
      })"

definition kernel_GetSize :: "ptr \<Rightarrow> kheap \<Rightarrow> u64 option" where
  "kernel_GetSize block h = (if block = nullptr then Some 0 else kload (kh_mm h) (block - 64))"

definition AllocPages :: "u32 \<Rightarrow> mm \<Rightarrow> (ptr \<times> mm) option" where
  "AllocPages n mm = map_option (\<lambda>(p, mm). (PhysToKernelPtr mm p, mm)) (AllocatePages (ucast n) mm)"

definition FreeKernelPages :: "ptr \<Rightarrow> u32 \<Rightarrow> mm \<Rightarrow> mm option" where
  "FreeKernelPages p n mm = FreePages (KernelToPhysPtr mm p) (ucast n) mm"

definition align_count :: "u32 \<Rightarrow> u64" where
  "align_count sz = ucast (sz div 4096 + (if sz mod 4096 = 0 then 0 else 1))"

definition AllocAlignMemory :: "u32 \<Rightarrow> mm \<Rightarrow> (ptr \<times> mm) option" where
  "AllocAlignMemory sz mm = map_option (\<lambda>(p, mm). (PhysToKernelPtr mm p, mm)) (AllocatePages (align_count sz) mm)"

definition FreeAlignMemory :: "ptr \<Rightarrow> u32 \<Rightarrow> mm \<Rightarrow> mm option" where
  "FreeAlignMemory p sz mm = FreePages (KernelToPhysPtr mm p) (align_count sz) mm"

definition kmalloc :: "u64 \<Rightarrow> kheap \<Rightarrow> (ptr \<times> kheap) option" where
  "kmalloc sz h = kernel_Allocate sz h"

definition kfree :: "ptr \<Rightarrow> kheap \<Rightarrow> kheap option" where
  "kfree addr h = kernel_Free addr h"

definition operator_new :: "u64 \<Rightarrow> kheap \<Rightarrow> (ptr \<times> kheap) option" where
  "operator_new sz h = kmalloc sz h"

definition operator_delete :: "ptr \<Rightarrow> kheap \<Rightarrow> kheap option" where
  "operator_delete block h = kfree block h"

text \<open>The size is an \<^verbatim>\<open>int\<close>, and the old block is cleared before it is copied.\<close>

definition krealloc :: "ptr \<Rightarrow> u64 \<Rightarrow> kheap \<Rightarrow> (ptr \<times> kheap) option" where
  "krealloc p sz h =
     do {
       s \<leftarrow> kernel_GetSize p h;
       let bsize = (ucast s :: 32 word);
       if scast bsize = sz \<or> bsize = 0 \<or> sz = 0 then Some (p, h)
       else do {
         (result, h) \<leftarrow> kmalloc sz h;
         mm \<leftarrow> kmemset (unat sz) p 0 (kh_mm h);
         mm \<leftarrow> kmemcpy result p (scast bsize) mm;
         Some (result, h \<lparr> kh_mm := mm \<rparr>)
       }
     }"

end
