(* ===== verification/KernelHeapProps.thy ===== *)
theory KernelHeapProps
  imports KernelHeap
begin

text \<open>
  What the kernel's heap guarantees: a new block lies in mapped memory that belongs to nobody else, its
  size is in its header, and neither allocation nor release changes a word of another block or another
  address space. Under the invariant \<open>kheap_ok\<close> the heap is mapped from its base to its end, no byte belongs to two
  blocks or to a block and a free segment, and every block has its size in its header.
\<close>

section \<open>Several pages at once\<close>

lemma seg_pages:
  assumes p: "aligned p" and n: "unat n * 4096 < 2 ^ 64"
  shows "x \<in> seg p (n * 4096) \<longleftrightarrow> x div 4096 \<in> {unat p div 4096 ..< unat p div 4096 + unat n}"
proof -
  obtain k where k: "unat p = 4096 * k" using p by (auto simp: aligned_iff)
  have "unat (n * 4096) = unat n * 4096" using n by (simp add: unat_word_ariths)
  then have "x \<in> seg p (n * 4096) \<longleftrightarrow> 4096 * k \<le> x \<and> x < 4096 * k + unat n * 4096" by (simp add: seg_def k)
  also have "\<dots> \<longleftrightarrow> k \<le> x div 4096 \<and> x div 4096 < k + unat n" by auto
  finally show ?thesis by (simp add: k)
qed

lemma allocate_many:
  assumes inv: "alloc_inv mm" and n: "n \<noteq> 0" "unat n * 4096 < 2 ^ 64" and q: "seg_ok q (n * 4096)" "seg q (n * 4096) \<subseteq> free_bytes mm"
  shows "\<exists>p fl. AllocatePages n mm = Some (KernelToPhysPtr mm p, mm \<lparr> mm_FreeList := fl \<rparr>) \<and> aligned p \<and> seg_ok p (n * 4096) \<and>
    seg p (n * 4096) \<subseteq> free_bytes mm \<and> alloc_inv (mm \<lparr> mm_FreeList := fl \<rparr>) \<and> fl_avail fl = free_bytes mm - seg p (n * 4096)"
proof -
  have fl: "fl_inv (mm_FreeList mm)" "granular (free_bytes mm)" using inv by (simp_all add: alloc_inv_def)
  have n0: "n * 4096 \<noteq> 0" using q(1) by (simp add: seg_ok_def)
  obtain p where p: "FindFree (mm_FreeList mm) (n * 4096) = Some p" "p \<noteq> nullptr"
    using kfl.find_iff [OF fl(1) n0] q by blast
  have ap: "aligned p" by (rule FindFree_aligned [OF fl p])
  note fits = kfl.find_fits [OF fl(1) n0 p]
  obtain l where l: "MarkUsed (mm_FreeList mm) p (n * 4096) = Some l" "fl_inv l" "fl_avail l = free_bytes mm - seg p (n * 4096)"
    using kfl.used_law [OF fl(1) n0 p] by blast
  have "granular (fl_avail l)" using fl(2) unfolding l(3) granular_def Diff_iff seg_pages [OF ap n(2)] by metis
  then have "alloc_inv (mm \<lparr> mm_FreeList := l \<rparr>)" using l inv by (auto simp: alloc_inv_def page_ok_def)
  then show ?thesis using p l ap fits by (auto simp: AllocatePages_def allocate_pages_def)
qed

section \<open>Translation\<close>

text \<open>Different pages of an address space are different pages of memory.\<close>

lemma walk_inj:
  assumes "tree_ok mm l t" and "walk mm l t v = Some f" and "walk mm l t w = Some f"
  shows "same_page l v w"
  using assms
proof (induction l arbitrary: t)
  case (Suc l)
  obtain c where c: "child mm t (unat (GET_PML_INDEX l v)) = Some c" "walk mm l c v = Some f"
    using Suc.prems(2) by (cases "child mm t (unat (GET_PML_INDEX l v))") auto
  obtain d where d: "child mm t (unat (GET_PML_INDEX l w)) = Some d" "walk mm l d w = Some f"
    using Suc.prems(3) by (cases "child mm t (unat (GET_PML_INDEX l w))") auto
  note tc = tree_ok_child [OF Suc.prems(1) pml_index_less c(1)] and td = tree_ok_child [OF Suc.prems(1) pml_index_less d(1)]
  have "f \<in> set (pages mm l c)" "f \<in> set (pages mm l d)" using frames_not_tables [OF tc c(2)] frames_not_tables [OF td d(2)] by blast+
  then have i: "unat (GET_PML_INDEX l w) = unat (GET_PML_INDEX l v)"
    using distinct_child(3) [OF _ pml_index_less c(1) pml_index_less _ d(1)] Suc.prems(1) unfolding tree_ok_def by blast
  then have "d = c" using c(1) d(1) by simp
  moreover have "GET_PML_INDEX l w = GET_PML_INDEX l v" using i by (simp only: word_unat_eq_iff)
  ultimately show ?case using Suc.IH [OF tc c(2)] d(2) by (simp add: same_page_Suc)
qed (simp add: same_page_def)

lemma walk_same_page: "same_page l v w \<Longrightarrow> walk mm l t w = walk mm l t v"
  by (induction l arbitrary: t) (simp_all add: same_page_Suc)

text \<open>A change to mapped pages changes no translation.\<close>

lemma data_frame:
  assumes "changes S mm mm'" and "tree_ok mm l t" and "tables mm l t \<inter> S = {}"
  shows "pages mm' l t = pages mm l t \<and> walk mm' l t = walk mm l t"
  using assms(2,3)
proof (induction l arbitrary: t)
  case (Suc l)
  have t: "aligned t" "t \<notin> S" using tree_ok_aligned [OF Suc.prems(1) pages_root] Suc.prems(2) by auto
  have c: "child mm' t i = child mm t i" if "i < 512" for i using changes_child [OF assms(1) t that] .
  have sub: "pages mm' l c = pages mm l c \<and> walk mm' l c = walk mm l c" if i: "i < 512" "child mm t i = Some c" for i c
    using Suc.IH [OF tree_ok_child [OF Suc.prems(1) i]] tables_child [OF i, of l] Suc.prems(2) by blast
  have "branch mm' l (child mm' t i) = branch mm l (child mm t i)" if "i < 512" for i
    using sub [OF that] c [OF that] by (cases "child mm t i") auto
  then have "map (\<lambda>i. branch mm' l (child mm' t i)) [0..<512] = map (\<lambda>i. branch mm l (child mm t i)) [0..<512]" by simp
  then have "pages mm' (Suc l) t = pages mm (Suc l) t" by (simp only: pages.simps)
  moreover have "walk mm' (Suc l) t v = walk mm (Suc l) t v" for v
    using sub [OF pml_index_less] c [OF pml_index_less] by (cases "child mm t (unat (GET_PML_INDEX l v))") auto
  ultimately show ?case by blast
qed auto

lemma MapKernelPage_maps:
  assumes ok: "mm_ok mm ks rs" and r: "root_of mm (read_entry mm (g_CorePageTables mm) (GET_PML_INDEX 3 v)) = r" "r \<in> set rs"
    and none: "walk mm 3 r v = None" and f: "page_ok mm f" and some: "2 * 4096 \<le> card (free_bytes mm)"
  shows "\<exists>mm' new. MapKernelPage (KernelToPhysPtr mm f) v mm = Some mm' \<and> maps mm mm' 3 r v f new []"
proof -
  note R = mm_ok_root [OF ok r(2)]
  have "\<exists>g mm' new fs. descend kernel_flags 2 r v (put_page kernel_flags v (KernelToPhysPtr mm f)) mm = Some (g, mm') \<and>
    (g = f \<and> fs = []) \<and> maps mm mm' (Suc 2) r v g new fs"
  proof (rule descend_maps [where n = 0 and L = "\<lambda>g fs. g = f \<and> fs = []", OF flags_okI(2) _ refl R(1)])
    show "\<exists>g mm' fs. put_page kernel_flags v (KernelToPhysPtr mm f) t m = Some (g, mm') \<and> (g = f \<and> fs = []) \<and> maps m mm' 1 t v g [] fs"
      if "g_HighMemBase m = g_HighMemBase mm" "alloc_inv m" "tree_ok m 1 t" "walk m 1 t v = None" for m t
      using put_page_maps [OF that(2-4) _ flags_okI(2), of f] f that(1) by (auto simp: KernelToPhysPtr_def page_ok_def)
  qed (use R(2) none some in \<open>simp_all add: numeral_3_eq_3 numeral_2_eq_2\<close>)
  then show ?thesis unfolding MapKernelPage_levels r(1) [unfolded root_of_def] by (auto simp: numeral_3_eq_3 numeral_2_eq_2)
qed

section \<open>Growing\<close>

text \<open>Everything that is mapped in some address space keeps its contents.\<close>

definition keeps_contents :: "ptr list \<Rightarrow> mm \<Rightarrow> mm \<Rightarrow> bool" where
  "keeps_contents rs m m' \<longleftrightarrow> (\<forall>s \<in> set rs. \<forall>w. walk m 3 s w \<noteq> None \<longrightarrow> walk m' 3 s w = walk m 3 s w \<and> contents_at m' s w = contents_at m s w)"

lemma keeps_contents_trans: "keeps_contents rs a b \<Longrightarrow> keeps_contents rs b c \<Longrightarrow> keeps_contents rs a c"
  unfolding keeps_contents_def by metis

lemma maps_keeps:
  assumes ok: "mm_ok m ks rs" and r: "r \<in> set rs" and M: "maps m m' 3 r v f new []"
    and none: "walk m 3 r v = None" and f: "page_ok m f" "\<not> is_free m f" "f \<notin> set (owned m ks rs)"
  shows "mm_ok m' ks rs" and "keeps_contents rs m m'"
    and "\<forall>s \<in> set rs. \<forall>w. walk m' 3 s w = (if s = r \<and> same_page 3 v w then Some f else walk m 3 s w)"
    and "\<forall>t \<in> set ks. \<forall>i < 512. child m' t i = child m t i" and "g_CorePageTables m' = g_CorePageTables m"
    and "mset (owned m' ks rs) = mset (owned m ks rs) + mset new + {#f#}"
    and "card (free_bytes m) \<le> card (free_bytes m') + 2 * 4096" and "g_HighMemBase m' = g_HighMemBase m"
    and "\<forall>p. page_ok m p \<longrightarrow> \<not> is_free m p \<longrightarrow> page_ok m' p \<and> \<not> is_free m' p" and "\<forall>p \<in> set new. is_free m p"
proof -
  note K = mm_ok_maps [OF ok r M] 
  have ff: "[] = [f] \<or> [] = [] \<and> page_ok m f \<and> \<not> is_free m f \<and> f \<notin> set (owned m ks rs)" using f by simp
  have m': "changes (tables m 3 r \<union> set new) m m'" "\<And>p. p \<in> set new \<Longrightarrow> page_ok m p \<and> is_free m p" "length new < 3"
    "free_bytes m' = free_bytes m - (\<Union>p \<in> set new. seg p 4096)" "\<forall>w. walk m' 3 r w = (if same_page 3 v w then Some f else walk m 3 r w)"
    using M by (simp_all add: maps_def)
  show "mm_ok m' ks rs" "mset (owned m' ks rs) = mset (owned m ks rs) + mset new + {#f#}" using K(1,3) ff by blast+
  show "\<forall>p \<in> set new. is_free m p" using m'(2) by blast
  show wk: "\<forall>s \<in> set rs. \<forall>w. walk m' 3 s w = (if s = r \<and> same_page 3 v w then Some f else walk m 3 s w)"
    using K(2) [OF ff] m'(5) by auto
  have old: "page_ok m p \<and> \<not> is_free m p" if "p \<in> set (owned m ks rs)" for p using ok that by (simp add: mm_ok_def)
  note hi = changes_high [OF m'(1)]
  show "g_HighMemBase m' = g_HighMemBase m" by (rule hi)
  show "g_CorePageTables m' = g_CorePageTables m" using m'(1) by (simp add: changes_def)
  show "\<forall>p. page_ok m p \<longrightarrow> \<not> is_free m p \<longrightarrow> page_ok m' p \<and> \<not> is_free m' p" using m'(4) page_ok_changes [OF m'(1)] by auto
  have fin: "finite (free_bytes m)" using ok avail_bytes(2) by (simp add: mm_ok_def alloc_inv_def)
  have "card (free_bytes m) \<le> card (free_bytes m') + length new * 4096" unfolding m'(4) by (rule card_take [OF fin])
  then show "card (free_bytes m) \<le> card (free_bytes m') + 2 * 4096" using m'(3) by linarith
  have out: "p \<notin> tables m 3 r \<union> set new" if "p \<in> set (owned m ks rs)" "p \<notin> tables m 3 r" for p using that old m'(2) by blast
  have "child m' t i = child m t i" if t: "t \<in> set ks" and i: "i < 512" for t i
  proof -
    have to: "t \<in> set (owned m ks rs)" using t by (simp add: owned_def)
    have "t \<notin> tables m 3 r" using mm_ok_root(5) [OF ok r] tables_pages [of m 3 r] t by blast
    with out [OF to] old [OF to] show ?thesis using changes_child [OF m'(1) _ _ i, of t] by (simp add: page_ok_def)
  qed
  then show "\<forall>t \<in> set ks. \<forall>i < 512. child m' t i = child m t i" by blast
  have "contents_at m' s w = contents_at m s w \<and> walk m' 3 s w = walk m 3 s w" if s: "s \<in> set rs" and g: "walk m 3 s w = Some g" for s w g
  proof -
    note fr = frames_not_tables [OF mm_ok_root(2) [OF ok s] g]
    have go: "g \<in> set (owned m ks rs)" using fr mm_ok_root(3) [OF ok s] by blast
    have "g \<notin> tables m 3 r" using fr mm_ok_root(4) [OF ok r s] tables_pages [of m 3 r] by blast
    then have "page_words m' g = page_words m g" using page_words_frame [OF m'(1)] out [OF go] old [OF go] by (simp add: page_ok_def)
    moreover have "\<not> (s = r \<and> same_page 3 v w)"
      using walk_same_page [of 3 v w m r] none g by auto
    ultimately show ?thesis using wk s g by (auto simp: contents_at_def)
  qed
  then show "keeps_contents rs m m'" unfolding keeps_contents_def by auto
qed

text \<open>The loop that maps the new pages, with the addresses \<open>V i\<close> and the pages \<open>F i\<close>.\<close>

lemma map_loop_maps:
  assumes "mm_ok m ks rs" and "r \<in> set rs" and "g_CorePageTables m \<in> set ks" and "child m (g_CorePageTables m) 510 = Some r"
    and "\<forall>i \<in> set is. page_ok m (p + page_offset i) \<and> \<not> is_free m (p + page_offset i) \<and> p + page_offset i \<notin> set (owned m ks rs)"
    and "inj_on (\<lambda>i. p + page_offset i) (set is)" and "distinct is"
    and "\<forall>i \<in> set is. walk m 3 r (pos + page_offset i) = None \<and> GET_PML_INDEX 3 (pos + page_offset i) = 510"
    and "\<forall>i \<in> set is. \<forall>j \<in> set is. i \<noteq> j \<longrightarrow> \<not> same_page 3 (pos + page_offset i) (pos + page_offset j)"
    and "2 * 4096 * length is \<le> card (free_bytes m)"
  shows "\<exists>m'. map_loop (KernelToPhysPtr m p) pos is m = Some m' \<and> mm_ok m' ks rs \<and> keeps_contents rs m m' \<and>
    g_CorePageTables m' = g_CorePageTables m \<and> child m' (g_CorePageTables m) 510 = Some r \<and>
    (\<forall>s \<in> set rs. \<forall>w. walk m' 3 s w \<noteq> None \<longleftrightarrow> walk m 3 s w \<noteq> None \<or> s = r \<and> (\<exists>i \<in> set is. same_page 3 (pos + page_offset i) w))"
  using assms
proof (induction "is" arbitrary: m)
  case (Cons i "is")
  let ?V = "\<lambda>i. pos + page_offset i" and ?F = "\<lambda>i. p + page_offset i"
  note ok = Cons.prems(1) and r = Cons.prems(2)
  have root: "root_of m (read_entry m (g_CorePageTables m) (GET_PML_INDEX 3 (?V i))) = r"
    using child_SomeD [OF Cons.prems(4)] Cons.prems(8) by (simp add: root_of_def)
  have none: "walk m 3 r (?V i) = None" and f: "page_ok m (?F i)" "\<not> is_free m (?F i)" "?F i \<notin> set (owned m ks rs)"
    using Cons.prems(5,8) by simp_all
  obtain a new where a: "MapKernelPage (KernelToPhysPtr m (?F i)) (?V i) m = Some a" "maps m a 3 r (?V i) (?F i) new []"
    using MapKernelPage_maps [OF ok root r none f(1)] Cons.prems(10) by auto
  note A = maps_keeps [OF ok r a(2) none f]
  have st: "set (owned a ks rs) = insert (?F i) (set (owned m ks rs) \<union> set new)"
    using arg_cong [OF A(6), of set_mset] by simp
  have ph: "KernelToPhysPtr m (?F i) = KernelToPhysPtr m p + page_offset i" "KernelToPhysPtr a p = KernelToPhysPtr m p"
    using A(8) by (simp_all add: KernelToPhysPtr_def)
  have pr: "\<forall>j \<in> set is. page_ok a (?F j) \<and> \<not> is_free a (?F j) \<and> ?F j \<notin> set (owned a ks rs)"
  proof
    fix j assume j: "j \<in> set is"
    then have "?F j \<noteq> ?F i" using Cons.prems(6,7) by (auto simp: inj_on_def)
    moreover have g: "page_ok m (?F j)" "\<not> is_free m (?F j)" "?F j \<notin> set (owned m ks rs)" using Cons.prems(5) j by simp_all
    moreover have "?F j \<notin> set new" using A(10) g(2) by blast
    ultimately show "page_ok a (?F j) \<and> \<not> is_free a (?F j) \<and> ?F j \<notin> set (owned a ks rs)" using A(9) st by blast
  qed
  have wn: "\<forall>j \<in> set is. walk a 3 r (?V j) = None \<and> GET_PML_INDEX 3 (?V j) = 510"
  proof
    fix j assume j: "j \<in> set is"
    then have "\<not> same_page 3 (?V i) (?V j)" using Cons.prems(7,9) by auto
    then show "walk a 3 r (?V j) = None \<and> GET_PML_INDEX 3 (?V j) = 510" using A(3) r Cons.prems(8) j by simp
  qed
  have core: "g_CorePageTables a \<in> set ks" "child a (g_CorePageTables a) 510 = Some r" using A(4,5) Cons.prems(3,4) by auto
  obtain m' where m': "map_loop (KernelToPhysPtr a p) pos is a = Some m'" "mm_ok m' ks rs" "keeps_contents rs a m'"
    "g_CorePageTables m' = g_CorePageTables a" "child m' (g_CorePageTables a) 510 = Some r"
    "\<forall>s \<in> set rs. \<forall>w. walk m' 3 s w \<noteq> None \<longleftrightarrow> walk a 3 s w \<noteq> None \<or> s = r \<and> (\<exists>i \<in> set is. same_page 3 (?V i) w)"
    using Cons.IH [OF A(1) r core pr _ _ wn] Cons.prems(6,7,9,10) A(7) by (auto simp: inj_on_def)
  have "map_loop (KernelToPhysPtr m p) pos (i # is) m = Some m'" using a(1) m'(1) by (simp add: ph)
  moreover have "walk m' 3 s w \<noteq> None \<longleftrightarrow> walk m 3 s w \<noteq> None \<or> s = r \<and> (\<exists>i \<in> set (i # is). same_page 3 (?V i) w)" if "s \<in> set rs" for s w
    using m'(6) A(3) that by auto
  ultimately show ?case using m'(2-5) A(5) keeps_contents_trans [OF A(2) m'(3)] by auto
qed (auto simp: keeps_contents_def)

section \<open>Heap addresses\<close>

definition in_heap :: "u64 \<Rightarrow> bool" where
  "in_heap v \<longleftrightarrow> unat HeapBase \<le> unat v \<and> unat v < unat HeapBase + 2 ^ 39"

lemma HeapBase_val: "unat HeapBase = 0xFFFFFF0000000000"
  by (simp add: HeapBase_def)

lemma index_val: "unat (GET_PML_INDEX n v) = unat v div 2 ^ (12 + n * 9) mod 512"
proof -
  have "GET_PML_INDEX n v = take_bit 9 (drop_bit (12 + n * 9) v)"
    by (simp add: GET_PML_INDEX_def take_bit_eq_mask mask_numeral)
  moreover have "unat (drop_bit k v) = unat v div 2 ^ k" for k by (metis drop_bit_eq_div unat_drop_bit_eq)
  ultimately show ?thesis by (simp only: unat_take_bit) simp
qed

lemma in_heap_top: "in_heap v \<Longrightarrow> unat v div 2 ^ 39 = 0x1FFFFFE"
  by (rule div_nat_eqI) (simp_all add: in_heap_def HeapBase_val)

lemma heap_index: "in_heap v \<Longrightarrow> GET_PML_INDEX 3 v = 510"
proof -
  assume v: "in_heap v"
  have "unat (GET_PML_INDEX 3 v) = unat v div 2 ^ 39 mod 512" unfolding index_val by simp
  then have "unat (GET_PML_INDEX 3 v) = 510" unfolding in_heap_top [OF v] by simp
  then show ?thesis by (simp add: word_unat_eq_iff)
qed

lemma heap_same_page:
  assumes "in_heap v" and "in_heap w"
  shows "same_page 3 v w \<longleftrightarrow> unat v div 4096 = unat w div 4096"
proof -
  define x y where "x = unat v div 4096" and "y = unat w div 4096"
  have e: "unat a div 2 ^ 39 = unat a div 4096 div 512 div 512 div 512" "unat (GET_PML_INDEX 0 a) = unat a div 4096 mod 512"
    "unat (GET_PML_INDEX 1 a) = unat a div 4096 div 512 mod 512" "unat (GET_PML_INDEX 2 a) = unat a div 4096 div 512 div 512 mod 512" for a :: u64
    by (simp_all add: index_val div_mult2_eq [symmetric])
  have top: "x div 512 div 512 div 512 = y div 512 div 512 div 512"
    using in_heap_top [OF assms(1)] in_heap_top [OF assms(2)] unfolding e x_def y_def by (rule trans [OF _ sym])
  have "same_page 3 v w \<longleftrightarrow> y div 512 div 512 mod 512 = x div 512 div 512 mod 512 \<and> y div 512 mod 512 = x div 512 mod 512 \<and> y mod 512 = x mod 512"
    unfolding same_page_3 word_unat_eq_iff e x_def y_def ..
  also have "\<dots> \<longleftrightarrow> x = y" using top by (metis div_mod_decomp)
  finally show ?thesis by (simp add: x_def y_def)
qed

lemma unat_page_offset: "i < 2 ^ 19 \<Longrightarrow> unat (page_offset i) = 4096 * i"
proof -
  assume i: "i < 2 ^ 19"
  define x where "x = (4096 * of_nat i :: 32 word)"
  have u: "unat x = 4096 * i" using i by (simp add: x_def unat_word_ariths unat_of_nat)
  have "uint x = int (4096 * i)" unfolding u [symmetric] by simp
  then have "uint x < 2 ^ 31" using i by simp
  then have "sint x = uint x" 
    unfolding sint_uint by (intro signed_take_bit_int_eq_self order_trans [OF _ uint_ge_0]) simp_all
  then have "(scast x :: u64) = ucast x" by (simp only: scast_eq ucast_eq)
  then have "page_offset i = ucast x" by (simp only: page_offset_def x_def)
  moreover have "unat (ucast x :: u64) = unat x" using u i by (simp add: unsigned_ucast_eq take_bit_nat_eq_self_iff)
  ultimately show ?thesis using u by simp
qed

section \<open>The memory of the heap\<close>

text \<open>The kernel's tables lead to the root \<open>r\<close>, and the heap is mapped from its base to \<open>pos\<close>, and nowhere else.\<close>

definition heap_mem :: "ptr list \<Rightarrow> ptr list \<Rightarrow> ptr \<Rightarrow> u64 \<Rightarrow> mm \<Rightarrow> bool" where
  "heap_mem ks rs r pos m \<longleftrightarrow> mm_ok m ks rs \<and> r \<in> set rs \<and> g_CorePageTables m \<in> set ks \<and> child m (g_CorePageTables m) 510 = Some r \<and>
     aligned pos \<and> in_heap pos \<and> (\<forall>v. in_heap v \<longrightarrow> (walk m 3 r v \<noteq> None \<longleftrightarrow> unat v < unat pos))"

lemma child_free: "child (m \<lparr> mm_FreeList := fl \<rparr>) = child m"
proof (intro ext)
  have "PhysToKernelPtr (m \<lparr> mm_FreeList := fl \<rparr>) x = PhysToKernelPtr m x" for x by (simp add: PhysToKernelPtr_def)
  then show "child (m \<lparr> mm_FreeList := fl \<rparr>) t i = child m t i" for t i by (simp add: child_def read_entry_def Let_def)
qed

lemma tables_free:
  "walk (m \<lparr> mm_FreeList := fl \<rparr>) = walk m" "pages (m \<lparr> mm_FreeList := fl \<rparr>) = pages m"
  "owned (m \<lparr> mm_FreeList := fl \<rparr>) ks rs = owned m ks rs"
proof -
  have *: "walk (m \<lparr> mm_FreeList := fl \<rparr>) l t = walk m l t \<and> pages (m \<lparr> mm_FreeList := fl \<rparr>) l t = pages m l t" for l t
  proof (induction l arbitrary: t)
    case (Suc l)
    have b: "branch (m \<lparr> mm_FreeList := fl \<rparr>) l x = branch m l x" for x using Suc by (cases x) simp_all
    have "walk (m \<lparr> mm_FreeList := fl \<rparr>) (Suc l) t v = walk m (Suc l) t v" for v using Suc by (simp add: child_free)
    then show ?case by (auto simp: child_free b)
  qed auto
  show "walk (m \<lparr> mm_FreeList := fl \<rparr>) = walk m" using * by blast
  show pg: "pages (m \<lparr> mm_FreeList := fl \<rparr>) = pages m" using * by blast
  show "owned (m \<lparr> mm_FreeList := fl \<rparr>) ks rs = owned m ks rs" by (simp add: owned_def pg)
qed

lemma mm_ok_free:
  assumes ok: "mm_ok m ks rs" and inv: "alloc_inv (m \<lparr> mm_FreeList := fl \<rparr>)" and sub: "fl_avail fl \<subseteq> free_bytes m"
  shows "mm_ok (m \<lparr> mm_FreeList := fl \<rparr>) ks rs" and "keeps_contents rs m (m \<lparr> mm_FreeList := fl \<rparr>)"
proof -
  show "mm_ok (m \<lparr> mm_FreeList := fl \<rparr>) ks rs" using ok inv sub unfolding mm_ok_def tables_free by (auto simp: page_ok_def)
  show "keeps_contents rs m (m \<lparr> mm_FreeList := fl \<rparr>)"
    by (simp add: keeps_contents_def contents_at_def page_words_def read_entry_def tables_free cong: map_option_cong)
qed

lemma unat_add_offset: "unat p + 4096 * i < 2 ^ 64 \<Longrightarrow> i < 2 ^ 19 \<Longrightarrow> unat (p + page_offset i) = unat p + 4096 * i"
  by (simp add: unat_word_ariths unat_page_offset)

text \<open>The pages that were allocated together: whole pages that are in use nowhere else.\<close>

lemma new_frames:
  assumes ok: "mm_ok m ks rs" and p: "aligned p" "seg_ok p (n * 4096)" "seg p (n * 4096) \<subseteq> free_bytes m" and n: "unat n < 2 ^ 19"
    and a: "a = m \<lparr> mm_FreeList := fl \<rparr>" "fl_avail fl = free_bytes m - seg p (n * 4096)"
  shows "\<forall>i \<in> set [0..<unat n]. page_ok a (p + page_offset i) \<and> \<not> is_free a (p + page_offset i) \<and> p + page_offset i \<notin> set (owned a ks rs)"
    and "inj_on (\<lambda>i. p + page_offset i) (set [0..<unat n])" and "card (free_bytes a) = card (free_bytes m) - unat n * 4096"
proof -
  have un: "unat (n * 4096) = unat n * 4096" using n by (simp add: unat_word_ariths)
  have uf: "unat (p + page_offset i) = unat p + 4096 * i" if "i < unat n" for i
    using that n p(2) un by (intro unat_add_offset) (auto simp: seg_ok_def)
  have "page_ok a (p + page_offset i) \<and> \<not> is_free a (p + page_offset i) \<and> p + page_offset i \<notin> set (owned a ks rs)" if i: "i < unat n" for i
  proof -
    have s: "unat (p + page_offset i) \<in> seg p (n * 4096)" using i by (simp add: uf [OF i] seg_def un)
    have "aligned (p + page_offset i)" using p(1) uf [OF i] by (simp add: aligned_iff)
    then have "page_ok m (p + page_offset i)" using ok s p(3) by (auto simp: mm_ok_def alloc_inv_def)
    moreover have "p + page_offset i \<notin> set (owned m ks rs)" using s p(3) ok by (auto simp: mm_ok_def)
    ultimately show ?thesis using s a(2) unfolding a(1) tables_free by (auto simp: page_ok_def)
  qed
  then show "\<forall>i \<in> set [0..<unat n]. page_ok a (p + page_offset i) \<and> \<not> is_free a (p + page_offset i) \<and> p + page_offset i \<notin> set (owned a ks rs)"
    by simp
  show "inj_on (\<lambda>i. p + page_offset i) (set [0..<unat n])"
    by (rule inj_onI) (metis add_left_cancel atLeastLessThan_iff mult_cancel1 set_upt uf zero_neq_numeral)
  have "finite (seg p (n * 4096))" "card (seg p (n * 4096)) = unat n * 4096" by (simp_all add: seg_def un)
  then show "card (free_bytes a) = card (free_bytes m) - unat n * 4096" using p(3) a by (simp add: card_Diff_subset)
qed

lemma grow_heap:
  assumes H: "heap_mem ks rs r pos m" and n: "n \<noteq> 0" "unat n < 2 ^ 19" and room: "unat pos + unat n * 4096 < unat HeapBase + 2 ^ 39"
    and q: "seg_ok q (n * 4096)" "seg q (n * 4096) \<subseteq> free_bytes m" and mem: "3 * 4096 * unat n \<le> card (free_bytes m)"
  shows "\<exists>g a m'. AllocatePages n m = Some (g, a) \<and> map_loop g pos [0..<unat n] a = Some m' \<and>
    heap_mem ks rs r (pos + n * 4096) m' \<and> keeps_contents rs m m'"
proof -
  have ok: "mm_ok m ks rs" and r: "r \<in> set rs" and core: "g_CorePageTables m \<in> set ks" "child m (g_CorePageTables m) 510 = Some r"
    and pos: "aligned pos" "in_heap pos" and mapped: "\<And>v. in_heap v \<Longrightarrow> walk m 3 r v \<noteq> None \<longleftrightarrow> unat v < unat pos"
    using H by (simp_all add: heap_mem_def)
  have un: "unat (n * 4096) = unat n * 4096" using n(2) by (simp add: unat_word_ariths)
  have inv: "alloc_inv m" using ok by (simp add: mm_ok_def)
  obtain p fl where p: "AllocatePages n m = Some (KernelToPhysPtr m p, m \<lparr> mm_FreeList := fl \<rparr>)" "aligned p" "seg_ok p (n * 4096)"
    "seg p (n * 4096) \<subseteq> free_bytes m" "alloc_inv (m \<lparr> mm_FreeList := fl \<rparr>)" "fl_avail fl = free_bytes m - seg p (n * 4096)"
    using allocate_many [OF inv n(1) _ q] n(2) by auto
  define a where "a = m \<lparr> mm_FreeList := fl \<rparr>"
  note A = mm_ok_free [OF ok p(5), folded a_def]
  have oka: "mm_ok a ks rs" "keeps_contents rs m a" using A p(6) by auto
  have wa: "walk a = walk m" and ca: "child a = child m" by (simp_all add: a_def tables_free child_free)
  have uv: "unat (pos + page_offset i) = unat pos + 4096 * i" if "i < unat n" for i
    using that n(2) room by (intro unat_add_offset) (auto simp: HeapBase_val)
  have hv: "in_heap (pos + page_offset i)" if "i < unat n" for i using uv [OF that] that room pos(2) by (auto simp: in_heap_def)
  have apart: "\<forall>i \<in> set [0..<unat n]. \<forall>j \<in> set [0..<unat n]. i \<noteq> j \<longrightarrow> \<not> same_page 3 (pos + page_offset i) (pos + page_offset j)"
    by (simp add: heap_same_page hv uv)
  have new: "\<forall>i \<in> set [0..<unat n]. walk a 3 r (pos + page_offset i) = None \<and> GET_PML_INDEX 3 (pos + page_offset i) = 510"
    using mapped [OF hv] heap_index [OF hv] uv unfolding wa by simp
  note N = new_frames [OF ok p(2-4) n(2) a_def p(6)]
  have cd: "2 * 4096 * length [0..<unat n] \<le> card (free_bytes a)" using mem N(3) by simp
  have corea: "g_CorePageTables a \<in> set ks" "child a (g_CorePageTables a) 510 = Some r" using core by (simp_all add: ca) (simp_all add: a_def)
  obtain m' where m': "map_loop (KernelToPhysPtr a p) pos [0..<unat n] a = Some m'" "mm_ok m' ks rs" "keeps_contents rs a m'"
    "g_CorePageTables m' = g_CorePageTables a" "child m' (g_CorePageTables a) 510 = Some r"
    "\<forall>s \<in> set rs. \<forall>w. walk m' 3 s w \<noteq> None \<longleftrightarrow> walk a 3 s w \<noteq> None \<or> s = r \<and> (\<exists>i \<in> set [0..<unat n]. same_page 3 (pos + page_offset i) w)"
    using map_loop_maps [OF oka(1) r corea N(1,2) distinct_upt new apart cd] by blast
  have up: "unat (pos + n * 4096) = unat pos + unat n * 4096" using room by (simp add: unat_word_ariths un HeapBase_val)
  have "walk m' 3 r v \<noteq> None \<longleftrightarrow> unat v < unat (pos + n * 4096)" if v: "in_heap v" for v
  proof -
    obtain k where k: "unat pos = 4096 * k" using pos(1) by (auto simp: aligned_iff)
    have "(\<exists>i \<in> set [0..<unat n]. same_page 3 (pos + page_offset i) v) \<longleftrightarrow> (\<exists>i < unat n. k + i = unat v div 4096)"
      using heap_same_page [OF hv v] uv by (auto simp: k Bex_def)
    also have "\<dots> \<longleftrightarrow> k \<le> unat v div 4096 \<and> unat v div 4096 < k + unat n" by (auto intro!: exI [of _ "unat v div 4096 - k"])
    finally show ?thesis using m'(6) r mapped [OF v] unfolding wa up k by auto
  qed
  moreover have "aligned (pos + n * 4096)" "in_heap (pos + n * 4096)" using pos room by (auto simp: aligned_iff up in_heap_def)
  ultimately have "heap_mem ks rs r (pos + n * 4096) m'" using m'(2,4,5) r core by (simp add: heap_mem_def a_def)
  moreover have "KernelToPhysPtr a p = KernelToPhysPtr m p" by (simp add: a_def KernelToPhysPtr_def)
  ultimately show ?thesis using p(1) m'(1) keeps_contents_trans [OF oka(2) m'(3)] unfolding a_def by auto
qed

section \<open>Words of the heap\<close>

definition word_no :: "u64 \<Rightarrow> nat" where
  "word_no v = unat v mod 4096 div 8"

lemma word_no: "word_no v < 512" "8 dvd unat v \<Longrightarrow> v AND 0xFFF = 8 * of_nat (word_no v)"
proof -
  show w: "word_no v < 512" by (simp add: word_no_def less_mult_imp_div_less)
  assume d: "8 dvd unat v"
  have "v AND 0xFFF = take_bit 12 v" by (simp add: take_bit_eq_mask mask_numeral)
  then have "unat (v AND 0xFFF) = unat v mod 4096" by (simp only: unat_take_bit) simp
  also have "\<dots> = 8 * word_no v" using d by (simp add: word_no_def dvd_mod)
  finally show "v AND 0xFFF = 8 * of_nat (word_no v)" unfolding word_unat_eq_iff entry_word [OF w] .
qed

lemma heap_walk:
  assumes "heap_mem ks rs r pos m" and "in_heap v"
  shows "walk m 4 (g_CorePageTables m) v = walk m 3 r v"
proof -
  have "child m (g_CorePageTables m) (unat (GET_PML_INDEX 3 v)) = Some r" using assms by (simp add: heap_index heap_mem_def)
  moreover have "(4 :: nat) = Suc 3" by simp
  ultimately show ?thesis by (simp only: walk.simps Option.bind.simps)
qed

lemma kload_heap:
  assumes "heap_mem ks rs r pos m" and "in_heap v" and "8 dvd unat v"
  shows "kload m v = map_option (\<lambda>f. read_entry m f (of_nat (word_no v))) (walk m 3 r v)"
  using word_no(2) [OF assms(3)] by (simp add: kload_def kword_def heap_walk [OF assms(1,2)] option.map_comp comp_def read_entry_def)

lemma kload_keeps:
  assumes "heap_mem ks rs r pos m" and "heap_mem ks rs r pos' m'" and "keeps_contents rs m m'"
    and v: "in_heap v" "8 dvd unat v" "unat v < unat pos"
  shows "kload m' v = kload m v"
proof -
  have "r \<in> set rs" "walk m 3 r v \<noteq> None" using assms(1) v by (simp_all add: heap_mem_def)
  then have k: "walk m' 3 r v = walk m 3 r v" "contents_at m' r v = contents_at m r v" using assms(3) by (simp_all add: keeps_contents_def)
  obtain f where f: "walk m 3 r v = Some f" using \<open>walk m 3 r v \<noteq> None\<close> by blast
  then have "page_words m' f ! word_no v = page_words m f ! word_no v" using k by (simp add: contents_at_def)
  then have "read_entry m' f (of_nat (word_no v)) = read_entry m f (of_nat (word_no v))" using word_no(1) by (simp add: page_words_def)
  then show ?thesis unfolding kload_heap [OF assms(1) v(1,2)] kload_heap [OF assms(2) v(1,2)] k(1) f by simp
qed

text \<open>Storing a word in the heap changes this word and nothing else.\<close>

lemma kstore_heap:
  assumes H: "heap_mem ks rs r pos m" and v: "in_heap v" "8 dvd unat v" "unat v < unat pos"
  shows "\<exists>m'. kstore m v x = Some m' \<and> heap_mem ks rs r pos m' \<and> free_bytes m' = free_bytes m \<and>
    (\<forall>w. in_heap w \<longrightarrow> 8 dvd unat w \<longrightarrow> kload m' w = (if w = v then Some x else kload m w)) \<and>
    (\<forall>s \<in> set rs. s \<noteq> r \<longrightarrow> contents_at m' s = contents_at m s)"
proof -
  have ok: "mm_ok m ks rs" and r: "r \<in> set rs" and core: "g_CorePageTables m \<in> set ks" "child m (g_CorePageTables m) 510 = Some r"
    using H by (simp_all add: heap_mem_def)
  obtain f where f: "walk m 3 r v = Some f" using H v by (auto simp: heap_mem_def)
  note T = mm_ok_root [OF ok r] and F = frames_not_tables [OF mm_ok_root(2) [OF ok r] f]
  have af: "aligned f" using tree_ok_aligned [OF T(2)] F by blast
  define m' where "m' = write_entry f (of_nat (word_no v)) x m"
  have st: "kstore m v x = Some m'"
    using f word_no(2) [OF v(2)] by (simp add: kstore_def kword_def heap_walk [OF H v(1)] m'_def write_entry_def)
  have ch: "changes {f} m m'" unfolding m'_def by (rule changes_write [OF af word_no(1)])
  have other: "f \<notin> set (pages m 3 s)" if "s \<in> set rs" "s \<noteq> r" for s using T(4) [OF that] F by blast
  have fr: "pages m' 3 s = pages m 3 s \<and> walk m' 3 s = walk m 3 s" if s: "s \<in> set rs" for s
    by (rule data_frame [OF ch mm_ok_root(2) [OF ok s]]) (use other [OF s] F tables_pages [of m 3 s] in blast)
  have eq: "map (pages m' 3) rs = map (pages m 3) rs" using fr by simp
  have ow: "owned m' ks rs = owned m ks rs" by (simp only: owned_def eq)
  have inv: "alloc_inv m'" using alloc_inv_changes [OF T(1) ch] by (simp add: m'_def)
  have ok': "mm_ok m' ks rs" using ok inv page_ok_changes [OF ch] unfolding mm_ok_def ow by (simp add: m'_def)
  have fk: "f \<notin> set ks" using T(5) F by blast
  have "aligned (g_CorePageTables m)" using ok core(1) by (auto simp: mm_ok_def owned_def page_ok_def)
  then have c': "child m' (g_CorePageTables m) 510 = Some r" using changes_child [OF ch, of "g_CorePageTables m" 510] fk core by auto
  have H': "heap_mem ks rs r pos m'" using H ok' c' fr r by (simp add: heap_mem_def m'_def)
  have ld: "kload m' w = (if w = v then Some x else kload m w)" if w: "in_heap w" "8 dvd unat w" for w
  proof (cases "walk m 3 r w")
    case None
    then have "w \<noteq> v" using f by auto
    then show ?thesis unfolding kload_heap [OF H w] kload_heap [OF H' w] using fr r None by simp
  next
    case (Some g)
    have ag: "aligned g" using tree_ok_aligned [OF T(2)] frames_not_tables [OF T(2) Some] by blast
    have "g = f \<longleftrightarrow> same_page 3 v w" using walk_inj [OF T(2) f, of w] walk_same_page [of 3 v w m r] Some f by auto
    then have gf: "g = f \<longleftrightarrow> unat w div 4096 = unat v div 4096" using heap_same_page [OF v(1) w(1)] by auto
    have nm: "word_no w = word_no v \<longleftrightarrow> unat w mod 4096 = unat v mod 4096"
    proof -
      have "8 dvd unat w mod 4096" "8 dvd unat v mod 4096" using w(2) v(2) by (simp_all add: dvd_mod)
      then show ?thesis unfolding word_no_def by auto
    qed
    have "w = v \<longleftrightarrow> unat w div 4096 = unat v div 4096 \<and> unat w mod 4096 = unat v mod 4096" by (metis div_mult_mod_eq word_unat_eq_iff)
    then have eq: "g = f \<and> word_no w = word_no v \<longleftrightarrow> w = v" unfolding gf nm by (rule sym)
    have "read_entry m' g (of_nat (word_no w)) = (if g = f \<and> word_no w = word_no v then x else read_entry m g (of_nat (word_no w)))"
      using read_write_entry [OF af word_no(1) word_no(1), of v x m w] changes_read [OF ch ag _ word_no(1), of w]
      by (cases "g = f") (simp_all add: m'_def)
    then show ?thesis unfolding kload_heap [OF H w] kload_heap [OF H' w] eq using fr r Some by simp
  qed
  have "contents_at m' s w = contents_at m s w" if s: "s \<in> set rs" "s \<noteq> r" for s w
  proof (cases "walk m 3 s w")
    case (Some g)
    have "g \<in> set (pages m 3 s)" using frames_not_tables [OF mm_ok_root(2) [OF ok s(1)] Some] by blast
    then have "page_words m' g = page_words m g"
      using page_words_frame [OF ch] other [OF s] tree_ok_aligned [OF mm_ok_root(2) [OF ok s(1)]] by blast
    then show ?thesis using fr [OF s(1)] Some by (simp add: contents_at_def)
  qed (use fr [OF s(1)] in \<open>simp add: contents_at_def\<close>)
  then show ?thesis using st H' ld by (auto simp: m'_def)
qed

section \<open>Well-formed heaps\<close>

text \<open>\<open>bs\<close> are the blocks in use: base and size of each, header included.\<close>

definition kblock_ok :: "kheap \<Rightarrow> ptr \<Rightarrow> u64 \<Rightarrow> bool" where
  "kblock_ok h b n \<longleftrightarrow> seg_ok b n \<and> 64 dvd unat b \<and> 64 dvd unat n \<and> seg b n \<subseteq> {unat HeapBase ..< unat (kh_HeapPos h)} \<and>
     seg b n \<inter> fl_avail (kh_FreeList h) = {} \<and> kload (kh_mm h) b = Some n"

definition units :: "nat set \<Rightarrow> bool" where
  "units A \<longleftrightarrow> (\<forall>x y. x div 64 = y div 64 \<longrightarrow> x \<in> A \<longrightarrow> y \<in> A)"

definition kheap_ok :: "ptr list \<Rightarrow> ptr list \<Rightarrow> ptr \<Rightarrow> (ptr \<times> u64) list \<Rightarrow> kheap \<Rightarrow> bool" where
  "kheap_ok ks rs r bs h \<longleftrightarrow> heap_mem ks rs r (kh_HeapPos h) (kh_mm h) \<and> fl_inv (kh_FreeList h) \<and>
     fl_avail (kh_FreeList h) \<subseteq> {unat HeapBase ..< unat (kh_HeapPos h)} \<and>
     units (fl_avail (kh_FreeList h)) \<and>
     (\<forall>(b, n) \<in> set bs. kblock_ok h b n) \<and> sorted_wrt (\<lambda>(b, n) (c, k). seg b n \<inter> seg c k = {}) bs"

lemma seg_units: "64 dvd unat b \<Longrightarrow> 64 dvd unat n \<Longrightarrow> x \<in> seg b n \<longleftrightarrow> x div 64 \<in> {unat b div 64 ..< unat b div 64 + unat n div 64}"
  by (elim dvdE) (auto simp: seg_def)

lemma units_seg:
  assumes "units A" and "64 dvd unat b" and "64 dvd unat n"
  shows "units (A - seg b n)" and "units (A \<union> seg b n)"
  using assms(1) unfolding units_def Diff_iff Un_iff seg_units [OF assms(2,3)] by metis+

lemma kblock_base:
  assumes "heap_mem ks rs r (kh_HeapPos h) (kh_mm h)" and "kblock_ok h b n"
  shows "in_heap b" and "8 dvd unat b" and "unat b < unat (kh_HeapPos h)"
proof -
  have "unat b \<in> seg b n" using assms(2) unat_in_seg by (simp add: kblock_ok_def)
  then have b: "unat HeapBase \<le> unat b" "unat b < unat (kh_HeapPos h)" using assms(2) by (auto simp: kblock_ok_def)
  then show "in_heap b" "unat b < unat (kh_HeapPos h)" using assms(1) by (auto simp: in_heap_def heap_mem_def)
  have "(8 :: nat) dvd 64" by simp
  then show "8 dvd unat b" using assms(2) unfolding kblock_ok_def by (meson dvd_trans)
qed

lemma kernel_ReserveNew_correct:
  assumes ok: "kheap_ok ks rs r bs h" and sz: "sz \<noteq> 0" "unat sz + 4095 < 2 ^ 31" and room: "unat (kh_HeapPos h) + unat sz + 4096 < unat HeapBase + 2 ^ 39"
    and q: "seg_ok q ((sz + 4095) div 4096 * 4096)" "seg q ((sz + 4095) div 4096 * 4096) \<subseteq> free_bytes (kh_mm h)"
    and mem: "3 * (unat sz + 4095) \<le> card (free_bytes (kh_mm h))"
  shows "\<exists>h' g. kernel_ReserveNew sz h = Some h' \<and> kheap_ok ks rs r bs h' \<and> FindFree (kh_FreeList h') sz = Some g \<and> g \<noteq> nullptr \<and>
    keeps_contents rs (kh_mm h) (kh_mm h') \<and> unat (kh_HeapPos h) \<le> unat (kh_HeapPos h')"
proof -
  define n where "n = (sz + 4095) div 4096"
  have u: "unat (sz + 4095) = unat sz + 4095" using sz(2) by (simp add: unat_word_ariths)
  have un: "unat n = (unat sz + 4095) div 4096" by (simp add: n_def unat_div u)
  have s0: "unat sz \<noteq> 0" using sz(1) by (simp add: unat_eq_0)
  have le: "unat n * 4096 \<le> unat sz + 4095" "unat sz \<le> unat n * 4096" "0 < unat n" "unat n < 2 ^ 19"
    using s0 sz(2) unfolding un by (auto simp: div_greater_zero_iff)
  have ul: "unat (n * 4096) = unat n * 4096" using le(4) by (simp add: unat_word_ariths)
  have H: "heap_mem ks rs r (kh_HeapPos h) (kh_mm h)" and inv: "fl_inv (kh_FreeList h)"
    and av: "fl_avail (kh_FreeList h) \<subseteq> {unat HeapBase ..< unat (kh_HeapPos h)}" using ok by (simp_all add: kheap_ok_def)
  have n0: "n \<noteq> 0" using le(3) by auto
  obtain g a m where m: "AllocatePages n (kh_mm h) = Some (g, a)" "map_loop g (kh_HeapPos h) [0..<unat n] a = Some m"
    "heap_mem ks rs r (kh_HeapPos h + n * 4096) m" "keeps_contents rs (kh_mm h) m"
    using grow_heap [OF H n0 le(4) _ q [folded n_def]] le room mem by auto
  have pos: "unat HeapBase \<le> unat (kh_HeapPos h)" "aligned (kh_HeapPos h)" using H by (simp_all add: heap_mem_def in_heap_def)
  have p0: "kh_HeapPos h \<noteq> nullptr" using pos(1) by (auto simp: HeapBase_val)
  have so: "seg_ok (kh_HeapPos h) (n * 4096)" "seg_ok (kh_HeapPos h) sz"
    using p0 le room sz(1) n0 by (auto simp: seg_ok_def ul HeapBase_val simp flip: unat_eq_0)
  have dj: "seg (kh_HeapPos h) (n * 4096) \<inter> fl_avail (kh_FreeList h) = {}" using av by (fastforce simp: seg_def)
  obtain fl where fl: "MarkFree (kh_FreeList h) (kh_HeapPos h) (n * 4096) = Some fl" "fl_inv fl"
    "fl_avail fl = fl_avail (kh_FreeList h) \<union> seg (kh_HeapPos h) (n * 4096)" using kfl.free_law [OF inv so(1) dj] by blast
  define h' where "h' = \<lparr> kh_FreeList = fl, kh_HeapPos = kh_HeapPos h + n * 4096, kh_mm = m \<rparr>"
  have res: "kernel_ReserveNew sz h = Some h'" using m(1,2) fl(1) by (simp add: kernel_ReserveNew_def h'_def Let_def flip: n_def)
  have up: "unat (kh_HeapPos h + n * 4096) = unat (kh_HeapPos h) + unat n * 4096" using room le(1) by (simp add: unat_word_ariths ul HeapBase_val)
  have "4096 dvd unat (kh_HeapPos h)" using pos(2) by (simp add: aligned_iff)
  then have d: "64 dvd unat (kh_HeapPos h)" "64 dvd unat (n * 4096)" by (auto simp: ul intro: dvd_trans [of 64 4096])
  have bl: "kblock_ok h' b k" if "kblock_ok h b k" for b k
    using that kload_keeps [OF H m(3,4) kblock_base [OF H that]] fl(3) unfolding kblock_ok_def h'_def by (auto simp: up seg_def disjoint_iff)
  have sel: "kh_FreeList h' = fl" "kh_HeapPos h' = kh_HeapPos h + n * 4096" "kh_mm h' = m" by (simp_all add: h'_def)
  have av': "fl_avail fl \<subseteq> {unat HeapBase ..< unat (kh_HeapPos h + n * 4096)}" using av fl(3) pos(1) by (auto simp: seg_def ul up)
  have units: "units (fl_avail fl)"
    unfolding fl(3) by (rule units_seg(2) [OF _ d]) (use ok in \<open>simp add: kheap_ok_def\<close>)
  have bls: "\<forall>(b, n) \<in> set bs. kblock_ok h' b n" "sorted_wrt (\<lambda>(b, n) (c, k). seg b n \<inter> seg c k = {}) bs" using ok bl by (auto simp: kheap_ok_def)
  have "kheap_ok ks rs r bs h'" unfolding kheap_ok_def sel using m(3) fl(2) av' units bls by (intro conjI)
  moreover have "seg (kh_HeapPos h) sz \<subseteq> fl_avail fl" using fl(3) le(2) by (auto simp: seg_def ul)
  then have "\<exists>g. FindFree fl sz = Some g \<and> g \<noteq> nullptr" using kfl.find_iff [OF fl(2) sz(1)] so(2) by blast
  ultimately show ?thesis using res m(4) up by (auto simp: h'_def)
qed

lemma unat_kernel_block_size:
  assumes "unat n + 127 < 2 ^ 64"
  shows "unat (kernel_block_size n) = (unat n + 63) div 64 * 64 + 64"
proof -
  have "unat (n + 63) = unat n + 63" using assms by (simp add: unat_word_ariths)
  moreover have "(unat n + 63) div 64 * 64 \<le> unat n + 63" by (rule div_times_less_eq_dividend)
  ultimately show ?thesis using assms by (simp add: kernel_block_size_def unat_div unat_word_ariths)
qed

text \<open>The second half of an allocation: the segment that was found becomes a block with a header.\<close>

lemma take_kernel_block:
  assumes ok: "kheap_ok ks rs r bs h" and g: "FindFree (kh_FreeList h) sz = Some g" "g \<noteq> nullptr" and sz: "sz \<noteq> 0" "64 dvd unat sz"
  shows "\<exists>fl mm. MarkUsed (kh_FreeList h) g sz = Some fl \<and> kstore (kh_mm h) g sz = Some mm \<and>
    kheap_ok ks rs r ((g, sz) # bs) (h \<lparr> kh_FreeList := fl, kh_mm := mm \<rparr>) \<and>
    (\<forall>w. in_heap w \<longrightarrow> 8 dvd unat w \<longrightarrow> w \<noteq> g \<longrightarrow> kload mm w = kload (kh_mm h) w) \<and>
    (\<forall>s \<in> set rs. s \<noteq> r \<longrightarrow> contents_at mm s = contents_at (kh_mm h) s)"
proof -
  have H: "heap_mem ks rs r (kh_HeapPos h) (kh_mm h)" and inv: "fl_inv (kh_FreeList h)"
    and av: "fl_avail (kh_FreeList h) \<subseteq> {unat HeapBase ..< unat (kh_HeapPos h)}"
    and un: "units (fl_avail (kh_FreeList h))"
    and bl: "\<And>b n. (b, n) \<in> set bs \<Longrightarrow> kblock_ok h b n" and srt: "sorted_wrt (\<lambda>(b, n) (c, k). seg b n \<inter> seg c k = {}) bs"
    using ok by (auto simp: kheap_ok_def)
  note fits = kfl.find_fits [OF inv sz(1) g]
  have dg: "64 dvd unat g" by (rule FindFree_multiple [OF inv un [unfolded units_def] g])
  obtain fl where fl: "MarkUsed (kh_FreeList h) g sz = Some fl" "fl_inv fl" "fl_avail fl = fl_avail (kh_FreeList h) - seg g sz"
    using kfl.used_law [OF inv sz(1) g] by blast
  have "unat g \<in> seg g sz" using fits unat_in_seg by blast
  then have gr: "unat HeapBase \<le> unat g" "unat g < unat (kh_HeapPos h)" using fits av by auto
  then have ih: "in_heap g" using H by (auto simp: heap_mem_def in_heap_def)
  have d8: "8 dvd unat g" using dg by (rule dvd_trans [rotated]) simp
  obtain mm where mm: "kstore (kh_mm h) g sz = Some mm" "heap_mem ks rs r (kh_HeapPos h) mm"
    "\<And>w. in_heap w \<Longrightarrow> 8 dvd unat w \<Longrightarrow> kload mm w = (if w = g then Some sz else kload (kh_mm h) w)"
    "\<forall>s \<in> set rs. s \<noteq> r \<longrightarrow> contents_at mm s = contents_at (kh_mm h) s"
    using kstore_heap [OF H ih d8 gr(2)] by blast
  define h' where "h' = h \<lparr> kh_FreeList := fl, kh_mm := mm \<rparr>"
  have sel: "kh_FreeList h' = fl" "kh_HeapPos h' = kh_HeapPos h" "kh_mm h' = mm" by (simp_all add: h'_def)
  have apart: "seg g sz \<inter> seg b n = {}" if "(b, n) \<in> set bs" for b n using bl [OF that] fits by (auto simp: kblock_ok_def)
  have "kblock_ok h' b n" if b: "(b, n) \<in> set bs" for b n
  proof -
    note B = bl [OF b] and base = kblock_base [OF H bl [OF b]]
    have "unat b \<in> seg b n" using B unat_in_seg by (simp add: kblock_ok_def)
    then have "b \<noteq> g" using apart [OF b] \<open>unat g \<in> seg g sz\<close> by auto
    then have "kload mm b = kload (kh_mm h) b" using mm(3) [OF base(1,2)] by simp
    then show ?thesis using B fl(3) unfolding kblock_ok_def sel by auto
  qed
  moreover have "kblock_ok h' g sz" using fits dg sz(2) av mm(3) [OF ih d8] fl(3) unfolding kblock_ok_def sel by auto
  ultimately have bl': "\<forall>(b, n) \<in> set ((g, sz) # bs). kblock_ok h' b n" by auto
  have units: "units (fl_avail fl)"
    unfolding fl(3) by (rule units_seg(1) [OF un dg sz(2)])
  have av': "fl_avail fl \<subseteq> {unat HeapBase ..< unat (kh_HeapPos h)}" using av fl(3) by blast
  have srt': "sorted_wrt (\<lambda>(b, n) (c, k). seg b n \<inter> seg c k = {}) ((g, sz) # bs)" using srt apart by auto
  have "kheap_ok ks rs r ((g, sz) # bs) h'" unfolding kheap_ok_def sel using mm(2) fl(2) av' units bl' srt' by (intro conjI)
  then show ?thesis using fl(1) mm(1,3,4) unfolding h'_def by auto
qed

lemma block_words:
  assumes "kheap_ok ks rs r bs h" and "(b, k) \<in> set bs" and "unat w \<in> seg b k"
  shows "in_heap w" and "unat w < unat (kh_HeapPos h)" and "unat w \<notin> fl_avail (kh_FreeList h)"
proof -
  have B: "kblock_ok h b k" and H: "in_heap (kh_HeapPos h)" using assms(1,2) by (auto simp: kheap_ok_def heap_mem_def)
  then show "in_heap w" "unat w < unat (kh_HeapPos h)" "unat w \<notin> fl_avail (kh_FreeList h)"
    using assms(3) by (auto simp: kblock_ok_def in_heap_def)
qed

lemma kernel_Allocate_block:
  assumes ok: "kheap_ok ks rs r bs h" and n: "unat n < 2 ^ 30" and room: "unat (kh_HeapPos h) + unat n + 8192 < unat HeapBase + 2 ^ 39"
    and q: "seg_ok q ((kernel_block_size n + 4095) div 4096 * 4096)" "seg q ((kernel_block_size n + 4095) div 4096 * 4096) \<subseteq> free_bytes (kh_mm h)"
    and mem: "3 * (unat n + 8192) \<le> card (free_bytes (kh_mm h))"
  obtains g h1 h' where "kernel_Allocate n h = Some (g + 64, h')" "kheap_ok ks rs r ((g, kernel_block_size n) # bs) h'"
    "kheap_ok ks rs r bs h1" "keeps_contents rs (kh_mm h) (kh_mm h1)" "unat (kh_HeapPos h) \<le> unat (kh_HeapPos h1)" "unat g \<in> fl_avail (kh_FreeList h1)"
    "\<forall>w. in_heap w \<longrightarrow> 8 dvd unat w \<longrightarrow> w \<noteq> g \<longrightarrow> kload (kh_mm h') w = kload (kh_mm h1) w"
    "\<forall>s \<in> set rs. s \<noteq> r \<longrightarrow> contents_at (kh_mm h') s = contents_at (kh_mm h1) s"
proof -
  note found = that
  let ?sz = "kernel_block_size n"
  have u: "unat ?sz = (unat n + 63) div 64 * 64 + 64" by (rule unat_kernel_block_size) (use n in simp)
  have le: "(unat n + 63) div 64 * 64 \<le> unat n + 63" by (rule div_times_less_eq_dividend)
  have "unat ?sz \<noteq> 0" using u by simp
  then have sz: "?sz \<noteq> 0" by (metis unat_0)
  have d: "64 dvd unat ?sz" by (simp add: u)
  have small: "unat ?sz + 4095 < 2 ^ 31" "unat (kh_HeapPos h) + unat ?sz + 4096 < unat HeapBase + 2 ^ 39" "3 * (unat ?sz + 4095) \<le> card (free_bytes (kh_mm h))"
    using u le n room mem by (auto simp: HeapBase_val)
  have "fl_inv (kh_FreeList h)" using ok by (simp add: kheap_ok_def)
  then obtain g where g: "FindFree (kh_FreeList h) ?sz = Some g" using kfl.find_returns by blast
  have fin: thesis if h1: "kheap_ok ks rs r bs h1" "FindFree (kh_FreeList h1) ?sz = Some g1" "g1 \<noteq> nullptr"
      "keeps_contents rs (kh_mm h) (kh_mm h1)" "unat (kh_HeapPos h) \<le> unat (kh_HeapPos h1)"
      "(if g = nullptr then do { h \<leftarrow> kernel_ReserveNew ?sz h; g \<leftarrow> FindFree (kh_FreeList h) ?sz; Some (g, h) } else Some (g, h)) = Some (g1, h1)" for g1 h1
  proof -
    obtain fl mm where t: "MarkUsed (kh_FreeList h1) g1 ?sz = Some fl" "kstore (kh_mm h1) g1 ?sz = Some mm"
      "kheap_ok ks rs r ((g1, ?sz) # bs) (h1 \<lparr> kh_FreeList := fl, kh_mm := mm \<rparr>)"
      "\<forall>w. in_heap w \<longrightarrow> 8 dvd unat w \<longrightarrow> w \<noteq> g1 \<longrightarrow> kload mm w = kload (kh_mm h1) w"
      "\<forall>s \<in> set rs. s \<noteq> r \<longrightarrow> contents_at mm s = contents_at (kh_mm h1) s"
      using take_kernel_block [OF h1(1-3) sz d] by blast
    have "kernel_Allocate n h = Some (g1 + 64, h1 \<lparr> kh_FreeList := fl, kh_mm := mm \<rparr>)"
      unfolding kernel_Allocate_def Let_def g using h1(6) t(1,2) h1(3) by simp
    moreover have "fl_inv (kh_FreeList h1)" using h1(1) by (simp add: kheap_ok_def)
    then have "unat g1 \<in> fl_avail (kh_FreeList h1)" using kfl.find_fits [OF _ sz h1(2,3)] unat_in_seg by blast
    ultimately show thesis using found [of g1 "h1 \<lparr> kh_FreeList := fl, kh_mm := mm \<rparr>" h1] h1(1,4,5) t(3-5) by simp
  qed
  show thesis
  proof (cases "g = nullptr")
    case True
    obtain h1 g1 where "kernel_ReserveNew ?sz h = Some h1" "kheap_ok ks rs r bs h1" "FindFree (kh_FreeList h1) ?sz = Some g1" "g1 \<noteq> nullptr"
      "keeps_contents rs (kh_mm h) (kh_mm h1)" "unat (kh_HeapPos h) \<le> unat (kh_HeapPos h1)"
      using kernel_ReserveNew_correct [OF ok sz small(1,2) q small(3)] by blast
    then show thesis using fin [of h1 g1] True by simp
  next
    case False
    have "keeps_contents rs (kh_mm h) (kh_mm h)" by (simp add: keeps_contents_def)
    then show thesis using fin [of h g] ok g False by simp
  qed
qed

text \<open>
  C7: Allocation from the kernel's heap returns a block of at least the requested size whose memory is mapped and belongs to
  no other block and no free segment, with its size in its header, whether it finds a free segment or takes new pages
  from the memory manager and maps them. No word of another block changes, and no other address space.
\<close>

theorem kernel_Allocate_gives_block:
  assumes ok: "kheap_ok ks rs r bs h" and n: "unat n < 2 ^ 30" and room: "unat (kh_HeapPos h) + unat n + 8192 < unat HeapBase + 2 ^ 39"
    and q: "seg_ok q ((kernel_block_size n + 4095) div 4096 * 4096)" "seg q ((kernel_block_size n + 4095) div 4096 * 4096) \<subseteq> free_bytes (kh_mm h)"
    and mem: "3 * (unat n + 8192) \<le> card (free_bytes (kh_mm h))"
  shows "\<exists>g h'. kernel_Allocate n h = Some (g + 64, h') \<and> kheap_ok ks rs r ((g, kernel_block_size n) # bs) h' \<and>
    unat n + 64 \<le> unat (kernel_block_size n) \<and>
    (\<forall>(b, k) \<in> set bs. \<forall>w. unat w \<in> seg b k \<longrightarrow> 8 dvd unat w \<longrightarrow> kload (kh_mm h') w = kload (kh_mm h) w) \<and>
    (\<forall>s \<in> set rs. s \<noteq> r \<longrightarrow> (\<forall>w. walk (kh_mm h) 3 s w \<noteq> None \<longrightarrow> contents_at (kh_mm h') s w = contents_at (kh_mm h) s w))"
proof -
  obtain g h1 h' where A: "kernel_Allocate n h = Some (g + 64, h')" "kheap_ok ks rs r ((g, kernel_block_size n) # bs) h'"
    "kheap_ok ks rs r bs h1" "keeps_contents rs (kh_mm h) (kh_mm h1)" "unat (kh_HeapPos h) \<le> unat (kh_HeapPos h1)" "unat g \<in> fl_avail (kh_FreeList h1)"
    "\<forall>w. in_heap w \<longrightarrow> 8 dvd unat w \<longrightarrow> w \<noteq> g \<longrightarrow> kload (kh_mm h') w = kload (kh_mm h1) w"
    "\<forall>s \<in> set rs. s \<noteq> r \<longrightarrow> contents_at (kh_mm h') s = contents_at (kh_mm h1) s"
    by (rule kernel_Allocate_block [OF assms])
  have "kload (kh_mm h') w = kload (kh_mm h) w" if b: "(b, k) \<in> set bs" "unat w \<in> seg b k" and w: "8 dvd unat w" for b k w
  proof -
    note W = block_words [OF ok b] and W1 = block_words [OF A(3) b]
    have "w \<noteq> g" using W1(3) A(6) by auto
    then have "kload (kh_mm h') w = kload (kh_mm h1) w" using A(7) W(1) w by blast
    also have "\<dots> = kload (kh_mm h) w"
      using kload_keeps [OF _ _ A(4) W(1) w W(2)] ok A(3) unfolding kheap_ok_def by blast
    finally show ?thesis .
  qed
  moreover have "contents_at (kh_mm h') s w = contents_at (kh_mm h) s w" if "s \<in> set rs" "s \<noteq> r" "walk (kh_mm h) 3 s w \<noteq> None" for s w
    using A(4,8) that unfolding keeps_contents_def by metis
  moreover have "unat n + 64 \<le> unat (kernel_block_size n)" using unat_kernel_block_size [of n] n by simp
  ultimately show ?thesis using A(1,2) by auto
qed

text \<open>
  C8: Releasing a block of the kernel's heap returns, makes exactly its bytes free, header included, keeps the heap well formed
  with the remaining blocks and changes no memory.
\<close>

theorem kernel_Free_releases_block:
  assumes ok: "kheap_ok ks rs r (bs1 @ (b, n) # bs2) h"
  shows "\<exists>h'. kernel_Free (b + 64) h = Some h' \<and> kheap_ok ks rs r (bs1 @ bs2) h' \<and> kh_mm h' = kh_mm h \<and>
    fl_avail (kh_FreeList h') = fl_avail (kh_FreeList h) \<union> seg b n"
proof -
  have B: "kblock_ok h b n" and inv: "fl_inv (kh_FreeList h)" and H: "heap_mem ks rs r (kh_HeapPos h) (kh_mm h)"
    and un: "units (fl_avail (kh_FreeList h))" and av: "fl_avail (kh_FreeList h) \<subseteq> {unat HeapBase ..< unat (kh_HeapPos h)}"
    and others: "\<And>c k. (c, k) \<in> set (bs1 @ bs2) \<Longrightarrow> kblock_ok h c k \<and> seg c k \<inter> seg b n = {}"
    and srt: "sorted_wrt (\<lambda>(b, n) (c, k). seg b n \<inter> seg c k = {}) (bs1 @ bs2)"
    using ok by (auto simp: kheap_ok_def sorted_wrt_append)
  have b: "seg_ok b n" "64 dvd unat b" "64 dvd unat n" "seg b n \<inter> fl_avail (kh_FreeList h) = {}" "kload (kh_mm h) b = Some n"
    "seg b n \<subseteq> {unat HeapBase ..< unat (kh_HeapPos h)}" using B by (simp_all add: kblock_ok_def)
  obtain fl where fl: "MarkFree (kh_FreeList h) b n = Some fl" "fl_inv fl" "fl_avail fl = fl_avail (kh_FreeList h) \<union> seg b n"
    using kfl.free_law [OF inv b(1,4)] by blast
  have "unat n \<noteq> 0" using b(1) by (simp add: seg_ok_def unat_eq_0)
  then have "64 \<le> unat n" using b(3) by (simp add: dvd_imp_le)
  moreover from this have "unat b + unat n - 1 \<in> seg b n" by (auto simp: seg_def)
  then have "unat b + unat n - 1 < unat (kh_HeapPos h)" using b(6) by auto
  moreover have "unat (kh_HeapPos h) < 2 ^ 64 - 1" using H by (auto simp: heap_mem_def in_heap_def HeapBase_val)
  ultimately have "unat (b + 64) \<noteq> 0" by (simp add: unat_word_ariths)
  then have nz: "b + 64 \<noteq> nullptr" by (metis unat_0)
  define h' where "h' = h \<lparr> kh_FreeList := fl \<rparr>"
  have sel: "kh_FreeList h' = fl" "kh_HeapPos h' = kh_HeapPos h" "kh_mm h' = kh_mm h" by (simp_all add: h'_def)
  have run: "kernel_Free (b + 64) h = Some h'" using nz b(5) fl(1) by (simp add: kernel_Free_def h'_def)
  have "kblock_ok h' c k" if "(c, k) \<in> set (bs1 @ bs2)" for c k
    using others [OF that] unfolding kblock_ok_def sel fl(3) by (simp add: Int_Un_distrib)
  then have bl: "\<forall>(c, k) \<in> set (bs1 @ bs2). kblock_ok h' c k" by blast
  have units: "units (fl_avail fl)" unfolding fl(3) by (rule units_seg(2) [OF un b(2,3)])
  have av': "fl_avail fl \<subseteq> {unat HeapBase ..< unat (kh_HeapPos h)}" using av b(6) fl(3) by blast
  have "kheap_ok ks rs r (bs1 @ bs2) h'" unfolding kheap_ok_def sel using H fl(2) av' units bl srt by (intro conjI)
  then show ?thesis using run fl(3) sel by blast
qed

section \<open>A small machine\<close>

text \<open>The table of the core leads to an empty heap; sixteen pages are free.\<close>

definition demo_kheap :: kheap where
  "demo_kheap = \<lparr> kh_FreeList = FreeList_new, kh_HeapPos = HeapBase,
     kh_mm = \<lparr> mm_FreeList = Init FreeList_new [(0x110000, 16)], g_HighMemBase = 0x100000, g_KernelPages = 0, g_KernelVPages = 0x109000,
       g_CorePageTables = 0x104000, qwords = (\<lambda>a. if a = 0x104FF0 then 0x9003 else 0) \<rparr> \<rparr>"

abbreviation demo_kmm :: mm where
  "demo_kmm \<equiv> kh_mm demo_kheap"

lemma demo_kfree: "fl_inv (mm_FreeList demo_kmm)" "free_bytes demo_kmm = seg 0x110000 0x10000"
  using Init_inv [of "[(0x110000, 16)]"] by (simp_all add: demo_kheap_def map_ok_def map_bytes_def seg_ok_def)

lemma demo_kentry: "read_entry demo_kmm 0x109000 (of_nat j) = 0" if "j < 512"
proof -
  have "0x109000 + 8 * of_nat j \<noteq> (0x104000 + 8 * of_nat 510 :: u64)" by (rule entry_other_page) (use that in \<open>simp_all add: aligned_def\<close>)
  then show ?thesis by (simp add: read_entry_def demo_kheap_def)
qed

lemma demo_kempty: "pages demo_kmm 3 0x109000 = [0x109000]" "walk demo_kmm 3 0x109000 v = None"
proof -
  have e: "\<forall>i < 512. child demo_kmm 0x109000 i = None" by (simp add: child_def demo_kentry PML_GET_P_def)
  show "pages demo_kmm 3 0x109000 = [0x109000]" "walk demo_kmm 3 0x109000 v = None"
    using empty_table [OF e, of 2] by (simp_all add: numeral_3_eq_3 numeral_2_eq_2)
qed

lemma demo_kok: "mm_ok demo_kmm [0x104000] [0x109000]"
proof -
  have h: "g_HighMemBase demo_kmm = 0x100000" by (simp add: demo_kheap_def)
  have in_seg: "x \<in> seg 0x110000 0x10000 \<longleftrightarrow> x div 4096 \<in> {0x110..<0x120}" for x by (auto simp: seg_def)
  have g: "granular (free_bytes demo_kmm)" unfolding granular_def demo_kfree(2) in_seg by metis
  have "page_ok demo_kmm p" if "aligned p" "is_free demo_kmm p" for p
  proof -
    have p: "0x110000 \<le> unat p" "unat p < 0x120000" using that(2) by (auto simp: demo_kfree(2) seg_def)
    then have "unat (p - 0x100000) = unat p - 0x100000" by (simp add: unat_sub word_le_nat_alt)
    then show ?thesis using p that(1) by (auto simp: page_ok_def h)
  qed
  then have inv: "alloc_inv demo_kmm" using demo_kfree(1) g by (simp add: alloc_inv_def h aligned_def)
  have ow: "owned demo_kmm [0x104000] [0x109000] = [0x104000, 0x109000]" by (simp add: owned_def demo_kempty)
  have "\<forall>p \<in> set [0x104000, 0x109000]. page_ok demo_kmm p \<and> \<not> is_free demo_kmm p"
    unfolding demo_kfree(2) by (simp add: page_ok_def h aligned_def seg_def)
  then show ?thesis using inv unfolding mm_ok_def ow by simp
qed

lemma demo_kheap_ok: "kheap_ok [0x104000] [0x109000] 0x109000 [] demo_kheap"
proof -
  have fl: "fl_inv (Init FreeList_new []) \<and> fl_avail (Init FreeList_new []) = map_bytes []" by (rule Init_inv) (simp_all add: map_ok_def)
  have c: "g_CorePageTables demo_kmm = 0x104000" "child demo_kmm 0x104000 510 = Some 0x109000"
    by (simp_all add: demo_kheap_def child_def read_entry_def PML_GET_P_def PML_GET_ADDR_def PhysToKernelPtr_def)
  have pos: "kh_HeapPos demo_kheap = HeapBase" "kh_FreeList demo_kheap = FreeList_new" by (simp_all add: demo_kheap_def)
  have "heap_mem [0x104000] [0x109000] 0x109000 HeapBase demo_kmm"
    using demo_kok demo_kempty c by (auto simp: heap_mem_def aligned_iff in_heap_def) (simp add: HeapBase_val)
  then show ?thesis using fl by (simp add: kheap_ok_def pos units_def map_bytes_def)
qed

lemma demo_request:
  "unat (100 :: u64) < 2 ^ 30" "unat (kh_HeapPos demo_kheap) + unat (100 :: u64) + 8192 < unat HeapBase + 2 ^ 39"
  "seg_ok 0x110000 ((kernel_block_size 100 + 4095) div 4096 * 4096)"
  "seg 0x110000 ((kernel_block_size 100 + 4095) div 4096 * 4096) \<subseteq> free_bytes demo_kmm" "3 * (unat (100 :: u64) + 8192) \<le> card (free_bytes demo_kmm)"
proof -
  show "unat (100 :: u64) < 2 ^ 30" "unat (kh_HeapPos demo_kheap) + unat (100 :: u64) + 8192 < unat HeapBase + 2 ^ 39" by (simp_all add: demo_kheap_def)
  have b: "(kernel_block_size 100 + 4095) div 4096 * 4096 = 4096" by (simp add: kernel_block_size_def)
  show "seg_ok 0x110000 ((kernel_block_size 100 + 4095) div 4096 * 4096)"
    "seg 0x110000 ((kernel_block_size 100 + 4095) div 4096 * 4096) \<subseteq> free_bytes demo_kmm" "3 * (unat (100 :: u64) + 8192) \<le> card (free_bytes demo_kmm)"
    unfolding b demo_kfree(2) by (auto simp: seg_ok_def seg_def)
qed

theorem kernel_Allocate_gives_block_witness:
  "\<exists>g h'. kernel_Allocate 100 demo_kheap = Some (g + 64, h') \<and> kload (kh_mm h') g = Some 192"
proof -
  have b: "kernel_block_size 100 = 192" by (simp add: kernel_block_size_def)
  obtain g h' where "kernel_Allocate 100 demo_kheap = Some (g + 64, h')" "kheap_ok [0x104000] [0x109000] 0x109000 [(g, 192)] h'"
    using kernel_Allocate_gives_block [OF demo_kheap_ok demo_request] unfolding b by (elim exE conjE) (rule that)
  then show ?thesis by (auto simp: kheap_ok_def kblock_ok_def)
qed

theorem kernel_Free_releases_block_witness:
  "\<exists>g h h'. kernel_Free (g + 64) h = Some h' \<and> kheap_ok [0x104000] [0x109000] 0x109000 [] h' \<and> seg g (kernel_block_size 100) \<subseteq> fl_avail (kh_FreeList h')"
proof -
  obtain g h where "kheap_ok [0x104000] [0x109000] 0x109000 [(g, kernel_block_size 100)] h"
    by (rule kernel_Allocate_block [OF demo_kheap_ok demo_request])
  then have h: "kheap_ok [0x104000] [0x109000] 0x109000 ([] @ (g, kernel_block_size 100) # []) h" by simp
  from kernel_Free_releases_block [OF h] show ?thesis by fastforce
qed

end
