(* ===== verification/BlockCache.thy ===== *)
theory BlockCache
  imports UserMem
begin

text \<open>
  Block devices and the registry of drivers, \<^verbatim>\<open>devices/DeviceDriver.h\<close> and \<^verbatim>\<open>devices/DeviceDriver.cpp\<close>. A transfer of
  bytes is cut into blocks, and every block goes through a cache. The device itself, the virtual function
  \<open>ScheduleOperation\<close>, is an argument: whether the operation succeeds, and what the buffer holds when it is
  finished, in whatever state a failing operation leaves it; the code waits for the end of the operation. Pointers to
  cached blocks are indices of the cache vector. The cache with the device
  refines an array of bytes.
\<close>

section \<open>Cache\<close>

record CachedBlock =
  cb_subID :: u64
  cb_blockID :: u64
  cb_refCount :: u64
  cb_data :: "u8 list"

fun find_block :: "u64 \<Rightarrow> u64 \<Rightarrow> CachedBlock list \<Rightarrow> nat option" where
  "find_block sub blk [] = None"
| "find_block sub blk (cb # cbs) =
     (if cb_subID cb = sub \<and> cb_blockID cb = blk then Some 0 else map_option Suc (find_block sub blk cbs))"

text \<open>A new block is entered before its contents are known.\<close>

definition GetCachedBlock :: "u64 \<Rightarrow> u64 \<Rightarrow> CachedBlock list \<Rightarrow> bool \<times> nat \<times> CachedBlock list" where
  "GetCachedBlock sub blk cache =
     (case find_block sub blk cache of
        Some i \<Rightarrow> (True, i, cache[i := (cache ! i) \<lparr> cb_refCount := cb_refCount (cache ! i) + 1 \<rparr>])
      | None \<Rightarrow> (False, length cache, cache @ [\<lparr> cb_subID = sub, cb_blockID = blk, cb_refCount = 1, cb_data = [] \<rparr>]))"

definition ReleaseCachedBlock :: "nat \<Rightarrow> CachedBlock list \<Rightarrow> CachedBlock list" where
  "ReleaseCachedBlock i cache = cache[i := (cache ! i) \<lparr> cb_refCount := cb_refCount (cache ! i) - 1 \<rparr>]"

definition store_block :: "nat \<Rightarrow> u8 list \<Rightarrow> CachedBlock list \<Rightarrow> CachedBlock list" where
  "store_block i d cache = cache[i := (cache ! i) \<lparr> cb_data := d \<rparr>]"

text \<open>A block that is not in the cache is read from the device into its new entry. The first result is false if that read
  fails.\<close>

type_synonym device = "u64 \<Rightarrow> u64 \<Rightarrow> bool \<times> u8 list"

definition load_block :: "device \<Rightarrow> u64 \<Rightarrow> u64 \<Rightarrow> CachedBlock list \<Rightarrow> bool \<times> nat \<times> CachedBlock list" where
  "load_block dev sub blk cache =
     (let (hit, i, cache) = GetCachedBlock sub blk cache
      in if hit then (True, i, cache)
         else let (success, d) = dev sub blk in (success, i, store_block i d cache))"

section \<open>Transfers\<close>

fun GetData_loop ::
  "device \<Rightarrow> u64 \<Rightarrow> u64 \<Rightarrow> nat \<Rightarrow> u64 \<Rightarrow> u64 \<Rightarrow> u64 \<Rightarrow> u64 \<Rightarrow> CachedBlock list \<Rightarrow> umem \<Rightarrow> u64 \<times> CachedBlock list \<times> umem" where
  "GetData_loop dev bs sub 0 blockID pos buffer bufferSize cache m = (0, cache, m)"
| "GetData_loop dev bs sub (Suc k) blockID pos buffer bufferSize cache m =
     (let blockOffset = pos - blockID * bs;
          copySize = min (bs - blockOffset) bufferSize;
          (loaded, i, cache) = load_block dev sub blockID cache
      in if \<not> loaded then (- 1, cache, m)
         else
           let (ok, m) = put_bytes m buffer (take (unat copySize) (drop (unat blockOffset) (cb_data (cache ! i))));
               cache = ReleaseCachedBlock i cache
           in if \<not> ok then (invalid_buffer, cache, m)
              else if bufferSize - copySize = 0 then (0, cache, m)
              else GetData_loop dev bs sub k (blockID + 1) (pos + copySize) (buffer + copySize) (bufferSize - copySize) cache m)"

text \<open>A division by a block size of 0 is a fault.\<close>

definition Block_GetData ::
  "device \<Rightarrow> u64 \<Rightarrow> u64 \<Rightarrow> u64 \<Rightarrow> u64 \<Rightarrow> u64 \<Rightarrow> CachedBlock list \<Rightarrow> umem \<Rightarrow> (u64 \<times> CachedBlock list \<times> umem) option" where
  "Block_GetData dev bs sub pos buffer bufferSize cache m =
     (if bs = 0 then None
      else
        let startBlock = pos div bs;
            endBlock = (pos + bufferSize - 1) div bs;
            numBlocks = endBlock - startBlock + 1
        in Some (GetData_loop dev bs sub (unat numBlocks) startBlock pos buffer bufferSize cache m))"

text \<open>Writing does not look at the success of the read in front of it, and nothing is written to the device.\<close>

fun SetData_loop ::
  "device \<Rightarrow> u64 \<Rightarrow> u64 \<Rightarrow> nat \<Rightarrow> u64 \<Rightarrow> u64 \<Rightarrow> u64 \<Rightarrow> u64 \<Rightarrow> CachedBlock list \<Rightarrow> umem \<Rightarrow> u64 \<times> CachedBlock list" where
  "SetData_loop dev bs sub 0 blockID pos buffer bufferSize cache m = (0, cache)"
| "SetData_loop dev bs sub (Suc k) blockID pos buffer bufferSize cache m =
     (let (loaded, i, cache) = load_block dev sub blockID cache;
          offs = pos - blockID * bs;
          rem = bs - offs;
          rem = (if rem > bufferSize then bufferSize else rem);
          (ok, bytes) = get_bytes m buffer (unat rem);
          cache = ReleaseCachedBlock i (store_block i (overwrite (cb_data (cache ! i)) (unat offs) bytes) cache)
      in if \<not> ok then (invalid_buffer, cache)
         else SetData_loop dev bs sub k (blockID + 1) (pos + rem) (buffer + rem) (bufferSize - rem) cache m)"

definition Block_SetData ::
  "device \<Rightarrow> u64 \<Rightarrow> u64 \<Rightarrow> u64 \<Rightarrow> u64 \<Rightarrow> u64 \<Rightarrow> CachedBlock list \<Rightarrow> umem \<Rightarrow> (u64 \<times> CachedBlock list) option" where
  "Block_SetData dev bs sub pos buffer bufferSize cache m =
     (if bs = 0 then None
      else
        let startBlock = pos div bs;
            endBlock = (pos + bufferSize) div bs;
            numBlocks = endBlock - startBlock + 1
        in Some (SetData_loop dev bs sub (unat numBlocks) startBlock pos buffer bufferSize cache m))"

section \<open>Drivers\<close>

record Driver =
  driver_ID :: u64
  driver_name :: string

record driver_registry =
  g_DriverIDCounter :: u64
  g_Drivers :: "Driver list"

text \<open>The constructor of a driver stores the number that its registration returns.\<close>

definition RegisterDriver :: "string \<Rightarrow> driver_registry \<Rightarrow> u64 \<times> driver_registry" where
  "RegisterDriver name r =
     (g_DriverIDCounter r,
      r \<lparr> g_DriverIDCounter := g_DriverIDCounter r + 1,
          g_Drivers := g_Drivers r @ [\<lparr> driver_ID = g_DriverIDCounter r, driver_name = name \<rparr>] \<rparr>)"

definition UnregisterDriver :: "Driver \<Rightarrow> driver_registry \<Rightarrow> driver_registry option" where
  "UnregisterDriver d r =
     (if d \<in> set (g_Drivers r) then Some (r \<lparr> g_Drivers := remove1 d (g_Drivers r) \<rparr>) else None)"

definition GetDriver :: "u64 \<Rightarrow> driver_registry \<Rightarrow> Driver option" where
  "GetDriver i r = List.find (\<lambda>d. driver_ID d = i) (g_Drivers r)"

definition GetDriver_name :: "string \<Rightarrow> driver_registry \<Rightarrow> Driver option" where
  "GetDriver_name name r = List.find (\<lambda>d. driver_name d = name) (g_Drivers r)"

section \<open>Cache invariant\<close>

text \<open>At most one entry for a block; every entry holds a whole block.\<close>

definition block_keys :: "CachedBlock list \<Rightarrow> (u64 \<times> u64) list" where
  "block_keys cache = map (\<lambda>cb. (cb_subID cb, cb_blockID cb)) cache"

definition cache_ok :: "nat \<Rightarrow> CachedBlock list \<Rightarrow> bool" where
  "cache_ok B cache \<longleftrightarrow> distinct (block_keys cache) \<and> list_all (\<lambda>cb. length (cb_data cb) = B) cache"

text \<open>The block as the callers see it: the cached one, otherwise the one on the device.\<close>

definition view :: "device \<Rightarrow> CachedBlock list \<Rightarrow> u64 \<Rightarrow> u64 \<Rightarrow> u8 list" where
  "view dev cache sub blk =
     (case find_block sub blk cache of
        Some i \<Rightarrow> cb_data (cache ! i)
      | None \<Rightarrow> snd (dev sub blk))"

text \<open>A device all of whose blocks can be read.\<close>

definition device_ok :: "nat \<Rightarrow> device \<Rightarrow> bool" where
  "device_ok B dev \<longleftrightarrow> (\<forall>sub blk. fst (dev sub blk) \<and> length (snd (dev sub blk)) = B)"

lemma find_block_SomeD:
  "find_block sub blk cache = Some i \<Longrightarrow> i < length cache \<and> cb_subID (cache ! i) = sub \<and> cb_blockID (cache ! i) = blk"
  by (induction cache arbitrary: i) (auto split: if_splits)

lemma find_block_None: "find_block sub blk cache = None \<longleftrightarrow> (sub, blk) \<notin> set (block_keys cache)"
  by (induction cache) (auto simp: block_keys_def)

lemma find_block_keys: "block_keys c = block_keys c' \<Longrightarrow> find_block sub blk c = find_block sub blk c'"
proof (induction c arbitrary: c')
  case (Cons a c)
  then obtain a' d where "c' = a' # d" by (cases c') (auto simp: block_keys_def)
  then show ?case using Cons by (auto simp: block_keys_def)
qed (simp add: block_keys_def)

lemma find_block_append: "find_block sub blk (c @ [x]) =
  (case find_block sub blk c of Some i \<Rightarrow> Some i | None \<Rightarrow> if cb_subID x = sub \<and> cb_blockID x = blk then Some (length c) else None)"
  by (induction c) (auto split: option.splits)

lemma find_block_nth:
  "distinct (block_keys c) \<Longrightarrow> i < length c \<Longrightarrow> find_block (cb_subID (c ! i)) (cb_blockID (c ! i)) c = Some i"
proof (induction c arbitrary: i)
  case (Cons a c)
  then show ?case by (cases i) (auto simp: block_keys_def)
qed simp

lemma block_keys_update:
  "i < length c \<Longrightarrow> cb_subID e = cb_subID (c ! i) \<Longrightarrow> cb_blockID e = cb_blockID (c ! i) \<Longrightarrow> block_keys (c[i := e]) = block_keys c"
  unfolding block_keys_def map_update by (simp add: list_update_same_conv)

lemma view_update:
  assumes ok: "distinct (block_keys c)" and i: "i < length c"
    and e: "cb_subID e = cb_subID (c ! i)" "cb_blockID e = cb_blockID (c ! i)"
  shows "view dev (c[i := e]) sub blk =
    (if sub = cb_subID (c ! i) \<and> blk = cb_blockID (c ! i) then cb_data e else view dev c sub blk)"
proof -
  have f: "find_block sub blk (c[i := e]) = find_block sub blk c"
    by (rule find_block_keys [OF block_keys_update [OF i e]])
  show ?thesis
  proof (cases "find_block sub blk c")
    case None
    then have "\<not> (sub = cb_subID (c ! i) \<and> blk = cb_blockID (c ! i))"
      using find_block_nth [OF ok i] by auto
    then show ?thesis using None f by (auto simp: view_def)
  next
    case (Some j)
    then have "j = i \<longleftrightarrow> sub = cb_subID (c ! i) \<and> blk = cb_blockID (c ! i)"
      using find_block_SomeD [OF Some] find_block_nth [OF ok i] by (metis option.inject)
    then show ?thesis using Some f i by (cases "j = i") (auto simp: view_def)
  qed
qed

lemma cache_ok_update:
  "cache_ok B c \<Longrightarrow> i < length c \<Longrightarrow> cb_subID e = cb_subID (c ! i) \<Longrightarrow> cb_blockID e = cb_blockID (c ! i) \<Longrightarrow>
   length (cb_data e) = B \<Longrightarrow> cache_ok B (c[i := e])"
  unfolding cache_ok_def by (simp add: block_keys_update list_all_length nth_list_update)

text \<open>Loading a block gives its entry with its contents, and changes nothing the callers see.\<close>

lemma load_facts:
  assumes ok: "cache_ok B cache" and dev: "device_ok B dev" and f: "load_block dev sub blk cache = (loaded, i, cache')"
  shows loaded and "cache_ok B cache'" and "i < length cache'" and "cb_subID (cache' ! i) = sub" and "cb_blockID (cache' ! i) = blk"
    and "cb_data (cache' ! i) = view dev cache sub blk" and "view dev cache' = view dev cache"
proof -
  have "loaded \<and> cache_ok B cache' \<and> i < length cache' \<and> cb_subID (cache' ! i) = sub \<and> cb_blockID (cache' ! i) = blk \<and>
    cb_data (cache' ! i) = view dev cache sub blk \<and> view dev cache' = view dev cache"
  proof (cases "find_block sub blk cache")
    case (Some j)
    let ?e = "(cache ! j) \<lparr> cb_refCount := cb_refCount (cache ! j) + 1 \<rparr>"
    have j: "j < length cache" "cb_subID (cache ! j) = sub" "cb_blockID (cache ! j) = blk" using find_block_SomeD [OF Some] by auto
    have c: loaded "i = j" "cache' = cache[j := ?e]" using f Some by (auto simp: load_block_def GetCachedBlock_def)
    have v: "cb_data (cache ! j) = view dev cache sub blk" using Some by (simp add: view_def)
    have "view dev cache' s b = view dev cache s b" for s b
      using view_update [of cache j ?e dev s b] ok j v c by (auto simp: cache_ok_def)
    moreover have "cache_ok B cache'"
      unfolding c(3) by (rule cache_ok_update [OF ok j(1)]) (use ok j(1) in \<open>auto simp: cache_ok_def list_all_length\<close>)
    ultimately show ?thesis using c j v by auto
  next
    case None
    obtain d where d: "dev sub blk = (True, d)" "length d = B" using dev unfolding device_ok_def by (metis prod.collapse)
    let ?x = "\<lparr> cb_subID = sub, cb_blockID = blk, cb_refCount = 1, cb_data = d \<rparr>"
    have c: loaded "i = length cache" "cache' = cache @ [?x]"
      using f None d by (auto simp: load_block_def GetCachedBlock_def store_block_def)
    have v: "view dev cache sub blk = d" using None d by (simp add: view_def)
    have "view dev cache' s b = view dev cache s b" for s b
      using None d v find_block_SomeD [of s b cache]
      by (cases "find_block s b cache") (auto simp: view_def c(3) find_block_append nth_append)
    moreover have "cache_ok B cache'" using ok None d(2) find_block_None [of sub blk cache]
      by (simp add: c(3) cache_ok_def block_keys_def)
    ultimately show ?thesis using c v by auto
  qed
  then show loaded "cache_ok B cache'" "i < length cache'" "cb_subID (cache' ! i) = sub" "cb_blockID (cache' ! i) = blk"
    "cb_data (cache' ! i) = view dev cache sub blk" "view dev cache' = view dev cache" by blast+
qed

text \<open>Releasing only counts; storing changes one block.\<close>

lemma release_facts:
  assumes "cache_ok B c" and "i < length c"
  shows "cache_ok B (ReleaseCachedBlock i c)" and "view dev (ReleaseCachedBlock i c) = view dev c"
proof -
  have d: "distinct (block_keys c)" "length (cb_data (c ! i)) = B" using assms by (auto simp: cache_ok_def list_all_length)
  show "cache_ok B (ReleaseCachedBlock i c)"
    unfolding ReleaseCachedBlock_def by (rule cache_ok_update [OF assms]) (simp_all add: d)
  have "find_block (cb_subID (c ! i)) (cb_blockID (c ! i)) c = Some i" by (rule find_block_nth [OF d(1) assms(2)])
  then have "view dev c (cb_subID (c ! i)) (cb_blockID (c ! i)) = cb_data (c ! i)" by (simp add: view_def)
  then show "view dev (ReleaseCachedBlock i c) = view dev c"
    unfolding ReleaseCachedBlock_def by (intro ext) (auto simp: view_update [OF d(1) assms(2)])
qed

lemma store_facts:
  assumes "cache_ok B c" and "i < length c" and "length d = B"
  shows "cache_ok B (store_block i d c)" and "length (store_block i d c) = length c"
    and "view dev (store_block i d c) sub blk =
      (if sub = cb_subID (c ! i) \<and> blk = cb_blockID (c ! i) then d else view dev c sub blk)"
proof -
  have dk: "distinct (block_keys c)" using assms by (simp add: cache_ok_def)
  show "cache_ok B (store_block i d c)"
    unfolding store_block_def by (rule cache_ok_update [OF assms(1,2)]) (simp_all add: assms(3))
  show "length (store_block i d c) = length c" by (simp add: store_block_def)
  show "view dev (store_block i d c) sub blk = (if sub = cb_subID (c ! i) \<and> blk = cb_blockID (c ! i) then d else view dev c sub blk)"
    unfolding store_block_def by (simp add: view_update [OF dk assms(2)])
qed

section \<open>The device as an array of bytes\<close>

definition disk_bytes :: "(u64 \<Rightarrow> u8 list) \<Rightarrow> nat \<Rightarrow> nat \<Rightarrow> nat \<Rightarrow> u8 list" where
  "disk_bytes blocks B p n = map (\<lambda>x. blocks (of_nat (x div B)) ! (x mod B)) [p..<p + n]"

lemma disk_bytes_length [simp]: "length (disk_bytes blocks B p n) = n"
  by (simp add: disk_bytes_def)

lemma disk_bytes_add: "disk_bytes blocks B p (a + b) = disk_bytes blocks B p a @ disk_bytes blocks B (p + a) b"
  using upt_add_eq_append [of p "p + a" b] by (simp add: disk_bytes_def add.assoc)

lemma div_mod_within:
  fixes B p j :: nat
  assumes "p mod B + j < B"
  shows "(p + j) div B = p div B" and "(p + j) mod B = p mod B + j"
proof -
  have e: "p + j = (p mod B + j) + p div B * B" using div_mult_mod_eq [of p B] by linarith
  have "B \<noteq> 0" using assms by auto
  then show "(p + j) div B = p div B" unfolding e using assms by (subst div_mult_self1) simp_all
  show "(p + j) mod B = p mod B + j" unfolding e using assms by (subst mod_mult_self1) simp
qed

lemma disk_bytes_block:
  assumes "0 < B" and "p mod B + n \<le> B" and "length (blocks (of_nat (p div B))) = B"
  shows "disk_bytes blocks B p n = take n (drop (p mod B) (blocks (of_nat (p div B))))"
proof (rule nth_equalityI)
  show "length (disk_bytes blocks B p n) = length (take n (drop (p mod B) (blocks (of_nat (p div B)))))"
    using assms by simp
  fix j assume "j < length (disk_bytes blocks B p n)"
  then show "disk_bytes blocks B p n ! j = take n (drop (p mod B) (blocks (of_nat (p div B)))) ! j"
    using assms div_mod_within [of p B j] by (simp add: disk_bytes_def)
qed

text \<open>The position of a transfer inside its block.\<close>

lemma block_offset:
  fixes pos bs blk :: u64
  assumes "0 < unat bs" and "unat blk = unat pos div unat bs"
  shows "unat (pos - blk * bs) = unat pos mod unat bs" and "unat (bs - (pos - blk * bs)) = unat bs - unat pos mod unat bs"
proof -
  have le: "unat blk * unat bs \<le> unat pos" using assms(2) by simp
  then have p: "unat (blk * bs) = unat blk * unat bs"
    using unat_lt_64 [of pos] by (simp add: unat_word_ariths)
  have "blk * bs \<le> pos" using le p by (simp add: word_le_nat_alt)
  then have "unat (pos - blk * bs) = unat pos - unat pos div unat bs * unat bs" using p assms(2) by (simp add: unat_sub)
  then show o: "unat (pos - blk * bs) = unat pos mod unat bs" by (simp add: minus_div_mult_eq_mod)
  have "pos - blk * bs \<le> bs" using o assms(1) by (simp add: word_le_nat_alt less_imp_le)
  then show "unat (bs - (pos - blk * bs)) = unat bs - unat pos mod unat bs" using o by (simp add: unat_sub)
qed

lemma unat_min: "unat (min a (b :: u64)) = min (unat a) (unat b)"
  by (simp add: min_def word_le_nat_alt)

lemma next_block: "0 < B \<Longrightarrow> (p + (B - p mod B)) div B = p div B + (1 :: nat) \<and> (p + (B - p mod B)) mod B = 0"
proof -
  assume B: "0 < B"
  have "p + (B - p mod B) = p div B * B + B"
    using div_mult_mod_eq [of p B] mod_less_divisor [OF B, of p] by linarith
  then have "p + (B - p mod B) = (p div B + 1) * B" by simp
  then show ?thesis using B by simp
qed

lemma user_mapped_shift:
  "user_mapped m a (i + j) \<Longrightarrow> user_mapped m a i \<and> user_mapped m (a + of_nat i) j"
  unfolding user_mapped_def by (metis add.assoc add_less_cancel_left of_nat_add trans_less_add1)

lemma user_mapped_put: "user_mapped (snd (put_bytes m b bs)) a n \<longleftrightarrow> user_mapped m a n"
  by (simp add: user_mapped_def put_bytes_dom)

lemma GetData_loop_reads:
  assumes "cache_ok (unat bs) cache" and "device_ok (unat bs) dev" and "0 < unat bs" and "unat blk = unat pos div unat bs"
    and "unat pos + unat z < 2 ^ 64" and "user_mapped m buf (unat z)" and "0 < unat z"
    and "(unat pos + unat z - 1) div unat bs < unat blk + k"
  shows "\<exists>cache'. GetData_loop dev bs sub k blk pos buf z cache m =
      (0, cache', snd (put_bytes m buf (disk_bytes (view dev cache sub) (unat bs) (unat pos) (unat z)))) \<and>
    cache_ok (unat bs) cache' \<and> view dev cache' = view dev cache"
  using assms
proof (induction k arbitrary: blk pos buf z cache m)
  case 0
  have "unat pos div unat bs \<le> (unat pos + unat z - 1) div unat bs" using 0 by (intro div_le_mono) simp
  then show ?case using 0 by simp
next
  case (Suc k)
  let ?B = "unat bs" and ?p = "unat pos" and ?V = "view dev cache sub"
  obtain loaded i c1 where f: "load_block dev sub blk cache = (loaded, i, c1)" by (metis prod_cases3)
  note ff = load_facts [OF Suc.prems(1,2) f]
  define n where "n = min (bs - (pos - blk * bs)) z"
  note off = block_offset [OF Suc.prems(3,4)]
  have n: "unat n = min (?B - ?p mod ?B) (unat z)" by (simp add: n_def unat_min off)
  have vl: "length (?V (of_nat (?p div ?B))) = ?B"
    using ff(2,3,6) Suc.prems(4) by (auto simp: cache_ok_def list_all_length simp flip: Suc.prems(4))
  have data: "take (unat n) (drop (unat (pos - blk * bs)) (cb_data (c1 ! i))) = disk_bytes ?V ?B ?p (unat n)"
    using disk_bytes_block [where blocks = ?V and B = ?B and p = ?p and n = "unat n"] Suc.prems(3) vl n off(1) ff(6) mod_less_divisor [OF Suc.prems(3), of ?p]
    by (simp flip: Suc.prems(4))
  define c2 where "c2 = ReleaseCachedBlock i c1"
  have c2: "cache_ok ?B c2" "view dev c2 = view dev cache" using release_facts [OF ff(2,3)] ff(7) by (simp_all add: c2_def)
  have zn: "unat z = unat n + unat (z - n)" using n by (simp add: unat_sub word_le_nat_alt)
  have mp: "user_mapped m buf (unat n)" "user_mapped m (buf + n) (unat (z - n))"
    using user_mapped_shift [of m buf "unat n" "unat (z - n)"] Suc.prems(6) zn by simp_all
  define m1 where "m1 = snd (put_bytes m buf (disk_bytes ?V ?B ?p (unat n)))"
  have put: "put_bytes m buf (disk_bytes ?V ?B ?p (unat n)) = (True, m1)"
    using mp(1) by (simp add: m1_def prod_eq_iff put_bytes_mapped)
  have step: "GetData_loop dev bs sub (Suc k) blk pos buf z cache m =
      (if z - n = 0 then (0, c2, m1) else GetData_loop dev bs sub k (blk + 1) (pos + n) (buf + n) (z - n) c2 m1)"
    using f ff(1) put data by (simp add: Let_def c2_def flip: n_def)
  show ?case
  proof (cases "z - n = 0")
    case True
    then have "m1 = snd (put_bytes m buf (disk_bytes ?V ?B ?p (unat z)))" using zn by (simp add: m1_def)
    then show ?thesis unfolding step if_P [OF True] using c2 by blast
  next
    case False
    then have pos0: "0 < unat (z - n)" by (simp add: unat_gt_0)
    have nB: "unat n = ?B - ?p mod ?B" using n zn pos0 by (auto simp: min_def split: if_splits)
    have pn: "unat (pos + n) = ?p + unat n" using Suc.prems(5) zn by (simp add: unat_word_ariths)
    have b1: "unat (blk + 1) = unat blk + 1"
    proof -
      have "unat blk + 1 \<le> ?p + unat n" using Suc.prems(4) nB div_le_dividend [of ?p ?B] mod_less_divisor [OF Suc.prems(3), of ?p] by linarith
      then show ?thesis using Suc.prems(5) zn by (simp add: unat_word_ariths)
    qed
    have "\<exists>c'. GetData_loop dev bs sub k (blk + 1) (pos + n) (buf + n) (z - n) c2 m1 =
        (0, c', snd (put_bytes m1 (buf + n) (disk_bytes (view dev c2 sub) ?B (unat (pos + n)) (unat (z - n))))) \<and>
        cache_ok ?B c' \<and> view dev c' = view dev c2"
    proof (rule Suc.IH [OF c2(1) Suc.prems(2,3) _ _ _ pos0])
      show "unat (blk + 1) = unat (pos + n) div ?B" using b1 pn nB Suc.prems(4) next_block [OF Suc.prems(3), of ?p] by simp
      show "unat (pos + n) + unat (z - n) < 2 ^ 64" using pn zn Suc.prems(5) by simp
      show "user_mapped m1 (buf + n) (unat (z - n))" using mp(2) by (simp add: m1_def user_mapped_put)
      show "(unat (pos + n) + unat (z - n) - 1) div ?B < unat (blk + 1) + k" using Suc.prems(8) pn zn b1 by (simp add: add.assoc)
    qed
    then show ?thesis
      using step False c2 pn zn put put_bytes_append [of m buf "disk_bytes ?V ?B ?p (unat n)"] by (simp add: disk_bytes_add)
  qed
qed


text \<open>One block of a write.\<close>

definition disk_byte :: "(u64 \<Rightarrow> u8 list) \<Rightarrow> nat \<Rightarrow> nat \<Rightarrow> u8" where
  "disk_byte blocks B x = blocks (of_nat (x div B)) ! (x mod B)"

lemma nth_overwrite:
  "i + length d \<le> length xs \<Longrightarrow> j < length xs \<Longrightarrow>
   overwrite xs i d ! j = (if i \<le> j \<and> j < i + length d then d ! (j - i) else xs ! j)"
  by (auto simp: overwrite_def nth_append min_def)

lemma disk_byte_overwrite:
  assumes B: "0 < B" and off: "p mod B + length d \<le> B" and len: "length (V blk) = B" and blk: "unat (blk :: u64) = p div B"
    and x: "x < 2 ^ 64"
  shows "disk_byte (V(blk := overwrite (V blk) (p mod B) d)) B x =
    (if p \<le> x \<and> x < p + length d then d ! (x - p) else disk_byte V B x)"
proof -
  have p: "p = p div B * B + p mod B" and xx: "x = x div B * B + x mod B" by simp_all
  have "x div B < 2 ^ 64" using x div_le_dividend [of x B] by linarith
  then have u: "unat (of_nat (x div B) :: u64) = x div B" by (simp add: unat_of_nat)
  show ?thesis
  proof (cases "x div B = p div B")
    case True
    then have e: "of_nat (x div B) = blk" using blk u by (simp add: word_unat_eq_iff)
    have q: "x div B * B = p div B * B" using True by simp
    have r: "p \<le> x \<longleftrightarrow> p mod B \<le> x mod B" "x < p + length d \<longleftrightarrow> x mod B < p mod B + length d"
      using p xx q by (intro iffI; linarith)+
    have s: "x - p = x mod B - p mod B" using p xx q by linarith
    show ?thesis unfolding disk_byte_def e r s fun_upd_same using nth_overwrite [of "p mod B" d "V blk" "x mod B"] off len B by simp
  next
    case False
    then have ne: "of_nat (x div B) \<noteq> blk" using blk u by metis
    have "\<not> (p \<le> x \<and> x < p + length d)"
    proof
      assume a: "p \<le> x \<and> x < p + length d"
      then have "p mod B + (x - p) < B" using off by linarith
      then have "(p + (x - p)) div B = p div B" by (rule div_mod_within)
      then show False using a False by simp
    qed
    then show ?thesis using ne by (auto simp: disk_byte_def)
  qed
qed

lemma load_store:
  assumes ok: "cache_ok B cache" and dev: "device_ok B dev" and f: "load_block dev sub blk cache = (loaded, i, c1)"
    and len: "length (overwrite (cb_data (c1 ! i)) off d) = B"
    and c2: "c2 = ReleaseCachedBlock i (store_block i (overwrite (cb_data (c1 ! i)) off d) c1)"
  shows "cache_ok B c2 \<and> view dev c2 = (view dev cache)(sub := (view dev cache sub)(blk := overwrite (view dev cache sub blk) off d))"
proof -
  note ff = load_facts [OF ok dev f]
  note sf = store_facts [OF ff(2,3) len]
  have i: "i < length (store_block i (overwrite (cb_data (c1 ! i)) off d) c1)" using sf(2) ff(3) by simp
  note rf = release_facts [OF sf(1) i]
  have st: "view dev c2 s b =
      (if s = cb_subID (c1 ! i) \<and> b = cb_blockID (c1 ! i) then overwrite (cb_data (c1 ! i)) off d else view dev c1 s b)" for s b
    unfolding c2 rf(2) by (rule sf(3))
  have "view dev c2 s b = ((view dev cache)(sub := (view dev cache sub)(blk := overwrite (view dev cache sub blk) off d))) s b" for s b
    unfolding st ff(4,5,6,7) by simp
  then show ?thesis using rf(1) c2 by blast
qed

lemma view_length:
  assumes "cache_ok B cache" and "device_ok B dev"
  shows "length (view dev cache sub blk) = B"
proof -
  obtain l i c where f: "load_block dev sub blk cache = (l, i, c)" by (metis prod_cases3)
  note ff = load_facts [OF assms f]
  show ?thesis using ff(2,3) unfolding ff(6) [symmetric] by (simp add: cache_ok_def list_all_length)
qed

text \<open>A write: the bytes of the range are replaced, all others are kept. The loop may take one block more than it needs, with
  nothing left to write.\<close>

lemma SetData_loop_writes:
  assumes "cache_ok (unat bs) cache" and "device_ok (unat bs) dev" and "0 < unat bs" and "unat blk = unat pos div unat bs"
    and "unat pos + unat z < 2 ^ 64" and "get_bytes m buf (unat z) = (True, d)"
    and "Suc ((unat pos + unat z) div unat bs) = unat blk + k"
  shows "\<exists>c. SetData_loop dev bs sub k blk pos buf z cache m = (0, c) \<and> cache_ok (unat bs) c \<and>
    (\<forall>s. s \<noteq> sub \<longrightarrow> view dev c s = view dev cache s) \<and>
    (\<forall>x < 2 ^ 64. disk_byte (view dev c sub) (unat bs) x =
      (if unat pos \<le> x \<and> x < unat pos + unat z then d ! (x - unat pos) else disk_byte (view dev cache sub) (unat bs) x))"
  using assms
proof (induction k arbitrary: blk pos buf z cache d)
  case 0
  have "unat pos div unat bs \<le> (unat pos + unat z) div unat bs" by (intro div_le_mono) simp
  then show ?case using 0 by simp
next
  case (Suc k)
  let ?B = "unat bs" and ?p = "unat pos" and ?V = "view dev cache sub"
  obtain loaded i c1 where f: "load_block dev sub blk cache = (loaded, i, c1)" by (metis prod_cases3)
  define n where "n = (if bs - (pos - blk * bs) > z then z else bs - (pos - blk * bs))"
  note off = block_offset [OF Suc.prems(3,4)]
  have n: "unat n = min (?B - ?p mod ?B) (unat z)" by (simp add: n_def word_less_nat_alt off)
  have zn: "unat z = unat n + unat (z - n)" using n by (simp add: unat_sub word_le_nat_alt)
  define d1 where "d1 = snd (get_bytes m buf (unat n))"
  define d2 where "d2 = snd (get_bytes m (buf + n) (unat (z - n)))"
  have g: "get_bytes m buf (unat n) = (True, d1)" "get_bytes m (buf + n) (unat (z - n)) = (True, d2)" "d = d1 @ d2"
    using Suc.prems(6) get_bytes_append [of m buf "unat n" "unat (z - n)"] zn
    by (auto simp: d1_def d2_def prod_eq_iff split: if_splits)
  have ld: "length d1 = unat n" using get_bytes_length [of m buf "unat n"] g(1) by simp
  have fits: "?p mod ?B + length d1 \<le> ?B" using n ld mod_less_divisor [OF Suc.prems(3), of ?p] by linarith
  note ff = load_facts [OF Suc.prems(1,2) f]
  have lv: "length (cb_data (c1 ! i)) = ?B" unfolding ff(6) by (rule view_length [OF Suc.prems(1,2)])
  define c2 where "c2 = ReleaseCachedBlock i (store_block i (overwrite (cb_data (c1 ! i)) (?p mod ?B) d1) c1)"
  have "length (overwrite (cb_data (c1 ! i)) (?p mod ?B) d1) = ?B" using overwrite_length [of "?p mod ?B" d1] fits lv by simp
  from load_store [OF Suc.prems(1,2) f this c2_def]
  have c2: "cache_ok ?B c2" "view dev c2 = (view dev cache)(sub := ?V(blk := overwrite (?V blk) (?p mod ?B) d1))" by blast+
  have byte: "disk_byte (view dev c2 sub) ?B x = (if ?p \<le> x \<and> x < ?p + unat n then d1 ! (x - ?p) else disk_byte ?V ?B x)"
    if "x < 2 ^ 64" for x
    using disk_byte_overwrite [where V = ?V, OF Suc.prems(3) fits view_length [OF Suc.prems(1,2)] Suc.prems(4) that] ld c2(2) by simp
  have step: "SetData_loop dev bs sub (Suc k) blk pos buf z cache m =
      SetData_loop dev bs sub k (blk + 1) (pos + n) (buf + n) (z - n) c2 m"
    using f g(1) off(1) by (simp add: Let_def c2_def flip: n_def)
  have mB: "?p mod ?B < ?B" by (rule mod_less_divisor [OF Suc.prems(3)])
  show ?case
  proof (cases k)
    case 0
    then have "(?p + unat z) div ?B = ?p div ?B" using Suc.prems(4,7) by simp
    then have "(?p + unat z) div ?B * ?B = ?p div ?B * ?B" by simp
    then have "?p mod ?B + unat z < ?B"
      using div_mult_mod_eq [of ?p ?B] div_mult_mod_eq [of "?p + unat z" ?B] mod_less_divisor [OF Suc.prems(3), of "?p + unat z"] by linarith
    then have "unat n = unat z" using n by linarith
    then have "d1 = d" "unat n = unat z" using g(1) Suc.prems(6) by simp_all
    have "SetData_loop dev bs sub (Suc k) blk pos buf z cache m = (0, c2)" unfolding step using 0 by simp
    moreover have "\<forall>s. s \<noteq> sub \<longrightarrow> view dev c2 s = view dev cache s" using c2(2) by simp
    ultimately show ?thesis using c2(1) byte \<open>d1 = d\<close> \<open>unat n = unat z\<close> by metis
  next
    case (Suc k')
    then have le: "?p div ?B + 1 \<le> (?p + unat z) div ?B" using Suc.prems(4,7) by simp
    have nB: "unat n = ?B - ?p mod ?B"
    proof (rule ccontr)
      assume "unat n \<noteq> ?B - ?p mod ?B"
      then have "?p mod ?B + unat z < ?B" using n by linarith
      then show False using div_mod_within(1) [of ?p ?B "unat z"] le by simp
    qed
    have pn: "unat (pos + n) = ?p + unat n" using Suc.prems(5) zn by (simp add: unat_word_ariths)
    have "unat blk + 1 < 2 ^ 64" using Suc.prems(4,5) le div_le_dividend [of "?p + unat z" ?B] by linarith
    then have b1: "unat (blk + 1) = unat blk + 1" by (simp add: unat_word_ariths)
    have "\<exists>c. SetData_loop dev bs sub k (blk + 1) (pos + n) (buf + n) (z - n) c2 m = (0, c) \<and> cache_ok ?B c \<and>
      (\<forall>s. s \<noteq> sub \<longrightarrow> view dev c s = view dev c2 s) \<and>
      (\<forall>x < 2 ^ 64. disk_byte (view dev c sub) ?B x =
        (if unat (pos + n) \<le> x \<and> x < unat (pos + n) + unat (z - n) then d2 ! (x - unat (pos + n)) else disk_byte (view dev c2 sub) ?B x))"
    proof (rule Suc.IH [OF c2(1) Suc.prems(2,3) _ _ g(2)])
      show "unat (blk + 1) = unat (pos + n) div ?B" using b1 pn nB Suc.prems(4) next_block [OF Suc.prems(3), of ?p] by simp
      show "unat (pos + n) + unat (z - n) < 2 ^ 64" using pn zn Suc.prems(5) by simp
      show "Suc ((unat (pos + n) + unat (z - n)) div ?B) = unat (blk + 1) + k" using Suc.prems(7) pn zn b1 by (simp add: add.assoc)
    qed
    then obtain c where c: "SetData_loop dev bs sub k (blk + 1) (pos + n) (buf + n) (z - n) c2 m = (0, c)" "cache_ok ?B c"
      and o: "\<And>s. s \<noteq> sub \<Longrightarrow> view dev c s = view dev c2 s"
      and r: "\<And>x. x < 2 ^ 64 \<Longrightarrow> disk_byte (view dev c sub) ?B x =
        (if ?p + unat n \<le> x \<and> x < ?p + unat z then d2 ! (x - (?p + unat n)) else disk_byte (view dev c2 sub) ?B x)"
      unfolding pn zn by (auto simp: add.assoc)
    have "disk_byte (view dev c sub) ?B x = (if ?p \<le> x \<and> x < ?p + unat z then d ! (x - ?p) else disk_byte ?V ?B x)"
      if "x < 2 ^ 64" for x
    proof -
      have d: "d ! (x - ?p) = (if x - ?p < unat n then d1 ! (x - ?p) else d2 ! (x - ?p - unat n))" using g(3) ld by (simp add: nth_append)
      have "unat n \<le> unat z" using zn by linarith
      consider "x < ?p" | "?p \<le> x" "x < ?p + unat n" | "?p + unat n \<le> x" by linarith
      then show ?thesis
        by cases (use r [OF that] byte [OF that] d \<open>unat n \<le> unat z\<close> in \<open>auto simp: diff_diff_eq\<close>)
    qed
    moreover have "\<forall>s. s \<noteq> sub \<longrightarrow> view dev c s = view dev cache s" using o c2(2) by simp
    ultimately show ?thesis unfolding step using c by blast
  qed
qed

section \<open>Transfers on the device\<close>

text \<open>The bytes of a sub-device as its callers see them.\<close>

definition disk :: "device \<Rightarrow> u64 \<Rightarrow> CachedBlock list \<Rightarrow> u64 \<Rightarrow> nat \<Rightarrow> u8" where
  "disk dev bs cache sub = disk_byte (view dev cache sub) (unat bs)"

lemma disk_bytes_disk: "disk_bytes (view dev cache sub) (unat bs) p n = map (disk dev bs cache sub) [p..<p + n]"
  by (simp add: disk_bytes_def disk_def disk_byte_def)

lemma unat_block_index:
  assumes "(0 :: u64) < bs"
  shows "unat (pos div bs) = unat pos div unat bs" and "0 < unat bs"
  using assms by (simp_all add: unat_div word_less_nat_alt)

lemma block_count:
  fixes a b :: u64
  assumes "unat a \<le> unat b" and "unat b + 1 < 2 ^ 64"
  shows "unat (b - a + 1) = Suc (unat b) - unat a"
proof -
  have "unat (b - a) = unat b - unat a" using assms(1) by (simp add: unat_sub word_le_nat_alt)
  then show ?thesis using assms by (simp add: unat_word_ariths)
qed

lemma half_bound:
  fixes x :: nat
  assumes "1 < B" and "x < 2 ^ 64"
  shows "x div B + 1 < 2 ^ 64"
proof -
  have "x div B \<le> x div 2" using assms(1) by (intro div_le_mono2) simp_all
  moreover have "x div 2 < 2 ^ 63" using assms(2) by simp
  ultimately show ?thesis by simp
qed

lemma Block_GetData_reads:
  assumes ok: "cache_ok (unat bs) cache" and dev: "device_ok (unat bs) dev" and bs: "1 < bs"
    and fit: "unat pos + unat z < 2 ^ 64" and z: "0 < z" and m: "user_mapped m buf (unat z)"
  shows "\<exists>c. Block_GetData dev bs sub pos buf z cache m =
      Some (0, c, snd (put_bytes m buf (map (disk dev bs cache sub) [unat pos..<unat pos + unat z]))) \<and>
    cache_ok (unat bs) c \<and> view dev c = view dev cache"
proof -
  let ?B = "unat bs"
  have b0: "0 < bs" and B: "1 < ?B" and z0: "0 < unat z" using bs z by (simp_all add: word_less_nat_alt)
  note ix = unat_block_index [OF b0]
  have "unat (pos + z) = unat pos + unat z" using fit by (simp add: unat_word_ariths)
  then have e: "unat (pos + z - 1) = unat pos + unat z - 1" using z0 by (simp add: unat_sub word_le_nat_alt)
  have eb: "unat ((pos + z - 1) div bs) = (unat pos + unat z - 1) div ?B" unfolding ix(1) e by (rule refl)
  have le: "unat pos div ?B \<le> (unat pos + unat z - 1) div ?B" using z0 by (intro div_le_mono) simp
  have "(unat pos + unat z - 1) div ?B + 1 < 2 ^ 64" by (rule half_bound [OF B]) (use fit in linarith)
  then have n: "unat ((pos + z - 1) div bs - pos div bs + 1) = Suc ((unat pos + unat z - 1) div ?B) - unat pos div ?B"
    using block_count [of "pos div bs" "(pos + z - 1) div bs"] le eb ix(1) by simp
  have "(unat pos + unat z - 1) div ?B < unat (pos div bs) + unat ((pos + z - 1) div bs - pos div bs + 1)"
    unfolding n ix(1) using le by linarith
  from GetData_loop_reads [OF ok dev ix(2,1) fit m z0 this]
  have r: "\<exists>c. GetData_loop dev bs sub (unat ((pos + z - 1) div bs - pos div bs + 1)) (pos div bs) pos buf z cache m =
      (0, c, snd (put_bytes m buf (map (disk dev bs cache sub) [unat pos..<unat pos + unat z]))) \<and>
    cache_ok ?B c \<and> view dev c = view dev cache" unfolding disk_bytes_disk by blast
  have "bs \<noteq> 0" using b0 by auto
  then show ?thesis using r unfolding Block_GetData_def Let_def by auto
qed

lemma Block_SetData_writes:
  assumes ok: "cache_ok (unat bs) cache" and dev: "device_ok (unat bs) dev" and bs: "1 < bs"
    and fit: "unat pos + unat z < 2 ^ 64" and g: "get_bytes m buf (unat z) = (True, d)"
  shows "\<exists>c. Block_SetData dev bs sub pos buf z cache m = Some (0, c) \<and> cache_ok (unat bs) c \<and>
    (\<forall>s. s \<noteq> sub \<longrightarrow> view dev c s = view dev cache s) \<and>
    (\<forall>x < 2 ^ 64. disk dev bs c sub x =
      (if unat pos \<le> x \<and> x < unat pos + unat z then d ! (x - unat pos) else disk dev bs cache sub x))"
proof -
  let ?B = "unat bs"
  have b0: "0 < bs" and B: "1 < ?B" using bs by (simp_all add: word_less_nat_alt)
  note ix = unat_block_index [OF b0]
  have "unat (pos + z) = unat pos + unat z" using fit by (simp add: unat_word_ariths)
  then have eb: "unat ((pos + z) div bs) = (unat pos + unat z) div ?B" by (simp add: ix(1))
  have le: "unat pos div ?B \<le> (unat pos + unat z) div ?B" by (intro div_le_mono) simp
  have "(unat pos + unat z) div ?B + 1 < 2 ^ 64" by (rule half_bound [OF B fit])
  then have n: "unat ((pos + z) div bs - pos div bs + 1) = Suc ((unat pos + unat z) div ?B) - unat pos div ?B"
    using block_count [of "pos div bs" "(pos + z) div bs"] le eb ix(1) by simp
  have "Suc ((unat pos + unat z) div ?B) = unat (pos div bs) + unat ((pos + z) div bs - pos div bs + 1)"
    unfolding n ix(1) using le by linarith
  note r = SetData_loop_writes [OF ok dev ix(2,1) fit g this, of sub]
  have "bs \<noteq> 0" using b0 by auto
  then have "Block_SetData dev bs sub pos buf z cache m =
      Some (SetData_loop dev bs sub (unat ((pos + z) div bs - pos div bs + 1)) (pos div bs) pos buf z cache m)"
    unfolding Block_SetData_def Let_def by (rule if_not_P)
  then show ?thesis using r unfolding disk_def by simp
qed

text \<open>
  C16: A block device behind its cache is an array of bytes. A write that stays inside the address range replaces exactly
  the bytes of its range, leaves every other byte and every other sub-device as it was, and returns 0; a
  read afterwards stores exactly the bytes of its range in the caller's buffer, changes nothing, and returns 0. Neither
  depends on how the ranges lie on blocks, nor on which blocks are in the cache.
\<close>

theorem Block_device_refines_array:
  assumes "cache_ok (unat bs) cache" and "device_ok (unat bs) dev" and "1 < bs"
    and "unat pos + unat z < 2 ^ 64" and "get_bytes m src (unat z) = (True, d)"
    and "unat rpos + unat y < 2 ^ 64" and "0 < y" and "user_mapped m dst (unat y)"
  shows "\<exists>c. Block_SetData dev bs sub pos src z cache m = Some (0, c) \<and> cache_ok (unat bs) c \<and>
    (\<forall>s. s \<noteq> sub \<longrightarrow> disk dev bs c s = disk dev bs cache s) \<and>
    (\<forall>x < 2 ^ 64. disk dev bs c sub x =
      (if unat pos \<le> x \<and> x < unat pos + unat z then d ! (x - unat pos) else disk dev bs cache sub x)) \<and>
    (\<exists>c'. Block_GetData dev bs sub rpos dst y c m =
        Some (0, c', snd (put_bytes m dst (map (disk dev bs c sub) [unat rpos..<unat rpos + unat y]))) \<and>
      cache_ok (unat bs) c' \<and> disk dev bs c' = disk dev bs c)"
proof -
  obtain c where c: "Block_SetData dev bs sub pos src z cache m = Some (0, c)" "cache_ok (unat bs) c"
    "\<forall>s. s \<noteq> sub \<longrightarrow> view dev c s = view dev cache s"
    "\<forall>x < 2 ^ 64. disk dev bs c sub x =
      (if unat pos \<le> x \<and> x < unat pos + unat z then d ! (x - unat pos) else disk dev bs cache sub x)"
    using Block_SetData_writes [OF assms(1-5)] by blast
  have "\<forall>s. s \<noteq> sub \<longrightarrow> disk dev bs c s = disk dev bs cache s" using c(3) by (simp add: disk_def)
  moreover obtain c' where c': "Block_GetData dev bs sub rpos dst y c m =
      Some (0, c', snd (put_bytes m dst (map (disk dev bs c sub) [unat rpos..<unat rpos + unat y])))"
    "cache_ok (unat bs) c'" "view dev c' = view dev c"
    using Block_GetData_reads [OF c(2) assms(2,3,6,7,8)] by blast
  moreover have "disk dev bs c' = disk dev bs c" using c'(3) by (intro ext) (simp add: disk_def)
  ultimately show ?thesis using c by blast
qed

definition counting_device :: device where
  "counting_device sub blk = (True, replicate 4 (ucast blk))"

definition tiny_memory :: umem where
  "tiny_memory a = (if a < 16 then Some (ucast a + 100) else None)"

theorem Block_device_refines_array_witness:
  "\<exists>c. Block_SetData counting_device 4 0 6 2 3 [] tiny_memory = Some (0, c) \<and>
    (\<exists>c'. Block_GetData counting_device 4 0 4 0 8 c tiny_memory =
      Some (0, c', snd (put_bytes tiny_memory 0 (map (disk counting_device 4 c 0) [4..<12]))) \<and>
      disk counting_device 4 c 0 7 = 103)"
proof -
  have ok: "cache_ok (unat (4 :: u64)) []" "device_ok (unat (4 :: u64)) counting_device" "(1 :: u64) < 4"
    by (simp_all add: cache_ok_def block_keys_def device_ok_def counting_device_def)
  have g: "get_bytes tiny_memory 2 (unat (3 :: u64)) = (True, [102, 103, 104])" by code_simp
  have m: "user_mapped tiny_memory 0 (unat (8 :: u64))" unfolding get_bytes_mapped [symmetric] by code_simp
  have r: "unat (6 :: u64) + unat (3 :: u64) < 2 ^ 64" "unat (4 :: u64) + unat (8 :: u64) < 2 ^ 64" "(0 :: u64) < 8" by simp_all
  obtain c where "Block_SetData counting_device 4 0 6 2 3 [] tiny_memory = Some (0, c)"
    and x: "\<forall>x < 2 ^ 64. disk counting_device 4 c 0 x =
      (if unat (6 :: u64) \<le> x \<and> x < unat (6 :: u64) + unat (3 :: u64) then [102, 103, 104] ! (x - unat (6 :: u64)) else disk counting_device 4 [] 0 x)"
    and "\<exists>c'. Block_GetData counting_device 4 0 4 0 8 c tiny_memory =
      Some (0, c', snd (put_bytes tiny_memory 0 (map (disk counting_device 4 c 0) [unat (4 :: u64)..<unat (4 :: u64) + unat (8 :: u64)])))"
    using Block_device_refines_array [OF ok r(1) g r(2,3) m] by metis
  moreover have "disk counting_device 4 c 0 7 = 103" using x [rule_format, of 7] by simp
  ultimately show ?thesis by auto
qed

text \<open>After a failed read the block stays in the cache with whatever the operation left in it: the next read of it
  succeeds.\<close>

lemma failed_read_is_cached:
  assumes "find_block sub blk cache = None" and "dev sub blk = (False, d)" and "load_block dev sub blk cache = (ok, i, c)"
  shows "\<not> ok \<and> (\<exists>c'. load_block dev sub blk c = (True, i, c') \<and> cb_data (c' ! i) = d)"
proof -
  have c: "\<not> ok" "i = length cache" "c = cache @ [\<lparr> cb_subID = sub, cb_blockID = blk, cb_refCount = 1, cb_data = d \<rparr>]"
    using assms by (auto simp: load_block_def GetCachedBlock_def store_block_def)
  have "find_block sub blk c = Some i" using assms(1) c by (simp add: find_block_append)
  then show ?thesis using c by (simp add: load_block_def GetCachedBlock_def)
qed

section \<open>Registry\<close>

definition registry_ok :: "driver_registry \<Rightarrow> bool" where
  "registry_ok r \<longleftrightarrow> distinct (map driver_ID (g_Drivers r)) \<and> (\<forall>d \<in> set (g_Drivers r). driver_ID d < g_DriverIDCounter r)"

lemma find_append_None: "List.find P xs = None \<Longrightarrow> List.find P (xs @ ys) = List.find P ys"
  by (induction xs) (auto split: if_splits)

lemma RegisterDriver_ok:
  assumes "registry_ok r" and "unat (g_DriverIDCounter r) + 1 < 2 ^ 64" and "RegisterDriver name r = (i, r')"
  shows "registry_ok r' \<and> GetDriver i r' = Some \<lparr> driver_ID = i, driver_name = name \<rparr>"
proof -
  have inc: "g_DriverIDCounter r < g_DriverIDCounter r + 1"
    using assms(2) by (simp add: word_less_nat_alt unat_word_ariths)
  have r: "i = g_DriverIDCounter r" "r' = r \<lparr> g_DriverIDCounter := i + 1, g_Drivers := g_Drivers r @ [\<lparr> driver_ID = i, driver_name = name \<rparr>] \<rparr>"
    using assms(3) by (auto simp: RegisterDriver_def)
  have "List.find (\<lambda>d. driver_ID d = i) (g_Drivers r) = None" using assms(1) r(1) by (auto simp: registry_ok_def find_None_iff)
  then have "GetDriver i r' = Some \<lparr> driver_ID = i, driver_name = name \<rparr>" by (simp add: GetDriver_def r(2) find_append_None)
  moreover have "registry_ok r'" using assms(1) inc by (auto simp: registry_ok_def r intro: order.strict_trans)
  ultimately show ?thesis by blast
qed

end
