(* ===== verification/Ext2.thy ===== *)
theory Ext2
  imports TempFS BlockCache
begin

text \<open>
  The ext2 file system, \<^verbatim>\<open>fs/ext2/ext2.h\<close> and \<^verbatim>\<open>fs/ext2/ext2.cpp\<close>: it reads the superblock, the group descriptors, the inodes and
  the blocks of files and directories from a block device, through the cache of theory \<open>BlockCache\<close>; it never writes. The
  packed structures are the bytes they have on the device, and their fields are little-endian words at offsets. The
  device, with the size of its blocks, is an argument. A structure of the kernel that a failing transfer leaves unwritten
  holds zeros here. A division by zero, an access outside of an array and a loop that does not end are the
  result \<open>None\<close>. The log messages are left out.
\<close>

section \<open>Structures on the device\<close>

definition le16 :: "u8 list \<Rightarrow> nat \<Rightarrow> u16" where
  "le16 b i = ucast (b ! i) OR push_bit 8 (ucast (b ! (i + 1)))"

definition le32 :: "u8 list \<Rightarrow> nat \<Rightarrow> u32" where
  "le32 b i = ucast (le16 b i) OR push_bit 16 (ucast (le16 b (i + 2)))"

text \<open>The superblock has 236 bytes, a group descriptor 18, an inode 128, and a directory entry 8 in front of its name.\<close>

definition sb_blockSizeShift :: "u8 list \<Rightarrow> u32" where
  "sb_blockSizeShift b = le32 b 24"

definition sb_inodesPerGroup :: "u8 list \<Rightarrow> u32" where
  "sb_inodesPerGroup b = le32 b 40"

definition sb_inodeSize :: "u8 list \<Rightarrow> u16" where
  "sb_inodeSize b = le16 b 88"

definition bg_inodeTableBlock :: "u8 list \<Rightarrow> u32" where
  "bg_inodeTableBlock b = le32 b 8"

definition in_typePermissions :: "u8 list \<Rightarrow> u16" where
  "in_typePermissions b = le16 b 0"

definition in_size :: "u8 list \<Rightarrow> u32" where
  "in_size b = le32 b 4"

definition in_hardlinkCount :: "u8 list \<Rightarrow> u16" where
  "in_hardlinkCount b = le16 b 26"

definition in_directPointers :: "u8 list \<Rightarrow> nat \<Rightarrow> u32" where
  "in_directPointers b i = le32 b (40 + 4 * i)"

definition in_indirectPointer :: "u8 list \<Rightarrow> u32" where
  "in_indirectPointer b = le32 b 88"

definition de_inode :: "u8 list \<Rightarrow> u32" where
  "de_inode b = le32 b 0"

definition de_entrySize :: "u8 list \<Rightarrow> u16" where
  "de_entrySize b = le16 b 4"

definition de_nameLengthLow :: "u8 list \<Rightarrow> u8" where
  "de_nameLengthLow b = b ! 6"

definition INode_TypeMask :: u16 where
  "INode_TypeMask = 0xF000"

definition ext2_type :: "u16 \<Rightarrow> NodeType \<Rightarrow> NodeType" where
  "ext2_type t old =
     (if t = 0x8000 then TYPE_FILE
      else if t = 0x4000 then TYPE_DIRECTORY
      else if t = 0x2000 then TYPE_DEVICE_CHAR
      else if t = 0x6000 then TYPE_DEVICE_BLOCK
      else if t = 0x1000 then TYPE_PIPE
      else old)"

section \<open>The driver\<close>

record Ext2Driver =
  x_MP :: ptr
  x_Dev :: u64
  x_SB :: "u8 list"
  x_BlockSize :: u64
  x_BlockGroupDescTableOffset :: u64

record ext2_world =
  e_drivers :: "ptr \<Rightarrow> Ext2Driver option"
  e_inodes :: "ptr \<Rightarrow> u8 list option"
  e_cache :: "CachedBlock list"
  e_user :: umem

text \<open>A transfer into a structure of the kernel, whose result the code does not look at.\<close>

definition read_struct :: "device \<Rightarrow> u64 \<Rightarrow> u64 \<Rightarrow> u64 \<Rightarrow> u64 \<Rightarrow> CachedBlock list \<Rightarrow> (u8 list \<times> CachedBlock list) option" where
  "read_struct dev bs sub pos n cache =
     do {
       (r, cache, m) \<leftarrow> Block_GetData dev bs sub pos 0 n cache (\<lambda>a. Some 0);
       Some (snd (get_bytes m 0 (unat n)), cache)
     }"

text \<open>The constructor; the shift of the block size is that of an \<^verbatim>\<open>int\<close>, undefined from 32 bits on.\<close>

definition Ext2Driver_new :: "device \<Rightarrow> u64 \<Rightarrow> u64 \<Rightarrow> ptr \<Rightarrow> ext2_world \<Rightarrow> ext2_world option" where
  "Ext2Driver_new dev bs sub f w =
     do {
       (sb, cache) \<leftarrow> read_struct dev bs sub 1024 236 (e_cache w);
       if sb_blockSizeShift sb \<ge> 32 then None
       else
         let blockSize = scast (push_bit (unat (sb_blockSizeShift sb)) (1024 :: 32 word)) :: u64;
             blockAfterSuperBlock = (if blockSize = 1024 then 2 else 1)
         in Some (w \<lparr> e_cache := cache,
              e_drivers := (e_drivers w)(f \<mapsto> \<lparr> x_MP = 0, x_Dev = sub, x_SB = sb, x_BlockSize = blockSize,
                x_BlockGroupDescTableOffset = blockAfterSuperBlock * blockSize \<rparr>) \<rparr>)
     }"

definition Ext2_GetSuperBlock :: "ptr \<Rightarrow> ext2_world \<Rightarrow> (u64 \<times> ext2_world) option" where
  "Ext2_GetSuperBlock f w = Some (2, w)"

definition Ext2_SetMountPoint :: "ptr \<Rightarrow> ptr \<Rightarrow> ext2_world \<Rightarrow> ext2_world option" where
  "Ext2_SetMountPoint f mp w = do { x \<leftarrow> e_drivers w f; Some (w \<lparr> e_drivers := (e_drivers w)(f \<mapsto> x \<lparr> x_MP := mp \<rparr>) \<rparr>) }"

definition Ext2_PrepareUnmount :: "ptr \<Rightarrow> ext2_world \<Rightarrow> ext2_world option" where
  "Ext2_PrepareUnmount f w = Some w"

definition Ext2_CreateNode :: "ptr \<Rightarrow> Node \<Rightarrow> ext2_world \<Rightarrow> (Node \<times> ext2_world) option" where
  "Ext2_CreateNode f n w = Some (n, w)"

definition Ext2_DestroyNode :: "ptr \<Rightarrow> Node \<Rightarrow> ext2_world \<Rightarrow> ext2_world option" where
  "Ext2_DestroyNode f n w = Some w"

definition Ext2_UpdateDir :: "ptr \<Rightarrow> Node \<Rightarrow> ext2_world \<Rightarrow> (Node \<times> ext2_world) option" where
  "Ext2_UpdateDir f n w = Some (n, w)"

definition Ext2_WriteNode :: "ptr \<Rightarrow> Node \<Rightarrow> ext2_world \<Rightarrow> ext2_world option" where
  "Ext2_WriteNode f n w = Some w"

section \<open>Reading nodes\<close>

text \<open>The bytes up to a terminator, as a string.\<close>

definition c_string :: "u8 list \<Rightarrow> string" where
  "c_string bs = map (\<lambda>b. char_of (unat b)) (takeWhile (\<lambda>b. b \<noteq> 0) bs)"

text \<open>The entries of a directory. Entries lie in the blocks of the direct pointers; a name and its terminator have 50
  characters of room.\<close>

partial_function (option) ext2_dir_loop ::
  "device \<Rightarrow> u64 \<Rightarrow> Ext2Driver \<Rightarrow> u8 list \<Rightarrow> u64 \<Rightarrow> Directory \<Rightarrow> CachedBlock list \<Rightarrow> (Directory \<times> CachedBlock list) option" where
  "ext2_dir_loop dev bs x inode pos dir cache =
     (if pos < ucast (in_size inode) then
        if x_BlockSize x = 0 \<or> pos div x_BlockSize x \<ge> 12 then None
        else
          let entryBlockPos = ucast (in_directPointers inode (unat (pos div x_BlockSize x))) * x_BlockSize x;
              entryOffset = pos mod x_BlockSize x
          in do {
            (ent, cache) \<leftarrow> read_struct dev bs (x_Dev x) (entryBlockPos + entryOffset) 8 cache;
            let (dir, i) = AddEntry dir;
            if de_nameLengthLow ent \<ge> 50 then None
            else do {
              (name, cache) \<leftarrow> read_struct dev bs (x_Dev x) (entryBlockPos + entryOffset + 8) (ucast (de_nameLengthLow ent)) cache;
              ext2_dir_loop dev bs x inode (pos + ucast (de_entrySize ent))
                (put_entry dir i \<lparr> ename = c_string name, enodeID = ucast (de_inode ent) \<rparr>) cache
            }
          }
      else Some (dir, cache))"

text \<open>Where an inode lies.\<close>

definition ext2_inode_pos :: "device \<Rightarrow> u64 \<Rightarrow> Ext2Driver \<Rightarrow> u64 \<Rightarrow> CachedBlock list \<Rightarrow> (u64 \<times> CachedBlock list) option" where
  "ext2_inode_pos dev bs x i cache =
     (let perGroup = ucast (sb_inodesPerGroup (x_SB x)) :: u64
      in if perGroup = 0 then None
         else do {
           (desc, cache) \<leftarrow> read_struct dev bs (x_Dev x) ((i - 1) div perGroup * 32 + x_BlockGroupDescTableOffset x) 18 cache;
           Some (ucast (bg_inodeTableBlock desc) * x_BlockSize x + (i - 1) mod perGroup * ucast (sb_inodeSize (x_SB x)), cache)
         })"

text \<open>\<open>addr\<close> is the address of the new structure for the inode.\<close>

definition Ext2_ReadNode ::
  "device \<Rightarrow> u64 \<Rightarrow> ptr option \<Rightarrow> ptr \<Rightarrow> u64 \<Rightarrow> Node \<Rightarrow> ext2_world \<Rightarrow> (Node \<times> ext2_world) option" where
  "Ext2_ReadNode dev bs addr f i n w =
     do {
       x \<leftarrow> e_drivers w f;
       (inodePos, cache) \<leftarrow> ext2_inode_pos dev bs x i (e_cache w);
       p \<leftarrow> addr;
       (inode, cache) \<leftarrow> read_struct dev bs (x_Dev x) inodePos 128 cache;
       let n = n \<lparr> node_id := i, ntype := ext2_type (in_typePermissions inode AND INode_TypeMask) (ntype n) \<rparr>;
       (n, cache) \<leftarrow>
         (if ntype n = TYPE_DIRECTORY
          then do { (dir, cache) \<leftarrow> ext2_dir_loop dev bs x inode 0 (Directory_Create 10) cache; Some (n \<lparr> info := InfoFolder dir \<rparr>, cache) }
          else Some (n, cache));
       let n = (if ntype n = TYPE_FILE then n \<lparr> info := InfoFile (ucast (in_size inode)) \<rparr> else n);
       Some (n \<lparr> linkCount := ucast (in_hardlinkCount inode), ownerUID := 0, ownerGID := 0,
               permissions := (permissions n) \<lparr> ownerPermissions := PermRead OR PermExecute, groupPermissions := PermRead OR PermExecute,
                 otherPermissions := PermRead OR PermExecute \<rparr>, fsData := p \<rparr>,
             w \<lparr> e_inodes := (e_inodes w)(p \<mapsto> inode), e_cache := cache \<rparr>)
     }"

section \<open>Reading files\<close>

text \<open>The number of a block: twelve are in the inode, the others in the indirect block, which is loaded when it is first
  needed.\<close>

definition ext2_block_of ::
  "device \<Rightarrow> u64 \<Rightarrow> Ext2Driver \<Rightarrow> u8 list \<Rightarrow> u64 \<Rightarrow> u8 list option \<Rightarrow> CachedBlock list \<Rightarrow> (u64 \<times> u8 list option \<times> CachedBlock list) option" where
  "ext2_block_of dev bs x inode blockIndex ind cache =
     (if blockIndex < 12 then Some (ucast (in_directPointers inode (unat blockIndex)), ind, cache)
      else do {
        (buf, cache) \<leftarrow>
          (case ind of
             Some buf \<Rightarrow> Some (buf, cache)
           | None \<Rightarrow> read_struct dev bs (x_Dev x) (ucast (in_indirectPointer inode) * x_BlockSize x) (x_BlockSize x) cache);
        if unat (blockIndex - 12) * 4 + 4 \<le> length buf
        then Some (ucast (le32 buf (unat (blockIndex - 12) * 4)), Some buf, cache)
        else None
      })"

text \<open>The result of the transfer to the caller's buffer is not looked at.\<close>

partial_function (option) ext2_read_loop ::
  "device \<Rightarrow> u64 \<Rightarrow> Ext2Driver \<Rightarrow> u8 list \<Rightarrow> u64 \<Rightarrow> ptr \<Rightarrow> u64 \<Rightarrow> u64 \<Rightarrow> u8 list option \<Rightarrow> CachedBlock list \<Rightarrow> umem \<Rightarrow>
    (u64 \<times> CachedBlock list \<times> umem) option" where
  "ext2_read_loop dev bs x inode pos buffer rem res ind cache m =
     (if rem > 0 then
        if x_BlockSize x = 0 then None
        else do {
          (blockID, ind, cache) \<leftarrow> ext2_block_of dev bs x inode (pos div x_BlockSize x) ind cache;
          let offset = pos mod x_BlockSize x;
          let leftInBlock = (if x_BlockSize x - offset > rem then rem else x_BlockSize x - offset);
          (r, cache, m) \<leftarrow> Block_GetData dev bs (x_Dev x) (blockID * x_BlockSize x + offset) buffer leftInBlock cache m;
          ext2_read_loop dev bs x inode (pos + leftInBlock) (buffer + leftInBlock) (rem - leftInBlock) (res + leftInBlock) ind cache m
        }
      else Some (res, cache, m))"

definition Ext2_ReadNodeData ::
  "device \<Rightarrow> u64 \<Rightarrow> ptr \<Rightarrow> Node \<Rightarrow> u64 \<Rightarrow> ptr \<Rightarrow> u64 \<Rightarrow> ext2_world \<Rightarrow> (u64 \<times> Node \<times> ext2_world) option" where
  "Ext2_ReadNodeData dev bs f n pos buffer bufferSize w =
     do {
       x \<leftarrow> e_drivers w f;
       inode \<leftarrow> e_inodes w (fsData n);
       let rem = ucast (in_size inode) - pos;
       let rem = (if rem > bufferSize then bufferSize else rem);
       if rem = 0 then Some (0, n, w)
       else do {
         (res, cache, m) \<leftarrow> ext2_read_loop dev bs x inode pos buffer rem 0 None (e_cache w) (e_user w);
         Some (res, n, w \<lparr> e_cache := cache, e_user := m \<rparr>)
       }
     }"

definition Ext2_WriteNodeData :: "ptr \<Rightarrow> Node \<Rightarrow> u64 \<Rightarrow> ptr \<Rightarrow> u64 \<Rightarrow> ext2_world \<Rightarrow> (u64 \<times> Node \<times> ext2_world) option" where
  "Ext2_WriteNodeData f n pos buffer bufferSize w = Some (0, n, w)"

definition Ext2_ClearNodeData :: "ptr \<Rightarrow> Node \<Rightarrow> ext2_world \<Rightarrow> (Node \<times> ext2_world) option" where
  "Ext2_ClearNodeData f n w = Some (n, w)"

section \<open>The virtual file system on ext2\<close>

text \<open>There is one device. Addresses come from a list.\<close>

definition Ext2Factory :: "device \<Rightarrow> u64 \<Rightarrow> u64 list \<Rightarrow> u64 \<Rightarrow> ext2_world \<Rightarrow> (ptr \<times> ext2_world) option" where
  "Ext2Factory dev bs addrs sub w =
     do { f \<leftarrow> first_free addrs (\<lambda>p. e_drivers w p \<noteq> None); w \<leftarrow> Ext2Driver_new dev bs sub f w; Some (f, w) }"

definition ext2_ops :: "device \<Rightarrow> u64 \<Rightarrow> u64 list \<Rightarrow> ext2_world fs_ops" where
  "ext2_ops dev bs addrs = \<lparr>
     alloc = (\<lambda>w used. first_free addrs used),
     GetSuperBlock = Ext2_GetSuperBlock,
     SetMountPoint = Ext2_SetMountPoint,
     PrepareUnmount = Ext2_PrepareUnmount,
     fsCreateNode = Ext2_CreateNode,
     DestroyNode = Ext2_DestroyNode,
     ReadNode = (\<lambda>f i n w. Ext2_ReadNode dev bs (first_free addrs (\<lambda>p. e_inodes w p \<noteq> None)) f i n w),
     UpdateDir = Ext2_UpdateDir,
     ReadNodeData = Ext2_ReadNodeData dev bs,
     WriteNodeData = Ext2_WriteNodeData,
     ClearNodeData = Ext2_ClearNodeData,
     driverType = (\<lambda>_ _. Some TYPE_BLOCK),
     CharRead = (\<lambda>_ _ _ _ _. None),
     CharWrite = (\<lambda>_ _ _ _ _. None),
     GetData = (\<lambda>_ sub pos buf z w.
       do { (r, c, m) \<leftarrow> Block_GetData dev bs sub pos buf z (e_cache w) (e_user w); Some (r, w \<lparr> e_cache := c, e_user := m \<rparr>) }),
     SetData = (\<lambda>_ sub pos buf z w.
       do { (r, c) \<leftarrow> Block_SetData dev bs sub pos buf z (e_cache w) (e_user w); Some (r, w \<lparr> e_cache := c \<rparr>) }),
     driverCommand = (\<lambda>_ _ _ _ _. None),
     runFactory = (\<lambda>_ _. None),
     runFactoryDev = (\<lambda>_ drv sub w. Ext2Factory dev bs addrs sub w),
     deleteFS = (\<lambda>f w. Some (w \<lparr> e_drivers := (e_drivers w)(f := None) \<rparr>)),
     copy_to_user = (\<lambda>dst s w. let (ok, m) = put_bytes (e_user w) dst (map (\<lambda>c. of_nat (of_char c)) s)
                               in (ok, w \<lparr> e_user := m \<rparr>)) \<rparr>"

interpretation efs: file_system "ext2_ops dev bs addrs" for dev bs addrs
proof
  fix w used p assume "alloc (ext2_ops dev bs addrs) w used = Some p"
  then show "\<not> used p" by (auto simp: ext2_ops_def first_free_def dest: find_SomeD)
next
  fix f i n w n' w' assume "ReadNode (ext2_ops dev bs addrs) f i n w = Some (n', w')"
  then show "refCount n' = refCount n" by (auto simp: ext2_ops_def Ext2_ReadNode_def Let_def split: bind_splits if_splits)
next
  fix f n w n' w' assume "UpdateDir (ext2_ops dev bs addrs) f n w = Some (n', w')"
  then show "refCount n' = refCount n" by (auto simp: ext2_ops_def Ext2_UpdateDir_def)
next
  fix f n pos b z w r n' w' assume "ReadNodeData (ext2_ops dev bs addrs) f n pos b z w = Some (r, n', w')"
  then show "refCount n' = refCount n" by (auto simp: ext2_ops_def Ext2_ReadNodeData_def Let_def split: bind_splits if_splits)
next
  fix f n pos b z w r n' w' assume "WriteNodeData (ext2_ops dev bs addrs) f n pos b z w = Some (r, n', w')"
  then show "refCount n' = refCount n" by (auto simp: ext2_ops_def Ext2_WriteNodeData_def)
next
  fix f n w n' w' assume "ClearNodeData (ext2_ops dev bs addrs) f n w = Some (n', w')"
  then show "refCount n' = refCount n"
    and "ntype n' = ntype n \<and> permissions n' = permissions n \<and> ownerUID n' = ownerUID n \<and> ownerGID n' = ownerGID n"
    by (auto simp: ext2_ops_def Ext2_ClearNodeData_def)
qed

end
