(* ===== verification/Ext2Props.thy ===== *)
theory Ext2Props
  imports Ext2
begin

text \<open>
  What reading from ext2 gives: the bytes of a file are the bytes of its blocks on the device, and a directory
  becomes the list of the entries that are encoded in its blocks.
\<close>

section \<open>Structures\<close>

lemma unat_ucast32 [simp]: "unat (ucast (x :: u32) :: u64) = unat x"
proof -
  have "unat x < 2 ^ 32" using unsigned_less [of x] by simp
  then show ?thesis by (simp add: unsigned_ucast_eq take_bit_nat_eq_self_iff)
qed

lemma unat_u32_less: "unat (x :: u32) < 0x100000000"
  using unsigned_less [of x] by simp

lemma read_struct_reads:
  assumes "cache_ok (unat bs) cache" and "device_ok (unat bs) dev" and "1 < bs"
    and "unat pos + unat n < 2 ^ 64" and "0 < n"
  shows "\<exists>c. read_struct dev bs sub pos n cache = Some (map (disk dev bs cache sub) [unat pos..<unat pos + unat n], c) \<and>
    cache_ok (unat bs) c \<and> view dev c = view dev cache"
proof -
  let ?d = "map (disk dev bs cache sub) [unat pos..<unat pos + unat n]" and ?m = "\<lambda>a. Some 0 :: u8 option"
  have m: "user_mapped ?m 0 (unat n)" by (simp add: user_mapped_def)
  obtain c where c: "Block_GetData dev bs sub pos 0 n cache ?m = Some (0, c, snd (put_bytes ?m 0 ?d))"
    "cache_ok (unat bs) c" "view dev c = view dev cache"
    using Block_GetData_reads [OF assms m] by blast
  have "fst (put_bytes ?m 0 ?d)" by (simp add: put_bytes_mapped user_mapped_def)
  then have "get_bytes (snd (put_bytes ?m 0 ?d)) 0 (length ?d) = (True, ?d)" by (intro get_put_bytes) (use unat_lt_64 [of n] in simp_all)
  then show ?thesis using c by (simp add: read_struct_def)
qed

section \<open>Files\<close>

text \<open>The bytes of a file on a device \<open>d\<close> with blocks of \<open>B\<close> bytes.\<close>

definition file_block :: "(nat \<Rightarrow> u8) \<Rightarrow> u8 list \<Rightarrow> nat \<Rightarrow> nat \<Rightarrow> nat" where
  "file_block d inode B k =
     (if k < 12 then unat (in_directPointers inode k)
      else let i = unat (in_indirectPointer inode) * B in unat (le32 (map d [i..<i + B]) ((k - 12) * 4)))"

definition file_byte :: "(nat \<Rightarrow> u8) \<Rightarrow> u8 list \<Rightarrow> nat \<Rightarrow> nat \<Rightarrow> u8" where
  "file_byte d inode B q = d (file_block d inode B (q div B) * B + q mod B)"

text \<open>The indirect block, once it is loaded.\<close>

definition ind_ok :: "(nat \<Rightarrow> u8) \<Rightarrow> u8 list \<Rightarrow> nat \<Rightarrow> u8 list option \<Rightarrow> bool" where
  "ind_ok d inode B ind \<longleftrightarrow>
     (\<forall>buf. ind = Some buf \<longrightarrow> buf = map d [unat (in_indirectPointer inode) * B..<unat (in_indirectPointer inode) * B + B])"

text \<open>The transfers of the driver see one state of the device.\<close>

definition same_disk :: "device \<Rightarrow> u64 \<Rightarrow> CachedBlock list \<Rightarrow> CachedBlock list \<Rightarrow> bool" where
  "same_disk dev bs cache c \<longleftrightarrow> cache_ok (unat bs) c \<and> disk dev bs c = disk dev bs cache"

lemma same_disk_refl: "cache_ok (unat bs) cache \<Longrightarrow> same_disk dev bs cache cache"
  by (simp add: same_disk_def)

lemma same_disk_view: "same_disk dev bs cache c \<Longrightarrow> cache_ok (unat bs) c' \<Longrightarrow> view dev c' = view dev c \<Longrightarrow> same_disk dev bs cache c'"
  unfolding same_disk_def disk_def by (metis (no_types, lifting) ext)

lemma block_pos:
  assumes "unat b < 0x100000000" and "unat B \<le> 2 ^ 31" and "unat (off :: u64) < unat B"
  shows "unat (b * B + off) = unat b * unat B + unat off" and "unat b * unat B + unat B < 2 ^ 64"
proof -
  have "unat b * unat B \<le> 2 ^ 32 * 2 ^ 31" using assms by (intro mult_mono) auto
  then have le: "unat b * unat B + unat B \<le> 2 ^ 63 + 2 ^ 31" using assms(2) by simp
  then show "unat b * unat B + unat B < 2 ^ 64" by simp
  show "unat (b * B + off) = unat b * unat B + unat off" using le assms(3) by (simp add: unat_word_ariths)
qed

text \<open>A driver on a device that can be read; \<open>D\<close> are the bytes of the device.\<close>

definition reader :: "device \<Rightarrow> u64 \<Rightarrow> CachedBlock list \<Rightarrow> Ext2Driver \<Rightarrow> nat \<Rightarrow> (nat \<Rightarrow> u8) \<Rightarrow> bool" where
  "reader dev bs cache x B D \<longleftrightarrow> device_ok (unat bs) dev \<and> 1 < bs \<and> B = unat (x_BlockSize x) \<and> 0 < B \<and> B \<le> 2 ^ 31 \<and>
     D = disk dev bs cache (x_Dev x)"

lemma reader_struct:
  assumes R: "reader dev bs cache0 x B D" and c: "same_disk dev bs cache0 cache" and n: "unat pos + unat n < 2 ^ 64" "0 < n"
  shows "\<exists>c. read_struct dev bs (x_Dev x) pos n cache = Some (map D [unat pos..<unat pos + unat n], c) \<and> same_disk dev bs cache0 c"
proof -
  have ok: "cache_ok (unat bs) cache" "device_ok (unat bs) dev" "1 < bs" using R c by (simp_all add: reader_def same_disk_def)
  obtain c' where c': "read_struct dev bs (x_Dev x) pos n cache = Some (map (disk dev bs cache (x_Dev x)) [unat pos..<unat pos + unat n], c')"
    "cache_ok (unat bs) c'" "view dev c' = view dev cache" using read_struct_reads [OF ok n] by blast
  have "disk dev bs cache (x_Dev x) = D" using R c by (simp add: reader_def same_disk_def)
  then show ?thesis using c'(1) same_disk_view [OF c c'(2,3)] by auto
qed

lemma block_of_finds:
  assumes R: "reader dev bs cache0 x B D" and c: "same_disk dev bs cache0 cache" and ind: "ind_ok D inode B ind" and k: "unat k < 12 + B div 4"
  shows "\<exists>b ind' c. ext2_block_of dev bs x inode k ind cache = Some (b, ind', c) \<and> unat b = file_block D inode B (unat k) \<and>
    unat b < 0x100000000 \<and> ind_ok D inode B ind' \<and> same_disk dev bs cache0 c"
proof (cases "k < 12")
  case True
  then have "unat k < 12" by (simp add: word_less_nat_alt)
  then show ?thesis using True c ind by (simp add: ext2_block_of_def file_block_def unat_u32_less)
next
  case False
  then have k12: "\<not> unat k < 12" by (simp add: word_less_nat_alt)
  have "12 \<le> k" using False by simp
  then have uk: "unat (k - 12) = unat k - 12" by (simp add: unat_sub)
  let ?i = "unat (in_indirectPointer inode) * B"
  let ?buf = "map D [?i..<?i + B]"
  have bp: "unat (ucast (in_indirectPointer inode) * x_BlockSize x) = ?i" "?i + B < 2 ^ 64"
    using block_pos [of "ucast (in_indirectPointer inode)" "x_BlockSize x" 0] R unat_u32_less [of "in_indirectPointer inode"]
    by (simp_all add: reader_def)
  have "\<exists>c. (case ind of Some buf \<Rightarrow> Some (buf, cache)
      | None \<Rightarrow> read_struct dev bs (x_Dev x) (ucast (in_indirectPointer inode) * x_BlockSize x) (x_BlockSize x) cache) = Some (?buf, c) \<and>
      same_disk dev bs cache0 c"
  proof (cases ind)
    case None
    have "0 < x_BlockSize x" "B = unat (x_BlockSize x)" using R by (simp_all add: reader_def word_less_nat_alt)
    then show ?thesis using None reader_struct [OF R c, of "ucast (in_indirectPointer inode) * x_BlockSize x" "x_BlockSize x"] bp by simp
  next
    case (Some buf)
    then show ?thesis using ind c by (simp add: ind_ok_def)
  qed
  then obtain c1 where c1: "(case ind of Some buf \<Rightarrow> Some (buf, cache)
      | None \<Rightarrow> read_struct dev bs (x_Dev x) (ucast (in_indirectPointer inode) * x_BlockSize x) (x_BlockSize x) cache) = Some (?buf, c1)"
    "same_disk dev bs cache0 c1" by blast
  have "(unat k - 12) * 4 + 4 \<le> B" using k k12 by linarith
  then show ?thesis using c1 False k12 uk by (simp add: ext2_block_of_def file_block_def Let_def ind_ok_def unat_u32_less)
qed

lemma file_part:
  assumes "q mod B + n \<le> B"
  shows "map D [file_block D inode B (q div B) * B + q mod B..<file_block D inode B (q div B) * B + q mod B + n] = map (file_byte D inode B) [q..<q + n]"
proof (rule nth_equalityI)
  fix j assume "j < length (map D [file_block D inode B (q div B) * B + q mod B..<file_block D inode B (q div B) * B + q mod B + n])"
  then have j: "j < n" by simp
  then show "map D [file_block D inode B (q div B) * B + q mod B..<file_block D inode B (q div B) * B + q mod B + n] ! j = map (file_byte D inode B) [q..<q + n] ! j"
    using div_mod_within [of q B j] assms by (simp add: file_byte_def add.assoc)
qed simp

lemma read_loop_reads:
  assumes R: "reader dev bs cache0 x B D"
    and "same_disk dev bs cache0 cache" and "ind_ok D inode B ind" and "unat pos + unat rem \<le> (12 + B div 4) * B"
    and "unat pos + unat rem < 2 ^ 64" and "user_mapped m buf (unat rem)"
  shows "\<exists>c. ext2_read_loop dev bs x inode pos buf rem res ind cache m =
      Some (res + rem, c, snd (put_bytes m buf (map (file_byte D inode B) [unat pos..<unat pos + unat rem]))) \<and> same_disk dev bs cache0 c"
  using assms(2-)
proof (induction "unat rem" arbitrary: pos buf rem res ind cache m rule: less_induct)
  case less
  have B: "B = unat (x_BlockSize x)" "0 < B" "B \<le> 2 ^ 31" and dev: "device_ok (unat bs) dev" "1 < bs" using R by (simp_all add: reader_def)
  show ?case
  proof (cases "rem = 0")
    case True
    then show ?thesis using less.prems(1) by (simp add: ext2_read_loop.simps)
  next
    case False
    then have r0: "0 < rem" "0 < unat rem" by (simp_all add: word_neq_0_conv unat_gt_0)
    define k where "k = pos div x_BlockSize x"
    define off where "off = pos mod x_BlockSize x"
    define n where "n = (if x_BlockSize x - off > rem then rem else x_BlockSize x - off)"
    have uk: "unat k = unat pos div B" "unat off = unat pos mod B" by (simp_all add: k_def off_def unat_div unat_mod B(1))
    have offB: "unat off < B" using B(2) uk by simp
    then have "off \<le> x_BlockSize x" using B(1) by (simp add: word_le_nat_alt)
    then have un: "unat n = min (B - unat off) (unat rem)" by (auto simp: n_def unat_sub B(1) word_less_nat_alt)
    have n0: "0 < unat n" "unat n \<le> unat rem" "unat off + unat n \<le> B" using un r0(2) offB by auto
    have "unat pos < (12 + B div 4) * B" using less.prems(3) r0(2) by linarith
    then have "unat k < 12 + B div 4" unfolding uk(1) by (rule less_mult_imp_div_less)
    then obtain b ind' c1 where b: "ext2_block_of dev bs x inode k ind cache = Some (b, ind', c1)" "unat b = file_block D inode B (unat k)"
      "unat b < 0x100000000" "ind_ok D inode B ind'" "same_disk dev bs cache0 c1"
      using block_of_finds [OF R less.prems(1,2)] by blast
    have bp: "unat (b * x_BlockSize x + off) = unat b * B + unat off" "unat b * B + B < 2 ^ 64"
      using block_pos [OF b(3), of "x_BlockSize x" off] B offB by simp_all
    have rem: "unat (rem - n) = unat rem - unat n" using n0(2) by (simp add: unat_sub word_le_nat_alt)
    have bz: "x_BlockSize x \<noteq> 0" using B by auto
    have split: "unat rem = unat n + unat (rem - n)" using rem n0(2) by simp
    have mp: "user_mapped m buf (unat n)" "user_mapped m (buf + n) (unat (rem - n))"
      using user_mapped_shift [of m buf "unat n" "unat (rem - n)"] less.prems(5) split by simp_all
    define part where "part = map (file_byte D inode B) [unat pos..<unat pos + unat n]"
    have "map (disk dev bs c1 (x_Dev x)) [unat b * B + unat off..<unat b * B + unat off + unat n] = part"
      using file_part [where q = "unat pos" and n = "unat n" and B = B and D = D and inode = inode] n0(3) b(2,5) R
      by (simp add: part_def uk same_disk_def reader_def)
    then obtain c2 where c2: "Block_GetData dev bs (x_Dev x) (b * x_BlockSize x + off) buf n c1 m = Some (0, c2, snd (put_bytes m buf part))"
      "cache_ok (unat bs) c2" "view dev c2 = view dev c1"
      using Block_GetData_reads [OF _ dev, of c1 "b * x_BlockSize x + off" n m buf "x_Dev x"] b(5) bp n0 mp(1)
      by (auto simp: same_disk_def word_less_nat_alt)
    define m1 where "m1 = snd (put_bytes m buf part)"
    have put: "put_bytes m buf part = (True, m1)" using mp(1) by (simp add: m1_def part_def prod_eq_iff put_bytes_mapped)
    have pn: "unat (pos + n) = unat pos + unat n" using less.prems(4) n0(2) by (simp add: unat_word_ariths)
    have s2: "same_disk dev bs cache0 c2" by (rule same_disk_view [OF b(5) c2(2,3)])
    have dec: "unat (rem - n) < unat rem" using rem n0(1) r0(2) by simp
    have lim: "unat (pos + n) + unat (rem - n) \<le> (12 + B div 4) * B" "unat (pos + n) + unat (rem - n) < 2 ^ 64"
      unfolding pn rem using less.prems(3,4) n0(2) by simp_all
    have mp1: "user_mapped m1 (buf + n) (unat (rem - n))" unfolding m1_def user_mapped_put by (rule mp(2))
    obtain c where c: "ext2_read_loop dev bs x inode (pos + n) (buf + n) (rem - n) (res + n) ind' c2 m1 =
        Some (res + n + (rem - n), c, snd (put_bytes m1 (buf + n) (map (file_byte D inode B) [unat (pos + n)..<unat (pos + n) + unat (rem - n)])))"
      "same_disk dev bs cache0 c"
      using less.hyps [OF dec s2 b(4) lim mp1] by blast
    have "ext2_read_loop dev bs x inode pos buf rem res ind cache m = ext2_read_loop dev bs x inode (pos + n) (buf + n) (rem - n) (res + n) ind' c2 m1"
      unfolding ext2_read_loop.simps [of dev bs x inode pos buf rem res ind cache m] Let_def k_def [symmetric] off_def [symmetric] n_def [symmetric]
      using r0(1) bz b(1) c2(1) by (simp add: m1_def)
    moreover have "[unat pos..<unat pos + unat rem] = [unat pos..<unat pos + unat n] @ [unat (pos + n)..<unat (pos + n) + unat (rem - n)]"
      using upt_add_eq_append [of "unat pos" "unat pos + unat n" "unat (rem - n)"] split pn by (simp add: add.assoc)
    ultimately show ?thesis using c put put_bytes_append [of m buf part] by (simp add: part_def)
  qed
qed

text \<open>
  C17: Reading a file of an ext2 file system is reading an array: the caller's buffer gets exactly the bytes of the file from the
  position on, up to the end of the file or the size of the buffer, in whichever direct or indirect blocks they
  lie on the device; their number is returned, and the device is unchanged.
\<close>

theorem Ext2_ReadNodeData_reads_file:
  assumes R: "reader dev bs (e_cache w) x B D" and ok: "cache_ok (unat bs) (e_cache w)"
    and x: "e_drivers w f = Some x" and i: "e_inodes w (fsData n) = Some inode"
    and pos: "unat pos \<le> unat (in_size inode)" and fit: "unat (in_size inode) \<le> (12 + B div 4) * B"
    and k: "k = min (unat (in_size inode) - unat pos) (unat z)" and m: "user_mapped (e_user w) buf k"
  shows "\<exists>w'. Ext2_ReadNodeData dev bs f n pos buf z w = Some (of_nat k, n, w') \<and>
    e_user w' = snd (put_bytes (e_user w) buf (map (file_byte D inode B) [unat pos..<unat pos + k])) \<and>
    cache_ok (unat bs) (e_cache w') \<and> disk dev bs (e_cache w') = disk dev bs (e_cache w) \<and> e_inodes w' = e_inodes w \<and> e_drivers w' = e_drivers w"
proof -
  define rem where "rem = (let rem = ucast (in_size inode) - pos in if rem > z then z else rem)"
  have us: "unat (ucast (in_size inode) - pos) = unat (in_size inode) - unat pos" using pos by (simp add: unat_sub word_le_nat_alt)
  then have ur: "unat rem = k" by (auto simp: rem_def k word_less_nat_alt Let_def)
  then have rk: "rem = of_nat k" by auto
  show ?thesis
  proof (cases "rem = 0")
    case True
    then have "k = 0" using ur by simp
    then show ?thesis using x i ok True by (simp add: Ext2_ReadNodeData_def Let_def rem_def [unfolded Let_def, symmetric])
  next
    case False
    have b: "unat pos + unat rem \<le> unat (in_size inode)" using ur k pos by simp
    then have "unat pos + unat rem < 2 ^ 64" using unat_u32_less [of "in_size inode"] by simp
    then obtain c where c: "ext2_read_loop dev bs x inode pos buf rem 0 None (e_cache w) (e_user w) =
        Some (0 + rem, c, snd (put_bytes (e_user w) buf (map (file_byte D inode B) [unat pos..<unat pos + unat rem])))" "same_disk dev bs (e_cache w) c"
      using read_loop_reads [OF R same_disk_refl [OF ok], of inode None pos rem "e_user w" buf 0] b fit m ur by (auto simp: ind_ok_def)
    then have "Ext2_ReadNodeData dev bs f n pos buf z w =
        Some (rem, n, w \<lparr> e_cache := c, e_user := snd (put_bytes (e_user w) buf (map (file_byte D inode B) [unat pos..<unat pos + k])) \<rparr>)"
      using x i False by (simp add: Ext2_ReadNodeData_def Let_def rem_def [unfolded Let_def, symmetric] ur)
    then show ?thesis using c(2) rk by (simp add: same_disk_def)
  qed
qed

section \<open>Directories\<close>

text \<open>The entries of a directory as ext2 stores them: inode, size of the entry, length of the name, type, name, and padding up to
  the next entry.\<close>

record ext2_dirent =
  d_inode :: u32
  d_type :: u8
  d_name :: "u8 list"
  d_pad :: "u8 list"

definition bytes16 :: "u16 \<Rightarrow> u8 list" where
  "bytes16 x = [ucast x, ucast (drop_bit 8 x)]"

definition bytes32 :: "u32 \<Rightarrow> u8 list" where
  "bytes32 x = [ucast x, ucast (drop_bit 8 x), ucast (drop_bit 16 x), ucast (drop_bit 24 x)]"

definition dirent_size :: "ext2_dirent \<Rightarrow> nat" where
  "dirent_size e = 8 + length (d_name e) + length (d_pad e)"

definition encode_dirent :: "ext2_dirent \<Rightarrow> u8 list" where
  "encode_dirent e = bytes32 (d_inode e) @ bytes16 (of_nat (dirent_size e)) @ [of_nat (length (d_name e)), d_type e] @ d_name e @ d_pad e"

definition dirent_entry :: "ext2_dirent \<Rightarrow> DirectoryEntry" where
  "dirent_entry e = \<lparr> ename = map (\<lambda>b. char_of (unat b)) (d_name e), enodeID = ucast (d_inode e) \<rparr>"

text \<open>Names are not empty and fit into an entry of the virtual file system, and no entry crosses the end of a block.\<close>

definition dirent_ok :: "ext2_dirent \<Rightarrow> bool" where
  "dirent_ok e \<longleftrightarrow> 0 < length (d_name e) \<and> length (d_name e) < 50 \<and> 0 \<notin> set (d_name e) \<and> dirent_size e < 2 ^ 16"

fun dir_layout :: "nat \<Rightarrow> nat \<Rightarrow> ext2_dirent list \<Rightarrow> bool" where
  "dir_layout B p [] \<longleftrightarrow> True"
| "dir_layout B p (e # es) \<longleftrightarrow> dirent_ok e \<and> p mod B + dirent_size e \<le> B \<and> dir_layout B (p + dirent_size e) es"

lemma le16_bytes: "le16 (bytes16 x @ ys) 0 = x"
  by (rule bit_word_eqI) (auto simp: le16_def bytes16_def bit_or_iff bit_push_bit_iff bit_ucast_iff bit_drop_bit_eq)

lemma le32_bytes: "le32 (bytes32 x @ ys) 0 = x"
proof (rule bit_word_eqI)
  fix n assume n: "n < LENGTH(32)"
  show "bit (le32 (bytes32 x @ ys) 0) n = bit x n"
  proof (cases "16 \<le> n")
    case True
    then obtain k where "n = 16 + k" by (auto simp: le_iff_add)
    then show ?thesis using n by (auto simp: le32_def le16_def bytes32_def bit_or_iff bit_push_bit_iff bit_ucast_iff bit_drop_bit_eq)
  next
    case False
    then show ?thesis using n by (auto simp: le32_def le16_def bytes32_def bit_or_iff bit_push_bit_iff bit_ucast_iff bit_drop_bit_eq)
  qed
qed

lemma le16_append: "le16 (xs @ ys) (length xs) = le16 ys 0"
  by (simp add: le16_def nth_append)

lemma encode_length: "length (encode_dirent e) = dirent_size e" "8 \<le> dirent_size e"
  by (simp_all add: encode_dirent_def bytes32_def bytes16_def dirent_size_def)

lemma encode_fields:
  assumes "dirent_ok e"
  shows "de_inode (take 8 (encode_dirent e)) = d_inode e" and "unat (de_entrySize (take 8 (encode_dirent e))) = dirent_size e"
    and "unat (de_nameLengthLow (take 8 (encode_dirent e))) = length (d_name e)"
    and "take (length (d_name e)) (drop 8 (encode_dirent e)) = d_name e"
proof -
  let ?h = "bytes16 (of_nat (dirent_size e)) @ [of_nat (length (d_name e)), d_type e]"
  have h: "take 8 (encode_dirent e) = bytes32 (d_inode e) @ ?h" by (simp add: encode_dirent_def bytes32_def bytes16_def)
  show "de_inode (take 8 (encode_dirent e)) = d_inode e" unfolding h de_inode_def by (rule le32_bytes)
  have "length (bytes32 (d_inode e)) = 4" by (simp add: bytes32_def)
  then have "le16 (bytes32 (d_inode e) @ ?h) 4 = le16 ?h 0" using le16_append [of "bytes32 (d_inode e)" ?h] by (simp only:)
  then have "de_entrySize (take 8 (encode_dirent e)) = of_nat (dirent_size e)" unfolding h de_entrySize_def by (simp add: le16_bytes)
  then show "unat (de_entrySize (take 8 (encode_dirent e))) = dirent_size e" using assms by (simp add: dirent_ok_def unat_of_nat)
  have "de_nameLengthLow (take 8 (encode_dirent e)) = of_nat (length (d_name e))" unfolding h de_nameLengthLow_def by (simp add: bytes32_def bytes16_def)
  then show "unat (de_nameLengthLow (take 8 (encode_dirent e))) = length (d_name e)" using assms by (simp add: dirent_ok_def unat_of_nat)
  show "take (length (d_name e)) (drop 8 (encode_dirent e)) = d_name e" by (simp add: encode_dirent_def bytes32_def bytes16_def)
qed

lemma c_string_name: "0 \<notin> set bs \<Longrightarrow> c_string bs = map (\<lambda>b. char_of (unat b)) bs"
  unfolding c_string_def by (subst takeWhile_eq_all_conv [THEN iffD2]) auto

text \<open>A part of a directory block.\<close>

lemma dir_part:
  assumes R: "reader dev bs cache0 x B D" and c: "same_disk dev bs cache0 cache" and p: "unat p < 12 * B" "unat p mod B + j + unat n \<le> B" "0 < n"
  shows "\<exists>c. read_struct dev bs (x_Dev x) (ucast (in_directPointers inode (unat (p div x_BlockSize x))) * x_BlockSize x + p mod x_BlockSize x + of_nat j) n cache =
      Some (map (file_byte D inode B) [unat p + j..<unat p + j + unat n], c) \<and> same_disk dev bs cache0 c"
proof -
  have B: "B = unat (x_BlockSize x)" "0 < B" "B \<le> 2 ^ 31" using R by (simp_all add: reader_def)
  have n0: "0 < unat n" using p(3) by (simp add: word_less_nat_alt)
  have uk: "unat (p div x_BlockSize x) = unat p div B" "unat (p mod x_BlockSize x) = unat p mod B" by (simp_all add: unat_div unat_mod B(1))
  have k12: "unat p div B < 12" using p(1) by (rule less_mult_imp_div_less)
  let ?b = "ucast (in_directPointers inode (unat p div B)) :: u64"
  have fb: "file_block D inode B (unat p div B) = unat ?b" using k12 by (simp add: file_block_def)
  have ub: "unat ?b < 0x100000000" using unat_u32_less by simp
  have jB: "unat p mod B + j < B" using p(2) n0 by linarith
  have bp: "unat (?b * x_BlockSize x + p mod x_BlockSize x) = unat ?b * B + unat p mod B" "unat ?b * B + B < 2 ^ 64"
    using block_pos [OF ub, of "x_BlockSize x" "p mod x_BlockSize x"] B uk by simp_all
  have pos: "unat (?b * x_BlockSize x + p mod x_BlockSize x + of_nat j) = unat ?b * B + (unat p mod B + j)"
    using unat_add_small [of "?b * x_BlockSize x + p mod x_BlockSize x" j] bp jB by simp
  note w = div_mod_within [OF jB]
  have "map D [unat ?b * B + (unat p mod B + j)..<unat ?b * B + (unat p mod B + j) + unat n] = map (file_byte D inode B) [unat p + j..<unat p + j + unat n]"
    using file_part [where q = "unat p + j" and n = "unat n" and B = B and D = D and inode = inode] p(2) unfolding w fb by simp
  then show ?thesis using reader_struct [OF R c, of "?b * x_BlockSize x + p mod x_BlockSize x + of_nat j" n] p(2,3) bp(2) unfolding pos uk(1) by simp
qed

lemma bytes_at:
  assumes "map f [p..<p + n] = xs" and "j + k \<le> n"
  shows "map f [p + j..<p + j + k] = take k (drop j xs)"
  using assms by (auto simp: take_map drop_map min_def)

lemma dir_loop_lists:
  assumes R: "reader dev bs cache0 x B D" and "same_disk dev bs cache0 cache" and lim: "unat (in_size inode) \<le> 12 * B"
    and "unat pos + length (concat (map encode_dirent es)) = unat (in_size inode)"
    and "map (file_byte D inode B) [unat pos..<unat (in_size inode)] = concat (map encode_dirent es)"
    and "dir_layout B (unat pos) es" and "dir_ok dir" and "unat (capacity dir) + 16 * (length es + 1) < 2 ^ 64"
  shows "\<exists>dir' c. ext2_dir_loop dev bs x inode pos dir cache = Some (dir', c) \<and> dir_ok dir' \<and>
    dir_list dir' = dir_list dir @ map dirent_entry es \<and> same_disk dev bs cache0 c"
  using assms(2,4-)
proof (induction es arbitrary: pos dir cache)
  case Nil
  then have "\<not> pos < ucast (in_size inode)" by (simp add: word_less_nat_alt)
  then show ?case using Nil by (simp add: ext2_dir_loop.simps)
next
  case (Cons e es)
  let ?s = "dirent_size e" and ?p = "unat pos" and ?S = "unat (in_size inode)"
  have B: "B = unat (x_BlockSize x)" "0 < B" and e: "dirent_ok e" "?p mod B + ?s \<le> B" using R Cons.prems(4) by (simp_all add: reader_def)
  have nm: "0 < length (d_name e)" "length (d_name e) < 50" "0 \<notin> set (d_name e)" using e(1) by (simp_all add: dirent_ok_def)
  have len: "?p + ?s + length (concat (map encode_dirent es)) = ?S" using Cons.prems(2) encode_length(1) [of e] by simp
  have p12: "?p < 12 * B" using len encode_length(2) [of e] lim by linarith
  have here: "map (file_byte D inode B) [?p..<?p + ?s] = encode_dirent e"
    and rest: "map (file_byte D inode B) [?p + ?s..<?S] = concat (map encode_dirent es)"
  proof -
    have "[?p..<?S] = [?p..<?p + ?s] @ [?p + ?s..<?S]" using upt_add_eq_append [of ?p "?p + ?s" "?S - (?p + ?s)"] len by simp
    then have "map (file_byte D inode B) [?p..<?p + ?s] @ map (file_byte D inode B) [?p + ?s..<?S] = encode_dirent e @ concat (map encode_dirent es)"
      using Cons.prems(3) by simp
    then show "map (file_byte D inode B) [?p..<?p + ?s] = encode_dirent e" "map (file_byte D inode B) [?p + ?s..<?S] = concat (map encode_dirent es)"
      using encode_length(1) [of e] by simp_all
  qed
  let ?h = "take 8 (encode_dirent e)" and ?at = "ucast (in_directPointers inode (unat (pos div x_BlockSize x))) * x_BlockSize x + pos mod x_BlockSize x"
  note F = encode_fields [OF e(1)]
  obtain c1 where c1: "read_struct dev bs (x_Dev x) ?at 8 cache = Some (?h, c1)" "same_disk dev bs cache0 c1"
    using dir_part [OF R Cons.prems(1) p12, of 0 8 inode] e(2) encode_length(2) [of e] bytes_at [OF here, of 0 8] by auto
  have un: "unat (ucast (de_nameLengthLow ?h) :: u64) = length (d_name e)"
    using F(3) nm(2) by (simp add: unsigned_ucast_eq take_bit_nat_eq_self_iff)
  have n8: "8 + length (d_name e) \<le> ?s" by (simp add: dirent_size_def)
  obtain c2 where c2: "read_struct dev bs (x_Dev x) (?at + 8) (ucast (de_nameLengthLow ?h)) c1 = Some (d_name e, c2)" "same_disk dev bs cache0 c2"
    using dir_part [OF R c1(2) p12, of 8 "ucast (de_nameLengthLow ?h)" inode] un nm(1) e(2) n8 bytes_at [OF here, of 8 "length (d_name e)"] F(4)
    by (auto simp: word_less_nat_alt)
  obtain d1 i where a: "AddEntry dir = (d1, i)" by fastforce
  have room: "unat (capacity dir) + 16 < 2 ^ 64" using Cons.prems(6) by simp
  let ?dir = "put_entry d1 i (dirent_entry e)"
  note A = AddEntry_appends(2,3) [OF Cons.prems(5) room a, of "dirent_entry e"]
  have cap: "unat (capacity ?dir) \<le> unat (capacity dir) + 16" using AddEntry_capacity [OF room a] by (simp add: put_entry_def)
  have us: "unat (ucast (de_entrySize ?h) :: u64) = ?s" using F(2) e(1) by (simp add: dirent_ok_def unsigned_ucast_eq take_bit_nat_eq_self_iff)
  have np: "unat (pos + ucast (de_entrySize ?h)) = ?p + ?s" using us len unat_u32_less [of "in_size inode"] by (simp add: unat_word_ariths)
  have "\<not> de_nameLengthLow ?h \<ge> 50" using F(3) nm(2) by (simp add: word_le_nat_alt)
  moreover have "pos < ucast (in_size inode)" using len encode_length(2) [of e] by (simp add: word_less_nat_alt)
  moreover have "x_BlockSize x \<noteq> 0" using B by auto
  moreover have "\<not> pos div x_BlockSize x \<ge> 12" using less_mult_imp_div_less [OF p12] by (simp add: word_le_nat_alt unat_div B(1))
  moreover have "\<lparr> ename = c_string (d_name e), enodeID = ucast (de_inode ?h) \<rparr> = dirent_entry e"
    using F(1) c_string_name [OF nm(3)] by (simp add: dirent_entry_def)
  ultimately have step: "ext2_dir_loop dev bs x inode pos dir cache = ext2_dir_loop dev bs x inode (pos + ucast (de_entrySize ?h)) ?dir c2"
    unfolding ext2_dir_loop.simps [of dev bs x inode pos dir cache] Let_def using c1(1) c2(1) a by simp
  show ?case unfolding step
    using Cons.IH [OF c2(2), of "pos + ucast (de_entrySize ?h)" ?dir] np len rest Cons.prems(4,6) A cap by auto
qed

section \<open>Nodes\<close>

text \<open>Where an inode lies on the device, and its bytes.\<close>

definition group_pos :: "Ext2Driver \<Rightarrow> u64 \<Rightarrow> u64" where
  "group_pos x i = (i - 1) div ucast (sb_inodesPerGroup (x_SB x)) * 32 + x_BlockGroupDescTableOffset x"

definition inode_pos :: "(nat \<Rightarrow> u8) \<Rightarrow> Ext2Driver \<Rightarrow> u64 \<Rightarrow> u64" where
  "inode_pos D x i =
     ucast (bg_inodeTableBlock (map D [unat (group_pos x i)..<unat (group_pos x i) + 18])) * x_BlockSize x +
     (i - 1) mod ucast (sb_inodesPerGroup (x_SB x)) * ucast (sb_inodeSize (x_SB x))"

definition inode_bytes :: "(nat \<Rightarrow> u8) \<Rightarrow> Ext2Driver \<Rightarrow> u64 \<Rightarrow> u8 list" where
  "inode_bytes D x i = map D [unat (inode_pos D x i)..<unat (inode_pos D x i) + 128]"

lemma read_inode:
  assumes R: "reader dev bs cache0 x B D" and c: "same_disk dev bs cache0 cache" and g: "sb_inodesPerGroup (x_SB x) \<noteq> 0"
    and fit: "unat (group_pos x i) + 18 < 2 ^ 64" "unat (inode_pos D x i) + 128 < 2 ^ 64"
  shows "\<exists>c1 c2. ext2_inode_pos dev bs x i cache = Some (inode_pos D x i, c1) \<and>
    read_struct dev bs (x_Dev x) (inode_pos D x i) 128 c1 = Some (inode_bytes D x i, c2) \<and> same_disk dev bs cache0 c2"
proof -
  have "unat (sb_inodesPerGroup (x_SB x)) \<noteq> 0" using g by (simp add: unat_eq_0)
  then have "(ucast (sb_inodesPerGroup (x_SB x)) :: u64) \<noteq> 0" by (metis unat_0 unat_ucast32)
  moreover obtain c1 where c1: "read_struct dev bs (x_Dev x) (group_pos x i) 18 cache = Some (map D [unat (group_pos x i)..<unat (group_pos x i) + 18], c1)"
    "same_disk dev bs cache0 c1" using reader_struct [OF R c, of "group_pos x i" 18] fit(1) by auto
  ultimately have "ext2_inode_pos dev bs x i cache = Some (inode_pos D x i, c1)"
    by (simp add: ext2_inode_pos_def Let_def inode_pos_def flip: group_pos_def)
  then show ?thesis using reader_struct [OF R c1(2), of "inode_pos D x i" 128] fit(2) by (auto simp: inode_bytes_def)
qed

text \<open>
  C18: Reading a directory node of an ext2 file system decodes what is encoded on the device: if the blocks of the directory hold
  the encoding of a list of entries, none of which crosses a block, the loop ends and the node gets exactly these
  entries in their order, with their names and inode numbers, also when the array of entries has to grow.
\<close>

theorem Ext2_ReadNode_lists_directory:
  assumes R: "reader dev bs (e_cache w) x B D" and ok: "cache_ok (unat bs) (e_cache w)" and x: "e_drivers w f = Some x"
    and g: "sb_inodesPerGroup (x_SB x) \<noteq> 0" "unat (group_pos x i) + 18 < 2 ^ 64" "unat (inode_pos D x i) + 128 < 2 ^ 64"
    and inode: "inode = inode_bytes D x i" "in_typePermissions inode AND INode_TypeMask = 0x4000" "unat (in_size inode) \<le> 12 * B"
    and dir: "map (file_byte D inode B) [0..<unat (in_size inode)] = concat (map encode_dirent es)" "dir_layout B 0 es" "length es < 2 ^ 32"
  shows "\<exists>n' w' d. Ext2_ReadNode dev bs (Some p) f i n w = Some (n', w') \<and> ntype n' = TYPE_DIRECTORY \<and> node_id n' = i \<and>
    info n' = InfoFolder d \<and> dir_ok d \<and> dir_list d = map dirent_entry es \<and> refCount n' = refCount n \<and>
    e_inodes w' (fsData n') = Some inode \<and> disk dev bs (e_cache w') = disk dev bs (e_cache w)"
proof -
  obtain c1 c2 where c: "ext2_inode_pos dev bs x i (e_cache w) = Some (inode_pos D x i, c1)"
    "read_struct dev bs (x_Dev x) (inode_pos D x i) 128 c1 = Some (inode, c2)" "same_disk dev bs (e_cache w) c2"
    using read_inode [OF R same_disk_refl [OF ok] g] inode(1) by blast
  have len: "unat (0 :: u64) + length (concat (map encode_dirent es)) = unat (in_size inode)" using arg_cong [OF dir(1), of length] by simp
  have "dir_ok (Directory_Create 10)" "unat (capacity (Directory_Create 10)) + 16 * (length es + 1) < 2 ^ 64"
    using dir(3) by (simp_all add: Directory_Create_def dir_ok_def)
  then obtain d c3 where d: "ext2_dir_loop dev bs x inode 0 (Directory_Create 10) c2 = Some (d, c3)" "dir_ok d" "dir_list d = map dirent_entry es"
    "same_disk dev bs (e_cache w) c3"
    using dir_loop_lists [OF R c(3) inode(3) len, of "Directory_Create 10"] dir(1,2) by auto
  have t: "ext2_type 0x4000 (ntype n) = TYPE_DIRECTORY" by (simp add: ext2_type_def)
  show ?thesis using x c(1,2) d inode(2) t by (auto simp: Ext2_ReadNode_def same_disk_def Let_def)
qed

section \<open>A small image\<close>

text \<open>Blocks of 1024 bytes: the group descriptor lies at 2048, the inodes in block 5, the root directory in block 6.\<close>

definition root_inode :: "u8 list" where
  "root_inode = bytes16 0x4000 @ bytes16 0 @ bytes32 28 @ replicate 32 0 @ bytes32 6 @ replicate 84 0"

definition root_entries :: "ext2_dirent list" where
  "root_entries =
     [\<lparr> d_inode = 2, d_type = 2, d_name = [46], d_pad = [0, 0, 0] \<rparr>,
      \<lparr> d_inode = 12, d_type = 1, d_name = [109, 111, 116, 100], d_pad = [0, 0, 0, 0] \<rparr>]"

definition disk_image :: "nat \<Rightarrow> u8" where
  "disk_image q =
     (if 2056 \<le> q \<and> q < 2060 then bytes32 5 ! (q - 2056)
      else if 5248 \<le> q \<and> q < 5376 then root_inode ! (q - 5248)
      else if 6144 \<le> q \<and> q < 6172 then concat (map encode_dirent root_entries) ! (q - 6144)
      else 0)"

definition image_device :: device where
  "image_device sub blk = (True, map disk_image [unat blk * 1024..<unat blk * 1024 + 1024])"

definition image_driver :: Ext2Driver where
  "image_driver = \<lparr> x_MP = 0, x_Dev = 0, x_SB = replicate 40 0 @ bytes32 1000 @ replicate 44 0 @ bytes16 128 @ replicate 146 0, x_BlockSize = 1024,
     x_BlockGroupDescTableOffset = 2048 \<rparr>"

definition image_world :: ext2_world where
  "image_world = \<lparr> e_drivers = [0x100 \<mapsto> image_driver], e_inodes = [0x200 \<mapsto> root_inode], e_cache = [],
     e_user = (\<lambda>a. if a < 64 then Some 0 else None) \<rparr>"

abbreviation image_disk :: "nat \<Rightarrow> u8" where
  "image_disk \<equiv> disk image_device 1024 [] 0"

lemma image_disk: "q < 2 ^ 64 \<Longrightarrow> image_disk q = disk_image q"
proof -
  assume q: "q < 2 ^ 64"
  then have "unat (of_nat (q div 1024) :: u64) = q div 1024" by (simp add: unat_of_nat)
  moreover have "q div 1024 * 1024 + q mod 1024 = q" by simp
  ultimately show ?thesis by (simp add: disk_def disk_byte_def view_def image_device_def)
qed

lemma image_ok: "cache_ok (unat (1024 :: u64)) (e_cache image_world)" "reader image_device 1024 (e_cache image_world) image_driver 1024 image_disk"
  by (simp_all add: image_world_def cache_ok_def block_keys_def reader_def device_ok_def image_device_def image_driver_def)

lemma root_inode_fields:
  "length root_inode = 128" "unat (in_directPointers root_inode 0) = 6" "unat (in_size root_inode) = 28"
  "in_typePermissions root_inode AND INode_TypeMask = 0x4000"
  by code_simp+

lemma root_entries_length: "length (concat (map encode_dirent root_entries)) = 28"
  by code_simp

lemma map_upt_nth: "length xs = n \<Longrightarrow> (\<And>j. j < n \<Longrightarrow> f (a + j) = xs ! j) \<Longrightarrow> map f [a..<a + n] = xs"
  by (rule nth_equalityI) simp_all

lemma root_inode_image: "map image_disk [5248..<5248 + 128] = root_inode"
  by (rule map_upt_nth [OF root_inode_fields(1)]) (simp add: image_disk disk_image_def)

lemma root_bytes: "map (file_byte image_disk root_inode 1024) [0..<28] = concat (map encode_dirent root_entries)"
proof -
  have "map (file_byte image_disk root_inode 1024) [0..<0 + 28] = concat (map encode_dirent root_entries)"
    by (rule map_upt_nth [OF root_entries_length]) (simp add: file_byte_def file_block_def root_inode_fields image_disk disk_image_def)
  then show ?thesis by (simp only: add_0)
qed

lemma image_memory: "user_mapped (e_user image_world) 8 4"
  unfolding get_bytes_mapped [symmetric] by code_simp

theorem Ext2_ReadNodeData_reads_file_witness:
  "\<exists>w'. Ext2_ReadNodeData image_device 1024 0x100 (new_node \<lparr> fsData := 0x200 \<rparr>) 20 8 4 image_world = Some (4, new_node \<lparr> fsData := 0x200 \<rparr>, w') \<and>
    get_bytes (e_user w') 8 4 = (True, [109, 111, 116, 100])"
proof -
  have h: "e_drivers image_world 0x100 = Some image_driver" "e_inodes image_world (fsData (new_node \<lparr> fsData := 0x200 \<rparr>)) = Some root_inode"
    by (simp_all add: image_world_def)
  have k: "unat (20 :: u64) \<le> unat (in_size root_inode)" "unat (in_size root_inode) \<le> (12 + 1024 div 4) * 1024"
    "4 = min (unat (in_size root_inode) - unat (20 :: u64)) (unat (4 :: u64))" by (simp_all add: root_inode_fields)
  obtain w' where w': "Ext2_ReadNodeData image_device 1024 0x100 (new_node \<lparr> fsData := 0x200 \<rparr>) 20 8 4 image_world =
      Some (of_nat 4, new_node \<lparr> fsData := 0x200 \<rparr>, w')"
    "e_user w' = snd (put_bytes (e_user image_world) 8 (map (file_byte image_disk root_inode 1024) [unat (20 :: u64)..<unat (20 :: u64) + 4]))"
    using Ext2_ReadNodeData_reads_file [OF image_ok(2,1) h k image_memory] by blast
  have "map (file_byte image_disk root_inode 1024) [0 + 20..<0 + 20 + 4] = take 4 (drop 20 (concat (map encode_dirent root_entries)))"
    by (rule bytes_at [where n = 28]) (simp_all add: root_bytes)
  also have "\<dots> = [109, 111, 116, 100]" by code_simp
  finally have "e_user w' = snd (put_bytes (e_user image_world) 8 [109, 111, 116, 100])" using w'(2) by simp
  moreover have "get_bytes (snd (put_bytes (e_user image_world) 8 [109, 111, 116, 100])) 8 4 = (True, [109, 111, 116, 100])" by code_simp
  ultimately show ?thesis using w'(1) by simp
qed

theorem Ext2_ReadNode_lists_directory_witness:
  "\<exists>n' w' d. Ext2_ReadNode image_device 1024 (Some 0x300) 0x100 2 new_node image_world = Some (n', w') \<and> info n' = InfoFolder d \<and>
    dir_list d = [\<lparr> ename = ''.'', enodeID = 2 \<rparr>, \<lparr> ename = ''motd'', enodeID = 12 \<rparr>]"
proof -
  have x: "e_drivers image_world 0x100 = Some image_driver" by (simp add: image_world_def)
  have sb: "sb_inodesPerGroup (x_SB image_driver) = 1000" "sb_inodeSize (x_SB image_driver) = 128"
    by (simp_all add: sb_inodesPerGroup_def sb_inodeSize_def image_driver_def le32_def le16_def nth_append bytes32_def bytes16_def)
  have g: "sb_inodesPerGroup (x_SB image_driver) \<noteq> 0" "group_pos image_driver 2 = 2048"
    by (simp_all add: sb group_pos_def) (simp add: image_driver_def)
  have "bg_inodeTableBlock (map image_disk [2048..<2048 + 18]) = 5"
    by (simp add: bg_inodeTableBlock_def le32_def le16_def image_disk disk_image_def bytes32_def)
  then have ip: "inode_pos image_disk image_driver 2 = 5248" by (simp add: inode_pos_def g(2) sb) (simp add: image_driver_def)
  have inode: "root_inode = inode_bytes image_disk image_driver 2" 
  proof -
    have "unat (5248 :: u64) = 5248" by simp
    then show ?thesis unfolding inode_bytes_def ip using root_inode_image by (simp only:)
  qed
  have dir: "map (file_byte image_disk root_inode 1024) [0..<unat (in_size root_inode)] = concat (map encode_dirent root_entries)"
    unfolding root_inode_fields by (rule root_bytes)
  have lay: "dir_layout 1024 0 root_entries" "length root_entries < 2 ^ 32" unfolding root_entries_def by (simp_all add: dirent_ok_def dirent_size_def)
  have fit: "unat (group_pos image_driver 2) + 18 < 2 ^ 64" "unat (inode_pos image_disk image_driver 2) + 128 < 2 ^ 64" by (simp_all add: g ip)
  have sz: "unat (in_size root_inode) \<le> 12 * 1024" by (simp add: root_inode_fields)
  have "map dirent_entry root_entries = [\<lparr> ename = ''.'', enodeID = 2 \<rparr>, \<lparr> ename = ''motd'', enodeID = 12 \<rparr>]" by code_simp
  then show ?thesis
    using Ext2_ReadNode_lists_directory [OF image_ok(2,1) x g(1) fit inode root_inode_fields(4) sz dir lay, of "0x300" new_node] by auto
qed

end
