(* ===== verification/Elf.thy ===== *)
theory Elf
  imports KernelHeap Scheduler CMem
begin

text \<open>
  Program loading, \<^verbatim>\<open>exec/elf/ELF.cpp\<close> and \<^verbatim>\<open>exec/ExecHandler.cpp\<close>: the segments of an ELF file are copied byte by byte into the
  pages of a new address space, a stack of 16 pages gets the arguments, the environment and a structure that
  describes both, and the registers of the thread are set up. The file is a list of bytes, and a string
  is the list of the bytes in front of its terminator; an access outside of it, and a
  write through \<^verbatim>\<open>nullptr\<close>, is the result \<open>None\<close>. Pages are written through the kernel's window onto physical memory. The
  temporary arrays of pointers are lists. The sums of the string lengths, which are \<^verbatim>\<open>int\<close> in the code, are 64-bit
  words.
\<close>

section \<open>File format\<close>

primrec le_word :: "u8 list \<Rightarrow> u64" where
  "le_word [] = 0"
| "le_word (b # bs) = ucast b OR push_bit 8 (le_word bs)"

definition elf_field :: "u8 list \<Rightarrow> nat \<Rightarrow> nat \<Rightarrow> u64 option" where
  "elf_field buf off n = (if off + n \<le> length buf then Some (le_word (take n (drop off buf))) else None)"

record ElfSegmentHeader =
  es_type :: u64
  es_dataOffset :: u64
  es_virtualAddress :: u64
  es_dataSize :: u64
  es_virtualSize :: u64

definition PT_LOAD :: u64 where "PT_LOAD = 1"
definition PT_TLS :: u64 where "PT_TLS = 7"

text \<open>The fields of a segment header at an offset of the file. The flags and the alignment are not used.\<close>

definition segment_at :: "u8 list \<Rightarrow> nat \<Rightarrow> ElfSegmentHeader option" where
  "segment_at buf off =
     do {
       t \<leftarrow> elf_field buf off 4;
       o' \<leftarrow> elf_field buf (off + 8) 8;
       v \<leftarrow> elf_field buf (off + 16) 8;
       d \<leftarrow> elf_field buf (off + 32) 8;
       z \<leftarrow> elf_field buf (off + 40) 8;
       Some \<lparr> es_type = t, es_dataOffset = o', es_virtualAddress = v, es_dataSize = d, es_virtualSize = z \<rparr>
     }"

record ELFProgramInfo =
  masterTLSAddress :: u64
  masterTLSSize :: u64
  pi_argc :: nat
  pi_argv :: u64
  pi_env :: u64

text \<open>The structure in memory: the 32 bits of the count are followed by padding.\<close>

definition info_bytes :: "ELFProgramInfo \<Rightarrow> u8 list" where
  "info_bytes i = bytes64 (masterTLSAddress i) @ bytes64 (masterTLSSize i) @ bytes64 (ucast (of_nat (pi_argc i) :: u32)) @ bytes64 (pi_argv i) @ bytes64 (pi_env i)"

section \<open>Memory of the new program\<close>

definition store8 :: "ptr \<Rightarrow> u8 \<Rightarrow> mm \<Rightarrow> mm" where
  "store8 a b mm =
     (let s = 8 * unat (a AND 7); w = a AND NOT 7
      in mm \<lparr> qwords := (qwords mm)(w := (qwords mm w AND NOT (push_bit s 0xFF)) OR push_bit s (ucast b)) \<rparr>)"

primrec store_at :: "ptr \<Rightarrow> u8 list \<Rightarrow> mm \<Rightarrow> mm" where
  "store_at a [] mm = mm"
| "store_at a (b # bs) mm = store_at (a + 1) bs (store8 a b mm)"

text \<open>The loops over the bytes of a segment: the page of an address is looked up, and made if it is missing, when it is not the
  page of the address in front of it. \<open>src\<close> gives the byte to store.\<close>

fun load_loop ::
  "u64 \<Rightarrow> (nat \<Rightarrow> u8 option) \<Rightarrow> u64 \<Rightarrow> nat \<Rightarrow> nat \<Rightarrow> u64 \<Rightarrow> ptr \<Rightarrow> mm \<Rightarrow> (u64 \<times> ptr \<times> mm) option" where
  "load_loop e src dest 0 i lastPage lastPageBuffer mm = Some (lastPage, lastPageBuffer, mm)"
| "load_loop e src dest (Suc n) i lastPage lastPageBuffer mm =
     (let addr = dest + of_nat i;
          page = addr AND 0xFFFFFFFFFFFFF000;
          offs = addr AND 0xFFF
      in do {
        (lastPageBuffer, mm) \<leftarrow> (if page \<noteq> lastPage then MapProcessPage_new e page mm else Some (lastPageBuffer, mm));
        if lastPageBuffer = nullptr then None
        else do {
          b \<leftarrow> src i;
          load_loop e src dest n (i + 1) page lastPageBuffer (store8 (lastPageBuffer + offs) b mm)
        }
      })"

definition load_segment :: "u64 \<Rightarrow> u8 list \<Rightarrow> ElfSegmentHeader \<Rightarrow> mm \<Rightarrow> mm option" where
  "load_segment e buf sg mm =
     (let src = (\<lambda>i. let j = unat (es_dataOffset sg) + i in if j < length buf then Some (buf ! j) else None);
          dest = es_virtualAddress sg;
          dataSize = unat (es_dataSize sg)
      in do {
        (lastPage, lastPageBuffer, mm) \<leftarrow> load_loop e src dest dataSize 0 0 nullptr mm;
        (lastPage, lastPageBuffer, mm) \<leftarrow> load_loop e (\<lambda>i. Some 0) dest (unat (es_virtualSize sg) - dataSize) dataSize lastPage lastPageBuffer mm;
        Some mm
      })"

fun load_segments :: "u64 \<Rightarrow> u8 list \<Rightarrow> nat \<Rightarrow> nat list \<Rightarrow> ELFProgramInfo \<Rightarrow> mm \<Rightarrow> (ELFProgramInfo \<times> mm) option" where
  "load_segments e buf ph [] pinfo mm = Some (pinfo, mm)"
| "load_segments e buf ph (s # rest) pinfo mm =
     do {
       sg \<leftarrow> segment_at buf (ph + 56 * s);
       if es_type sg = PT_LOAD \<or> es_type sg = PT_TLS then
         do {
           mm \<leftarrow> load_segment e buf sg mm;
           let pinfo = (if es_type sg = PT_TLS
                        then pinfo \<lparr> masterTLSAddress := es_virtualAddress sg, masterTLSSize := es_virtualSize sg \<rparr> else pinfo);
           load_segments e buf ph rest pinfo mm
         }
       else load_segments e buf ph rest pinfo mm
     }"

section \<open>Stack of the new program\<close>

definition stackBase :: u64 where
  "stackBase = 0x1000"

fun map_stack :: "u64 \<Rightarrow> u64 \<Rightarrow> nat list \<Rightarrow> mm \<Rightarrow> mm option" where
  "map_stack e physStack [] mm = Some mm"
| "map_stack e physStack (i # is) mm =
     do { mm \<leftarrow> MapProcessPage_phys e (physStack + page_offset i) (stackBase + page_offset i) mm; map_stack e physStack is mm }"

text \<open>A block on top of the stack; the state is the top, the number of bytes and the memory.\<close>

type_synonym stack_state = "ptr \<times> u64 \<times> mm"

definition push_block :: "u8 list \<Rightarrow> stack_state \<Rightarrow> stack_state" where
  "push_block bs st =
     (case st of (virtStack, sz, mm) \<Rightarrow>
        (virtStack - of_nat (length bs), sz + of_nat (length bs), store_at (virtStack - of_nat (length bs)) bs mm))"

text \<open>Terminated strings, with their addresses in the new program, of which \<open>stackTop\<close> is where the first one ends.\<close>

fun push_strings :: "u64 \<Rightarrow> u8 list list \<Rightarrow> stack_state \<Rightarrow> u64 list \<times> stack_state" where
  "push_strings stackTop [] st = ([], st)"
| "push_strings stackTop (s # rest) st =
     (let st = push_block (s @ [0]) st;
          p = stackTop - fst (snd st);
          (ps, st) = push_strings stackTop rest st
      in (p # ps, st))"

definition push_words :: "u64 list \<Rightarrow> stack_state \<Rightarrow> stack_state" where
  "push_words ps st = fold (\<lambda>p. push_block (bytes64 p)) ps st"

text \<open>The arguments are pushed from the last to the first, the environment from the first to the last, with a null pointer
  pushed behind it.\<close>

definition prepare_stack ::
  "ELFProgramInfo \<Rightarrow> u8 list list \<Rightarrow> u8 list list \<Rightarrow> ptr \<Rightarrow> mm \<Rightarrow> u64 \<times> mm" where
  "prepare_stack pinfo argv env virtStack mm =
     (let stackTop = stackBase + 16 * 4096;
          (ps, st) = push_strings stackTop (rev argv) (virtStack, 0, mm);
          (virtStack, argSize, mm) = push_words ps st;
          (es, st) = push_strings (stackTop - argSize) env (virtStack, 0, mm);
          (virtStack, envSize, mm) = push_block (bytes64 0) (push_words es st);
          pinfo = pinfo \<lparr> pi_argc := length argv, pi_argv := stackTop - argSize, pi_env := stackTop - argSize - envSize \<rparr>
      in (stackTop - argSize - envSize - 40, store_at (virtStack - 40) (info_bytes pinfo) mm))"

section \<open>The handler\<close>

definition magic_ok :: "u8 list \<Rightarrow> bool option" where
  "magic_ok buf =
     do {
       m0 \<leftarrow> elf_field buf 0 1;
       if m0 \<noteq> 0x7F then Some False
       else do {
         m1 \<leftarrow> elf_field buf 1 1;
         if m1 \<noteq> 0x45 then Some False
         else do {
           m2 \<leftarrow> elf_field buf 2 1;
           if m2 \<noteq> 0x4C then Some False
           else do { m3 \<leftarrow> elf_field buf 3 1; Some (m3 = 0x46) }
         }
       }
     }"

definition new_info :: ELFProgramInfo where
  "new_info = \<lparr> masterTLSAddress = 0, masterTLSSize = 0, pi_argc = 0, pi_argv = 0, pi_env = 0 \<rparr>"

text \<open>The result of the allocation of the stack is not checked.\<close>

definition CheckAndPrepare ::
  "u8 list \<Rightarrow> u64 \<Rightarrow> u8 list list \<Rightarrow> u8 list list \<Rightarrow> Registers \<Rightarrow> mm \<Rightarrow> (bool \<times> Registers \<times> mm) option" where
  "CheckAndPrepare buf e argv env regs mm =
     do {
       ok \<leftarrow> magic_ok buf;
       if \<not> ok then Some (False, regs, mm)
       else do {
         ph \<leftarrow> elf_field buf 32 8;
         cnt \<leftarrow> elf_field buf 56 2;
         (pinfo, mm) \<leftarrow> load_segments e buf (unat ph) [0..<unat cnt] new_info mm;
         entryPoint \<leftarrow> elf_field buf 24 8;
         (physStack, mm) \<leftarrow> AllocatePages 16 mm;
         mm \<leftarrow> map_stack e physStack [0..<16] mm;
         let (sp, mm) = prepare_stack pinfo argv env (PhysToKernelPtr mm physStack + 16 * 4096) mm;
         Some (True, new_registers \<lparr> cs := UserCode, ds := UserData, ss := UserData, rflags := 0x200, rip := entryPoint,
           userrsp := sp, rdi := sp \<rparr>, mm)
       }
     }"

section \<open>The registry of handlers\<close>

definition RegisterHandler :: "ptr \<Rightarrow> ptr list \<Rightarrow> ptr list" where
  "RegisterHandler h hs = hs @ [h]"

definition UnregisterHandler :: "ptr \<Rightarrow> ptr list \<Rightarrow> ptr list" where
  "UnregisterHandler h hs = remove1 h hs"

text \<open>The virtual function of the handlers is an argument.\<close>

fun Prepare ::
  "(ptr \<Rightarrow> Registers \<Rightarrow> mm \<Rightarrow> (bool \<times> Registers \<times> mm) option) \<Rightarrow> ptr list \<Rightarrow> Registers \<Rightarrow> mm \<Rightarrow> (bool \<times> Registers \<times> mm) option" where
  "Prepare run [] regs mm = Some (False, regs, mm)"
| "Prepare run (h # hs) regs mm =
     do {
       (ok, regs, mm) \<leftarrow> run h regs mm;
       if ok then Some (True, regs, mm) else Prepare run hs regs mm
     }"

end
