(* ===== verification/ElfLoad.thy ===== *)
theory ElfLoad
  imports Elf KernelHeapProps
begin

text \<open>
  The segments of a program file in the new address space. Memory is seen through the translation, byte by byte. What storing a
  byte and mapping a page do to an address space is described by \<open>fills\<close>; the loops over the bytes of a segment and over
  the segments are built from it, and load the image that the file describes.
\<close>

section \<open>Bytes of pages\<close>

definition get_byte :: "nat \<Rightarrow> u64 \<Rightarrow> u8" where
  "get_byte k w = ucast (drop_bit (8 * k) w)"

definition set_byte :: "nat \<Rightarrow> u8 \<Rightarrow> u64 \<Rightarrow> u64" where
  "set_byte k b w = (w AND NOT (push_bit (8 * k) 0xFF)) OR push_bit (8 * k) (ucast b)"

definition page_byte :: "mm \<Rightarrow> ptr \<Rightarrow> nat \<Rightarrow> u8" where
  "page_byte mm f off = get_byte (off mod 8) (read_entry mm f (of_nat (off div 8)))"

text \<open>The byte at an address of an address space.\<close>

definition ubyte :: "mm \<Rightarrow> ptr \<Rightarrow> u64 \<Rightarrow> u8 option" where
  "ubyte mm r v = map_option (\<lambda>f. page_byte mm f (unat (v AND 0xFFF))) (walk mm 3 r v)"

lemma get_set_byte: "k < 8 \<Longrightarrow> j < 8 \<Longrightarrow> get_byte j (set_byte k b w) = (if j = k then b else get_byte j w)"
proof -
  assume k: "k < 8" and j: "j < 8"
  have m: "(0xFF :: u64) = mask 8" by (simp add: mask_numeral)
  have "bit (get_byte j (set_byte k b w)) n = bit (if j = k then b else get_byte j w) n" if n: "n < 8" for n
  proof -
    have i: "8 * j + n < 64" using j n by simp
    have s: "8 * k \<le> 8 * j + n \<and> 8 * j + n - 8 * k < 8 \<longleftrightarrow> j = k" using n by auto
    have "bit (get_byte j (set_byte k b w)) n \<longleftrightarrow> bit (set_byte k b w) (8 * j + n)"
      using n by (simp add: get_byte_def bit_ucast_iff bit_drop_bit_eq)
    also have "\<dots> \<longleftrightarrow> (if j = k then bit b n else bit w (8 * j + n))"
      using i n s bit_imp_le_length [of b "8 * j + n - 8 * k"] unfolding set_byte_def m
      by (auto simp: bit_and_iff bit_or_iff bit_not_iff bit_push_bit_iff bit_mask_iff bit_ucast_iff)
    finally show ?thesis using n by (simp add: get_byte_def bit_ucast_iff bit_drop_bit_eq)
  qed
  then show ?thesis by (intro bit_word_eqI) simp
qed

lemma and_not_add: "(x AND NOT y) + (x AND y) = (x :: u64)"
proof -
  have "(x AND NOT y) + (x AND y) = (x AND NOT y) OR (x AND y)"
    by (rule disjunctive_add) (simp add: bit_and_iff bit_not_iff)
  also have "\<dots> = x" by (rule bit_word_eqI) (auto simp: bit_and_iff bit_or_iff bit_not_iff)
  finally show ?thesis .
qed

lemma aligned_offset: "aligned f \<Longrightarrow> off < 4096 \<Longrightarrow> unat (f + of_nat off) = unat f + off"
proof -
  assume f: "aligned f" and off: "off < 4096"
  obtain k where k: "unat f = 4096 * k" using f by (auto simp: aligned_iff)
  then have "4096 * k < 2 ^ 64" using unat_lt_64 [of f] by simp
  then have "4096 * k + off < 2 ^ 64" using off by simp
  then show ?thesis using k off by (simp add: unat_word_ariths unat_of_nat)
qed

lemma store8_entry:
  assumes f: "aligned f" and off: "off < 4096"
  shows "store8 (f + of_nat off) b mm = write_entry f (of_nat (off div 8)) (set_byte (off mod 8) b (read_entry mm f (of_nat (off div 8)))) mm"
proof -
  let ?a = "f + of_nat off :: u64"
  have f8: "unat f mod 8 = 0" using f by (auto simp: aligned_iff dest: dvd_trans [of 8 4096])
  have m: "(7 :: u64) = mask 3" by (simp add: mask_numeral)
  have lo: "unat (?a AND 7) = off mod 8"
    unfolding m take_bit_eq_mask [symmetric] unat_take_bit aligned_offset [OF f off] using f8 by (simp add: mod_add_eq [symmetric])
  have e: "unat (of_nat (off div 8) * 8 :: u64) = off div 8 * 8" using off by (simp add: unat_word_ariths unat_of_nat)
  have "?a = f + 8 * of_nat (off div 8) + of_nat (off mod 8)"
    by (metis (no_types, opaque_lifting) add.assoc div_mult_mod_eq mult.commute of_nat_add of_nat_mult of_nat_numeral)
  moreover have "of_nat (unat (?a AND 7)) = ?a AND 7" by simp
  then have "?a AND 7 = of_nat (off mod 8)" unfolding lo by simp
  moreover have "?a AND NOT 7 = ?a - (?a AND 7)" by (metis add_diff_cancel_right' and_not_add)
  ultimately have "?a AND NOT 7 = f + 8 * of_nat (off div 8)" by simp
  then show ?thesis by (simp add: store8_def lo Let_def write_entry_def read_entry_def set_byte_def)
qed

lemma store8_byte:
  assumes f: "aligned f" and off: "off < 4096" "j < 4096"
  shows "page_byte (store8 (f + of_nat off) b mm) f j = (if j = off then b else page_byte mm f j)"
proof -
  have i: "off div 8 < 512" "j div 8 < 512" using off by auto
  have "j = off \<longleftrightarrow> j div 8 = off div 8 \<and> j mod 8 = off mod 8" by (metis div_mult_mod_eq)
  then show ?thesis unfolding page_byte_def store8_entry [OF f off(1)] read_write_entry [OF f i]
    by (auto simp: get_set_byte)
qed

lemma store8_frame:
  assumes "aligned f" and "off < 4096"
  shows "changes {f} mm (store8 (f + of_nat off) b mm)" and "mm_FreeList (store8 (f + of_nat off) b mm) = mm_FreeList mm"
  using changes_write [OF assms(1), of "off div 8"] assms by (simp_all add: store8_entry)

lemma page_byte_frame: "changes S mm mm' \<Longrightarrow> aligned p \<Longrightarrow> p \<notin> S \<Longrightarrow> j < 4096 \<Longrightarrow> page_byte mm' p j = page_byte mm p j"
  by (simp add: page_byte_def changes_read)

section \<open>Writing into an address space\<close>

text \<open>The two addresses are the same for the translation.\<close>

definition same_byte :: "u64 \<Rightarrow> u64 \<Rightarrow> bool" where
  "same_byte v w \<longleftrightarrow> same_page 3 v w \<and> v AND 0xFFF = w AND 0xFFF"

text \<open>The address space \<open>r\<close> gets new bytes at the addresses \<open>A\<close>: its other bytes stay, pages appear only where an address of \<open>A\<close>
  lies, and the other address spaces do not change.\<close>

definition fills :: "ptr list \<Rightarrow> ptr list \<Rightarrow> ptr \<Rightarrow> u64 set \<Rightarrow> mm \<Rightarrow> mm \<Rightarrow> bool" where
  "fills ks rs r A mm mm' \<longleftrightarrow> mm_ok mm' ks rs \<and> g_HighMemBase mm' = g_HighMemBase mm \<and> free_bytes mm' \<subseteq> free_bytes mm \<and>
     (\<forall>s \<in> set rs. s \<noteq> r \<longrightarrow> ubyte mm' s = ubyte mm s) \<and>
     (\<forall>w x. ubyte mm r w = Some x \<longrightarrow> (\<forall>a \<in> A. \<not> same_byte a w) \<longrightarrow> ubyte mm' r w = Some x) \<and>
     (\<forall>w. ubyte mm r w \<noteq> None \<longrightarrow> ubyte mm' r w \<noteq> None) \<and>
     (\<forall>w. ubyte mm r w = None \<longrightarrow> (\<forall>a \<in> A. \<not> same_page 3 a w) \<longrightarrow> ubyte mm' r w = None)"

lemma ubyte_None: "ubyte mm r v = None \<longleftrightarrow> walk mm 3 r v = None"
  by (simp add: ubyte_def)

lemma fills_refl: "mm_ok mm ks rs \<Longrightarrow> fills ks rs r A mm mm"
  by (simp add: fills_def)

lemma fills_trans:
  assumes "fills ks rs r A a b" and "fills ks rs r B b c"
  shows "fills ks rs r (A \<union> B) a c"
proof -
  have "ubyte c r w = Some x" if "ubyte a r w = Some x" "\<forall>v \<in> A \<union> B. \<not> same_byte v w" for w x
    using assms that unfolding fills_def by (metis UnCI)
  moreover have "ubyte c r w = None" if "ubyte a r w = None" "\<forall>v \<in> A \<union> B. \<not> same_page 3 v w" for w
    using assms that unfolding fills_def by (metis UnCI)
  moreover have "ubyte c r w \<noteq> None" if "ubyte a r w \<noteq> None" for w using assms that unfolding fills_def by metis
  moreover have "\<forall>s \<in> set rs. s \<noteq> r \<longrightarrow> ubyte c s = ubyte a s" "mm_ok c ks rs" "g_HighMemBase c = g_HighMemBase a"
    "free_bytes c \<subseteq> free_bytes a" using assms unfolding fills_def by auto
  ultimately show ?thesis unfolding fills_def by blast
qed

lemma frame_facts:
  assumes ok: "mm_ok mm ks rs" and s: "s \<in> set rs" and g: "walk mm 3 s w = Some g"
  shows "g \<in> set (owned mm ks rs)" and "aligned g" and "g \<noteq> 0" and "\<not> is_free mm g" and "t \<in> set rs \<Longrightarrow> g \<notin> tables mm 3 t"
    and "t \<in> set rs \<Longrightarrow> walk mm 3 t v = Some g \<Longrightarrow> t = s \<and> same_page 3 v w"
proof -
  note R = mm_ok_root [OF ok s]
  have gp: "g \<in> set (pages mm 3 s)" "g \<notin> tables mm 3 s" using frames_not_tables [OF R(2) g] by simp_all
  show o: "g \<in> set (owned mm ks rs)" using gp(1) R(3) by blast
  then show "aligned g" "g \<noteq> 0" "\<not> is_free mm g" using ok by (simp_all add: mm_ok_def page_ok_def)
  show "g \<notin> tables mm 3 t" if "t \<in> set rs"
    using R(4) [OF that] gp tables_pages [of mm 3 t] by (cases "t = s") auto
  show "t = s \<and> same_page 3 v w" if t: "t \<in> set rs" "walk mm 3 t v = Some g"
  proof -
    have "t = s" using R(4) [OF t(1)] gp(1) frames_not_tables [OF mm_ok_root(2) [OF ok t(1)] t(2)] by blast
    then show ?thesis using walk_inj [OF R(2)] t(2) g by blast
  qed
qed

lemma low12_less: "unat (v AND 0xFFF :: u64) < 4096"
proof -
  have m: "(0xFFF :: u64) = mask 12" by (simp add: mask_numeral)
  show ?thesis unfolding m take_bit_eq_mask [symmetric] unat_take_bit by simp
qed

text \<open>Storing a byte at a mapped address.\<close>

lemma store8_user:
  assumes ok: "mm_ok mm ks rs" and r: "r \<in> set rs" and f: "walk mm 3 r v = Some f" and mm': "mm' = store8 (f + (v AND 0xFFF)) b mm"
  shows "mm_ok mm' ks rs" and "\<forall>s \<in> set rs. walk mm' 3 s = walk mm 3 s" and "free_bytes mm' = free_bytes mm"
    and "\<forall>s \<in> set rs. \<forall>w. ubyte mm' s w = (if s = r \<and> same_byte v w then Some b else ubyte mm s w)" and "changes {f} mm mm'"
proof -
  define off where "off = unat (v AND 0xFFF)"
  have off: "off < 4096" by (simp add: off_def low12_less)
  have e: "mm' = store8 (f + of_nat off) b mm" by (simp add: mm' off_def)
  note F = frame_facts [OF ok r f]
  note S = store8_frame [OF F(2) off, where mm = mm and b = b, folded e]
  show "changes {f} mm mm'" by (rule S(1))
  have fr: "pages mm' 3 s = pages mm 3 s \<and> walk mm' 3 s = walk mm 3 s" if s: "s \<in> set rs" for s
    using data_frame [OF S(1) mm_ok_root(2) [OF ok s]] F(5) [OF s] by blast
  then show w: "\<forall>s \<in> set rs. walk mm' 3 s = walk mm 3 s" by blast
  show fb: "free_bytes mm' = free_bytes mm" using S(2) by simp
  have "map (pages mm' 3) rs = map (pages mm 3) rs" using fr by simp
  then have ow: "owned mm' ks rs = owned mm ks rs" by (simp only: owned_def)
  have inv: "alloc_inv mm'" using alloc_inv_changes [OF _ S] ok by (simp add: mm_ok_def)
  show "mm_ok mm' ks rs" using ok inv fb page_ok_changes [OF S(1)] unfolding mm_ok_def ow by simp
  show "\<forall>s \<in> set rs. \<forall>w. ubyte mm' s w = (if s = r \<and> same_byte v w then Some b else ubyte mm s w)"
  proof (intro ballI allI)
    fix s w assume s: "s \<in> set rs"
    show "ubyte mm' s w = (if s = r \<and> same_byte v w then Some b else ubyte mm s w)"
    proof (cases "walk mm 3 s w")
      case None
      moreover have "walk mm 3 r w = Some f" if "same_page 3 v w" using f that by (simp add: numeral_3_eq_3 same_page_Suc)
      ultimately show ?thesis using fr [OF s] by (auto simp: ubyte_def same_byte_def)
    next
      case (Some g)
      note G = frame_facts [OF ok s Some]
      show ?thesis
      proof (cases "g = f")
        case True
        then have sr: "s = r" "same_page 3 v w" using G(6) [OF r] f by auto
        have "page_byte mm' f (unat (w AND 0xFFF)) = (if unat (w AND 0xFFF) = off then b else page_byte mm f (unat (w AND 0xFFF)))"
          unfolding e by (rule store8_byte [OF F(2) off low12_less])
        moreover have "unat (w AND 0xFFF) = off \<longleftrightarrow> v AND 0xFFF = w AND 0xFFF" unfolding off_def word_unat_eq_iff by auto
        ultimately show ?thesis using fr [OF s] Some True sr by (simp add: ubyte_def same_byte_def)
      next
        case False
        then have "\<not> (s = r \<and> same_page 3 v w)" using f Some by (auto simp: numeral_3_eq_3 same_page_Suc)
        moreover have "page_byte mm' g (unat (w AND 0xFFF)) = page_byte mm g (unat (w AND 0xFFF))"
          by (rule page_byte_frame [OF S(1) G(2) _ low12_less]) (use False in simp)
        ultimately show ?thesis using fr [OF s] Some by (auto simp: ubyte_def same_byte_def)
      qed
    qed
  qed
qed

lemma store8_fills:
  assumes "mm_ok mm ks rs" and "r \<in> set rs" and "walk mm 3 r v = Some f" and "mm' = store8 (f + (v AND 0xFFF)) b mm" and "v \<in> A"
  shows "fills ks rs r A mm mm'"
proof -
  note S = store8_user [OF assms(1-4)]
  have "g_HighMemBase mm' = g_HighMemBase mm" by (rule changes_high [OF S(5)])
  then show ?thesis unfolding fills_def using S(1,3,4) assms(2,5) by (auto simp: same_byte_def)
qed

text \<open>Mapping a page.\<close>

lemma map_fills:
  assumes ok: "mm_ok mm ks rs" and r: "r \<in> set rs" and e: "root_of mm e = r" and some: "3 * 4096 \<le> card (free_bytes mm)" and v: "v \<in> A"
    and sp: "same_page 3 v u"
  shows "\<exists>f mm'. MapProcessPage_new e u mm = Some (f, mm') \<and> fills ks rs r A mm mm' \<and> walk mm' 3 r v = Some f \<and>
    card (free_bytes mm) \<le> card (free_bytes mm') + 3 * 4096"
proof (cases "walk mm 3 r u")
  case (Some f)
  then have "walk mm 3 r v = Some f" using sp by (simp add: numeral_3_eq_3 same_page_Suc)
  then show ?thesis using MapProcessPage_new_mapped [of mm e u f] Some e fills_refl [OF ok] by auto
next
  case None
  obtain f mm' new where f: "MapProcessPage_new e u mm = Some (f, mm')" "maps mm mm' 3 r u f new [f]"
    using MapProcessPage_new_maps [OF ok _ _ some, of e u] e r None by auto
  note M = mm_ok_maps [OF ok r f(2)]
  have m: "changes (tables mm 3 r \<union> set new) mm mm'" "\<And>p. p \<in> set (new @ [f]) \<Longrightarrow> is_free mm p" "length new < 3"
    "free_bytes mm' = free_bytes mm - (\<Union>p \<in> set (new @ [f]). seg p 4096)"
    "\<And>w. walk mm' 3 r w = (if same_page 3 u w then Some f else walk mm 3 r w)" using f(2) by (auto simp: maps_def)
  have w: "walk mm' 3 s w = walk mm 3 s w" if "s \<in> set rs" "walk mm 3 s w \<noteq> None" for s w
  proof -
    have "walk mm 3 r w = walk mm 3 r u" if "same_page 3 u w" using that by (rule walk_same_page)
    then show ?thesis using M(2) m(5) [of w] None that by (cases "s = r") auto
  qed
  have u: "ubyte mm' s w = ubyte mm s w" if s: "s \<in> set rs" "walk mm 3 s w = Some g" for s w g
  proof -
    note G = frame_facts [OF ok s]
    have "g \<notin> tables mm 3 r \<union> set new" using G(4) G(5) [OF r] m(2) by auto
    then have "page_byte mm' g (unat (w AND 0xFFF)) = page_byte mm g (unat (w AND 0xFFF))" by (rule page_byte_frame [OF m(1) G(2) _ low12_less])
    then show ?thesis using s(2) w [OF s(1)] by (simp add: ubyte_def)
  qed
  have o: "ubyte mm' s = ubyte mm s" if s: "s \<in> set rs" "s \<noteq> r" for s
  proof
    fix w show "ubyte mm' s w = ubyte mm s w"
      using u [OF s(1)] M(2) s by (cases "walk mm 3 s w") (auto simp: ubyte_def)
  qed
  have n: "ubyte mm' r w = None" if "ubyte mm r w = None" "\<forall>a \<in> A. \<not> same_page 3 a w" for w
  proof -
    have "\<not> same_page 3 u w" using that(2) v sp unfolding same_page_def by metis
    then show ?thesis using that(1) m(5) [of w] by (simp add: ubyte_None)
  qed
  have x: "ubyte mm' r w = ubyte mm r w" if "ubyte mm r w \<noteq> None" for w
    using u [OF r] that by (auto simp: ubyte_None)
  have "mm_ok mm' ks rs" "g_HighMemBase mm' = g_HighMemBase mm" "free_bytes mm' \<subseteq> free_bytes mm" using M(1) changes_high [OF m(1)] m(4) by auto
  then have "fills ks rs r A mm mm'" unfolding fills_def using o n x by simp
  moreover have "same_page 3 u v" using sp unfolding same_page_def by metis
  then have "walk mm' 3 r v = Some f" using m(5) by simp
  moreover have "card (free_bytes mm) \<le> card (free_bytes mm') + length (new @ [f]) * 4096"
    unfolding m(4) by (rule card_take) (use ok avail_bytes in \<open>simp add: mm_ok_def alloc_inv_def\<close>)
  ultimately show ?thesis using f(1) m(3) by auto
qed

section \<open>The loop over the bytes of a segment\<close>

text \<open>The page of an address.\<close>

lemma page_index: "GET_PML_INDEX n (v AND 0xFFFFFFFFFFFFF000) = GET_PML_INDEX n v"
proof -
  have m: "(0xFFFFFFFFFFFFF000 :: u64) = NOT (mask 12)" by (simp add: mask_numeral)
  show ?thesis unfolding GET_PML_INDEX_def m
    by (rule bit_word_eqI) (auto simp: bit_and_iff bit_drop_bit_eq bit_not_iff bit_mask_iff dest: bit_imp_le_length)
qed

lemma page_same: "same_page 3 v (v AND 0xFFFFFFFFFFFFF000)"
  by (simp add: same_page_def page_index)

lemma page_unat: "unat (v AND 0xFFFFFFFFFFFFF000 :: u64) = unat v div 4096 * 4096"
proof -
  have m: "(0xFFFFFFFFFFFFF000 :: u64) = NOT (mask 12)" by (simp add: mask_numeral)
  have "v AND NOT (mask 12) = push_bit 12 (drop_bit 12 v)"
    by (rule bit_word_eqI) (auto simp: bit_and_iff bit_push_bit_iff bit_drop_bit_eq bit_not_iff bit_mask_iff)
  moreover have "unat (drop_bit 12 v) = unat v div 4096" by (simp add: drop_bit_eq_div unat_div_distrib)
  moreover have "unat v div 4096 * 4096 \<le> unat v" by simp
  ultimately show ?thesis unfolding m using unat_lt_64 [of v]
    by (simp add: push_bit_eq_mult unat_word_ariths mult.commute)
qed

text \<open>The pages that \<open>n\<close> bytes from \<open>a\<close> on lie on, not counting the page \<open>lp\<close>.\<close>

definition need :: "u64 \<Rightarrow> nat \<Rightarrow> nat \<Rightarrow> nat" where
  "need lp a n = (if n = 0 then 0 else (a + n - 1) div 4096 - a div 4096 + (if unat lp = a div 4096 * 4096 then 0 else 1))"

lemma need_step:
  assumes "unat p = a div 4096 * 4096"
  shows "need p (a + 1) n + (if unat lp = a div 4096 * 4096 then 0 else 1) \<le> need lp a (Suc n)"
proof (cases n)
  case (Suc m)
  have le: "(a + 1) div 4096 \<le> (a + n) div 4096" using Suc by (intro div_le_mono) simp
  have "(a + 1) div 4096 = a div 4096 \<or> (a + 1) div 4096 = a div 4096 + 1" by linarith
  then show ?thesis using Suc le assms by (auto simp: need_def)
qed (simp add: need_def)

text \<open>The addresses of \<open>n\<close> bytes.\<close>

definition range_of :: "u64 \<Rightarrow> nat \<Rightarrow> u64 set" where
  "range_of a n = (\<lambda>j. a + of_nat j) ` {..<n}"

lemma range_of_Suc: "range_of a (Suc n) = insert a (range_of (a + 1) n)"
  unfolding range_of_def lessThan_Suc_eq_insert_0 by (auto simp: image_image add.assoc)

text \<open>Bytes at consecutive addresses of an address space.\<close>

definition holds :: "mm \<Rightarrow> ptr \<Rightarrow> u64 \<Rightarrow> u8 list \<Rightarrow> bool" where
  "holds mm r a bs \<longleftrightarrow> (\<forall>j < length bs. ubyte mm r (a + of_nat j) = Some (bs ! j))"

lemma holds_Cons: "holds mm r a (b # bs) \<longleftrightarrow> ubyte mm r a = Some b \<and> holds mm r (a + 1) bs"
  unfolding holds_def by (auto simp: less_Suc_eq_0_disj add.assoc)

lemma holds_append: "holds mm r a (xs @ ys) \<longleftrightarrow> holds mm r a xs \<and> holds mm r (a + of_nat (length xs)) ys"
  by (induction xs arbitrary: a) (simp_all add: holds_Cons add.assoc, simp add: holds_def)

text \<open>User addresses.\<close>

lemma same_byte_user:
  assumes "unat v < 2 ^ 39" and "unat w < 2 ^ 39"
  shows "same_byte v w \<longleftrightarrow> v = w"
proof
  assume s: "same_byte v w"
  have i: "GET_PML_INDEX 0 w = GET_PML_INDEX 0 v" "GET_PML_INDEX 1 w = GET_PML_INDEX 1 v" "GET_PML_INDEX 2 w = GET_PML_INDEX 2 v"
    "v AND 0xFFF = w AND 0xFFF" using s unfolding same_byte_def same_page_def by simp_all
  have m: "(0x1FF :: u64) = mask 9" "(0xFFF :: u64) = mask 12" by (simp_all add: mask_numeral)
  have hi: "\<not> bit x n" if "unat x < 2 ^ 39" "39 \<le> n" for x :: u64 and n
  proof -
    have "take_bit 39 x = x" using that(1) by (simp add: word_unat_eq_iff unat_take_bit)
    then show ?thesis using that(2) by (metis bit_take_bit_iff not_less)
  qed
  have ix: "bit v (12 + 9 * k + n) = bit w (12 + 9 * k + n)" if "k < 3" "n < 9" for k n
  proof -
    have "GET_PML_INDEX k w = GET_PML_INDEX k v" using i(1-3) that(1) by (auto simp: less_Suc_eq numeral_3_eq_3 numeral_2_eq_2)
    then have "bit (GET_PML_INDEX k w) n = bit (GET_PML_INDEX k v) n" by simp
    then show ?thesis using that(2) unfolding GET_PML_INDEX_def m(1) by (simp add: bit_and_iff bit_drop_bit_eq bit_mask_iff mult.commute)
  qed
  show "v = w"
  proof (rule bit_word_eqI)
    fix n
    have lo: "bit v n = bit w n" if "n < 12"
    proof -
      have "bit (v AND 0xFFF) n = bit (w AND 0xFFF) n" using i(4) by simp
      then show ?thesis using that unfolding m(2) by (simp add: bit_and_iff bit_mask_iff)
    qed
    have mid: "bit v n = bit w n" if "12 \<le> n" "n < 39"
    proof -
      have "n = 12 + 9 * ((n - 12) div 9) + (n - 12) mod 9" using that(1) by simp
      moreover have "(n - 12) div 9 < 3" using that by auto
      ultimately show ?thesis using ix [of "(n - 12) div 9" "(n - 12) mod 9"] by simp
    qed
    show "bit v n = bit w n" using lo mid hi [OF assms(1), of n] hi [OF assms(2), of n] by (cases "n < 12"; cases "n < 39") auto
  qed
qed (simp add: same_byte_def same_page_def)

lemma fills_holds:
  assumes F: "fills ks rs r A mm mm'" and h: "holds mm r a bs" and u: "unat a + length bs \<le> 2 ^ 39"
    and A: "\<forall>v \<in> A. unat v < 2 ^ 39 \<and> (unat v < unat a \<or> unat a + length bs \<le> unat v)"
  shows "holds mm' r a bs"
  unfolding holds_def
proof (intro allI impI)
  fix j assume j: "j < length bs"
  have aj: "unat (a + of_nat j) = unat a + j" using j u by (simp add: unat_word_ariths unat_of_nat)
  have x: "ubyte mm r (a + of_nat j) = Some (bs ! j)" using h j by (simp add: holds_def)
  have "\<not> same_byte v (a + of_nat j)" if "v \<in> A" for v
  proof -
    have "unat v \<noteq> unat (a + of_nat j)" using bspec [OF A that] aj j by linarith
    moreover have "same_byte v (a + of_nat j) \<longleftrightarrow> v = a + of_nat j" by (rule same_byte_user) (use bspec [OF A that] aj j u in auto)
    ultimately show ?thesis by auto
  qed
  then show "ubyte mm' r (a + of_nat j) = Some (bs ! j)" using F x unfolding fills_def by blast
qed

text \<open>One byte: its page is found or made, and the byte is stored.\<close>

lemma load_byte_fills:
  assumes ok: "mm_ok mm ks rs" and r: "r \<in> set rs" and e: "root_of mm e = r" and lp: "lp = 0 \<or> walk mm 3 r lp = Some buf"
    and a: "4096 \<le> unat a" and c: "c = (if unat lp = unat a div 4096 * 4096 then 0 else 1)" and some: "3 * 4096 * c \<le> card (free_bytes mm)"
    and page: "page = a AND 0xFFFFFFFFFFFFF000"
  obtains f m where "(if page \<noteq> lp then MapProcessPage_new e page mm else Some (buf, mm)) = Some (f, m)" "f \<noteq> nullptr"
    "fills ks rs r {a} mm (store8 (f + (a AND 0xFFF)) b m)" "ubyte (store8 (f + (a AND 0xFFF)) b m) r a = Some b"
    "walk (store8 (f + (a AND 0xFFF)) b m) 3 r page = Some f"
    "card (free_bytes mm) \<le> card (free_bytes (store8 (f + (a AND 0xFFF)) b m)) + 3 * 4096 * c"
proof -
  note found = that
  have up: "unat page = unat a div 4096 * 4096" by (simp add: page page_unat)
  have sp: "same_page 3 a page" by (simp add: page page_same)
  have p0: "page \<noteq> 0" using up a by (auto simp: div_eq_0_iff)
  have "\<exists>f m. (if page \<noteq> lp then MapProcessPage_new e page mm else Some (buf, mm)) = Some (f, m) \<and>
    fills ks rs r {a} mm m \<and> walk m 3 r a = Some f \<and> card (free_bytes mm) \<le> card (free_bytes m) + 3 * 4096 * c"
  proof (cases "page = lp")
    case True
    then have "walk mm 3 r lp = Some buf" using p0 lp by simp
    then have "walk mm 3 r a = Some buf" using True walk_same_page [OF sp] by simp
    then show ?thesis using True fills_refl [OF ok] by auto
  next
    case False
    then have "c = 1" using up c unfolding word_unat_eq_iff by auto
    then show ?thesis using map_fills [OF ok r e _ _ sp, of "{a}"] False some by auto
  qed
  then obtain f m where m: "(if page \<noteq> lp then MapProcessPage_new e page mm else Some (buf, mm)) = Some (f, m)"
    "fills ks rs r {a} mm m" "walk m 3 r a = Some f" "card (free_bytes mm) \<le> card (free_bytes m) + 3 * 4096 * c" by blast
  have okm: "mm_ok m ks rs" using m(2) by (simp add: fills_def)
  define m1 where "m1 = store8 (f + (a AND 0xFFF)) b m"
  note S = store8_user [OF okm r m(3) m1_def]
  have "fills ks rs r {a} m m1" by (rule store8_fills [OF okm r m(3) m1_def]) simp
  then have "fills ks rs r {a} mm m1" using fills_trans [OF m(2)] by fastforce
  moreover have "ubyte m1 r a = Some b" using S(4) r by (simp add: same_byte_def same_page_def)
  moreover have "walk m1 3 r page = Some f" using S(2) r m(3) walk_same_page [OF sp] by simp
  moreover have "card (free_bytes mm) \<le> card (free_bytes m1) + 3 * 4096 * c" using m(4) S(3) by simp
  moreover have "f \<noteq> nullptr" using frame_facts(3) [OF okm r m(3)] by simp
  ultimately show ?thesis using found [OF m(1)] unfolding m1_def by blast
qed

lemma fills_next:
  assumes "fills ks rs r (range_of (a + 1) n) m m'" and "ubyte m r a = Some b" and "unat a + 1 + n \<le> 2 ^ 39"
  shows "ubyte m' r a = Some b"
proof -
  have "holds m' r a [b]"
  proof (rule fills_holds [OF assms(1)])
    show "holds m r a [b]" using assms(2) by (simp add: holds_def)
    show "unat a + length [b] \<le> 2 ^ 39" using assms(3) by simp
    show "\<forall>v \<in> range_of (a + 1) n. unat v < 2 ^ 39 \<and> (unat v < unat a \<or> unat a + length [b] \<le> unat v)"
    proof
      fix v assume "v \<in> range_of (a + 1) n"
      then obtain j where j: "v = a + 1 + of_nat j" "j < n" by (auto simp: range_of_def)
      have "v = a + of_nat (1 + j)" by (simp add: j add.assoc)
      then have "unat v = unat a + 1 + j" using j(2) assms(3) by (simp only: unat_word_ariths unat_of_nat) simp
      then show "unat v < 2 ^ 39 \<and> (unat v < unat a \<or> unat a + length [b] \<le> unat v)" using j(2) assms(3) by simp
    qed
  qed
  then show ?thesis by (simp add: holds_def)
qed

lemma load_loop_fills:
  assumes "mm_ok mm ks rs" and "r \<in> set rs" and "root_of mm e = r" and "lp = 0 \<or> walk mm 3 r lp = Some buf"
    and "4096 \<le> unat dest + i" and "unat dest + i + length bs \<le> 2 ^ 39" and "\<forall>j < length bs. src (i + j) = Some (bs ! j)"
    and "3 * 4096 * need lp (unat dest + i) (length bs) \<le> card (free_bytes mm)"
  shows "\<exists>lp' buf' mm'. load_loop e src dest (length bs) i lp buf mm = Some (lp', buf', mm') \<and>
    fills ks rs r (range_of (dest + of_nat i) (length bs)) mm mm' \<and> holds mm' r (dest + of_nat i) bs \<and>
    card (free_bytes mm) \<le> card (free_bytes mm') + 3 * 4096 * need lp (unat dest + i) (length bs)"
  using assms
proof (induction bs arbitrary: i lp buf mm)
  case Nil
  then show ?case using fills_refl by (auto simp: holds_def range_of_def)
next
  case (Cons b bs)
  note ok = Cons.prems(1) and r = Cons.prems(2) and e = Cons.prems(3)
  define a where "a = dest + of_nat i"
  define page where "page = a AND 0xFFFFFFFFFFFFF000"
  have ua: "unat a = unat dest + i" using Cons.prems(6) by (simp add: a_def unat_word_ariths unat_of_nat)
  define c where "c = (if unat lp = unat a div 4096 * 4096 then 0 else 1 :: nat)"
  have "unat page = unat a div 4096 * 4096" by (simp add: page_def page_unat)
  then have nd: "need page (unat a + 1) (length bs) + c \<le> need lp (unat a) (Suc (length bs))" unfolding c_def by (rule need_step)
  have a: "4096 \<le> unat a" "3 * 4096 * c \<le> card (free_bytes mm)" using Cons.prems(5,8) nd ua by simp_all
  obtain f m where m: "(if page \<noteq> lp then MapProcessPage_new e page mm else Some (buf, mm)) = Some (f, m)" "f \<noteq> nullptr"
    "fills ks rs r {a} mm (store8 (f + (a AND 0xFFF)) b m)" "ubyte (store8 (f + (a AND 0xFFF)) b m) r a = Some b"
    "walk (store8 (f + (a AND 0xFFF)) b m) 3 r page = Some f"
    "card (free_bytes mm) \<le> card (free_bytes (store8 (f + (a AND 0xFFF)) b m)) + 3 * 4096 * c"
    by (rule load_byte_fills [OF ok r e Cons.prems(4) a(1) c_def a(2) page_def])
  define m1 where "m1 = store8 (f + (a AND 0xFFF)) b m"
  note m = m(1,2) m(3-6) [folded m1_def]
  have m1: "mm_ok m1 ks rs" "root_of m1 e = r" using m(3) e by (simp_all add: fills_def root_of_def PhysToKernelPtr_def)
  have a1: "dest + of_nat (i + 1) = a + 1" by (simp add: a_def)
  have "\<forall>j < length bs. src (i + 1 + j) = Some (bs ! j)"
  proof (intro allI impI)
    fix j assume "j < length bs"
    then show "src (i + 1 + j) = Some (bs ! j)" using Cons.prems(7) [rule_format, of "Suc j"] by simp
  qed
  then obtain lp' buf' mm' where L: "load_loop e src dest (length bs) (i + 1) page f m1 = Some (lp', buf', mm')"
    "fills ks rs r (range_of (a + 1) (length bs)) m1 mm'" "holds mm' r (a + 1) bs"
    "card (free_bytes m1) \<le> card (free_bytes mm') + 3 * 4096 * need page (unat a + 1) (length bs)"
    using Cons.IH [OF m1(1) r m1(2), of page f "i + 1"] Cons.prems(5,6,8) nd m(5,6) unfolding a1 ua by (auto simp: add.assoc)
  have "src i = Some b" using Cons.prems(7) [rule_format, of 0] by simp
  then have run: "load_loop e src dest (length (b # bs)) i lp buf mm = Some (lp', buf', mm')"
    using L(1) m(2) by (simp only: list.size(4) add_0_right add_Suc_right load_loop.simps Let_def a_def [symmetric] page_def [symmetric] m(1)) (simp add: m1_def)
  have "fills ks rs r (range_of a (length (b # bs))) mm mm'" using fills_trans [OF m(3) L(2)] by (simp add: range_of_Suc)
  moreover have "ubyte mm' r a = Some b" by (rule fills_next [OF L(2) m(4)]) (use ua Cons.prems(6) in simp)
  then have "holds mm' r a (b # bs)" using L(3) by (simp add: holds_Cons)
  moreover have "card (free_bytes mm) \<le> card (free_bytes mm') + 3 * 4096 * need lp (unat dest + i) (length (b # bs))"
    using m(6) L(4) nd ua by simp
  ultimately show ?case using run unfolding a_def by blast
qed

section \<open>Segments\<close>

lemma load_loop_add:
  "load_loop e src dest (n + k) i lp buf mm =
     Option.bind (load_loop e src dest n i lp buf mm) (\<lambda>(lp, buf, mm). load_loop e src dest k (i + n) lp buf mm)"
proof (induction n arbitrary: i lp buf mm)
  case (Suc n)
  then show ?case by (simp add: Let_def split: bind_split)
qed simp

lemma load_loop_cong:
  "\<forall>j < n. src (i + j) = src' (i + j) \<Longrightarrow> load_loop e src dest n i lp buf mm = load_loop e src' dest n i lp buf mm"
proof (induction n arbitrary: i lp buf mm)
  case (Suc n)
  have "src i = src' i" using Suc.prems [rule_format, of 0] by simp
  moreover have "\<forall>j < n. src (i + 1 + j) = src' (i + 1 + j)"
  proof (intro allI impI)
    fix j assume "j < n"
    then show "src (i + 1 + j) = src' (i + 1 + j)" using Suc.prems [rule_format, of "Suc j"] by simp
  qed
  then have "load_loop e src dest n (i + 1) lp b m = load_loop e src' dest n (i + 1) lp b m" for lp b m by (rule Suc.IH)
  ultimately show ?case by (simp only: load_loop.simps)
qed simp

definition loadable :: "ElfSegmentHeader \<Rightarrow> bool" where
  "loadable sg \<longleftrightarrow> es_type sg = PT_LOAD \<or> es_type sg = PT_TLS"

text \<open>The data is in the file, and the addresses are those of user pages other than the first.\<close>

definition segment_ok :: "u8 list \<Rightarrow> ElfSegmentHeader \<Rightarrow> bool" where
  "segment_ok buf sg \<longleftrightarrow> unat (es_dataOffset sg) + unat (es_dataSize sg) \<le> length buf \<and> unat (es_dataSize sg) \<le> unat (es_virtualSize sg) \<and>
     4096 \<le> unat (es_virtualAddress sg) \<and> unat (es_virtualAddress sg) + unat (es_virtualSize sg) \<le> 2 ^ 39"

definition segment_bytes :: "u8 list \<Rightarrow> ElfSegmentHeader \<Rightarrow> u8 list" where
  "segment_bytes buf sg =
     take (unat (es_dataSize sg)) (drop (unat (es_dataOffset sg)) buf) @ replicate (unat (es_virtualSize sg) - unat (es_dataSize sg)) 0"

definition segment_range :: "ElfSegmentHeader \<Rightarrow> u64 set" where
  "segment_range sg = range_of (es_virtualAddress sg) (unat (es_virtualSize sg))"

definition segment_need :: "ElfSegmentHeader \<Rightarrow> nat" where
  "segment_need sg = 3 * 4096 * need 0 (unat (es_virtualAddress sg)) (unat (es_virtualSize sg))"

lemma segment_length: "segment_ok buf sg \<Longrightarrow> length (segment_bytes buf sg) = unat (es_virtualSize sg)"
  by (auto simp: segment_bytes_def segment_ok_def)

lemma load_segment_fills:
  assumes ok: "mm_ok mm ks rs" and r: "r \<in> set rs" and e: "root_of mm e = r" and sg: "segment_ok buf sg"
    and some: "segment_need sg \<le> card (free_bytes mm)"
  shows "\<exists>mm'. load_segment e buf sg mm = Some mm' \<and> fills ks rs r (segment_range sg) mm mm' \<and>
    holds mm' r (es_virtualAddress sg) (segment_bytes buf sg) \<and> card (free_bytes mm) \<le> card (free_bytes mm') + segment_need sg"
proof -
  define d where "d = unat (es_dataSize sg)"
  define k where "k = unat (es_virtualSize sg) - d"
  define src where "src = (\<lambda>i. let j = unat (es_dataOffset sg) + i in if j < length buf then Some (buf ! j) else None)"
  define bs where "bs = segment_bytes buf sg"
  define all where "all = (\<lambda>i. if i < d then src i else Some (0 :: u8))"
  have l: "length bs = d + k" "d + k = unat (es_virtualSize sg)" using sg segment_length [OF sg] by (simp_all add: bs_def segment_ok_def d_def k_def)
  have nth: "all (0 + j) = Some (bs ! j)" if "j < length bs" for j
    using that sg l by (auto simp: all_def src_def bs_def segment_bytes_def segment_ok_def nth_append d_def k_def)
  obtain lp' buf' mm' where m: "load_loop e all (es_virtualAddress sg) (length bs) 0 0 nullptr mm = Some (lp', buf', mm')"
    "fills ks rs r (range_of (es_virtualAddress sg + of_nat 0) (length bs)) mm mm'" "holds mm' r (es_virtualAddress sg + of_nat 0) bs"
    "card (free_bytes mm) \<le> card (free_bytes mm') + 3 * 4096 * need 0 (unat (es_virtualAddress sg) + 0) (length bs)"
    using load_loop_fills [OF ok r e, of 0 nullptr "es_virtualAddress sg" 0 bs all] sg nth some l by (auto simp: segment_ok_def segment_need_def)
  have "load_loop e all (es_virtualAddress sg) d 0 0 nullptr mm = load_loop e src (es_virtualAddress sg) d 0 0 nullptr mm"
    by (rule load_loop_cong) (simp add: all_def)
  moreover have "load_loop e all (es_virtualAddress sg) k d lp b m = load_loop e (\<lambda>i. Some 0) (es_virtualAddress sg) k d lp b m" for lp b m
    by (rule load_loop_cong) (simp add: all_def)
  ultimately have "load_segment e buf sg mm = Some mm'"
    using m(1) unfolding l(1) load_loop_add load_segment_def Let_def src_def d_def k_def by (auto split: bind_splits)
  then show ?thesis using m(2-4) l by (auto simp: bs_def segment_range_def segment_need_def)
qed

text \<open>The program as the file describes it: a later segment covers an earlier one.\<close>

fun image_byte :: "u8 list \<Rightarrow> ElfSegmentHeader list \<Rightarrow> nat \<Rightarrow> u8 option" where
  "image_byte buf [] v = None"
| "image_byte buf (sg # rest) v =
     (case image_byte buf rest v of
        Some b \<Rightarrow> Some b
      | None \<Rightarrow>
          if loadable sg \<and> unat (es_virtualAddress sg) \<le> v \<and> v < unat (es_virtualAddress sg) + unat (es_virtualSize sg)
          then Some (segment_bytes buf sg ! (v - unat (es_virtualAddress sg))) else None)"

definition image_range :: "ElfSegmentHeader list \<Rightarrow> u64 set" where
  "image_range segs = (\<Union>sg \<in> set (filter loadable segs). segment_range sg)"

definition image_need :: "ElfSegmentHeader list \<Rightarrow> nat" where
  "image_need segs = sum_list (map segment_need (filter loadable segs))"

lemma segment_rangeD:
  assumes "v \<in> segment_range sg" and "segment_ok buf sg"
  shows "unat (es_virtualAddress sg) \<le> unat v \<and> unat v < unat (es_virtualAddress sg) + unat (es_virtualSize sg) \<and> unat v < 2 ^ 39"
proof -
  obtain j where j: "v = es_virtualAddress sg + of_nat j" "j < unat (es_virtualSize sg)" using assms(1) by (auto simp: segment_range_def range_of_def)
  then have "unat v = unat (es_virtualAddress sg) + j" using assms(2) by (simp add: unat_word_ariths unat_of_nat segment_ok_def)
  then show ?thesis using j(2) assms(2) by (simp add: segment_ok_def)
qed

lemma image_byte_None:
  "list_all (segment_ok buf) (filter loadable segs) \<Longrightarrow> image_byte buf segs (unat v) = None \<Longrightarrow> v \<notin> image_range segs"
proof (induction segs)
  case (Cons sg segs)
  then have "v \<notin> image_range segs" by (auto split: option.splits if_splits)
  moreover have "v \<notin> segment_range sg" if "loadable sg"
    using Cons.prems segment_rangeD [of v sg buf] that by (auto split: option.splits if_splits)
  ultimately show ?case by (auto simp: image_range_def)
qed (simp add: image_range_def)

lemma load_segments_fills:
  assumes "mm_ok mm ks rs" and "r \<in> set rs" and "root_of mm e = r" and "list_all (segment_ok buf) (filter loadable segs)"
    and "map (\<lambda>s. segment_at buf (ph + 56 * s)) idx = map Some segs" and "image_need segs \<le> card (free_bytes mm)"
  shows "\<exists>pinfo' mm'. load_segments e buf ph idx pinfo mm = Some (pinfo', mm') \<and> fills ks rs r (image_range segs) mm mm' \<and>
    (\<forall>v b. unat v < 2 ^ 39 \<longrightarrow> image_byte buf segs (unat v) = Some b \<longrightarrow> ubyte mm' r v = Some b) \<and>
    card (free_bytes mm) \<le> card (free_bytes mm') + image_need segs"
  using assms
proof (induction idx arbitrary: segs mm pinfo)
  case Nil
  then show ?case using fills_refl by auto
next
  case (Cons i idx)
  note ok = Cons.prems(1) and r = Cons.prems(2) and e = Cons.prems(3)
  obtain sg rest where segs: "segs = sg # rest" using Cons.prems(5) by (cases segs) auto
  have at: "segment_at buf (ph + 56 * i) = Some sg" "map (\<lambda>s. segment_at buf (ph + 56 * s)) idx = map Some rest"
    using Cons.prems(5) by (simp_all add: segs)
  have restok: "list_all (segment_ok buf) (filter loadable rest)" using Cons.prems(4) by (simp add: segs split: if_splits)
  show ?case
  proof (cases "loadable sg")
    case False
    have "image_need rest \<le> card (free_bytes mm)" using Cons.prems(6) False by (simp add: segs image_need_def)
    from Cons.IH [OF ok r e restok at(2) this, of pinfo] show ?thesis
      using at(1) False by (auto simp: segs image_range_def image_need_def loadable_def split: option.splits)
  next
    case True
    have sok: "segment_ok buf sg" using Cons.prems(4) True by (simp add: segs)
    have nd: "segment_need sg + image_need rest \<le> card (free_bytes mm)" using Cons.prems(6) True by (simp add: segs image_need_def)
    then have "segment_need sg \<le> card (free_bytes mm)" by simp
    then obtain m where m: "load_segment e buf sg mm = Some m" "fills ks rs r (segment_range sg) mm m"
      "holds m r (es_virtualAddress sg) (segment_bytes buf sg)" "card (free_bytes mm) \<le> card (free_bytes m) + segment_need sg"
      using load_segment_fills [OF ok r e sok] by blast
    define pi where "pi = (if es_type sg = PT_TLS
      then pinfo \<lparr> masterTLSAddress := es_virtualAddress sg, masterTLSSize := es_virtualSize sg \<rparr> else pinfo)"
    have m': "mm_ok m ks rs" "root_of m e = r" using m(2) e by (simp_all add: fills_def root_of_def PhysToKernelPtr_def)
    have "image_need rest \<le> card (free_bytes m)" using nd m(4) by simp
    from Cons.IH [OF m'(1) r m'(2) restok at(2) this, of pi] obtain pinfo' mm' where
      L: "load_segments e buf ph idx pi m = Some (pinfo', mm')" "fills ks rs r (image_range rest) m mm'"
      "\<forall>v b. unat v < 2 ^ 39 \<longrightarrow> image_byte buf rest (unat v) = Some b \<longrightarrow> ubyte mm' r v = Some b"
      "card (free_bytes m) \<le> card (free_bytes mm') + image_need rest" by blast
    have run: "load_segments e buf ph (i # idx) pinfo mm = Some (pinfo', mm')"
      using at(1) m(1) L(1) True by (simp add: loadable_def pi_def)
    have F: "fills ks rs r (image_range segs) mm mm'"
      using fills_trans [OF m(2) L(2)] True by (simp add: segs image_range_def)
    have B: "ubyte mm' r v = Some b" if v: "unat v < 2 ^ 39" "image_byte buf segs (unat v) = Some b" for v b
    proof (cases "image_byte buf rest (unat v)")
      case (Some c)
      then show ?thesis using L(3) v by (simp add: segs)
    next
      case None
      define j where "j = unat v - unat (es_virtualAddress sg)"
      have j: "unat (es_virtualAddress sg) \<le> unat v" "j < unat (es_virtualSize sg)" "b = segment_bytes buf sg ! j"
        using v(2) None by (auto simp: segs j_def split: if_splits)
      have "length (segment_bytes buf sg) = unat (es_virtualSize sg)" by (rule segment_length [OF sok])
      moreover have "es_virtualAddress sg + of_nat j = v" using j(1) by (simp add: j_def of_nat_diff)
      ultimately have "ubyte m r v = Some b" using m(3) j(2,3) unfolding holds_def by metis
      moreover have "\<not> same_byte a v" if a: "a \<in> image_range rest" for a
      proof -
        obtain t where t: "t \<in> set (filter loadable rest)" "a \<in> segment_range t" using a by (auto simp: image_range_def)
        have "segment_ok buf t" using restok t(1) by (simp add: list_all_iff)
        then have "unat a < 2 ^ 39" using segment_rangeD [OF t(2)] by blast
        moreover have "a \<noteq> v" using image_byte_None [OF restok None] a by blast
        ultimately show ?thesis using same_byte_user [OF _ v(1)] by blast
      qed
      ultimately show ?thesis using L(2) unfolding fills_def by blast
    qed
    have "card (free_bytes mm) \<le> card (free_bytes mm') + image_need segs"
      using m(4) L(4) True by (simp add: segs image_need_def)
    then show ?thesis using run F B by blast
  qed
qed

end
