(* ===== verification/ElfProps.thy ===== *)
theory ElfProps
  imports ElfLoad
begin

text \<open>
  A loaded program is ready to run. The stack is contiguous memory under the addresses of the program; what is pushed onto it
  is a list of bytes that grows at the front, and every pointer that is pushed is the address of its part of the list.
\<close>

section \<open>The pages of the stack\<close>

lemma map_stack_maps:
  assumes "mm_ok m ks rs" and "r \<in> set rs" and "root_of m e = r"
    and "\<forall>i \<in> set is. page_ok m (p + page_offset i) \<and> \<not> is_free m (p + page_offset i) \<and> p + page_offset i \<notin> set (owned m ks rs)"
    and "inj_on (\<lambda>i. p + page_offset i) (set is)" and "distinct is"
    and "\<forall>i \<in> set is. walk m 3 r (stackBase + page_offset i) = None"
    and "\<forall>i \<in> set is. \<forall>j \<in> set is. i \<noteq> j \<longrightarrow> \<not> same_page 3 (stackBase + page_offset i) (stackBase + page_offset j)"
    and "2 * 4096 * length is \<le> card (free_bytes m)"
  shows "\<exists>m'. map_stack e (KernelToPhysPtr m p) is m = Some m' \<and> mm_ok m' ks rs \<and> keeps_contents rs m m' \<and>
    g_HighMemBase m' = g_HighMemBase m \<and> free_bytes m' \<subseteq> free_bytes m \<and>
    (\<forall>i \<in> set is. walk m' 3 r (stackBase + page_offset i) = Some (p + page_offset i)) \<and>
    (\<forall>s \<in> set rs. \<forall>w. \<not> (s = r \<and> (\<exists>i \<in> set is. same_page 3 (stackBase + page_offset i) w)) \<longrightarrow> walk m' 3 s w = walk m 3 s w)"
  using assms
proof (induction "is" arbitrary: m)
  case (Cons i "is")
  let ?V = "\<lambda>i. stackBase + page_offset i" and ?F = "\<lambda>i. p + page_offset i"
  note ok = Cons.prems(1) and r = Cons.prems(2) and root = Cons.prems(3)
  have none: "walk m 3 r (?V i) = None" and f: "page_ok m (?F i)" "\<not> is_free m (?F i)" "?F i \<notin> set (owned m ks rs)"
    using Cons.prems(4,7) by simp_all
  obtain a new where a: "MapProcessPage_phys e (KernelToPhysPtr m (?F i)) (?V i) m = Some a" "maps m a 3 r (?V i) (?F i) new []"
    using MapProcessPage_phys_maps [OF ok _ _ f(1), of e "?V i"] root r none Cons.prems(9) by auto
  note A = maps_keeps [OF ok r a(2) none f]
  have st: "set (owned a ks rs) = insert (?F i) (set (owned m ks rs) \<union> set new)"
    using arg_cong [OF A(6), of set_mset] by simp
  have fb: "free_bytes a \<subseteq> free_bytes m" using a(2) by (auto simp: maps_def)
  have ph: "KernelToPhysPtr m (?F i) = KernelToPhysPtr m p + page_offset i" "KernelToPhysPtr a p = KernelToPhysPtr m p" "root_of a e = r"
    using A(8) root by (simp_all add: KernelToPhysPtr_def root_of_def PhysToKernelPtr_def)
  have pr: "\<forall>j \<in> set is. page_ok a (?F j) \<and> \<not> is_free a (?F j) \<and> ?F j \<notin> set (owned a ks rs)"
  proof
    fix j assume j: "j \<in> set is"
    then have "?F j \<noteq> ?F i" using Cons.prems(5,6) by (auto simp: inj_on_def)
    moreover have g: "page_ok m (?F j)" "\<not> is_free m (?F j)" "?F j \<notin> set (owned m ks rs)" using Cons.prems(4) j by simp_all
    moreover have "?F j \<notin> set new" using A(10) g(2) by blast
    ultimately show "page_ok a (?F j) \<and> \<not> is_free a (?F j) \<and> ?F j \<notin> set (owned a ks rs)" using A(9) st by blast
  qed
  have ap: "\<not> same_page 3 (?V i) (?V j)" "\<not> same_page 3 (?V j) (?V i)" if "j \<in> set is" for j using Cons.prems(6,8) that by auto
  have wn: "\<forall>j \<in> set is. walk a 3 r (?V j) = None" using A(3) r ap(1) Cons.prems(7) by simp
  obtain m' where m': "map_stack e (KernelToPhysPtr a p) is a = Some m'" "mm_ok m' ks rs" "keeps_contents rs a m'"
    "g_HighMemBase m' = g_HighMemBase a" "free_bytes m' \<subseteq> free_bytes a" "\<forall>i \<in> set is. walk m' 3 r (?V i) = Some (?F i)"
    "\<forall>s \<in> set rs. \<forall>w. \<not> (s = r \<and> (\<exists>i \<in> set is. same_page 3 (?V i) w)) \<longrightarrow> walk m' 3 s w = walk a 3 s w"
    using Cons.IH [OF A(1) r ph(3) pr _ _ wn] Cons.prems(5,6,8,9) A(7) by (auto simp: inj_on_def)
  have "map_stack e (KernelToPhysPtr m p) (i # is) m = Some m'" using a(1) m'(1) by (simp add: ph)
  moreover have "walk m' 3 r (?V i) = Some (?F i)" using m'(7) A(3) r ap(2) by (simp add: same_page_def)
  moreover have "walk m' 3 s w = walk m 3 s w" if "s \<in> set rs" "\<not> (s = r \<and> (\<exists>i \<in> set (i # is). same_page 3 (?V i) w))" for s w
    using m'(7) A(3) that by auto
  ultimately show ?case using m'(2-6) A(8) fb keeps_contents_trans [OF A(2) m'(3)] by auto
qed (auto simp: keeps_contents_def)

lemma page_byte_words: "page_words m' p = page_words m p \<Longrightarrow> j < 4096 \<Longrightarrow> page_byte m' p j = page_byte m p j"
proof -
  assume w: "page_words m' p = page_words m p" and j: "j < 4096"
  have "page_words m' p ! (j div 8) = page_words m p ! (j div 8)" by (simp only: w)
  moreover have "j div 8 < 512" using j by simp
  ultimately have "read_entry m' p (of_nat (j div 8)) = read_entry m p (of_nat (j div 8))" by (simp add: page_words_def)
  then show ?thesis by (simp only: page_byte_def)
qed

lemma keeps_ubyte: "keeps_contents rs m m' \<Longrightarrow> s \<in> set rs \<Longrightarrow> ubyte m s w \<noteq> None \<Longrightarrow> ubyte m' s w = ubyte m s w"
proof -
  assume k: "keeps_contents rs m m'" and s: "s \<in> set rs" and u: "ubyte m s w \<noteq> None"
  obtain g where g: "walk m 3 s w = Some g" using u by (auto simp: ubyte_None)
  then have h: "walk m' 3 s w = Some g" "page_words m' g = page_words m g"
    using k [unfolded keeps_contents_def, rule_format, OF s, of w] by (auto simp: contents_at_def)
  show ?thesis using page_byte_words [OF h(2) low12_less [of w]] by (simp add: ubyte_def g h(1))
qed

lemma stack_addr: "y < 65536 \<Longrightarrow> unat (stackBase + of_nat y) = 0x1000 + y"
  by (simp add: stackBase_def unat_word_ariths unat_of_nat)

lemma user_same_page:
  assumes "unat v < 2 ^ 39" and "unat w < 2 ^ 39"
  shows "same_page 3 v w \<longleftrightarrow> unat v div 4096 = unat w div 4096"
proof -
  have "same_page 3 v w \<longleftrightarrow> same_byte (v AND 0xFFFFFFFFFFFFF000) (w AND 0xFFFFFFFFFFFFF000)"
    by (simp add: same_byte_def same_page_def page_index and.assoc)
  also have "\<dots> \<longleftrightarrow> v AND 0xFFFFFFFFFFFFF000 = w AND 0xFFFFFFFFFFFFF000"
  proof (rule same_byte_user)
    show "unat (v AND 0xFFFFFFFFFFFFF000) < 2 ^ 39" unfolding page_unat using assms(1) div_times_less_eq_dividend [of "unat v" 4096] by linarith
    show "unat (w AND 0xFFFFFFFFFFFFF000) < 2 ^ 39" unfolding page_unat using assms(2) div_times_less_eq_dividend [of "unat w" 4096] by linarith
  qed
  also have "\<dots> \<longleftrightarrow> unat v div 4096 = unat w div 4096" unfolding word_unat_eq_iff page_unat by simp
  finally show ?thesis .
qed

text \<open>The stack of the program is the contiguous memory from \<open>p\<close> on.\<close>

definition stack_at :: "mm \<Rightarrow> ptr \<Rightarrow> ptr \<Rightarrow> bool" where
  "stack_at m r p \<longleftrightarrow> (\<forall>y < 65536. walk m 3 r (stackBase + of_nat y) = Some (p + page_offset (y div 4096)))"

lemma stack_offset: "y < 65536 \<Longrightarrow> page_offset (y div 4096) = of_nat (4096 * (y div 4096))"
proof -
  assume y: "y < 65536"
  have "4096 * (y div 4096) \<le> y" by simp
  then have "4096 * (y div 4096) < 2 ^ 64" using y by simp
  then have "unat (of_nat (4096 * (y div 4096)) :: u64) = 4096 * (y div 4096)" by (simp only: unat_of_nat) simp
  moreover have "y div 4096 < 2 ^ 19" using y by simp
  ultimately show ?thesis unfolding word_unat_eq_iff using unat_page_offset [of "y div 4096"] by simp
qed

lemma stack_page:
  assumes "y < 65536"
  shows "same_page 3 (stackBase + page_offset (y div 4096)) (stackBase + of_nat y)"
proof -
  have "page_offset (y div 4096) = of_nat (4096 * (y div 4096))" by (rule stack_offset [OF assms])
  moreover have "4096 * (y div 4096) \<le> y" by simp
  ultimately show ?thesis using assms stack_addr [of y] stack_addr [of "4096 * (y div 4096)"]
    by (simp add: user_same_page)
qed

lemma stack_atI:
  "\<forall>i \<in> set [0..<16]. walk m 3 r (stackBase + page_offset i) = Some (p + page_offset i) \<Longrightarrow> stack_at m r p"
  unfolding stack_at_def using walk_same_page [OF stack_page] by (auto simp: less_mult_imp_div_less)

lemma stack_pointer:
  assumes "y < 65536"
  shows "p + of_nat y = p + page_offset (y div 4096) + ((stackBase + of_nat y) AND 0xFFF)"
proof -
  have m: "(0xFFF :: u64) = mask 12" by (simp add: mask_numeral)
  have "unat ((stackBase + of_nat y) AND 0xFFF) = y mod 4096"
    unfolding m take_bit_eq_mask [symmetric] unat_take_bit stack_addr [OF assms] by simp
  then have "(stackBase + of_nat y) AND 0xFFF = of_nat (y mod 4096)" using assms by (simp add: word_unat_eq_iff unat_of_nat)
  moreover have "page_offset (y div 4096) = of_nat (4096 * (y div 4096))" by (rule stack_offset [OF assms])
  moreover have "of_nat (4096 * (y div 4096)) + of_nat (y mod 4096) = (of_nat y :: u64)"
    unfolding of_nat_add [symmetric] by (simp only: mult_div_mod_eq)
  ultimately show ?thesis by (simp only: add.assoc)
qed

lemma store_at_stack:
  assumes "mm_ok m ks rs" and "r \<in> set rs" and "stack_at m r p" and "x + length bs \<le> 65536"
  shows "mm_ok (store_at (p + of_nat x) bs m) ks rs \<and> stack_at (store_at (p + of_nat x) bs m) r p \<and>
    fills ks rs r (range_of (stackBase + of_nat x) (length bs)) m (store_at (p + of_nat x) bs m) \<and>
    holds (store_at (p + of_nat x) bs m) r (stackBase + of_nat x) bs"
  using assms
proof (induction bs arbitrary: x m)
  case Nil
  then show ?case by (simp add: fills_refl holds_def)
next
  case (Cons b bs)
  note ok = Cons.prems(1) and r = Cons.prems(2)
  have x: "x < 65536" using Cons.prems(4) by simp
  define v where "v = stackBase + of_nat x"
  define m1 where "m1 = store8 (p + of_nat x) b m"
  have w: "walk m 3 r v = Some (p + page_offset (x div 4096))" using Cons.prems(3) x by (simp add: stack_at_def v_def)
  have e: "m1 = store8 (p + page_offset (x div 4096) + (v AND 0xFFF)) b m" unfolding m1_def v_def stack_pointer [OF x, of p] ..
  note S = store8_user [OF ok r w e]
  have f1: "fills ks rs r {v} m m1" by (rule store8_fills [OF ok r w e]) simp
  have st: "stack_at m1 r p" using Cons.prems(3) S(2) r by (simp add: stack_at_def)
  define m' where "m' = store_at (p + of_nat (Suc x)) bs m1"
  have v1: "stackBase + of_nat (Suc x) = v + 1" by (simp add: v_def)
  have ih: "mm_ok m' ks rs" "stack_at m' r p" "fills ks rs r (range_of (v + 1) (length bs)) m1 m'" "holds m' r (v + 1) bs"
    using Cons.IH [OF S(1) r st, of "Suc x"] Cons.prems(4) unfolding v1 by (simp_all add: m'_def)
  have uv: "unat v = 0x1000 + x" using stack_addr [OF x] by (simp add: v_def)
  have "ubyte m1 r v = Some b" using S(4) r by (simp add: same_byte_def same_page_def)
  then have "ubyte m' r v = Some b" by (rule fills_next [OF ih(3)]) (use uv Cons.prems(4) in simp)
  then have "holds m' r v (b # bs)" using ih(4) by (simp add: holds_Cons)
  moreover have "fills ks rs r (range_of v (length (b # bs))) m m'" using fills_trans [OF f1 ih(3)] by (simp add: range_of_Suc)
  moreover have "store_at (p + of_nat x) (b # bs) m = m'" by (simp add: m'_def m1_def add.assoc add.commute [of 1])
  ultimately show ?case using ih(1,2) unfolding v_def by simp
qed

section \<open>Pushing\<close>

text \<open>The stack holds the bytes \<open>L\<close>, at its upper end; \<open>m0\<close> is the memory before.\<close>

definition stack_holds :: "ptr list \<Rightarrow> ptr list \<Rightarrow> ptr \<Rightarrow> ptr \<Rightarrow> mm \<Rightarrow> u8 list \<Rightarrow> stack_state \<Rightarrow> bool" where
  "stack_holds ks rs r p m0 L st \<longleftrightarrow>
     (case st of (vs, sz, m) \<Rightarrow> length L \<le> 65536 \<and> vs = p + of_nat (65536 - length L) \<and> mm_ok m ks rs \<and> stack_at m r p \<and>
        holds m r (stackBase + of_nat (65536 - length L)) L \<and> fills ks rs r (range_of stackBase 65536) m0 m)"

lemma fills_mono: "fills ks rs r A m m' \<Longrightarrow> A \<subseteq> B \<Longrightarrow> fills ks rs r B m m'"
  unfolding fills_def by (meson subsetD)

lemma stack_range: "x + n \<le> 65536 \<Longrightarrow> range_of (stackBase + of_nat x) n \<subseteq> range_of stackBase 65536"
proof
  fix v assume x: "x + n \<le> 65536" and "v \<in> range_of (stackBase + of_nat x) n"
  then obtain j where j: "v = stackBase + of_nat x + of_nat j" "j < n" by (auto simp: range_of_def)
  then have "v = stackBase + of_nat (x + j)" by simp
  then show "v \<in> range_of stackBase 65536" using x j(2) unfolding range_of_def by (intro image_eqI [of _ _ "x + j"]) simp_all
qed

lemma push_block_holds:
  assumes S: "stack_holds ks rs r p m0 L st" and r: "r \<in> set rs" and len: "length bs + length L \<le> 65536"
  shows "stack_holds ks rs r p m0 (bs @ L) (push_block bs st)" and "fst (snd (push_block bs st)) = fst (snd st) + of_nat (length bs)"
proof -
  obtain vs sz m where st: "st = (vs, sz, m)" by (cases st)
  define x where "x = 65536 - length (bs @ L)"
  have y: "65536 - length L = x + length bs" using len by (simp add: x_def)
  have S': "vs = p + of_nat (x + length bs)" "mm_ok m ks rs" "stack_at m r p" "holds m r (stackBase + of_nat (x + length bs)) L"
    "fills ks rs r (range_of stackBase 65536) m0 m" using S y by (simp_all add: stack_holds_def st)
  have vs: "vs - of_nat (length bs) = p + of_nat x" by (simp add: S'(1))
  define m' where "m' = store_at (p + of_nat x) bs m"
  have xl: "x + length bs \<le> 65536" "x + length bs + length L = 65536" using len by (simp_all add: x_def)
  note T = store_at_stack [OF S'(2) r S'(3) xl(1), folded m'_def]
  have "holds m' r (stackBase + of_nat (x + length bs)) L"
  proof (cases "L = []")
    case False
    then have xb: "x + length bs < 65536" using xl(2) by (cases L) simp_all
    show ?thesis
    proof (rule fills_holds [OF _ S'(4)])
      show "fills ks rs r (range_of (stackBase + of_nat x) (length bs)) m m'" using T by blast
      show "unat (stackBase + of_nat (x + length bs)) + length L \<le> 2 ^ 39" using stack_addr [OF xb] xl(2) by simp
      show "\<forall>u \<in> range_of (stackBase + of_nat x) (length bs). unat u < 2 ^ 39 \<and>
        (unat u < unat (stackBase + of_nat (x + length bs)) \<or> unat (stackBase + of_nat (x + length bs)) + length L \<le> unat u)"
      proof
        fix u assume "u \<in> range_of (stackBase + of_nat x) (length bs)"
        then obtain j where j: "u = stackBase + of_nat (x + j)" "j < length bs" by (auto simp: range_of_def add.assoc)
        then have "unat u = 0x1000 + (x + j)" using stack_addr [of "x + j"] xb by simp
        then show "unat u < 2 ^ 39 \<and>
          (unat u < unat (stackBase + of_nat (x + length bs)) \<or> unat (stackBase + of_nat (x + length bs)) + length L \<le> unat u)"
          using stack_addr [OF xb] j(2) xb by simp
      qed
    qed
  qed (simp add: holds_def)
  then have "holds m' r (stackBase + of_nat x) (bs @ L)" using T by (simp add: holds_append add.assoc)
  moreover have "fills ks rs r (range_of stackBase 65536) m0 m'"
    using fills_trans [OF S'(5)] T fills_mono [OF _ stack_range [OF xl(1)]] by (metis Un_absorb)
  ultimately show "stack_holds ks rs r p m0 (bs @ L) (push_block bs st)"
    using T xl(2) by (simp add: stack_holds_def push_block_def st vs m'_def x_def)
  show "fst (snd (push_block bs st)) = fst (snd st) + of_nat (length bs)" by (simp add: push_block_def st)
qed

text \<open>The bytes \<open>bs\<close> are a part of the stack, at the address \<open>a\<close>.\<close>

definition points :: "u8 list \<Rightarrow> u64 \<Rightarrow> u8 list \<Rightarrow> bool" where
  "points L a bs \<longleftrightarrow> (\<exists>pre post. L = pre @ bs @ post \<and> a = stackBase + of_nat (65536 - length (bs @ post)))"

lemma points_prepend: "points L a bs \<Longrightarrow> points (xs @ L) a bs"
  unfolding points_def by (metis append.assoc)

lemma points_here: "a = stackBase + of_nat (65536 - length (bs @ L)) \<Longrightarrow> points (bs @ L) a bs"
  unfolding points_def by (metis append_Nil)

lemma points_holds:
  assumes "holds m r (stackBase + of_nat (65536 - length L)) L" and "length L \<le> 65536" and "points L a bs"
  shows "holds m r a bs"
proof -
  obtain pre post where L: "L = pre @ bs @ post" "a = stackBase + of_nat (65536 - length (bs @ post))" using assms(3) by (auto simp: points_def)
  then have "65536 - length (bs @ post) = 65536 - length L + length pre" using assms(2) by simp
  then have "a = stackBase + of_nat (65536 - length L) + of_nat (length pre)" using L(2) by (simp add: add.assoc)
  then show ?thesis using assms(1) L(1) by (simp add: holds_append)
qed

abbreviation terminated :: "u8 list \<Rightarrow> u8 list" where
  "terminated s \<equiv> s @ [0]"

text \<open>The address of what was pushed last, computed from the number of bytes.\<close>

definition at_top :: "u64 \<Rightarrow> u8 list \<Rightarrow> stack_state \<Rightarrow> bool" where
  "at_top stackTop L st \<longleftrightarrow> stackTop - fst (snd st) = stackBase + of_nat (65536 - length L)"

lemma push_block_top:
  assumes "at_top stackTop L st" and "stack_holds ks rs r p m0 L st" and "r \<in> set rs" and "length bs + length L \<le> 65536"
  shows "at_top stackTop (bs @ L) (push_block bs st)"
proof -
  have "65536 - length L = 65536 - length (bs @ L) + length bs" using assms(4) by simp
  then have "stackBase + of_nat (65536 - length L) = stackBase + of_nat (65536 - length (bs @ L)) + of_nat (length bs)"
    by (simp only: of_nat_add add.assoc)
  moreover have "stackTop - fst (snd (push_block bs st)) = stackTop - fst (snd st) - of_nat (length bs)"
    by (simp only: push_block_holds(2) [OF assms(2-4)] diff_diff_eq)
  ultimately show ?thesis using assms(1) unfolding at_top_def by (simp only: add_diff_cancel_right')
qed

lemma push_strings_holds:
  assumes "stack_holds ks rs r p m0 L st" and "r \<in> set rs" and "at_top stackTop L st"
    and "length (concat (rev (map terminated xs))) + length L \<le> 65536" and "push_strings stackTop xs st = (ps, st')"
  shows "stack_holds ks rs r p m0 (concat (rev (map terminated xs)) @ L) st' \<and> at_top stackTop (concat (rev (map terminated xs)) @ L) st' \<and>
    length ps = length xs \<and> (\<forall>i < length xs. points (concat (rev (map terminated xs)) @ L) (ps ! i) (terminated (xs ! i)))"
  using assms
proof (induction xs arbitrary: L st ps)
  case (Cons x xs)
  define s1 where "s1 = push_block (terminated x) st"
  have len: "length (terminated x) + length L \<le> 65536" "length (concat (rev (map terminated xs))) + length (terminated x @ L) \<le> 65536"
    using Cons.prems(4) by simp_all
  have S: "stack_holds ks rs r p m0 (terminated x @ L) s1" using push_block_holds(1) [OF Cons.prems(1,2) len(1)] by (simp only: s1_def)
  have T: "at_top stackTop (terminated x @ L) s1" using push_block_top [OF Cons.prems(3,1,2) len(1)] by (simp only: s1_def)
  obtain qs where qs: "push_strings stackTop xs s1 = (qs, st')" "ps = (stackTop - fst (snd s1)) # qs"
    using Cons.prems(5) by (auto simp: s1_def Let_def split: prod.splits)
  note IH = Cons.IH [OF S Cons.prems(2) T len(2) qs(1)]
  have "points (terminated x @ L) (stackTop - fst (snd s1)) (terminated x)"
    by (rule points_here) (use T in \<open>simp add: at_top_def\<close>)
  then have first: "points (concat (rev (map terminated xs)) @ terminated x @ L) (stackTop - fst (snd s1)) (terminated x)" by (rule points_prepend)
  have e: "concat (rev (map terminated (x # xs))) @ L = concat (rev (map terminated xs)) @ terminated x @ L" by simp
  have "points (concat (rev (map terminated xs)) @ terminated x @ L) (ps ! i) (terminated ((x # xs) ! i))" if "i < length (x # xs)" for i
    using first IH that by (cases i) (simp_all add: qs(2))
  then show ?case using IH unfolding e by (simp add: qs(2))
qed simp

lemma push_words_holds:
  assumes "stack_holds ks rs r p m0 L st" and "r \<in> set rs" and "at_top stackTop L st" and "length (concat (map bytes64 (rev ps))) + length L \<le> 65536"
  shows "stack_holds ks rs r p m0 (concat (map bytes64 (rev ps)) @ L) (push_words ps st) \<and>
    at_top stackTop (concat (map bytes64 (rev ps)) @ L) (push_words ps st)"
  using assms
proof (induction ps arbitrary: L st)
  case (Cons q ps)
  have len: "length (bytes64 q) + length L \<le> 65536" "length (concat (map bytes64 (rev ps))) + length (bytes64 q @ L) \<le> 65536"
    using Cons.prems(4) by simp_all
  have S: "stack_holds ks rs r p m0 (bytes64 q @ L) (push_block (bytes64 q) st)" by (rule push_block_holds(1) [OF Cons.prems(1,2) len(1)])
  have T: "at_top stackTop (bytes64 q @ L) (push_block (bytes64 q) st)" by (rule push_block_top [OF Cons.prems(3,1,2) len(1)])
  have "concat (map bytes64 (rev (q # ps))) @ L = concat (map bytes64 (rev ps)) @ bytes64 q @ L" by simp
  moreover have "push_words (q # ps) st = push_words ps (push_block (bytes64 q) st)" by (simp add: push_words_def)
  ultimately show ?case using Cons.IH [OF S Cons.prems(2) T len(2)] by (simp only:)
qed (simp add: push_words_def)

text \<open>The bytes that the arguments and the environment need on the stack, with their pointers.\<close>

definition stack_need :: "u8 list list \<Rightarrow> u8 list list \<Rightarrow> nat" where
  "stack_need argv env = 48 + sum_list (map (\<lambda>s. length s + 9) (argv @ env))"

lemma bytes64_length [simp]: "length (bytes64 x) = 8"
  by (simp add: bytes64_def)

lemma words_length: "length (concat (map bytes64 ps)) = 8 * length ps"
  by (induction ps) simp_all

lemma strings_length: "length (concat (map terminated xs)) + 8 * length xs = sum_list (map (\<lambda>s. length s + 9) xs)"
  by (induction xs) simp_all

text \<open>The strings \<open>xs\<close> and then the pointers to them.\<close>

definition string_table :: "u64 list \<Rightarrow> u8 list list \<Rightarrow> u8 list \<Rightarrow> u8 list" where
  "string_table ps xs L = concat (map bytes64 (rev ps)) @ concat (rev (map terminated xs)) @ L"

lemma push_list_holds:
  assumes S: "stack_holds ks rs r p m0 L st" and r: "r \<in> set rs" and A: "at_top stackTop L st"
    and size: "sum_list (map (\<lambda>s. length s + 9) xs) + length L \<le> 65536" and run: "push_strings stackTop xs st = (ps, st')"
  shows "stack_holds ks rs r p m0 (string_table ps xs L) (push_words ps st')" and "at_top stackTop (string_table ps xs L) (push_words ps st')"
    and "length ps = length xs" and "\<forall>i < length xs. points (string_table ps xs L) (ps ! i) (terminated (xs ! i))"
    and "length (string_table ps xs L) = sum_list (map (\<lambda>s. length s + 9) xs) + length L"
proof -
  define L1 where "L1 = concat (rev (map terminated xs)) @ L"
  have l: "length (concat (rev (map terminated xs))) + 8 * length xs = sum_list (map (\<lambda>s. length s + 9) xs)"
    using strings_length [of "rev xs"] by (simp add: rev_map sum_list_rev flip: rev_map)
  have P: "stack_holds ks rs r p m0 L1 st'" "at_top stackTop L1 st'" "length ps = length xs"
    "\<forall>i < length xs. points L1 (ps ! i) (terminated (xs ! i))"
    using push_strings_holds [OF S r A _ run] l size unfolding L1_def by simp_all
  have len: "length (concat (map bytes64 (rev ps))) + length L1 = sum_list (map (\<lambda>s. length s + 9) xs) + length L"
    unfolding words_length L1_def length_append length_rev P(3) using l by simp
  show "length ps = length xs" by (rule P(3))
  show "stack_holds ks rs r p m0 (string_table ps xs L) (push_words ps st')" "at_top stackTop (string_table ps xs L) (push_words ps st')"
    using push_words_holds [OF P(1) r P(2), of ps] len size unfolding L1_def string_table_def by simp_all
  show "\<forall>i < length xs. points (string_table ps xs L) (ps ! i) (terminated (xs ! i))"
    using P(4) points_prepend unfolding string_table_def L1_def by blast
  show "length (string_table ps xs L) = sum_list (map (\<lambda>s. length s + 9) xs) + length L" using len unfolding string_table_def L1_def by simp
qed

lemma prepare_stack_holds:
  assumes ok: "mm_ok m ks rs" and r: "r \<in> set rs" and st: "stack_at m r p" and size: "stack_need argv env \<le> 65536"
    and run: "prepare_stack pinfo argv env (p + 65536) m = (sp, m')"
  shows "\<exists>ua a b. length ua = length argv \<and> fills ks rs r (range_of stackBase 65536) m m' \<and>
    holds m' r sp (info_bytes (pinfo \<lparr> pi_argc := length argv, pi_argv := a, pi_env := b \<rparr>)) \<and> holds m' r a (concat (map bytes64 ua)) \<and>
    (\<forall>i < length argv. holds m' r (ua ! i) (terminated (argv ! i))) \<and> holds m' r b (bytes64 0)"
proof -
  define T where "T = stackBase + 16 * 4096"
  have T: "T = stackBase + of_nat 65536" by (simp add: T_def)
  have S0: "stack_holds ks rs r p m [] (p + 65536, 0, m)" using ok st fills_refl [OF ok] by (simp add: stack_holds_def holds_def)
  have A0: "at_top T [] (p + 65536, 0, m)" by (simp add: at_top_def T)
  have n: "sum_list (map (\<lambda>s. length s + 9) (rev argv)) = sum_list (map (\<lambda>s. length s + 9) argv)" by (simp add: sum_list_rev flip: rev_map)
  have need: "48 + sum_list (map (\<lambda>s. length s + 9) env) + sum_list (map (\<lambda>s. length s + 9) (rev argv)) \<le> 65536"
    using size unfolding n by (simp add: stack_need_def)
  obtain ps s1 where s1: "push_strings T (rev argv) (p + 65536, 0, m) = (ps, s1)" by (rule prod.exhaust)
  obtain vs2 argSize m2 where s2: "push_words ps s1 = (vs2, argSize, m2)" by (metis prod_cases3)
  define L2 where "L2 = string_table ps (rev argv) []"
  have P2: "stack_holds ks rs r p m L2 (vs2, argSize, m2)" "at_top T L2 (vs2, argSize, m2)" "length ps = length argv"
    "\<forall>i < length (rev argv). points L2 (ps ! i) (terminated (rev argv ! i))" "length L2 = sum_list (map (\<lambda>s. length s + 9) (rev argv))"
    using push_list_holds [OF S0 r A0 _ s1] need unfolding s2 L2_def by simp_all
  have S2: "stack_holds ks rs r p m L2 (vs2, 0, m2)" using P2(1) by (simp only: stack_holds_def prod.case)
  have A2: "at_top (T - argSize) L2 (vs2, 0, m2)" using P2(2) by (simp add: at_top_def)
  obtain es s3 where s3: "push_strings (T - argSize) env (vs2, 0, m2) = (es, s3)" by (rule prod.exhaust)
  define L4 where "L4 = string_table es env L2"
  have P4: "stack_holds ks rs r p m L4 (push_words es s3)" "at_top (T - argSize) L4 (push_words es s3)"
    "length L4 = sum_list (map (\<lambda>s. length s + 9) env) + length L2"
    using push_list_holds [OF S2 r A2 _ s3] need P2(5) unfolding L4_def by simp_all
  obtain vs5 envSize m5 where s5: "push_block (bytes64 0) (push_words es s3) = (vs5, envSize, m5)" by (metis prod_cases3)
  define L5 where "L5 = bytes64 0 @ L4"
  have P5: "stack_holds ks rs r p m L5 (vs5, envSize, m5)" "at_top (T - argSize) L5 (vs5, envSize, m5)"
    using push_block_holds(1) [OF P4(1) r, of "bytes64 0"] push_block_top [OF P4(2,1) r, of "bytes64 0"] need P2(5) P4(3) unfolding s5 L5_def by simp_all
  define i where "i = pinfo \<lparr> pi_argc := length argv, pi_argv := T - argSize, pi_env := T - argSize - envSize \<rparr>"
  have li: "length (info_bytes i) = 40" by (simp add: info_bytes_def)
  define L6 where "L6 = info_bytes i @ L5"
  have len6: "length L6 \<le> 65536" using need P2(5) P4(3) by (simp add: L6_def L5_def li)
  have "(T - argSize - envSize - 40, store_at (vs5 - 40) (info_bytes i) m5) = (sp, m')"
    using run unfolding prepare_stack_def Let_def T_def [symmetric] s1 prod.case s2 s3 s5 i_def [symmetric] .
  then have m': "m' = store_at (vs5 - 40) (info_bytes i) m5" and sp: "sp = T - argSize - envSize - 40" by simp_all
  have "push_block (info_bytes i) (vs5, envSize, m5) = (vs5 - 40, envSize + 40, m')" by (simp add: push_block_def li m')
  then have P6: "stack_holds ks rs r p m L6 (vs5 - 40, envSize + 40, m')" "at_top (T - argSize) L6 (vs5 - 40, envSize + 40, m')"
    using push_block_holds(1) [OF P5(1) r, of "info_bytes i"] push_block_top [OF P5(2,1) r, of "info_bytes i"] len6 unfolding L6_def by simp_all
  have H: "holds m' r (stackBase + of_nat (65536 - length L6)) L6" "fills ks rs r (range_of stackBase 65536) m m'"
    using P6(1) unfolding stack_holds_def prod.case by blast+
  note held = points_holds [OF H(1) len6]
  have "points L6 sp (info_bytes i)" unfolding L6_def
    by (rule points_here) (use P6(2) sp in \<open>simp add: at_top_def L6_def diff_diff_eq add.assoc\<close>)
  moreover have "points L6 (T - argSize - envSize) (bytes64 0)" unfolding L6_def
    by (rule points_prepend, unfold L5_def, rule points_here) (use P5(2) in \<open>simp add: at_top_def L5_def\<close>)
  moreover have up: "points L6 a bs" if "points L2 a bs" for a bs
    using that unfolding L6_def L5_def L4_def string_table_def by (intro points_prepend)
  have "points L2 (T - argSize) (concat (map bytes64 (rev ps)))" unfolding L2_def string_table_def
    by (rule points_here) (use P2(2) in \<open>simp add: at_top_def L2_def string_table_def\<close>)
  moreover have "points L2 (rev ps ! j) (terminated (argv ! j))" if j: "j < length argv" for j
    using P2(4) [rule_format, of "length argv - Suc j"] j P2(3) by (simp add: rev_nth)
  ultimately show ?thesis using held up H(2) P2(3) unfolding i_def by (intro exI [of _ "rev ps"] exI [of _ "T - argSize"] exI [of _ "T - argSize - envSize"]) simp
qed

section \<open>The whole handler\<close>

text \<open>Of \<open>16 * (k + 1)\<close> free pages in a row \<open>k\<close> may be taken, and there are still 16 in a row.\<close>

lemma free_run:
  assumes a: "granular A" "finite A" and b: "granular B" "B \<subseteq> A" and cd: "card A \<le> card B + 4096 * k"
    and q: "aligned q" "seg_ok q (n * 4096)" "seg q (n * 4096) \<subseteq> A" and n: "unat n = 16 * (k + 1)" "unat n * 4096 < 2 ^ 64"
  shows "\<exists>q'. seg_ok q' 65536 \<and> seg q' 65536 \<subseteq> B"
proof (rule ccontr)
  assume no: "\<nexists>q'. seg_ok q' 65536 \<and> seg q' 65536 \<subseteq> B"
  define start where "start j = unat q + 65536 * j" for j
  have un: "unat (n * 4096) = 65536 * (k + 1)" using n by (simp add: unat_word_ariths)
  have "\<exists>x. x \<in> {start j ..< start j + 65536} \<and> x \<notin> B" if j: "j \<le> k" for j
  proof -
    have "65536 * j + 65536 \<le> 65536 * (k + 1)" using j by simp
    then have fit: "start j + 65536 \<le> 2 ^ 64" using q(2) un unfolding seg_ok_def start_def by linarith
    then have "start j < 2 ^ 64" by simp
    then have u: "unat (of_nat (start j) :: u64) = start j" by (simp only: unat_of_nat) simp
    have "0 < start j" using q(2) by (auto simp: seg_ok_def start_def unat_gt_0)
    then have "seg_ok (of_nat (start j)) 65536" using u fit by (auto simp: seg_ok_def word_unat_eq_iff)
    then have "\<not> seg (of_nat (start j)) 65536 \<subseteq> B" using no by blast
    then show ?thesis using u by (auto simp: seg_def)
  qed
  then obtain x where x: "\<And>j. j \<le> k \<Longrightarrow> x j \<in> {start j ..< start j + 65536} \<and> x j \<notin> B" by metis
  define P where "P j = {x j div 4096 * 4096 ..< x j div 4096 * 4096 + 4096}" for j
  have P: "y \<in> P j \<longleftrightarrow> y div 4096 = x j div 4096" for y j unfolding P_def atLeastLessThan_iff by linarith
  have PA: "P j \<subseteq> A - B" if j: "j \<le> k" for j
  proof -
    have "65536 * j + 65536 \<le> 65536 * (k + 1)" using j by simp
    then have "x j \<in> seg q (n * 4096)" using x [OF j] un unfolding seg_def start_def by auto
    then have "x j \<in> A" using q(3) by blast
    then show ?thesis using granularD [OF a(1)] granularD [OF b(1)] P x [OF j] by (metis DiffI subsetI)
  qed
  obtain t where t: "unat q = 4096 * t" using q(1) by (auto simp: aligned_iff)
  have blk: "(x j div 4096 - t) div 16 = j" if j: "j \<le> k" for j
  proof -
    have "4096 * (t + 16 * j) \<le> x j" "x j < 4096 * (t + 16 * j + 16)" using x [OF j] by (simp_all add: start_def t)
    then have "t + 16 * j \<le> x j div 4096" "x j div 4096 < t + 16 * j + 16" by (simp_all add: less_eq_div_iff_mult_less_eq div_less_iff_less_mult mult.commute)
    then have "16 * j \<le> x j div 4096 - t" "x j div 4096 - t < 16 * Suc j" by (simp_all add: le_diff_conv2 less_diff_conv2)
    then show ?thesis by (intro div_nat_eqI) simp_all
  qed
  have "P i \<inter> P j = {}" if "i \<le> k" "j \<le> k" "i \<noteq> j" for i j
  proof -
    have "x i div 4096 \<noteq> x j div 4096" using blk that by metis
    then show ?thesis using P by (metis disjoint_iff)
  qed
  then have "card (\<Union>j \<in> {..k}. P j) = (\<Sum>j \<in> {..k}. card (P j))"
    by (intro card_UN_disjoint) (simp_all add: P_def)
  also have "\<dots> = 4096 * (k + 1)" by (simp add: P_def)
  finally have "4096 * (k + 1) \<le> card (A - B)"
    using card_mono [of "A - B" "\<Union>j \<in> {..k}. P j"] PA a(2) by auto
  moreover have "card (A - B) = card A - card B" using b(2) a(2) by (intro card_Diff_subset) (auto intro: finite_subset)
  ultimately show False using cd by simp
qed

lemma stack_setup:
  assumes ok: "mm_ok m ks rs" and r: "r \<in> set rs" and e: "root_of m e = r" and q: "seg_ok q 65536" "seg q 65536 \<subseteq> free_bytes m"
    and none: "\<forall>i < 16. walk m 3 r (stackBase + page_offset i) = None" and some: "3 * 65536 \<le> card (free_bytes m)"
  shows "\<exists>p a m'. AllocatePages 16 m = Some (KernelToPhysPtr m p, a) \<and> map_stack e (KernelToPhysPtr m p) [0..<16] a = Some m' \<and>
    fills ks rs r (range_of stackBase 65536) m m' \<and> stack_at m' r p"
proof -
  have inv: "alloc_inv m" using ok by (simp add: mm_ok_def)
  obtain p fl where p: "AllocatePages 16 m = Some (KernelToPhysPtr m p, m \<lparr> mm_FreeList := fl \<rparr>)" "aligned p" "seg_ok p (16 * 4096)"
    "seg p (16 * 4096) \<subseteq> free_bytes m" "alloc_inv (m \<lparr> mm_FreeList := fl \<rparr>)" "fl_avail fl = free_bytes m - seg p (16 * 4096)"
    using allocate_many [OF inv, of 16 q] q by auto
  define a where "a = m \<lparr> mm_FreeList := fl \<rparr>"
  have n16: "unat (16 :: u64) = 16" by simp
  have oka: "mm_ok a ks rs" "keeps_contents rs m a" using mm_ok_free [OF ok p(5), folded a_def] p(6) by auto
  have N: "\<forall>i \<in> set [0..<16]. page_ok a (p + page_offset i) \<and> \<not> is_free a (p + page_offset i) \<and> p + page_offset i \<notin> set (owned a ks rs)"
    "inj_on (\<lambda>i. p + page_offset i) (set [0..<16])" "card (free_bytes a) = card (free_bytes m) - 16 * 4096"
    using new_frames [OF ok p(2-4) _ a_def p(6)] unfolding n16 by simp_all
  have V: "unat (stackBase + page_offset i) = 0x1000 + 4096 * i" if "i < 16" for i
    using that by (simp add: stackBase_def unat_word_ariths unat_page_offset)
  have Vr: "stackBase + page_offset i \<in> range_of stackBase 65536" if "i < 16" for i
  proof -
    have "stackBase + page_offset i = stackBase + of_nat (4096 * i)" using stack_offset [of "4096 * i"] that by simp
    then show ?thesis using that unfolding range_of_def by (intro image_eqI [of _ _ "4096 * i"]) simp_all
  qed
  have apart: "\<forall>i \<in> set [0..<16]. \<forall>j \<in> set [0..<16]. i \<noteq> j \<longrightarrow> \<not> same_page 3 (stackBase + page_offset i) (stackBase + page_offset j)"
    by (simp add: user_same_page V)
  have wa: "walk a = walk m" by (simp add: a_def tables_free)
  have ea: "root_of a e = r" "KernelToPhysPtr a p = KernelToPhysPtr m p" using e by (simp_all add: a_def root_of_def PhysToKernelPtr_def KernelToPhysPtr_def)
  have wn: "\<forall>i \<in> set [0..<16]. walk a 3 r (stackBase + page_offset i) = None" using none by (simp add: wa)
  have cd: "2 * 4096 * length [0..<16] \<le> card (free_bytes a)" using some N(3) by simp
  obtain m' where m': "map_stack e (KernelToPhysPtr a p) [0..<16] a = Some m'" "mm_ok m' ks rs" "keeps_contents rs a m'"
    "g_HighMemBase m' = g_HighMemBase a" "free_bytes m' \<subseteq> free_bytes a" "\<forall>i \<in> set [0..<16]. walk m' 3 r (stackBase + page_offset i) = Some (p + page_offset i)"
    "\<forall>s \<in> set rs. \<forall>w. \<not> (s = r \<and> (\<exists>i \<in> set [0..<16]. same_page 3 (stackBase + page_offset i) w)) \<longrightarrow> walk m' 3 s w = walk a 3 s w"
    using map_stack_maps [OF oka(1) r ea(1) N(1,2) distinct_upt wn apart cd] by blast
  have k: "keeps_contents rs m m'" by (rule keeps_contents_trans [OF oka(2) m'(3)])
  have other: "ubyte m' s = ubyte m s" if s: "s \<in> set rs" "s \<noteq> r" for s
  proof
    fix w show "ubyte m' s w = ubyte m s w"
    proof (cases "ubyte m s w")
      case None
      then have "ubyte m' s w = None" using m'(7) s wa by (simp add: ubyte_None)
      then show ?thesis using None by simp
    qed (use keeps_ubyte [OF k s(1), of w] in simp)
  qed
  have out: "ubyte m' r w = None" if "ubyte m r w = None" "\<forall>a \<in> range_of stackBase 65536. \<not> same_page 3 a w" for w
    using m'(7) r that Vr wa by (auto simp: ubyte_None)
  have fb: "free_bytes m' \<subseteq> free_bytes m" "g_HighMemBase m' = g_HighMemBase m" using m'(4,5) p(6) by (auto simp: a_def)
  have "fills ks rs r (range_of stackBase 65536) m m'"
    unfolding fills_def using m'(2) fb other out keeps_ubyte [OF k r] by auto
  then show ?thesis using p(1) [folded a_def] m'(1) [unfolded ea(2)] stack_atI [OF m'(6)] by blast
qed

lemma image_need_multiple: "image_need segs mod 4096 = 0"
proof -
  have "4096 dvd sum_list (map segment_need xs)" for xs by (induction xs) (simp_all add: segment_need_def)
  then show ?thesis by (simp add: image_need_def mod_eq_0_iff_dvd)
qed

lemma image_byte_range:
  "list_all (segment_ok buf) (filter loadable segs) \<Longrightarrow> image_byte buf segs (unat v) = Some b \<Longrightarrow> v \<in> image_range segs"
proof (induction segs)
  case (Cons sg segs)
  show ?case
  proof (cases "image_byte buf segs (unat v)")
    case None
    then have sg: "loadable sg" "unat (es_virtualAddress sg) \<le> unat v" "unat v < unat (es_virtualAddress sg) + unat (es_virtualSize sg)"
      using Cons.prems(2) by (auto split: if_splits)
    have "v = es_virtualAddress sg + of_nat (unat v - unat (es_virtualAddress sg))" using sg(2) by (simp add: of_nat_diff)
    then have "v \<in> segment_range sg" unfolding segment_range_def range_of_def using sg(2,3)
      by (intro image_eqI [of _ _ "unat v - unat (es_virtualAddress sg)"]) auto
    then show ?thesis using sg(1) by (auto simp: image_range_def)
  qed (use Cons in \<open>auto simp: image_range_def split: if_splits\<close>)
qed simp

lemma image_byte_bound:
  "list_all (segment_ok buf) (filter loadable segs) \<Longrightarrow> image_byte buf segs v = Some b \<Longrightarrow> v < 2 ^ 39"
  by (induction segs) (auto simp: segment_ok_def split: option.splits if_splits)

text \<open>A program file, its entry point and its segments, which leave room for the stack.\<close>

definition program :: "u8 list \<Rightarrow> u64 \<Rightarrow> ElfSegmentHeader list \<Rightarrow> bool" where
  "program buf entry segs \<longleftrightarrow> magic_ok buf = Some True \<and> elf_field buf 24 8 = Some entry \<and>
     (\<exists>ph cnt. elf_field buf 32 8 = Some ph \<and> elf_field buf 56 2 = Some cnt \<and>
        map (\<lambda>s. segment_at buf (unat ph + 56 * s)) [0..<unat cnt] = map Some segs) \<and>
     list_all (\<lambda>sg. segment_ok buf sg \<and> 0x11000 \<le> unat (es_virtualAddress sg)) (filter loadable segs)"

lemma program_segments: "program buf entry segs \<Longrightarrow> list_all (segment_ok buf) (filter loadable segs)"
  by (auto simp: program_def list_all_iff)

lemma image_far:
  assumes "program buf entry segs" and "a \<in> image_range segs"
  shows "0x11000 \<le> unat a \<and> unat a < 2 ^ 39"
proof -
  obtain sg where sg: "sg \<in> set (filter loadable segs)" "a \<in> segment_range sg" using assms(2) by (auto simp: image_range_def)
  then have "segment_ok buf sg" "0x11000 \<le> unat (es_virtualAddress sg)" using assms(1) by (auto simp: program_def list_all_iff)
  then show ?thesis using segment_rangeD [OF sg(2)] by force
qed

lemma image_stack_page:
  assumes "program buf entry segs" and i: "i < 16" and a: "a \<in> image_range segs"
  shows "\<not> same_page 3 a (stackBase + page_offset i)"
proof -
  have u: "unat (stackBase + page_offset i) = 0x1000 + 4096 * i" using i by (simp add: stackBase_def unat_word_ariths unat_page_offset)
  have "0x11 \<le> unat a div 4096" "(0x1000 + 4096 * i) div 4096 < 0x11" using image_far [OF assms(1) a] i by auto
  then show ?thesis using image_far [OF assms(1) a] i by (simp add: user_same_page u)
qed

lemma image_stack_byte:
  assumes P: "program buf entry segs" and c: "image_byte buf segs (unat v) = Some c" and w: "w \<in> range_of stackBase 65536"
  shows "\<not> same_byte w v"
proof -
  have "0x11000 \<le> unat v" using image_far [OF P image_byte_range [OF program_segments [OF P] c]] by blast
  moreover obtain j where j: "w = stackBase + of_nat j" "j < 65536" using w by (auto simp: range_of_def)
  then have "unat w = 0x1000 + j" using stack_addr by simp
  ultimately show ?thesis using same_byte_user [of w v] image_byte_bound [OF program_segments [OF P] c] j(2) by auto
qed

text \<open>A list of strings at an address: pointers to terminated strings.\<close>

definition holds_strings :: "mm \<Rightarrow> ptr \<Rightarrow> u64 \<Rightarrow> u8 list list \<Rightarrow> bool" where
  "holds_strings mm r a xs \<longleftrightarrow>
     (\<exists>ps. length ps = length xs \<and> holds mm r a (concat (map bytes64 ps)) \<and> (\<forall>i < length xs. holds mm r (ps ! i) (terminated (xs ! i))))"

text \<open>
  C6: Loading a program makes it ready to run. In the new address space every byte of the program lies at its address: the bytes of
  the file's segments, zeros behind them up to their size in memory, and the later one where two segments overlap. The
  thread starts at the entry point, and its first argument and its stack pointer are the address of the structure that
  describes the program; the structure gives the number of the arguments and an array of pointers to them. The list of
  the environment starts with a null pointer. No other address space changes its contents, and the pages in use
  stay distinct. The file has to be complete, and there has to be memory.
\<close>

theorem CheckAndPrepare_starts_program:
  assumes ok: "mm_ok mm ks rs" and r: "root_of mm e = r" "r \<in> set rs" and empty: "\<forall>v. walk mm 3 r v = None"
    and elf: "program buf entry segs" and size: "stack_need argv env \<le> 65536"
    and q: "aligned q" "seg_ok q (n * 4096)" "seg q (n * 4096) \<subseteq> free_bytes mm" "unat n = 16 * (image_need segs div 4096 + 1)" "unat n * 4096 < 2 ^ 64"
    and some: "image_need segs + 3 * 65536 \<le> card (free_bytes mm)"
  shows "\<exists>regs mm' i. CheckAndPrepare buf e argv env regs0 mm = Some (True, regs, mm') \<and> mm_ok mm' ks rs \<and>
    (\<forall>v b. image_byte buf segs (unat v) = Some b \<longrightarrow> ubyte mm' r v = Some b) \<and>
    rip regs = entry \<and> rdi regs = userrsp regs \<and> holds mm' r (userrsp regs) (info_bytes i) \<and>
    pi_argc i = length argv \<and> holds_strings mm' r (pi_argv i) argv \<and> holds mm' r (pi_env i) (bytes64 0) \<and>
    (\<forall>s \<in> set rs. s \<noteq> r \<longrightarrow> ubyte mm' s = ubyte mm s)"
proof -
  obtain ph cnt where f: "magic_ok buf = Some True" "elf_field buf 24 8 = Some entry" "elf_field buf 32 8 = Some ph" "elf_field buf 56 2 = Some cnt"
    "map (\<lambda>s. segment_at buf (unat ph + 56 * s)) [0..<unat cnt] = map Some segs"
    using elf by (auto simp: program_def)
  note sok = program_segments [OF elf]
  have "image_need segs \<le> card (free_bytes mm)" using some by simp
  then obtain pinfo m where m: "load_segments e buf (unat ph) [0..<unat cnt] new_info mm = Some (pinfo, m)" "fills ks rs r (image_range segs) mm m"
    "\<forall>v b. unat v < 2 ^ 39 \<longrightarrow> image_byte buf segs (unat v) = Some b \<longrightarrow> ubyte m r v = Some b"
    "card (free_bytes mm) \<le> card (free_bytes m) + image_need segs"
    using load_segments_fills [OF ok r(2,1) sok f(5), of new_info] by blast
  have okm: "mm_ok m ks rs" "root_of m e = r" "free_bytes m \<subseteq> free_bytes mm"
    using m(2) r(1) by (simp_all add: fills_def root_of_def PhysToKernelPtr_def)
  have gr: "granular (free_bytes mm)" "finite (free_bytes mm)" "granular (free_bytes m)"
    using ok okm(1) avail_bytes by (simp_all add: mm_ok_def alloc_inv_def)
  have "4096 * (image_need segs div 4096) = image_need segs" using mult_div_mod_eq [of 4096 "image_need segs"] by (simp only: image_need_multiple)
  then obtain q' where q': "seg_ok q' 65536" "seg q' 65536 \<subseteq> free_bytes m"
    using free_run [OF gr(1,2,3) okm(3) _ q] m(4) by auto
  have none: "\<forall>i < 16. walk m 3 r (stackBase + page_offset i) = None"
    using m(2) empty image_stack_page [OF elf] unfolding fills_def by (simp add: ubyte_None)
  obtain p a m2 where s: "AllocatePages 16 m = Some (KernelToPhysPtr m p, a)" "map_stack e (KernelToPhysPtr m p) [0..<16] a = Some m2"
    "fills ks rs r (range_of stackBase 65536) m m2" "stack_at m2 r p"
    using stack_setup [OF okm(1) r(2) okm(2) q' none] m(4) some by auto
  have vs: "PhysToKernelPtr m2 (KernelToPhysPtr m p) = p" using s(3) by (simp add: fills_def PhysToKernelPtr_def KernelToPhysPtr_def)
  have ok2: "mm_ok m2 ks rs" using s(3) by (simp add: fills_def)
  obtain sp m3 where p3: "prepare_stack pinfo argv env (p + 65536) m2 = (sp, m3)" by (rule prod.exhaust)
  obtain ua a b where t: "length ua = length argv" "fills ks rs r (range_of stackBase 65536) m2 m3"
    "holds m3 r sp (info_bytes (pinfo \<lparr> pi_argc := length argv, pi_argv := a, pi_env := b \<rparr>))" "holds m3 r a (concat (map bytes64 ua))"
    "\<forall>i < length argv. holds m3 r (ua ! i) (terminated (argv ! i))" "holds m3 r b (bytes64 0)"
    using prepare_stack_holds [OF ok2 r(2) s(4) size p3] by blast
  define regs where "regs = new_registers \<lparr> cs := UserCode, ds := UserData, ss := UserData, rflags := 0x200, rip := entry, userrsp := sp, rdi := sp \<rparr>"
  have run: "CheckAndPrepare buf e argv env regs0 mm = Some (True, regs, m3)"
    using f(1-4) m(1) s(1,2) p3 vs by (simp add: CheckAndPrepare_def regs_def)
  have F: "fills ks rs r (range_of stackBase 65536) m m3" using fills_trans [OF s(3) t(2)] by simp
  have img: "ubyte m3 r v = Some c" if c: "image_byte buf segs (unat v) = Some c" for v c
    using F m(3) image_byte_bound [OF sok c] c image_stack_byte [OF elf c] unfolding fills_def by blast
  have "holds_strings m3 r a argv" unfolding holds_strings_def using t(1,4,5) by blast
  moreover have "mm_ok m3 ks rs" "\<forall>s \<in> set rs. s \<noteq> r \<longrightarrow> ubyte m3 s = ubyte mm s" using F m(2) by (simp_all add: fills_def)
  ultimately show ?thesis using run img t(3,6)
    by (intro exI [of _ regs] exI [of _ m3] exI [of _ "pinfo \<lparr> pi_argc := length argv, pi_argv := a, pi_env := b \<rparr>"]) (simp add: regs_def)
qed

section \<open>A small program\<close>

text \<open>An empty address space, 256 free pages, and a program of two bytes with a third one behind them.\<close>

definition demo_space :: mm where
  "demo_space = \<lparr> mm_FreeList = Init FreeList_new [(0x200000, 256)], g_HighMemBase = 0x100000, g_KernelPages = 0, g_KernelVPages = 0,
     g_CorePageTables = 0x104000, qwords = (\<lambda>a. 0) \<rparr>"

definition demo_elf :: "u8 list" where
  "demo_elf = [0x7F, 0x45, 0x4C, 0x46] @ replicate 20 0 @ bytes64 0x20000 @ bytes64 64 @ replicate 16 0 @ [1, 0] @ replicate 6 0 @
     [1, 0, 0, 0, 5, 0, 0, 0] @ bytes64 120 @ bytes64 0x20000 @ bytes64 0 @ bytes64 2 @ bytes64 3 @ bytes64 0 @ [0xB8, 0x2A]"

definition demo_segment :: ElfSegmentHeader where
  "demo_segment = \<lparr> es_type = 1, es_dataOffset = 120, es_virtualAddress = 0x20000, es_dataSize = 2, es_virtualSize = 3 \<rparr>"

lemma demo_space_free: "fl_inv (mm_FreeList demo_space)" "free_bytes demo_space = seg 0x200000 0x100000"
  using Init_inv [of "[(0x200000, 256)]"] by (simp_all add: demo_space_def map_ok_def map_bytes_def seg_ok_def)

lemma demo_space_empty: "pages demo_space 3 0x105000 = [0x105000]" "walk demo_space 3 0x105000 v = None"
proof -
  have e: "\<forall>i < 512. child demo_space 0x105000 i = None" by (simp add: child_def read_entry_def demo_space_def PML_GET_P_def)
  show "pages demo_space 3 0x105000 = [0x105000]" "walk demo_space 3 0x105000 v = None"
    using empty_table [OF e, of 2] by (simp_all add: numeral_3_eq_3 numeral_2_eq_2)
qed

lemma demo_space_ok: "mm_ok demo_space [0x104000] [0x105000]"
proof -
  have h: "g_HighMemBase demo_space = 0x100000" by (simp add: demo_space_def)
  have in_seg: "x \<in> seg 0x200000 0x100000 \<longleftrightarrow> x div 4096 \<in> {0x200..<0x300}" for x by (auto simp: seg_def)
  have g: "granular (free_bytes demo_space)" unfolding granular_def demo_space_free(2) in_seg by metis
  have "page_ok demo_space p" if "aligned p" "is_free demo_space p" for p
  proof -
    have p: "0x200000 \<le> unat p" "unat p < 0x300000" using that(2) by (simp_all add: demo_space_free(2) seg_def)
    then have "unat (p - 0x100000) = unat p - 0x100000" by (simp add: unat_sub word_le_nat_alt)
    then show ?thesis using p that(1) by (auto simp: page_ok_def h)
  qed
  then have "alloc_inv demo_space" unfolding alloc_inv_def using g demo_space_free(1) by (simp add: h aligned_def)
  moreover have "owned demo_space [0x104000] [0x105000] = [0x104000, 0x105000]" by (simp add: owned_def demo_space_empty)
  ultimately show ?thesis unfolding mm_ok_def by (simp add: page_ok_def h aligned_def demo_space_free(2) seg_def)
qed

lemma demo_program: "program demo_elf 0x20000 [demo_segment]"
proof -
  have f: "magic_ok demo_elf = Some True" "elf_field demo_elf 24 8 = Some 0x20000" "elf_field demo_elf 32 8 = Some 64" "elf_field demo_elf 56 2 = Some 1"
    "segment_at demo_elf 64 = Some demo_segment" "length demo_elf = 122" by code_simp+
  have "segment_ok demo_elf demo_segment" by (simp add: segment_ok_def demo_segment_def f(6))
  then show ?thesis unfolding program_def using f(1-5) by (auto simp: demo_segment_def)
qed

theorem CheckAndPrepare_starts_program_witness:
  "\<exists>regs mm' i. CheckAndPrepare demo_elf 0x5007 [[0x6C, 0x73]] [] new_registers demo_space = Some (True, regs, mm') \<and> rip regs = 0x20000 \<and>
    ubyte mm' 0x105000 0x20001 = Some 0x2A \<and> ubyte mm' 0x105000 0x20002 = Some 0 \<and> holds_strings mm' 0x105000 (pi_argv (i :: ELFProgramInfo)) [[0x6C, 0x73]]"
proof -
  have r: "root_of demo_space 0x5007 = 0x105000" "0x105000 \<in> set [0x105000 :: ptr]"
    by (simp_all add: root_of_def PhysToKernelPtr_def PML_GET_ADDR_def demo_space_def)
  have nd: "image_need [demo_segment] = 12288"
    by (simp add: image_need_def loadable_def demo_segment_def PT_LOAD_def segment_need_def need_def)
  have q: "aligned 0x200000" "seg_ok 0x200000 (64 * 4096)" "seg 0x200000 (64 * 4096) \<subseteq> free_bytes demo_space"
    "unat (64 :: u64) = 16 * (image_need [demo_segment] div 4096 + 1)" "unat (64 :: u64) * 4096 < 2 ^ 64"
    by (simp_all add: aligned_def seg_ok_def demo_space_free(2) seg_def nd)
  have some: "image_need [demo_segment] + 3 * 65536 \<le> card (free_bytes demo_space)" by (simp add: nd demo_space_free(2) seg_def)
  have size: "stack_need [[0x6C, 0x73]] [] \<le> 65536" by (simp add: stack_need_def)
  have sb: "segment_bytes demo_elf demo_segment = [0xB8, 0x2A, 0]" by code_simp
  have b: "image_byte demo_elf [demo_segment] (unat (0x20001 :: u64)) = Some 0x2A" "image_byte demo_elf [demo_segment] (unat (0x20002 :: u64)) = Some 0"
    by (simp_all add: sb loadable_def PT_LOAD_def) (simp_all add: demo_segment_def)
  obtain regs mm' i where m: "CheckAndPrepare demo_elf 0x5007 [[0x6C, 0x73]] [] new_registers demo_space = Some (True, regs, mm')"
    "\<forall>v b. image_byte demo_elf [demo_segment] (unat v) = Some b \<longrightarrow> ubyte mm' 0x105000 v = Some b" "rip regs = 0x20000"
    "holds_strings mm' 0x105000 (pi_argv (i :: ELFProgramInfo)) [[0x6C, 0x73]]"
    using CheckAndPrepare_starts_program [OF demo_space_ok r allI [OF demo_space_empty(2)] demo_program size q some, of new_registers] by blast
  then show ?thesis using m(2) [rule_format, OF b(1)] m(2) [rule_format, OF b(2)] by blast
qed

end
