(* ===== verification/Spec2Isabelle.thy ===== *)
theory Spec2Isabelle
  imports LibcHeap CTime Stdio Byteswap Containers Errno KErrno FdTable SchedulerProps Locks TempFS PipeFS KernelHeapProps Ext2Props ElfProps
begin

text \<open>
  A verification development for ChenixOS, a 64-bit operating system in C and C++: a kernel
  (\<^verbatim>\<open>src/kernel/Kernel\<close>), its boot loader, and a C library (\<^verbatim>\<open>src/libs/libc\<close>) for user programs.

  \<^bold>\<open>The program and how its parts interact.\<close> The boot loader passes a map of physical memory to the kernel's memory
  manager, which keeps the free pages in a free list and builds the four-level page tables of the kernel and of the
  processes. On top of it the scheduler keeps threads in intrusive lists, switches between them on
  timer ticks, and gives each process a table of file descriptors. A descriptor of that table refers to a descriptor
  of the virtual file system (VFS), which normalises paths, finds the mount point, walks directories, checks
  permissions and calls the mounted file system through virtual functions; TempFS, PipeFS and ext2 are such file
  systems, and ext2 reaches its block device through a cache of blocks. Kernel structures live in a heap whose pages
  the memory manager maps. Spin locks and queue locks protect the shared state.
  User programs call the kernel through the C library, whose heap takes pages from the kernel and whose streams
  buffer the read and write calls.

  \<^bold>\<open>Which theory models which part\<close> (paths below \<^verbatim>\<open>src/kernel/Kernel\<close> for the kernel, \<^verbatim>\<open>src/libs/libc\<close> for the C
  library; a definition has the name of the function it translates unless that name is taken):

  \<^item> \<open>Prelude\<close>: names of the machine integers, shared lemmas on lists and addresses.
  \<^item> \<open>AnchorList\<close> (\<^verbatim>\<open>klib/AnchorList.h\<close>): the intrusive doubly linked list, as pointer maps. The representation predicate
    relates it to a HOL list; the locale \<open>node_list\<close> is its interface. The later theories use HOL lists of
    addresses for anchored lists on that ground.
  \<^item> \<open>SegmentStore\<close>: the interface \<open>free_store\<close> of a store of free memory segments, with its two instances
    \<open>FreeList\<close> (\<^verbatim>\<open>klib/FreeList.h\<close>, used by the page allocator and the kernel heap) and \<open>LibcFreeList\<close> (\<^verbatim>\<open>internal/FreeList.h\<close>).
  \<^item> \<open>Paging\<close>, \<open>PagingProps\<close>, \<open>PagingSpaces\<close>, \<open>PagingFork\<close> (\<^verbatim>\<open>memory/MemoryManager.cpp\<close>): the page allocator and the
    page tables, as 64-bit words in physical memory that a page walk reads. A process address space translates what
    was mapped and nothing else changes, unmapping removes exactly one page, a fork copies every page to fresh
    memory, and releasing an address space gives back all of its pages.
  \<^item> \<open>KernelHeap\<close>, \<open>KernelHeapProps\<close> (\<^verbatim>\<open>memory/KernelHeap.cpp\<close>, \<^verbatim>\<open>memory/kmalloc.cpp\<close>, \<^verbatim>\<open>klib/new.cpp\<close>): the heap of the kernel, on top of
    the free list, the page allocator and the kernel's page tables, through which its block headers are written and
    read. A block that is handed out is mapped, large enough and apart from all others; releasing it makes exactly its
    bytes free.
  \<^item> \<open>Scheduler\<close>, \<open>SchedulerProps\<close> (\<^verbatim>\<open>task/Thread.h\<close>, \<^verbatim>\<open>task/Scheduler.cpp\<close>): thread structures in a heap, the operations on them
    and the timer tick. Over all runs no list or waiting thread refers to a deleted structure; the choice of the next
    thread is fair; blocked threads wake up on their events.
  \<^item> \<open>Elf\<close>, \<open>ElfLoad\<close>, \<open>ElfProps\<close> (\<^verbatim>\<open>exec/elf/ELF.cpp\<close>, \<^verbatim>\<open>exec/ExecHandler.cpp\<close>): the loader of programs, on top of the page tables. A program
    file becomes the contents of an address space, byte for byte, with its arguments on a new stack.
  \<^item> \<open>FdTable\<close> (\<^verbatim>\<open>task/Thread.h\<close>, \<^verbatim>\<open>task/Scheduler.cpp\<close>): file descriptor tables; least free numbers, reference accounting.
  \<^item> \<open>Locks\<close> (\<^verbatim>\<open>multicore/\<close>): atomic counters, spin and queue locks as step relations of interleaved threads; mutual
    exclusion.
  \<^item> \<open>Path\<close>, \<open>Directory\<close>, \<open>Vfs\<close> (\<^verbatim>\<open>fs/VFS.cpp\<close>, \<^verbatim>\<open>fs/Directory.cpp\<close>, \<^verbatim>\<open>fs/FileSystem.cpp\<close>): paths, directories and all operations of the VFS.
    \<open>VfsRefs\<close> and \<open>VfsProps\<close> account for every reference an operation takes and gives back, on each of its paths, and
    lift that to runs; permissions are enforced when a file is opened.
  \<^item> \<open>UserMem\<close> (\<^verbatim>\<open>klib/memory.cpp\<close>): copies to and from user memory that stop at a hole.
  \<^item> \<open>TempFS\<close>, \<open>PipeFS\<close> (\<^verbatim>\<open>fs/tempfs\<close>, \<^verbatim>\<open>fs/pipefs\<close>): the memory file system, which is the instance of the interface
    \<open>file_system\<close>, and pipes, which refine a bounded queue.
  \<^item> \<open>BlockCache\<close> (\<^verbatim>\<open>devices/DeviceDriver.cpp\<close>): block devices behind their cache refine an array of bytes.
  \<^item> \<open>Ext2\<close>, \<open>Ext2Props\<close> (\<^verbatim>\<open>fs/ext2\<close>): the ext2 driver on top of the block cache, a second instance of \<open>file_system\<close>. Its
    structures are the bytes on the device; reading a file gives the bytes of its direct and indirect blocks, and
    reading a directory decodes its entries.
  \<^item> \<open>Containers\<close>, \<open>KErrno\<close> (\<^verbatim>\<open>include/stl\<close>, \<^verbatim>\<open>klib/errno.h\<close>): vectors, tables, ring and string buffers; error codes.
  \<^item> \<open>CMem\<close>, \<open>CString\<close>, \<open>Stdlib\<close>, \<open>Printf\<close>, \<open>Stdio\<close>, \<open>LibcHeap\<close>, \<open>CTime\<close>, \<open>Errno\<close>, \<open>Byteswap\<close>: the C library, as functions on a
    byte memory: strings and blocks, numbers and environment, formatted output, streams, the heap, calendar time,
    error texts and byte order.

  \<^bold>\<open>Conventions.\<close> Words are kept at their width, and every operation on them wraps as in the code; natural numbers
  stand for sizes and addresses only where a theory's opening text says why no wrap-around occurs. A pointer is a
  64-bit word and 0 is \<^verbatim>\<open>nullptr\<close>. An error code is the left side of a sum. \<open>None\<close> is an access to memory
  that is not there, or a loop that does not return: loops whose end depends on the data are partial functions
  into \<open>option\<close>, so a theorem that has \<open>Some\<close> in its conclusion says that the code returns. There is no fuel; total
  functions have termination proofs.

  \<^bold>\<open>What the theorems assume.\<close>
  \<^item> Free segments keep their list nodes in the free memory itself; the model keeps the node fields in maps of their
    own, which is sound as long as nobody writes to free memory.
  \<^item> Operations of the scheduler, the VFS, the page tables and the block cache each run as one step, on one core; the locks
    that make this so are the subject of \<open>Locks\<close>. Pipe transfers are split into the rounds between which the code
    yields.
  \<^item> A mounted file system and a device driver are arguments of the VFS model (\<open>fs_ops\<close>). What the VFS needs of
    them is the locale \<open>file_system\<close>; TempFS and ext2 satisfy it. The device behind the block cache is an
    argument with the hypothesis that it stores blocks. The system calls behind the C library's streams and heap are
    arguments likewise.

  \<^bold>\<open>Not modelled.\<close> Third-party code (ACPICA, gnu-efi, the VMware SVGA library) and hardware access (interrupt
  controllers, PCI, disk controllers, keyboard, processor start-up) have effects only outside the program's own state;
  the boot loader runs on EFI services. In the scheduler the assembly of context
  switches is left out, and of the execution of a program the system call that reads the file and its arguments. Floating-point mathematics of the C library, the terminal and
  the user programs are left out, as are the device and process file systems, which only print kernel state. The manifest lists each part with its reason.
\<close>

end
